(* ===== verification/Junction_Prelude.thy ===== *)
theory Junction_Prelude imports
  Complex_Main
  "HOL-Library.AList"
  "HOL-Library.Char_ord"
  "HOL-Library.List_Lexorder"
  "HOL-Library.Product_Lexorder"
begin

section \<open>Shared vocabulary: Python strings, dictionaries and lists\<close>

text \<open>
  What the components share. A Python \<^verbatim>\<open>str\<close> is a \<^typ>\<open>string\<close>, each character read
  as the code point of the same number, so the texts represented are those over U+0000 to
  U+00FF; where a component measures or truncates text that holds other code points, it uses
  \<open>codepoints\<close>, a list of them. A Python \<^verbatim>\<open>dict\<close> is an association list in
  insertion order: writing an existing key keeps its place, a new key goes last, which is what
  \<^const>\<open>AList.update\<close> computes. Clock readings are rationals (\<open>secs\<close>): the rounding of
  floating-point arithmetic is not modelled.
\<close>

type_synonym secs = rat
type_synonym codepoints = "nat list"
type_synonym ('k, 'v) dict = "('k \<times> 'v) list"

named_theorems dict_simps \<open>lookups after dictionary writes\<close>
named_theorems str_simps \<open>string operations on literals\<close>

subsection \<open>Dictionaries\<close>

abbreviation dict_get :: "('k, 'v) dict \<Rightarrow> 'k \<Rightarrow> 'v option" where
  "dict_get \<equiv> map_of"

abbreviation dict_set :: "'k \<Rightarrow> 'v \<Rightarrow> ('k, 'v) dict \<Rightarrow> ('k, 'v) dict" where
  "dict_set \<equiv> AList.update"

abbreviation dict_pop :: "'k \<Rightarrow> ('k, 'v) dict \<Rightarrow> ('k, 'v) dict" where
  "dict_pop \<equiv> AList.delete"

abbreviation dict_keys :: "('k, 'v) dict \<Rightarrow> 'k list" where
  "dict_keys \<equiv> map fst"

abbreviation dict_ok :: "('k, 'v) dict \<Rightarrow> bool" where
  "dict_ok d \<equiv> distinct (map fst d)"

lemma dict_get_set [dict_simps]:
  "dict_get (dict_set k v d) k' = (if k' = k then Some v else dict_get d k')"
  by (simp add: update_conv')

lemma dict_get_pop [dict_simps]:
  "dict_get (dict_pop k d) k' = (if k' = k then None else dict_get d k')"
  by (simp add: delete_conv')

lemma dict_ok_set [simp, intro]: "dict_ok d \<Longrightarrow> dict_ok (dict_set k v d)"
  by (rule distinct_update)

lemma dict_ok_pop [simp, intro]: "dict_ok d \<Longrightarrow> dict_ok (dict_pop k d)"
  by (rule distinct_delete)

lemma dict_ok_filter [simp, intro]: "dict_ok d \<Longrightarrow> dict_ok (filter P d)"
  by (induction d) auto

lemma dict_set_present:
  "k \<in> set (dict_keys d) \<Longrightarrow> length (dict_set k v d) = length d"
  by (induction d) auto

lemma dict_set_new [simp]:
  "k \<notin> set (dict_keys d) \<Longrightarrow> dict_set k v d = d @ [(k, v)]"
  by (induction d) auto

lemma dict_set_length_le: "length (dict_set k v d) \<le> Suc (length d)"
  by (induction d) auto

lemma dict_keys_set:
  "dict_keys (dict_set k v d) = (if k \<in> set (dict_keys d) then dict_keys d else dict_keys d @ [k])"
  by (induction d) auto

lemma dict_pop_length_le: "length (dict_pop k d) \<le> length d"
  by (rule length_delete_le)

lemma dict_pop_present:
  "dict_ok d \<Longrightarrow> k \<in> set (dict_keys d) \<Longrightarrow> length (dict_pop k d) = length d - 1"
proof (induction d)
  case (Cons p d)
  then show ?case
  proof (cases "fst p = k")
    case True
    with Cons.prems have "k \<notin> set (dict_keys d)" by auto
    then have "dict_pop k d = d" by simp
    with True show ?thesis by (cases p) simp
  next
    case False
    with Cons have "length (dict_pop k d) = length d - 1" "d \<noteq> []" by auto
    with False show ?thesis by (cases p; cases d) auto
  qed
qed simp

lemma set_dict_set:
  "set (dict_set k v d) \<subseteq> insert (k, v) (set d)"
  by (induction d) auto

lemma set_dict_pop: "set (dict_pop k d) \<subseteq> set d"
  by (auto simp: AList.delete_eq)

lemma dict_get_in: "dict_get d k = Some v \<Longrightarrow> (k, v) \<in> set d"
  by (rule map_of_SomeD)

lemma dict_get_filter_value:
  "dict_ok d \<Longrightarrow> dict_get (filter (\<lambda>p. P (snd p)) d) k =
     (case dict_get d k of Some v \<Rightarrow> (if P v then Some v else None) | None \<Rightarrow> None)"
  by (induction d) (auto split: option.splits simp: map_of_eq_None_iff dest!: map_of_SomeD intro: rev_image_eqI)

lemma dict_get_filter_key:
  "dict_get (filter (\<lambda>p. P (fst p)) d) k = (if P k then dict_get d k else None)"
  by (induction d) auto

subsection \<open>A keyed store, as its clients see it\<close>

text \<open>
  Many components keep one record per key and only ever read it back, overwrite it or drop it.
  This is the contract they rely on; the dictionary operations discharge it below.
\<close>

locale keyed_store =
  fixes look :: "'s \<Rightarrow> 'k \<Rightarrow> 'v option"
    and put :: "'k \<Rightarrow> 'v \<Rightarrow> 's \<Rightarrow> 's"
    and forget :: "'k \<Rightarrow> 's \<Rightarrow> 's"
    and good :: "'s \<Rightarrow> bool"
  assumes look_put: "look (put k v s) k' = (if k' = k then Some v else look s k')"
    and look_forget: "look (forget k s) k' = (if k' = k then None else look s k')"
    and good_put: "good s \<Longrightarrow> good (put k v s)"
    and good_forget: "good s \<Longrightarrow> good (forget k s)"
begin

lemma put_same: "look (put k v s) k = Some v"
  by (simp add: look_put)

lemma put_frame: "k' \<noteq> k \<Longrightarrow> look (put k v s) k' = look s k'"
  by (simp add: look_put)

lemma forget_frame: "k' \<noteq> k \<Longrightarrow> look (forget k s) k' = look s k'"
  by (simp add: look_forget)

lemma put_all_frame:
  "k \<notin> fst ` set kvs \<Longrightarrow> look (fold (\<lambda>(k, v). put k v) kvs s) k = look s k"
  by (induction kvs arbitrary: s) (auto simp: look_put)

lemma put_all_good: "good s \<Longrightarrow> good (fold (\<lambda>(k, v). put k v) kvs s)"
  by (induction kvs arbitrary: s) (auto simp: good_put)

lemma put_all_distinct:
  "distinct (map fst kvs) \<Longrightarrow> (k, v) \<in> set kvs \<Longrightarrow>
     look (fold (\<lambda>(k, v). put k v) kvs s) k = Some v"
proof (induction kvs arbitrary: s)
  case (Cons p kvs)
  then show ?case
    by (cases p) (auto simp: put_all_frame put_same rev_image_eqI)
qed simp

end

interpretation pydict: keyed_store
  "map_of :: ('k \<times> 'v) list \<Rightarrow> 'k \<Rightarrow> 'v option" AList.update AList.delete
  "\<lambda>d. distinct (map fst d)"
  by unfold_locales (auto simp: dict_simps)

subsection \<open>Strings\<close>

text \<open>
  \<open>py_isspace\<close> is \<^verbatim>\<open>str.isspace\<close> of one character, restricted to U+0000 to U+00FF;
  \<open>py_lower\<close> and \<open>py_upper\<close> are exact on the same range, but for the three characters
  whose upper case lies outside it: \<open>py_upper\<close> leaves U+00B5 and U+00FF as they are, which no
  comparison with ASCII text can tell.
\<close>

definition py_isspace :: "char \<Rightarrow> bool" where
  "py_isspace c = (let n = (of_char c :: nat) in
     (9 \<le> n \<and> n \<le> 13) \<or> (28 \<le> n \<and> n \<le> 32) \<or> n = 133 \<or> n = 160)"

definition py_lower_char :: "char \<Rightarrow> char" where
  "py_lower_char c = (let n = (of_char c :: nat) in
     if (65 \<le> n \<and> n \<le> 90) \<or> (192 \<le> n \<and> n \<le> 222 \<and> n \<noteq> 215) then char_of (n + 32) else c)"

definition py_lower :: "string \<Rightarrow> string" where
  "py_lower s = map py_lower_char s"

definition py_upper_char :: "char \<Rightarrow> string" where
  "py_upper_char c = (let n = (of_char c :: nat) in
     if (97 \<le> n \<and> n \<le> 122) \<or> (224 \<le> n \<and> n \<le> 254 \<and> n \<noteq> 247) then [char_of (n - 32)]
     else if n = 223 then ''SS'' else [c])"

definition py_upper :: "string \<Rightarrow> string" where
  "py_upper s = concat (map py_upper_char s)"

definition py_lstrip :: "string \<Rightarrow> string" where
  "py_lstrip s = dropWhile py_isspace s"

definition py_strip :: "string \<Rightarrow> string" where
  "py_strip s = rev (dropWhile py_isspace (rev (py_lstrip s)))"

definition starts_with :: "'a list \<Rightarrow> 'a list \<Rightarrow> bool" where
  "starts_with s p = (take (length p) s = p)"

definition ends_with :: "'a list \<Rightarrow> 'a list \<Rightarrow> bool" where
  "ends_with s p = starts_with (rev s) (rev p)"

fun contains_sub :: "'a list \<Rightarrow> 'a list \<Rightarrow> bool" where
  "contains_sub [] p = (p = [])"
| "contains_sub (c # s) p = (starts_with (c # s) p \<or> contains_sub s p)"

text \<open>\<^verbatim>\<open>s.split(sep)\<close> for a separator of one character.\<close>

fun split_on :: "'a \<Rightarrow> 'a list \<Rightarrow> 'a list list" where
  "split_on sep [] = [[]]"
| "split_on sep (c # s) =
     (if c = sep then [] # split_on sep s
      else (case split_on sep s of [] \<Rightarrow> [[c]] | w # ws \<Rightarrow> (c # w) # ws))"

text \<open>Splitting at every character of a class and dropping the empty pieces: \<^verbatim>\<open>s.split()\<close>
  for the whitespace class.\<close>

fun tokens_by :: "('a \<Rightarrow> bool) \<Rightarrow> 'a list \<Rightarrow> 'a list \<Rightarrow> 'a list list" where
  "tokens_by sepp acc [] = (if acc = [] then [] else [rev acc])"
| "tokens_by sepp acc (c # s) =
     (if sepp c then (if acc = [] then tokens_by sepp [] s else rev acc # tokens_by sepp [] s)
      else tokens_by sepp (c # acc) s)"

fun join_with :: "'a list \<Rightarrow> 'a list list \<Rightarrow> 'a list" where
  "join_with sep [] = []"
| "join_with sep [w] = w"
| "join_with sep (w # v # ws) = w @ sep @ join_with sep (v # ws)"

text \<open>\<^verbatim>\<open>s.split(c, 1)[0]\<close> and \<^verbatim>\<open>s.rsplit(c, 1)[-1]\<close>.\<close>

definition before_first :: "'a \<Rightarrow> 'a list \<Rightarrow> 'a list" where
  "before_first sep s = takeWhile (\<lambda>c. c \<noteq> sep) s"

definition after_last :: "'a \<Rightarrow> 'a list \<Rightarrow> 'a list" where
  "after_last sep s = rev (takeWhile (\<lambda>c. c \<noteq> sep) (rev s))"

lemmas str_defs = py_isspace_def py_lower_def py_lower_char_def py_upper_def py_upper_char_def
  py_lstrip_def py_strip_def starts_with_def ends_with_def before_first_def after_last_def

lemma starts_with_self [simp]: "starts_with s s"
  by (simp add: starts_with_def)

lemma starts_with_append [simp]: "starts_with (p @ s) p"
  by (simp add: starts_with_def)

lemma starts_with_Nil [simp]: "starts_with s []"
  by (simp add: starts_with_def)

lemma starts_with_iff: "starts_with s p \<longleftrightarrow> (\<exists>t. s = p @ t)"
  by (metis append_take_drop_id starts_with_append starts_with_def)

lemma after_last_no_sep: "sep \<notin> set (after_last sep s)"
  by (auto simp: after_last_def dest: set_takeWhileD)

lemma after_last_append_sep: "sep \<notin> set t \<Longrightarrow> after_last sep (s @ sep # t) = t"
  by (simp add: after_last_def takeWhile_append)

lemma split_on_nonempty [simp]: "split_on sep s \<noteq> []"
  by (cases s) (auto split: list.splits)

lemma py_strip_idem [simp]: "py_strip (py_strip s) = py_strip s"
proof -
  define d where "d = dropWhile py_isspace s"
  define t where "t = rev (dropWhile py_isspace (rev d))"
  obtain u where u: "d = t @ u"
    unfolding t_def by (metis rev_append rev_rev_ident takeWhile_dropWhile_id)
  have "t = [] \<or> \<not> py_isspace (hd t)"
  proof (cases "t = []")
    case False
    then have "d \<noteq> []" and hd: "hd t = hd d" using u by auto
    then have "\<not> py_isspace (hd d)" unfolding d_def by (simp add: hd_dropWhile)
    with hd show ?thesis by simp
  qed simp
  then have "dropWhile py_isspace t = t" by (simp add: dropWhile_eq_self_iff)
  moreover have "dropWhile py_isspace (rev t) = rev t"
    by (simp add: t_def)
  ultimately show ?thesis
    by (simp add: py_strip_def py_lstrip_def flip: d_def t_def)
qed

lemma py_strip_Nil [simp]: "py_strip [] = []"
  by (simp add: py_strip_def py_lstrip_def)

lemma py_strip_id: "\<forall>c \<in> set s. \<not> py_isspace c \<Longrightarrow> py_strip s = s"
proof -
  assume a: "\<forall>c \<in> set s. \<not> py_isspace c"
  have d: "dropWhile py_isspace t = t" if "\<forall>c \<in> set t. \<not> py_isspace c" for t
    using that by (cases t) auto
  have "dropWhile py_isspace s = s" "dropWhile py_isspace (rev s) = rev s"
    using a by (auto intro!: d)
  then show ?thesis by (simp add: py_strip_def py_lstrip_def)
qed

text \<open>\<^verbatim>\<open>str.isalnum\<close> of a character and the class \<^verbatim>\<open>\w\<close>, on U+0000 to U+00FF.\<close>

definition py_isalnum :: "char \<Rightarrow> bool" where
  "py_isalnum c = (let n = (of_char c :: nat) in
     (48 \<le> n \<and> n \<le> 57) \<or> (65 \<le> n \<and> n \<le> 90) \<or> (97 \<le> n \<and> n \<le> 122) \<or>
     n \<in> {170, 178, 179, 181, 185, 186, 188, 189, 190} \<or> (192 \<le> n \<and> n \<noteq> 215 \<and> n \<noteq> 247))"

definition py_isword :: "char \<Rightarrow> bool" where
  "py_isword c = (py_isalnum c \<or> c = CHR ''_'')"

subsection \<open>Integers as text\<close>

text \<open>\<^verbatim>\<open>str(n)\<close> and \<^verbatim>\<open>int(s)\<close>: \<open>int\<close> strips white space and accepts a sign and
  single underscores between digits; other text is a \<^verbatim>\<open>ValueError\<close> (\<open>None\<close>). The
  interpreter's limit of 4300 digits is not modelled.\<close>

fun show_nat :: "nat \<Rightarrow> string" where
  "show_nat n = (if n < 10 then [char_of (48 + n)] else show_nat (n div 10) @ [char_of (48 + n mod 10)])"

declare show_nat.simps [simp del]

definition show_int :: "int \<Rightarrow> string" where
  "show_int n = (if n < 0 then CHR ''-'' # show_nat (nat (- n)) else show_nat (nat n))"

definition digit_val :: "char \<Rightarrow> nat option" where
  "digit_val c = (let n = (of_char c :: nat) in if 48 \<le> n \<and> n \<le> 57 then Some (n - 48) else None)"

fun parse_digits :: "nat \<Rightarrow> bool \<Rightarrow> string \<Rightarrow> nat option" where
  "parse_digits acc after_digit [] = (if after_digit then Some acc else None)"
| "parse_digits acc after_digit (c # s) =
     (case digit_val c of
        Some d \<Rightarrow> parse_digits (acc * 10 + d) True s
      | None \<Rightarrow> if c = CHR ''_'' \<and> after_digit then parse_digits acc False s else None)"

definition py_int :: "string \<Rightarrow> int option" where
  "py_int s = (case py_strip s of
       [] \<Rightarrow> None
     | c # t \<Rightarrow> if c = CHR ''-'' then map_option (\<lambda>n. - int n) (parse_digits 0 False t)
                else if c = CHR ''+'' then map_option int (parse_digits 0 False t)
                else map_option int (parse_digits 0 False (c # t)))"

lemma of_char_digit [simp]: "n < 10 \<Longrightarrow> (of_char (char_of (48 + n)) :: nat) = 48 + n"
  by simp

lemma digit_val_char [simp]: "n < 10 \<Longrightarrow> digit_val (char_of (48 + n)) = Some n"
  by (simp add: digit_val_def)

lemma show_nat_nonempty [simp]: "show_nat n \<noteq> []"
  by (subst show_nat.simps) simp

lemma show_nat_chars: "c \<in> set (show_nat n) \<Longrightarrow> digit_val c \<noteq> None"
proof (induction n rule: show_nat.induct)
  case (1 n)
  show ?case
  proof (cases "n < 10")
    case True
    then show ?thesis using 1(2) by (subst (asm) show_nat.simps) simp
  next
    case False
    then consider "c \<in> set (show_nat (n div 10))" | "c = char_of (48 + n mod 10)"
      using 1(2) by (subst (asm) show_nat.simps) auto
    then show ?thesis by cases (use 1(1) False in auto)
  qed
qed

lemma parse_show_nat:
  "parse_digits a b (show_nat n @ s) = parse_digits (a * 10 ^ length (show_nat n) + n) True s"
proof (induction n arbitrary: s rule: show_nat.induct)
  case (1 n)
  show ?case
  proof (cases "n < 10")
    case True
    then show ?thesis by (simp add: show_nat.simps [of n])
  next
    case False
    then have e: "show_nat n = show_nat (n div 10) @ [char_of (48 + n mod 10)]"
      by (subst show_nat.simps) simp
    have "parse_digits a b (show_nat n @ s) =
        parse_digits (a * 10 ^ length (show_nat (n div 10)) + n div 10) True (char_of (48 + n mod 10) # s)"
      unfolding e using 1 [OF False] by simp
    also have "\<dots> = parse_digits ((a * 10 ^ length (show_nat (n div 10)) + n div 10) * 10 + n mod 10) True s"
      by simp
    also have "(a * 10 ^ length (show_nat (n div 10)) + n div 10) * 10 + n mod 10 =
        a * 10 ^ length (show_nat n) + n"
      unfolding e by (simp add: algebra_simps)
    finally show ?thesis .
  qed
qed

lemma py_strip_digits:
  assumes "\<forall>c \<in> set s. digit_val c \<noteq> None \<or> c = CHR ''-''"
  shows "py_strip s = s"
proof (rule py_strip_id, rule ballI)
  fix c
  assume "c \<in> set s"
  with assms consider "digit_val c \<noteq> None" | "c = CHR ''-''" by blast
  then show "\<not> py_isspace c"
    by cases (auto simp: digit_val_def py_isspace_def Let_def split: if_splits)
qed

lemma py_int_show [simp]: "py_int (show_int n) = Some n"
proof -
  have st: "py_strip (show_int n) = show_int n"
    by (rule py_strip_digits) (auto simp: show_int_def dest: show_nat_chars split: if_splits)
  have p: "parse_digits 0 False (show_nat m) = Some m" for m
    using parse_show_nat [of 0 False m "[]"] by simp
  show ?thesis
  proof (cases "n < 0")
    case True
    then show ?thesis unfolding py_int_def st by (simp add: show_int_def p)
  next
    case False
    obtain c t where ct: "show_nat (nat n) = c # t" by (cases "show_nat (nat n)") auto
    then have "digit_val c \<noteq> None" using show_nat_chars [of c "nat n"] by simp
    then have "c \<noteq> CHR ''-''" "c \<noteq> CHR ''+''" by (auto simp: digit_val_def)
    then show ?thesis using False p [of "nat n"] unfolding py_int_def st
      by (simp add: show_int_def ct del: parse_digits.simps)
  qed
qed

lemma show_int_inj [simp]: "show_int m = show_int n \<longleftrightarrow> m = n"
  by (metis option.inject py_int_show)

end
