(* ===== verification/Circuit_Breaker.thy ===== *)
theory Circuit_Breaker imports Junction_Prelude begin

section \<open>The circuit breaker for fast-dying MCP backends (\<^verbatim>\<open>mcp_gateway/breaker.py\<close>)\<close>

text \<open>
  One record per tracked key: the times of its recent fast deaths and, when the key is OPEN,
  when it tripped. \<open>record_death\<close>, \<open>record_healthy\<close>, \<open>allow\<close> and \<open>prune\<close> are the methods
  of \<^verbatim>\<open>CircuitBreaker\<close>; the clock \<^verbatim>\<open>self._now()\<close> is the argument \<open>now\<close>. Log lines
  are left out. The locale \<open>spawn_gate\<close> is what a spawning client relies on: a key is judged
  by its own history only, as long as the table has room.
\<close>

subsection \<open>State\<close>

record death_state =
  deaths :: "secs list"
  opened_at :: "secs option"

record breaker =
  fast_threshold :: secs
  death_limit :: int
  death_window :: secs
  open_cooldown :: secs
  tracked :: "(string, death_state) dict"

datatype breaker_error =
    LimitBelowOne int
  | ThresholdNotPositive secs
  | WindowNotPositive secs
  | CooldownNotPositive secs

definition FAST_DEATH_THRESHOLD_SECS :: secs where "FAST_DEATH_THRESHOLD_SECS = 5"
definition FAST_DEATH_LIMIT :: int where "FAST_DEATH_LIMIT = 5"
definition WINDOW_SECS :: secs where "WINDOW_SECS = 60"
definition MAX_TRACKED_KEYS :: nat where "MAX_TRACKED_KEYS = 512"
definition OPEN_COOLDOWN_SECS :: secs where "OPEN_COOLDOWN_SECS = 60"

definition make_breaker :: "secs \<Rightarrow> int \<Rightarrow> secs \<Rightarrow> secs \<Rightarrow> breaker_error + breaker" where
  "make_breaker thr lmt win cool =
     (if lmt < 1 then Inl (LimitBelowOne lmt)
      else if thr \<le> 0 then Inl (ThresholdNotPositive thr)
      else if win \<le> 0 then Inl (WindowNotPositive win)
      else if cool \<le> 0 then Inl (CooldownNotPositive cool)
      else Inr \<lparr>fast_threshold = thr, death_limit = lmt, death_window = win,
                open_cooldown = cool, tracked = []\<rparr>)"

definition default_breaker :: "breaker_error + breaker" where
  "default_breaker = make_breaker FAST_DEATH_THRESHOLD_SECS FAST_DEATH_LIMIT WINDOW_SECS
     OPEN_COOLDOWN_SECS"

subsection \<open>Operations\<close>

text \<open>\<^verbatim>\<open>_prune\<close>: drop the inactive keys, then evict the oldest OPEN ones while over the cap.\<close>

fun evict_open :: "string list \<Rightarrow> (string, death_state) dict \<Rightarrow> (string, death_state) dict" where
  "evict_open [] d = d"
| "evict_open (k # ks) d =
     (if length d \<le> MAX_TRACKED_KEYS then d else evict_open ks (dict_pop k d))"

definition open_age :: "(string, death_state) dict \<Rightarrow> string \<Rightarrow> secs" where
  "open_age d k = (case dict_get d k of None \<Rightarrow> 0 | Some s \<Rightarrow>
     (case opened_at s of None \<Rightarrow> 0 | Some t \<Rightarrow> t))"

definition inactive :: "secs \<Rightarrow> death_state \<Rightarrow> bool" where
  "inactive cutoff s = (opened_at s = None \<and> (\<forall>t \<in> set (deaths s). t < cutoff))"

definition prune :: "secs \<Rightarrow> breaker \<Rightarrow> breaker" where
  "prune now b =
     (let cutoff = now - death_window b;
          d = filter (\<lambda>p. \<not> inactive cutoff (snd p)) (tracked b)
      in if length d \<le> MAX_TRACKED_KEYS then b\<lparr>tracked := d\<rparr>
         else let oldest_open = sort_key (open_age d)
                    (map fst (filter (\<lambda>p. opened_at (snd p) \<noteq> None) d))
              in b\<lparr>tracked := evict_open oldest_open d\<rparr>)"

definition count_death :: "breaker \<Rightarrow> secs \<Rightarrow> death_state \<Rightarrow> death_state" where
  "count_death b now s =
     (let cutoff = now - death_window b;
          ds = filter (\<lambda>t. cutoff \<le> t) (deaths s) @ [now]
      in \<lparr>deaths = ds,
          opened_at = (if opened_at s = None \<and> death_limit b \<le> int (length ds)
                       then Some now else opened_at s)\<rparr>)"

definition record_death :: "string \<Rightarrow> secs \<Rightarrow> secs \<Rightarrow> breaker \<Rightarrow> breaker" where
  "record_death key uptime now b =
     (if fast_threshold b \<le> uptime then b
      else let s = (case dict_get (tracked b) key of
                      None \<Rightarrow> \<lparr>deaths = [], opened_at = None\<rparr> | Some s \<Rightarrow> s);
               b' = b\<lparr>tracked := dict_set key (count_death b now s) (tracked b)\<rparr>
           in if MAX_TRACKED_KEYS < length (tracked b') then prune now b' else b')"

definition record_healthy :: "string \<Rightarrow> breaker \<Rightarrow> breaker" where
  "record_healthy key b =
     (case dict_get (tracked b) key of None \<Rightarrow> b
      | Some s \<Rightarrow> b\<lparr>tracked := dict_pop key (tracked b)\<rparr>)"

definition allow :: "string \<Rightarrow> secs \<Rightarrow> breaker \<Rightarrow> bool \<times> breaker" where
  "allow key now b =
     (case dict_get (tracked b) key of
        None \<Rightarrow> (True, b)
      | Some s \<Rightarrow> (case opened_at s of
            None \<Rightarrow> (True, b)
          | Some t \<Rightarrow> (if open_cooldown b \<le> now - t
                       then (True, b\<lparr>tracked := dict_pop key (tracked b)\<rparr>)
                       else (False, b))))"

lemmas breaker_defs = record_death_def record_healthy_def allow_def prune_def Let_def

subsection \<open>The table invariant\<close>

text \<open>
  Keys are distinct, every tracked key has a death to its name, and a key that is not OPEN has
  fewer deaths on record than the limit, so a tripping sequence is never left CLOSED.
\<close>

definition state_ok :: "breaker \<Rightarrow> death_state \<Rightarrow> bool" where
  "state_ok b s \<longleftrightarrow> deaths s \<noteq> [] \<and>
     (opened_at s = None \<longrightarrow> int (length (deaths s)) < death_limit b)"

definition breaker_inv :: "breaker \<Rightarrow> bool" where
  "breaker_inv b \<longleftrightarrow> dict_ok (tracked b) \<and> (\<forall>p \<in> set (tracked b). state_ok b (snd p))"

lemma count_death_ok: "state_ok b (count_death b now s)"
  by (auto simp: count_death_def state_ok_def Let_def)

lemma evict_open_subset: "set (evict_open ks d) \<subseteq> set d"
  by (induction ks d rule: evict_open.induct) (auto dest!: subsetD [OF set_dict_pop] subsetD)

lemma evict_open_dict_ok: "dict_ok d \<Longrightarrow> dict_ok (evict_open ks d)"
  by (induction ks d rule: evict_open.induct) auto

lemma prune_config [simp]:
  "fast_threshold (prune now b) = fast_threshold b" "death_limit (prune now b) = death_limit b"
  "death_window (prune now b) = death_window b" "open_cooldown (prune now b) = open_cooldown b"
  by (simp_all add: prune_def Let_def)

lemma prune_subset: "set (tracked (prune now b)) \<subseteq> set (tracked b)"
  by (auto simp: prune_def Let_def dest: subsetD [OF evict_open_subset])

lemma prune_inv: "breaker_inv b \<Longrightarrow> breaker_inv (prune now b)"
proof -
  assume inv: "breaker_inv b"
  have "dict_ok (tracked (prune now b))"
    using inv by (simp add: breaker_inv_def prune_def Let_def evict_open_dict_ok)
  moreover have "\<forall>p \<in> set (tracked (prune now b)). state_ok (prune now b) (snd p)"
    using inv prune_subset [of now b] by (auto simp: breaker_inv_def state_ok_def)
  ultimately show ?thesis by (simp add: breaker_inv_def)
qed

lemma record_death_inv: "breaker_inv b \<Longrightarrow> breaker_inv (record_death key uptime now b)"
proof -
  assume inv: "breaker_inv b"
  have set_inv: "breaker_inv (b\<lparr>tracked := dict_set key (count_death b now s) (tracked b)\<rparr>)" for s
    using inv count_death_ok [of b now s] set_dict_set [of key "count_death b now s" "tracked b"]
    by (fastforce simp: breaker_inv_def state_ok_def)
  show ?thesis
    using inv by (simp add: record_death_def Let_def set_inv prune_inv)
qed

lemma pop_inv: "breaker_inv b \<Longrightarrow> breaker_inv (b\<lparr>tracked := dict_pop key (tracked b)\<rparr>)"
  by (auto simp: breaker_inv_def state_ok_def dest: subsetD [OF set_dict_pop])

lemma record_healthy_inv: "breaker_inv b \<Longrightarrow> breaker_inv (record_healthy key b)"
  by (simp add: record_healthy_def pop_inv split: option.split)

lemma allow_inv: "breaker_inv b \<Longrightarrow> breaker_inv (snd (allow key now b))"
  by (simp add: allow_def pop_inv split: option.split)

subsection \<open>A breaker in use: events and runs\<close>

datatype breaker_event = Died string secs secs | Survived string | Probed string secs

fun breaker_step :: "breaker \<Rightarrow> breaker_event \<Rightarrow> breaker" where
  "breaker_step b (Died k uptime now) = record_death k uptime now b"
| "breaker_step b (Survived k) = record_healthy k b"
| "breaker_step b (Probed k now) = snd (allow k now b)"

definition breaker_run :: "breaker \<Rightarrow> breaker_event list \<Rightarrow> breaker" where
  "breaker_run b es = foldl breaker_step b es"

lemma make_breaker_inv: "make_breaker thr lmt win cool = Inr b \<Longrightarrow> breaker_inv b"
  by (auto simp: make_breaker_def breaker_inv_def split: if_splits)

lemma breaker_step_inv: "breaker_inv b \<Longrightarrow> breaker_inv (breaker_step b e)"
  by (cases e) (simp_all add: record_death_inv record_healthy_inv allow_inv)

lemma breaker_run_inv: "breaker_inv b \<Longrightarrow> breaker_inv (breaker_run b es)"
  unfolding breaker_run_def by (induction es arbitrary: b) (auto simp: breaker_step_inv)

subsection \<open>The interface a spawning client relies on\<close>

text \<open>
  \<open>slot\<close> is all that a decision about one key reads, \<open>load\<close> the number of keys tracked and
  \<open>cap\<close> how many fit before the table is pruned. An operation on another key leaves the slot
  alone; recording a death does so while there is room for one more key.
\<close>

locale spawn_gate =
  fixes allowed :: "'k \<Rightarrow> secs \<Rightarrow> 's \<Rightarrow> bool"
    and probe :: "'k \<Rightarrow> secs \<Rightarrow> 's \<Rightarrow> 's"
    and died :: "'k \<Rightarrow> secs \<Rightarrow> secs \<Rightarrow> 's \<Rightarrow> 's"
    and healthy :: "'k \<Rightarrow> 's \<Rightarrow> 's"
    and slot :: "'s \<Rightarrow> 'k \<Rightarrow> 'v"
    and load :: "'s \<Rightarrow> nat"
    and cap :: nat
  assumes allowed_slot: "slot s k = slot s' k \<Longrightarrow> allowed k now s = allowed k now s'"
    and probe_frame: "k' \<noteq> k \<Longrightarrow> slot (probe k now s) k' = slot s k'"
    and healthy_frame: "k' \<noteq> k \<Longrightarrow> slot (healthy k s) k' = slot s k'"
    and died_frame: "k' \<noteq> k \<Longrightarrow> load s < cap \<Longrightarrow> slot (died k u now s) k' = slot s k'"
    and probe_load: "load (probe k now s) \<le> load s"
    and healthy_load: "load (healthy k s) \<le> load s"
    and died_load: "load s < cap \<Longrightarrow> load (died k u now s) \<le> Suc (load s)"
begin

lemma deaths_of_others:
  "k \<notin> (\<lambda>(k', u, t). k') ` set ds \<Longrightarrow> load s + length ds \<le> cap \<Longrightarrow>
     slot (fold (\<lambda>(k', u, t). died k' u t) ds s) k = slot s k"
proof (induction ds arbitrary: s)
  case (Cons d ds)
  obtain k' u t where d: "d = (k', u, t)" by (cases d) auto
  from Cons.prems d have room: "load s < cap" and ne: "k \<noteq> k'" by auto
  have "load (died k' u t s) + length ds \<le> cap"
    using died_load [OF room, of k' u t] Cons.prems by simp
  then have "slot (fold (\<lambda>(k', u, t). died k' u t) ds (died k' u t s)) k = slot (died k' u t s) k"
    using Cons.prems by (intro Cons.IH) auto
  with died_frame [OF ne room, of u t] d show ?case by simp
qed simp

lemma judged_alone:
  "k \<notin> (\<lambda>(k', u, t). k') ` set ds \<Longrightarrow> load s + length ds \<le> cap \<Longrightarrow>
     allowed k now (fold (\<lambda>(k', u, t). died k' u t) ds s) = allowed k now s"
  by (rule allowed_slot) (rule deaths_of_others)

end

definition breaker_slot :: "breaker \<Rightarrow> string \<Rightarrow> secs \<times> death_state option" where
  "breaker_slot b k = (open_cooldown b, dict_get (tracked b) k)"

lemma record_death_small:
  "length (tracked b) < MAX_TRACKED_KEYS \<Longrightarrow> uptime < fast_threshold b \<Longrightarrow>
     record_death key uptime now b =
       b\<lparr>tracked := dict_set key (count_death b now (case dict_get (tracked b) key of
            None \<Rightarrow> \<lparr>deaths = [], opened_at = None\<rparr> | Some s \<Rightarrow> s)) (tracked b)\<rparr>"
proof -
  assume room: "length (tracked b) < MAX_TRACKED_KEYS" and fast: "uptime < fast_threshold b"
  have "\<not> MAX_TRACKED_KEYS < length (dict_set key v (tracked b))" for v
    using dict_set_length_le [of key v "tracked b"] room by simp
  with fast show ?thesis by (simp add: record_death_def Let_def)
qed

interpretation breaker_gate: spawn_gate
  "\<lambda>k now b. fst (allow k now b)" "\<lambda>k now b. snd (allow k now b)" record_death record_healthy
  breaker_slot "\<lambda>b. length (tracked b)" MAX_TRACKED_KEYS
proof unfold_locales
  fix s k and s' :: breaker and now
  assume "breaker_slot s k = breaker_slot s' k"
  then show "fst (allow k now s) = fst (allow k now s')"
    by (auto simp: breaker_slot_def allow_def split: option.split)
next
  fix k' k :: string and now and s :: breaker
  assume "k' \<noteq> k"
  then show "breaker_slot (snd (allow k now s)) k' = breaker_slot s k'"
    by (auto simp: breaker_slot_def allow_def dict_simps split: option.split)
next
  fix k' k :: string and s :: breaker
  assume "k' \<noteq> k"
  then show "breaker_slot (record_healthy k s) k' = breaker_slot s k'"
    by (auto simp: breaker_slot_def record_healthy_def dict_simps split: option.split)
next
  fix k' k :: string and s :: breaker and u now
  assume "k' \<noteq> k" and "length (tracked s) < MAX_TRACKED_KEYS"
  then show "breaker_slot (record_death k u now s) k' = breaker_slot s k'"
    by (cases "fast_threshold s \<le> u")
       (simp_all add: breaker_slot_def record_death_small dict_simps, simp add: record_death_def)
next
  fix k now and s :: breaker
  show "length (tracked (snd (allow k now s))) \<le> length (tracked s)"
    by (simp add: allow_def dict_pop_length_le split: option.split)
next
  fix k and s :: breaker
  show "length (tracked (record_healthy k s)) \<le> length (tracked s)"
    by (simp add: record_healthy_def dict_pop_length_le split: option.split)
next
  fix k u now and s :: breaker
  assume "length (tracked s) < MAX_TRACKED_KEYS"
  then show "length (tracked (record_death k u now s)) \<le> Suc (length (tracked s))"
    by (cases "fast_threshold s \<le> u")
       (simp_all add: record_death_small dict_set_length_le, simp add: record_death_def)
qed

subsection \<open>The sliding window\<close>

text \<open>
  A run of fast deaths of one key at the times \<open>ts\<close>, and the first of them at which the number
  of deaths within the last window reaches the limit.
\<close>

definition deaths_at :: "string \<Rightarrow> secs list \<Rightarrow> breaker \<Rightarrow> breaker" where
  "deaths_at k ts b = fold (\<lambda>t. record_death k 0 t) ts b"

definition window_count :: "secs \<Rightarrow> secs list \<Rightarrow> nat \<Rightarrow> nat" where
  "window_count w ts i = length (filter (\<lambda>u. ts ! i - w \<le> u) (take (Suc i) ts))"

definition first_trip :: "int \<Rightarrow> secs \<Rightarrow> secs list \<Rightarrow> secs option" where
  "first_trip lmt w ts =
     map_option ((!) ts) (find (\<lambda>i. lmt \<le> int (window_count w ts i)) [0..<length ts])"

lemma find_append: "find P (xs @ ys) = (case find P xs of None \<Rightarrow> find P ys | Some x \<Rightarrow> Some x)"
  by (induction xs) auto

lemma first_trip_snoc:
  assumes "0 \<le> w"
  shows "first_trip lmt w (ts @ [t]) =
     (case first_trip lmt w ts of Some u \<Rightarrow> Some u
      | None \<Rightarrow> if lmt \<le> int (Suc (length (filter (\<lambda>u. t - w \<le> u) ts))) then Some t else None)"
proof -
  have old: "window_count w (ts @ [t]) i = window_count w ts i" if "i < length ts" for i
    using that by (simp add: window_count_def nth_append)
  have same: "find (\<lambda>i. lmt \<le> int (window_count w (ts @ [t]) i)) [0..<length ts]
      = find (\<lambda>i. lmt \<le> int (window_count w ts i)) [0..<length ts]"
    using old by (intro find_cong) auto
  have new: "window_count w (ts @ [t]) (length ts) =
      Suc (length (filter (\<lambda>u. t - w \<le> u) ts))"
    using assms by (simp add: window_count_def)
  show ?thesis
  proof (cases "find (\<lambda>i. lmt \<le> int (window_count w ts i)) [0..<length ts]")
    case None
    then show ?thesis by (simp add: first_trip_def find_append same new)
  next
    case (Some i)
    then have "i < length ts" by (auto simp: find_Some_iff)
    with Some show ?thesis by (simp add: first_trip_def find_append same nth_append)
  qed
qed

definition window_state :: "breaker \<Rightarrow> secs list \<Rightarrow> death_state" where
  "window_state b ts = \<lparr>deaths = filter (\<lambda>u. last ts - death_window b \<le> u) ts,
     opened_at = first_trip (death_limit b) (death_window b) ts\<rparr>"

lemma filter_window:
  "sorted (ts @ [t]) \<Longrightarrow> ts \<noteq> [] \<Longrightarrow>
     filter (\<lambda>u. t - w \<le> u) (filter (\<lambda>u. last ts - w \<le> u) ts) = filter (\<lambda>u. t - w \<le> (u :: secs)) ts"
proof -
  assume "sorted (ts @ [t])" "ts \<noteq> []"
  then have "last ts \<le> t" by (auto simp: sorted_append)
  then have "t - w \<le> u \<Longrightarrow> last ts - w \<le> u" for u by linarith
  then show ?thesis by (simp add: filter_filter) (metis (mono_tags, lifting))
qed

lemma deaths_at_config [simp]:
  "fast_threshold (record_death k u t b) = fast_threshold b"
  "death_limit (record_death k u t b) = death_limit b"
  "death_window (record_death k u t b) = death_window b"
  "open_cooldown (record_death k u t b) = open_cooldown b"
  by (simp_all add: record_death_def Let_def)

lemma deaths_at_snoc: "deaths_at k (ts @ [t]) b = record_death k 0 t (deaths_at k ts b)"
  by (simp add: deaths_at_def)

lemma deaths_at_fixed [simp]:
  "fast_threshold (deaths_at k ts b) = fast_threshold b"
  "death_limit (deaths_at k ts b) = death_limit b"
  "death_window (deaths_at k ts b) = death_window b"
  "open_cooldown (deaths_at k ts b) = open_cooldown b"
  by (induction ts rule: rev_induct) (simp_all add: deaths_at_def)

lemma deaths_at_tracked:
  assumes "sorted ts" "ts \<noteq> []" "length (tracked b) < MAX_TRACKED_KEYS - 1"
    and "dict_get (tracked b) k = None" "0 < fast_threshold b" "0 \<le> death_window b"
  shows "tracked (deaths_at k ts b) = dict_set k (window_state b ts) (tracked b)"
  using assms(1,2)
proof (induction ts rule: rev_induct)
  case (snoc t ts)
  show ?case
  proof (cases "ts = []")
    case True
    have "record_death k 0 t b = b\<lparr>tracked := dict_set k (count_death b t
        \<lparr>deaths = [], opened_at = None\<rparr>) (tracked b)\<rparr>"
      using assms by (simp add: record_death_small)
    moreover have "count_death b t \<lparr>deaths = [], opened_at = None\<rparr> = window_state b [t]"
      using assms by (simp add: count_death_def window_state_def Let_def first_trip_def window_count_def)
    ultimately show ?thesis using True by (simp add: deaths_at_def)
  next
    case False
    with snoc have IH: "tracked (deaths_at k ts b) = dict_set k (window_state b ts) (tracked b)"
      by (simp add: sorted_append)
    have room: "length (tracked (deaths_at k ts b)) < MAX_TRACKED_KEYS"
      unfolding IH using dict_set_length_le [of k "window_state b ts" "tracked b"] assms(3) by simp
    have "count_death (deaths_at k ts b) t (window_state b ts) = window_state b (ts @ [t])"
      using assms(6) filter_window [OF snoc.prems(1) False]
      by (simp add: count_death_def window_state_def Let_def first_trip_snoc filter_filter
            split: option.split)
    then show ?thesis
      using room assms by (simp add: deaths_at_snoc record_death_small IH dict_simps)
  qed
qed simp

subsection \<open>What pruning leaves\<close>

lemma evict_open_prefix: "\<exists>n. evict_open ks d = fold dict_pop (take n ks) d"
proof (induction ks d rule: evict_open.induct)
  case (2 k ks d)
  show ?case
  proof (cases "length d \<le> MAX_TRACKED_KEYS")
    case True
    then show ?thesis by (intro exI [of _ 0]) simp
  next
    case False
    with 2 obtain n where "evict_open ks (dict_pop k d) = fold dict_pop (take n ks) (dict_pop k d)"
      by blast
    with False show ?thesis by (intro exI [of _ "Suc n"]) simp
  qed
qed simp

lemma fold_pop_keys: "set (dict_keys (fold dict_pop ks d)) = set (dict_keys d) - set ks"
  by (induction ks arbitrary: d) (auto simp: AList.delete_eq rev_image_eqI)

lemma evict_open_bound:
  "length (evict_open ks d) \<le> MAX_TRACKED_KEYS \<or> set (dict_keys (evict_open ks d)) \<inter> set ks = {}"
proof (induction ks d rule: evict_open.induct)
  case (2 k ks d)
  show ?case
  proof (cases "length d \<le> MAX_TRACKED_KEYS")
    case False
    obtain n where n: "evict_open ks (dict_pop k d) = fold dict_pop (take n ks) (dict_pop k d)"
      using evict_open_prefix by blast
    have "k \<notin> set (dict_keys (evict_open ks (dict_pop k d)))"
      unfolding n fold_pop_keys by (simp add: AList.delete_keys)
    with 2 [OF False] False show ?thesis by auto
  qed simp
qed simp

lemma prune_all_closed:
  assumes "\<not> length (tracked (prune now b)) \<le> MAX_TRACKED_KEYS"
    and "p \<in> set (tracked (prune now b))"
  shows "opened_at (snd p) = None \<and> (\<exists>t \<in> set (deaths (snd p)). now - death_window b \<le> t)"
proof -
  define d where "d = filter (\<lambda>p. \<not> inactive (now - death_window b) (snd p)) (tracked b)"
  define ks where "ks = sort_key (open_age d) (map fst (filter (\<lambda>p. opened_at (snd p) \<noteq> None) d))"
  have pr: "tracked (prune now b) = (if length d \<le> MAX_TRACKED_KEYS then d else evict_open ks d)"
    by (simp add: prune_def Let_def d_def ks_def)
  with assms have big: "\<not> length (evict_open ks d) \<le> MAX_TRACKED_KEYS" and p: "p \<in> set (evict_open ks d)"
    by (auto split: if_splits)
  then have "fst p \<notin> set ks" using evict_open_bound [of ks d] by auto
  moreover have pd: "p \<in> set d" using p evict_open_subset by blast
  ultimately have "opened_at (snd p) = None" by (auto simp: ks_def rev_image_eqI)
  with pd show ?thesis by (auto simp: d_def inactive_def not_less)
qed

lemma take_drop_sorted_key:
  assumes "x \<in> set (take n (sort_key f xs))" "y \<in> set (drop n (sort_key f xs))"
  shows "f x \<le> f y"
proof -
  have "sorted (map f (take n (sort_key f xs)) @ map f (drop n (sort_key f xs)))"
    by (simp flip: map_append)
  with assms show ?thesis by (auto simp: sorted_append)
qed

lemma prune_oldest_first:
  assumes "dict_get (tracked b) k = Some s" "opened_at s = Some t"
    and "dict_get (tracked (prune now b)) k = None"
    and "dict_get (tracked (prune now b)) k' = Some s'" "opened_at s' = Some t'"
    and "dict_ok (tracked b)"
  shows "t \<le> t'"
proof -
  define d where "d = filter (\<lambda>p. \<not> inactive (now - death_window b) (snd p)) (tracked b)"
  define ops where "ops = map fst (filter (\<lambda>p. opened_at (snd p) \<noteq> None) d)"
  have pr: "tracked (prune now b) =
      (if length d \<le> MAX_TRACKED_KEYS then d else evict_open (sort_key (open_age d) ops) d)"
    by (simp add: prune_def Let_def d_def ops_def)
  obtain n where ev: "evict_open (sort_key (open_age d) ops) d = fold dict_pop (take n (sort_key (open_age d) ops)) d"
    using evict_open_prefix by blast
  have okd: "dict_ok d" using assms(6) by (simp add: d_def)
  have kd: "dict_get d k = Some s"
    using assms(1,2,6) by (simp add: d_def dict_get_filter_value inactive_def)
  with assms(3) have "\<not> length d \<le> MAX_TRACKED_KEYS" by (auto simp: pr)
  then have tr: "tracked (prune now b) = fold dict_pop (take n (sort_key (open_age d) ops)) d"
    by (simp add: pr ev)
  have gone: "dict_get (fold dict_pop ks d) x = (if x \<in> set ks then None else dict_get d x)" for ks x
    by (induction ks arbitrary: d) (auto simp: dict_simps)
  have k: "k \<in> set (take n (sort_key (open_age d) ops))"
    using assms(3) kd unfolding tr gone by (auto split: if_splits)
  have k': "k' \<notin> set (take n (sort_key (open_age d) ops))" and k'd: "dict_get d k' = Some s'"
    using assms(4) unfolding tr gone by (auto split: if_splits)
  have "k' \<in> set ops" using k'd assms(5) by (force simp: ops_def dest: map_of_SomeD)
  then have "k' \<in> set (drop n (sort_key (open_age d) ops))"
    using k' by (metis append_take_drop_id set_append set_sort Un_iff)
  with k have "open_age d k \<le> open_age d k'" by (rule take_drop_sorted_key)
  with kd k'd assms(2,5) show ?thesis by (simp add: open_age_def)
qed

lemma crowd_kept:
  assumes "distinct (dict_keys (tracked b) @ ks)" "1 < death_limit b" "0 < fast_threshold b"
    and "0 < death_window b" "\<forall>p \<in> set (tracked b). opened_at (snd p) = None \<and> deaths (snd p) = [now]"
  shows "dict_keys (tracked (fold (\<lambda>k. record_death k 0 now) ks b)) = dict_keys (tracked b) @ ks"
  using assms
proof (induction ks arbitrary: b)
  case (Cons k ks)
  define b1 where "b1 = b\<lparr>tracked := tracked b @ [(k, \<lparr>deaths = [now], opened_at = None\<rparr>)]\<rparr>"
  have kn: "k \<notin> fst ` set (tracked b)" using Cons.prems(1) by auto
  then have none: "dict_get (tracked b) k = None" by (simp add: map_of_eq_None_iff)
  have cd: "count_death b now \<lparr>deaths = [], opened_at = None\<rparr> = \<lparr>deaths = [now], opened_at = None\<rparr>"
    using Cons.prems by (simp add: count_death_def Let_def)
  have keep: "filter (\<lambda>p. \<not> inactive (now - death_window b) (snd p)) (tracked b1) = tracked b1"
    using Cons.prems by (auto simp: b1_def inactive_def intro!: filter_True)
  have "filter (\<lambda>p. opened_at (snd p) \<noteq> None) (tracked b1) = []"
    using Cons.prems by (auto simp: b1_def filter_empty_conv)
  then have "tracked (prune now b1) = tracked b1"
    using keep by (simp add: prune_def Let_def b1_def)
  then have pr: "prune now b1 = b1"
    by (simp add: prune_def Let_def split: if_splits)
  have step: "record_death k 0 now b = b1"
    using Cons.prems(3) none kn pr by (simp add: record_death_def Let_def cd b1_def)
  have "dict_keys (tracked (fold (\<lambda>k. record_death k 0 now) ks b1)) = dict_keys (tracked b1) @ ks"
    using Cons.prems by (intro Cons.IH) (auto simp: b1_def)
  then show ?case using step by (simp add: b1_def)
qed simp

subsection \<open>Properties\<close>

text \<open>However a constructed breaker is used, its table has one entry per key, each entry
  has a death to its name, and a key that is CLOSED has fewer deaths on record than the limit:
  no run of deaths, probes and survivals leaves a tripping sequence undetected.\<close>

theorem breaker_never_misses_a_trip:
  assumes "make_breaker thr lmt win cool = Inr b0"
    and "dict_get (tracked (breaker_run b0 es)) k = Some s" and "opened_at s = None"
  shows "deaths s \<noteq> [] \<and> int (length (deaths s)) < death_limit (breaker_run b0 es)"
  using breaker_run_inv [OF make_breaker_inv [OF assms(1)], of es] assms(2,3)
  by (auto simp: breaker_inv_def state_ok_def dest: map_of_SomeD)

theorem breaker_never_misses_a_trip_witness:
  "let b = \<lparr>fast_threshold = 5, death_limit = 2, death_window = 60, open_cooldown = 60, tracked = []\<rparr>;
       s = \<lparr>deaths = [10], opened_at = None\<rparr>
   in dict_get (tracked (breaker_run b [Died ''srv'' 1 10])) ''srv'' = Some s \<and>
      deaths s \<noteq> [] \<and> int (length (deaths s)) < death_limit (breaker_run b [Died ''srv'' 1 10])"
proof -
  let ?b = "\<lparr>fast_threshold = 5, death_limit = 2, death_window = 60, open_cooldown = 60, tracked = []\<rparr>"
  have mk: "make_breaker 5 2 60 60 = Inr ?b" by (simp add: make_breaker_def)
  have st: "dict_get (tracked (breaker_run ?b [Died ''srv'' 1 10])) ''srv''
      = Some \<lparr>deaths = [10], opened_at = None\<rparr>"
    by (simp add: breaker_run_def record_death_def count_death_def MAX_TRACKED_KEYS_def)
  show ?thesis using breaker_never_misses_a_trip [OF mk st] st by (simp add: Let_def)
qed

text \<open>C5. The sliding window: in a breaker with a positive threshold and a non-negative window that tracks fewer than 511
  keys, the given one not among them, take a run of fast deaths of that key at the nondecreasing times \<open>ts\<close>. Afterwards
  what the breaker has on record is exactly the deaths within one window of the last, and the key is OPEN since the first
  death that had the limit's worth of deaths, itself included, within the window before it; it is not OPEN when
  there is no such death. The room in the table is needed: the death that trips a key prunes a full table, and when all
  other keys died recently and none is OPEN, the key that is evicted is the one that tripped.\<close>

theorem breaker_sliding_window:
  assumes "sorted ts" "ts \<noteq> []" "length (tracked b) < MAX_TRACKED_KEYS - 1"
    and "dict_get (tracked b) k = None" "0 < fast_threshold b" "0 \<le> death_window b"
  shows "dict_get (tracked (deaths_at k ts b)) k =
      Some \<lparr>deaths = filter (\<lambda>u. last ts - death_window b \<le> u) ts,
            opened_at = first_trip (death_limit b) (death_window b) ts\<rparr>"
  using deaths_at_tracked [OF assms] by (simp add: dict_simps window_state_def)

theorem breaker_sliding_window_witness:
  "let b = \<lparr>fast_threshold = 5, death_limit = 2, death_window = 60, open_cooldown = 60, tracked = []\<rparr>
   in dict_get (tracked (deaths_at ''srv'' [0, 100, 130] b)) ''srv'' =
      Some \<lparr>deaths = [100, 130], opened_at = Some 130\<rparr>"
proof -
  let ?b = "\<lparr>fast_threshold = 5, death_limit = 2, death_window = 60, open_cooldown = 60, tracked = []\<rparr>"
  have "dict_get (tracked (deaths_at ''srv'' [0, 100, 130] ?b)) ''srv'' =
      Some \<lparr>deaths = filter (\<lambda>u. last [0, 100, 130] - death_window ?b \<le> u) [0, 100, 130],
            opened_at = first_trip (death_limit ?b) (death_window ?b) [0, 100, 130]\<rparr>"
    by (rule breaker_sliding_window) (simp_all add: MAX_TRACKED_KEYS_def)
  then show ?thesis
    by (simp add: Let_def first_trip_def window_count_def upt_rec)
qed

text \<open>A misbehaving server isolates only its own slot: any number of deaths of other keys,
  while the table has room for them, changes no decision about this key.\<close>

theorem breaker_isolates_keys:
  assumes "k \<notin> (\<lambda>(k', u, t). k') ` set ds" "length (tracked b) + length ds \<le> MAX_TRACKED_KEYS"
  shows "fst (allow k now (fold (\<lambda>(k', u, t). record_death k' u t) ds b)) = fst (allow k now b)"
  using assms by (rule breaker_gate.judged_alone)

theorem breaker_isolates_keys_witness:
  "let b = \<lparr>fast_threshold = 5, death_limit = 1, death_window = 60, open_cooldown = 60, tracked = []\<rparr>
   in fst (allow ''good'' 11 (fold (\<lambda>(k', u, t). record_death k' u t) [(''bad'', 1, 10)] b))"
proof -
  let ?b = "\<lparr>fast_threshold = 5, death_limit = 1, death_window = 60, open_cooldown = 60, tracked = []\<rparr>"
  have "fst (allow ''good'' 11 (fold (\<lambda>(k', u, t). record_death k' u t) [(''bad'', 1, 10)] ?b))
      = fst (allow ''good'' 11 ?b)"
    by (rule breaker_isolates_keys) (simp_all add: MAX_TRACKED_KEYS_def)
  then show ?thesis by (simp add: Let_def allow_def)
qed

text \<open>The cap does not bound the table: when any number of distinct keys die once at the same
  moment, below the limit, every one of them is still tracked afterwards, however many exceed
  \<^const>\<open>MAX_TRACKED_KEYS\<close>, since pruning drops aged-out and OPEN keys only.\<close>

theorem breaker_table_outgrows_cap:
  assumes "distinct ks" "make_breaker thr lmt win cool = Inr b0" "1 < lmt"
  shows "length (tracked (fold (\<lambda>k. record_death k 0 now) ks b0)) = length ks"
proof -
  have "dict_keys (tracked (fold (\<lambda>k. record_death k 0 now) ks b0)) = dict_keys (tracked b0) @ ks"
    using assms by (intro crowd_kept) (auto simp: make_breaker_def split: if_splits)
  moreover have "tracked b0 = []" using assms(2) by (auto simp: make_breaker_def split: if_splits)
  ultimately show ?thesis by (metis append_Nil length_map list.map_disc_iff)
qed

theorem breaker_table_outgrows_cap_witness:
  "let b = \<lparr>fast_threshold = 5, death_limit = 5, death_window = 60, open_cooldown = 60, tracked = []\<rparr>;
       ks = map (\<lambda>i. replicate i CHR ''x'') [0..<600]
   in length (tracked (fold (\<lambda>k. record_death k 0 10) ks b)) = 600 \<and> MAX_TRACKED_KEYS < 600"
proof -
  let ?b = "\<lparr>fast_threshold = 5, death_limit = 5, death_window = 60, open_cooldown = 60, tracked = []\<rparr>"
  let ?ks = "map (\<lambda>i. replicate i CHR ''x'') [0..<600]"
  have "make_breaker 5 5 60 60 = Inr ?b" by (simp add: make_breaker_def)
  moreover have "distinct ?ks" by (simp add: distinct_map inj_on_def)
  ultimately have "length (tracked (fold (\<lambda>k. record_death k 0 10) ?ks ?b)) = length ?ks"
    by (intro breaker_table_outgrows_cap) auto
  moreover have "length ?ks = 600" by (simp only: length_map length_upt)
  ultimately show ?thesis by (simp only: Let_def MAX_TRACKED_KEYS_def) simp
qed

text \<open>Why the sliding window needs room in the table: when it is full of CLOSED keys that died within the window, the death that
  trips a new key makes pruning evict that key, the only OPEN one, so the trip is forgotten at once.\<close>

lemma prune_lone_open:
  assumes "filter (\<lambda>p. \<not> inactive (now - death_window b) (snd p)) (tracked b) = tracked b"
    and "map fst (filter (\<lambda>p. opened_at (snd p) \<noteq> None) (tracked b)) = [k]" "MAX_TRACKED_KEYS < length (tracked b)"
  shows "tracked (prune now b) = dict_pop k (tracked b)"
  unfolding prune_def Let_def assms(1,2) using assms(3) by simp

lemma full_table_forgets_a_trip:
  assumes "MAX_TRACKED_KEYS \<le> length (tracked b)" "dict_get (tracked b) k = None"
    and "\<forall>(j, s) \<in> set (tracked b). opened_at s = None \<and> (\<exists>t \<in> set (deaths s). now - death_window b \<le> t)"
    and "death_limit b \<le> 1" "uptime < fast_threshold b"
  shows "dict_get (tracked (record_death k uptime now b)) k = None"
proof -
  let ?n = "count_death b now \<lparr>deaths = [], opened_at = None\<rparr>"
  have s: "dict_set k ?n (tracked b) = tracked b @ [(k, ?n)]"
    using assms(2) by (intro dict_set_new) (auto simp: map_of_eq_None_iff)
  have n: "opened_at ?n = Some now" using assms(4) by (simp add: count_death_def Let_def)
  let ?d = "tracked b @ [(k, ?n)]"
  have "filter (\<lambda>p. \<not> inactive (now - death_window b) (snd p)) (tracked b) = tracked b"
    using assms(3) by (intro filter_True) (force simp: inactive_def)
  then have kept: "filter (\<lambda>p. \<not> inactive (now - death_window b) (snd p)) ?d = ?d"
    using n by (simp add: inactive_def del: filter_append) (simp add: inactive_def)
  have closed: "map fst (filter (\<lambda>p. opened_at (snd p) \<noteq> None) ?d) = [k]"
    using assms(3) n by (force simp: filter_empty_conv)
  have "tracked (prune now (b\<lparr>tracked := ?d\<rparr>)) = dict_pop k ?d"
    using prune_lone_open [of now "b\<lparr>tracked := ?d\<rparr>" k] kept closed assms(1) by (simp del: map_append filter_append)
  moreover have "record_death k uptime now b = prune now (b\<lparr>tracked := ?d\<rparr>)"
    using assms(1,2,5) by (simp add: record_death_def Let_def s del: dict_set_new)
  ultimately have "tracked (record_death k uptime now b) = dict_pop k ?d" by simp
  then show ?thesis by (simp only: dict_get_pop) simp
qed

end
