(* ===== verification/Json_Value.thy ===== *)
theory Json_Value imports Junction_Prelude begin

section \<open>JSON values and the coercion of untrusted numbers\<close>

text \<open>
  The values \<^verbatim>\<open>json.loads\<close> yields, as the loaders of the gateway see them. A JSON number
  without a fraction becomes a Python \<^verbatim>\<open>int\<close> of any size; one with a fraction or an
  exponent becomes a \<^verbatim>\<open>float\<close>, which may be infinite or NaN. \<open>float_of_int\<close> is
  \<^verbatim>\<open>float(n)\<close>: round to 53 bits, half to even, or \<^verbatim>\<open>OverflowError\<close> (\<open>None\<close>).
  \<open>finite_float\<close> models \<^verbatim>\<open>mcp_gateway/record_json.py\<close> and \<open>coerce_ts\<close> the helper of
  \<^verbatim>\<open>irq.py\<close> of the same purpose.
\<close>

datatype pyfloat = Finite rat | PosInf | NegInf | NotANumber

datatype json =
    JNull
  | JBool bool
  | JInt int
  | JFloat pyfloat
  | JStr string
  | JArr "json list"
  | JObj "(string \<times> json) list"

definition jget :: "string \<Rightarrow> json \<Rightarrow> json option" where
  "jget k j = (case j of JObj d \<Rightarrow> dict_get d k | _ \<Rightarrow> None)"

fun jtruthy :: "json \<Rightarrow> bool" where
  "jtruthy JNull = False"
| "jtruthy (JBool b) = b"
| "jtruthy (JInt n) = (n \<noteq> 0)"
| "jtruthy (JFloat f) = (f \<noteq> Finite 0)"
| "jtruthy (JStr s) = (s \<noteq> [])"
| "jtruthy (JArr xs) = (xs \<noteq> [])"
| "jtruthy (JObj d) = (d \<noteq> [])"

fun bit_len :: "nat \<Rightarrow> nat" where
  "bit_len n = (if n = 0 then 0 else Suc (bit_len (n div 2)))"

declare bit_len.simps [simp del]

definition round_half_even :: "nat \<Rightarrow> nat \<Rightarrow> nat" where
  "round_half_even m k = (let q = m div 2 ^ k; r = m mod 2 ^ k; half = 2 ^ (k - 1)
     in if r < half \<or> (r = half \<and> even q) then q * 2 ^ k else (q + 1) * 2 ^ k)"

definition float_of_nat :: "nat \<Rightarrow> nat option" where
  "float_of_nat m =
     (let v = (if bit_len m \<le> 53 then m else round_half_even m (bit_len m - 53))
      in if v < 2 ^ 1024 then Some v else None)"

definition float_of_int :: "int \<Rightarrow> rat option" where
  "float_of_int n = (case float_of_nat (nat \<bar>n\<bar>) of None \<Rightarrow> None
     | Some v \<Rightarrow> Some (of_int (sgn n) * of_nat v))"

text \<open>\<^verbatim>\<open>finite_float\<close>: the value as a finite float, or the fallback.\<close>

definition finite_float :: "json \<Rightarrow> rat \<Rightarrow> rat" where
  "finite_float v fallback =
     (case v of
        JInt n \<Rightarrow> (case float_of_int n of None \<Rightarrow> fallback | Some r \<Rightarrow> r)
      | JFloat (Finite r) \<Rightarrow> r
      | _ \<Rightarrow> fallback)"

text \<open>\<^verbatim>\<open>_coerce_ts\<close>: the same test with \<^verbatim>\<open>None\<close> for the unusable value.\<close>

definition coerce_ts :: "json \<Rightarrow> rat option" where
  "coerce_ts v =
     (case v of
        JInt n \<Rightarrow> float_of_int n
      | JFloat (Finite r) \<Rightarrow> Some r
      | _ \<Rightarrow> None)"

lemma coerce_ts_finite [simp]: "coerce_ts (JFloat (Finite r)) = Some r"
  by (simp add: coerce_ts_def)

lemma finite_float_coerce:
  "finite_float v fallback = (case coerce_ts v of None \<Rightarrow> fallback | Some r \<Rightarrow> r)"
  by (auto simp: finite_float_def coerce_ts_def split: json.splits pyfloat.splits option.splits)

lemma bit_len_0 [simp]: "bit_len 0 = 0"
  by (simp add: bit_len.simps)

lemma bit_len_less: "m < 2 ^ bit_len m"
proof (induction m rule: bit_len.induct)
  case (1 m)
  show ?case
  proof (cases "m = 0")
    case False
    with 1 have "m div 2 < 2 ^ bit_len (m div 2)" by blast
    then have "m < 2 * 2 ^ bit_len (m div 2)" by linarith
    with False show ?thesis by (subst bit_len.simps) simp
  qed simp
qed

lemma bit_len_le: "m < 2 ^ k \<Longrightarrow> bit_len m \<le> k"
proof (induction m arbitrary: k rule: bit_len.induct)
  case (1 m)
  show ?case
  proof (cases "m = 0")
    case False
    with 1 obtain k' where k: "k = Suc k'" by (cases k) auto
    with 1 have "m div 2 < 2 ^ k'" by simp
    with 1 False have "bit_len (m div 2) \<le> k'" by blast
    with False k show ?thesis by (subst bit_len.simps) simp
  qed simp
qed

lemma float_of_nat_exact: "m \<le> 2 ^ 53 - 1 \<Longrightarrow> float_of_nat m = Some m"
proof -
  assume "m \<le> 2 ^ 53 - 1"
  then have "bit_len m \<le> 53" by (intro bit_len_le) simp
  moreover have "m < 2 ^ 1024" using \<open>m \<le> 2 ^ 53 - 1\<close> by (rule le_less_trans) simp
  ultimately show ?thesis by (simp add: float_of_nat_def)
qed

lemma bit_len_lower: "0 < m \<Longrightarrow> 2 ^ (bit_len m - 1) \<le> m"
proof (induction m rule: bit_len.induct)
  case (1 m)
  show ?case
  proof (cases "m div 2 = 0")
    case True
    with 1 have "m = 1" by auto
    then show ?thesis by (simp add: bit_len.simps [of "Suc 0"])
  next
    case False
    with 1 have IH: "2 ^ (bit_len (m div 2) - 1) \<le> m div 2" by simp
    from False have "0 < bit_len (m div 2)" by (subst bit_len.simps) simp
    then have "2 ^ bit_len (m div 2) = 2 * (2::nat) ^ (bit_len (m div 2) - 1)"
      by (cases "bit_len (m div 2)") auto
    with IH have "2 ^ bit_len (m div 2) \<le> m" by linarith
    with 1 show ?thesis by (subst bit_len.simps) simp
  qed
qed

lemma float_of_nat_overflow: "2 ^ 1024 \<le> m \<Longrightarrow> float_of_nat m = None"
proof -
  assume m: "2 ^ 1024 \<le> m"
  define k where "k = bit_len m - 53"
  have big: "1025 \<le> bit_len m"
  proof (rule ccontr)
    assume "\<not> 1025 \<le> bit_len m"
    then have "(2::nat) ^ bit_len m \<le> 2 ^ 1024" by (intro power_increasing) auto
    with bit_len_less [of m] m show False by linarith
  qed
  have "0 < m" using m by (rule less_le_trans [rotated]) simp
  then have "2 ^ (bit_len m - 1) \<le> m" by (rule bit_len_lower)
  moreover have "bit_len m - 1 = 52 + k" using big by (simp add: k_def)
  ultimately have "2 ^ 52 * 2 ^ k \<le> m" by (simp only: power_add)
  then have q: "2 ^ 52 \<le> m div 2 ^ k" by (simp add: less_eq_div_iff_mult_less_eq)
  have "(2::nat) ^ 1024 \<le> 2 ^ (52 + k)"
    using big by (intro power_increasing) (auto simp: k_def)
  also have "\<dots> = 2 ^ 52 * 2 ^ k" by (rule power_add)
  also have "\<dots> \<le> m div 2 ^ k * 2 ^ k" using q by (rule mult_le_mono1)
  also have "\<dots> \<le> round_half_even m k" by (simp add: round_half_even_def Let_def)
  finally have "2 ^ 1024 \<le> round_half_even m k" .
  then show ?thesis using big by (simp add: float_of_nat_def flip: k_def)
qed

lemma coerce_ts_int_small: "\<bar>n\<bar> \<le> 2 ^ 53 - 1 \<Longrightarrow> coerce_ts (JInt n) = Some (of_int n)"
proof -
  assume n: "\<bar>n\<bar> \<le> 2 ^ 53 - 1"
  then have "nat \<bar>n\<bar> \<le> 2 ^ 53 - 1" by simp
  then have "float_of_nat (nat \<bar>n\<bar>) = Some (nat \<bar>n\<bar>)" by (rule float_of_nat_exact)
  moreover have "of_int (sgn n) * (of_nat (nat \<bar>n\<bar>) :: rat) = of_int n"
    by (simp add: sgn_if)
  ultimately show ?thesis by (simp add: coerce_ts_def float_of_int_def)
qed

lemma coerce_ts_int_huge: "2 ^ 1024 \<le> \<bar>n\<bar> \<Longrightarrow> coerce_ts (JInt n) = None"
proof -
  assume "2 ^ 1024 \<le> \<bar>n\<bar>"
  then have "2 ^ 1024 \<le> nat \<bar>n\<bar>" by (simp add: nat_le_iff le_nat_iff)
  then show ?thesis by (simp add: coerce_ts_def float_of_int_def float_of_nat_overflow)
qed

end
