(* ===== verification/Irq_Kernel.thy ===== *)
theory Irq_Kernel imports Json_Value begin

section \<open>The interrupt kernel of watch crons (\<^verbatim>\<open>irq.py\<close>)\<close>

text \<open>
  One tick of a watch: the probe has observed its subject, and \<^verbatim>\<open>run\<close> decides whether the
  agent is woken. The state file is a JSON value or unreadable (\<open>None\<close>); \<open>load_state\<close> coerces
  it, \<open>dump_state\<close> is what \<^verbatim>\<open>save_state\<close> writes. \<open>irq_io\<close> is the disk as one tick sees it:
  \<open>can_write n\<close> says whether its n-th write succeeds. The verdict is the exception \<^verbatim>\<open>run\<close>
  raises: \<open>Skip\<close>, \<open>Report\<close> or \<open>Done\<close>. The kernel's fixed prose is a constructor with the
  interpolated values; the text of the briefs is kept. \<^verbatim>\<open>time.time()\<close> is the argument \<open>now\<close>.
\<close>

subsection \<open>Observations, state and verdicts\<close>

datatype severity = WAKE | TERMINAL | NMI

record observation =
  obs_key :: string
  obs_severity :: severity
  obs_brief :: string

record tick =
  tick_epoch :: string
  observations :: "observation list"
  pending :: int
  fetch_ok :: bool
  tick_detail :: string

record watch_state =
  st_epoch :: "string option"
  st_alerted :: "(string, secs) dict option"
  st_errors :: "int option"
  st_coalesce_started :: "secs option"
  st_coalescing :: "(string, string) dict option"

definition empty_state :: watch_state where
  "empty_state = \<lparr>st_epoch = None, st_alerted = None, st_errors = None,
     st_coalesce_started = None, st_coalescing = None\<rparr>"

datatype skip_reason =
    ProbeFailed int
  | BlindDeduped int
  | Detail string
  | PendingCount int
  | WindowOpen int int nat int

datatype report_body =
    Inoperative string
  | Blind string int
  | Wake string

datatype verdict = Skip skip_reason | Report report_body | Done string

record irq_bounds =
  coalesce_secs :: secs
  coalesce_max_secs :: secs
  realert_secs :: secs
  max_consecutive_errors :: int

record irq_io =
  disk :: "json option"
  can_write :: "nat \<Rightarrow> bool"
  writes :: nat
  persist_ok :: bool

definition DEFAULT_REALERT_SECS :: secs where "DEFAULT_REALERT_SECS = 6 * 3600"
definition DEFAULT_MAX_CONSECUTIVE_ERRORS :: secs where "DEFAULT_MAX_CONSECUTIVE_ERRORS = 6"
definition DEFAULT_COALESCE_SECS :: secs where "DEFAULT_COALESCE_SECS = 240"
definition DEFAULT_COALESCE_MAX_SECS :: secs where "DEFAULT_COALESCE_MAX_SECS = 1800"
definition irq_MAX_LIST :: nat where "irq_MAX_LIST = 8"

subsection \<open>The state file\<close>

definition load_alerted :: "(string \<times> json) list \<Rightarrow> (string, secs) dict" where
  "load_alerted d = List.map_filter (\<lambda>(k, raw). map_option (Pair k) (coerce_ts raw)) d"

definition load_coalescing :: "(string \<times> json) list \<Rightarrow> (string, string) dict" where
  "load_coalescing d = List.map_filter (\<lambda>(k, b). case b of JStr s \<Rightarrow> Some (k, s) | _ \<Rightarrow> None) d"

definition load_state :: "json option \<Rightarrow> watch_state" where
  "load_state file = (case file of Some (JObj d) \<Rightarrow>
       \<lparr>st_epoch = (case dict_get d ''epoch'' of Some (JStr s) \<Rightarrow> Some s | _ \<Rightarrow> None),
        st_alerted = (case dict_get d ''alerted'' of Some (JObj a) \<Rightarrow> Some (load_alerted a) | _ \<Rightarrow> None),
        st_errors = (case dict_get d ''errors'' of Some (JInt n) \<Rightarrow> (if 0 \<le> n then Some n else None)
                     | _ \<Rightarrow> None),
        st_coalesce_started = (case dict_get d ''coalesce_started_at'' of Some v \<Rightarrow> coerce_ts v
                     | None \<Rightarrow> None),
        st_coalescing = (case dict_get d ''coalescing'' of Some (JObj w) \<Rightarrow> Some (load_coalescing w)
                     | _ \<Rightarrow> None)\<rparr>
     | _ \<Rightarrow> empty_state)"

definition opt_field :: "string \<Rightarrow> ('a \<Rightarrow> json) \<Rightarrow> 'a option \<Rightarrow> (string \<times> json) list" where
  "opt_field k f v = (case v of None \<Rightarrow> [] | Some x \<Rightarrow> [(k, f x)])"

definition dump_state :: "watch_state \<Rightarrow> json" where
  "dump_state s = JObj
     (opt_field ''epoch'' JStr (st_epoch s) @
      opt_field ''alerted'' (\<lambda>a. JObj (map (\<lambda>(k, t). (k, JFloat (Finite t))) a)) (st_alerted s) @
      opt_field ''errors'' JInt (st_errors s) @
      opt_field ''coalesce_started_at'' (\<lambda>t. JFloat (Finite t)) (st_coalesce_started s) @
      opt_field ''coalescing'' (\<lambda>w. JObj (map (\<lambda>(k, b). (k, JStr b)) w)) (st_coalescing s))"

text \<open>The nested \<^verbatim>\<open>persist()\<close> of \<^verbatim>\<open>run\<close>, over \<^verbatim>\<open>save_state\<close>.\<close>

definition persist :: "watch_state \<Rightarrow> irq_io \<Rightarrow> irq_io" where
  "persist s io = (let ok = can_write io (writes io) in
     io\<lparr>disk := (if ok then Some (dump_state s) else disk io), writes := Suc (writes io),
        persist_ok := persist_ok io \<and> ok\<rparr>)"

subsection \<open>Bounds\<close>

definition usable_bound :: "json \<Rightarrow> secs \<Rightarrow> secs" where
  "usable_bound raw dflt =
     (case coerce_ts raw of None \<Rightarrow> dflt | Some v \<Rightarrow> if v < 0 then dflt else v)"

text \<open>The arguments of \<^verbatim>\<open>run\<close> in the order coalesce, coalesce-max, realert, errors, and what
  the probe's \<^verbatim>\<open>tuning()\<close> returned (\<open>None\<close>: it raised).\<close>

definition effective_bounds :: "json \<Rightarrow> json \<Rightarrow> json \<Rightarrow> json \<Rightarrow> (string, json) dict option \<Rightarrow> irq_bounds" where
  "effective_bounds co comax re errs tuning =
     (let overrides = (case tuning of None \<Rightarrow> [] | Some d \<Rightarrow> d);
          co' = (case dict_get overrides ''coalesce_secs'' of None \<Rightarrow> co | Some v \<Rightarrow> v)
      in \<lparr>coalesce_secs = usable_bound co' DEFAULT_COALESCE_SECS,
          coalesce_max_secs = usable_bound comax DEFAULT_COALESCE_MAX_SECS,
          realert_secs = usable_bound re DEFAULT_REALERT_SECS,
          max_consecutive_errors = \<lfloor>usable_bound errs DEFAULT_MAX_CONSECUTIVE_ERRORS\<rfloor>\<rparr>)"

subsection \<open>Wake texts\<close>

definition nl2 :: string where "nl2 = [CHR 0x0A, CHR 0x0A]"

definition persist_warning :: string where
  "persist_warning = ''WARNING: the watch's state directory is unwritable, so alert '' @
     ''deduplication is degraded (repeats possible). Fix permissions on the '' @
     ''watch directory under the data home.''"

definition coalesced_brief :: "string list \<Rightarrow> string" where
  "coalesced_brief briefs =
     (let shown = take irq_MAX_LIST briefs;
          shown' = (if length shown < length briefs
                    then shown @ [''(+'' @ show_nat (length briefs - length shown) @ '' more)''] else shown)
      in join_with nl2 shown')"

definition with_warning :: "irq_io \<Rightarrow> string \<Rightarrow> string" where
  "with_warning io body = (if persist_ok io then body else body @ nl2 @ persist_warning)"

subsection \<open>One tick\<close>

text \<open>A failed observation: the error streak and the blind alert.\<close>

definition alert_fresh :: "irq_bounds \<Rightarrow> secs \<Rightarrow> secs option \<Rightarrow> bool" where
  "alert_fresh bd now ts =
     (case ts of None \<Rightarrow> False | Some t \<Rightarrow> 0 \<le> now - t \<and> now - t < realert_secs bd)"

definition alerted_of :: "watch_state \<Rightarrow> (string, secs) dict" where
  "alerted_of s = (case st_alerted s of None \<Rightarrow> [] | Some a \<Rightarrow> a)"

definition failed_tick :: "irq_bounds \<Rightarrow> string \<Rightarrow> secs \<Rightarrow> watch_state \<Rightarrow> irq_io \<Rightarrow> verdict \<times> irq_io" where
  "failed_tick bd subject now s io =
     (let errors = (case st_errors s of None \<Rightarrow> 0 | Some n \<Rightarrow> n) + 1;
          s = s\<lparr>st_errors := Some errors\<rparr>;
          io = persist s io
      in if \<not> persist_ok io then (Report (Inoperative subject), io)
         else if max_consecutive_errors bd \<le> errors then
           (if alert_fresh bd now (dict_get (alerted_of s) ''blind'')
            then (Skip (BlindDeduped errors), io)
            else let s = s\<lparr>st_alerted := Some (dict_set ''blind'' now (alerted_of s))\<rparr>;
                     io = persist s io
                 in (Report (Blind subject errors), io))
         else (Skip (ProbeFailed errors), io))"

text \<open>A recovered streak and a new epoch, before anything is evaluated.\<close>

definition recover :: "watch_state \<Rightarrow> watch_state" where
  "recover s = (case st_errors s of None \<Rightarrow> s
     | Some n \<Rightarrow> if n = 0 then s
        else s\<lparr>st_errors := Some 0, st_alerted := map_option (dict_pop ''blind'') (st_alerted s)\<rparr>)"

definition enter_epoch :: "tick \<Rightarrow> watch_state \<Rightarrow> watch_state" where
  "enter_epoch tk s =
     (if tick_epoch tk \<noteq> [] \<and> st_epoch s \<noteq> Some (tick_epoch tk)
      then \<lparr>st_epoch = Some (tick_epoch tk), st_alerted = Some [], st_errors = Some 0,
            st_coalesce_started = None, st_coalescing = None\<rparr>
      else s)"

definition should_alert :: "irq_bounds \<Rightarrow> secs \<Rightarrow> watch_state \<Rightarrow> string \<Rightarrow> bool" where
  "should_alert bd now s k = (\<not> alert_fresh bd now (dict_get (alerted_of s) k))"

definition mark_alerted :: "secs \<Rightarrow> string list \<Rightarrow> watch_state \<Rightarrow> watch_state" where
  "mark_alerted now ks s = s\<lparr>st_alerted := Some (fold (\<lambda>k. dict_set k now) ks (alerted_of s))\<rparr>"

definition quiet_skip :: "tick \<Rightarrow> verdict" where
  "quiet_skip tk = Skip (if tick_detail tk \<noteq> [] then Detail (tick_detail tk) else PendingCount (pending tk))"

definition fresh_wakes :: "irq_bounds \<Rightarrow> secs \<Rightarrow> watch_state \<Rightarrow> tick \<Rightarrow> (string, string) dict" where
  "fresh_wakes bd now s tk =
     fold (\<lambda>ob. dict_set (obs_key ob) (obs_brief ob))
       (filter (\<lambda>ob. obs_severity ob = WAKE \<and> should_alert bd now s (obs_key ob)) (observations tk)) []"

definition observed_wakes :: "tick \<Rightarrow> string set" where
  "observed_wakes tk = obs_key ` set (filter (\<lambda>ob. obs_severity ob = WAKE) (observations tk))"

definition next_window :: "irq_bounds \<Rightarrow> secs \<Rightarrow> watch_state \<Rightarrow> tick \<Rightarrow> (string, string) dict" where
  "next_window bd now s tk =
     fold (\<lambda>(k, b). dict_set k b) (fresh_wakes bd now s tk)
       (filter (\<lambda>p. fst p \<in> observed_wakes tk)
          (case st_coalescing s of None \<Rightarrow> [] | Some w \<Rightarrow> w))"

text \<open>The coalescing window: prune, extend, persist, then the fire condition.\<close>

definition window_tick :: "irq_bounds \<Rightarrow> secs \<Rightarrow> watch_state \<Rightarrow> tick \<Rightarrow> irq_io \<Rightarrow> verdict \<times> irq_io" where
  "window_tick bd now s tk io =
     (let window = next_window bd now s tk in
      if window = [] then
        (let s = s\<lparr>st_coalescing := None, st_coalesce_started := None\<rparr>
         in (quiet_skip tk, persist s io))
      else
        (let s = s\<lparr>st_coalescing := Some window,
                   st_coalesce_started := (case st_coalesce_started s of
                       None \<Rightarrow> Some now | Some t \<Rightarrow> if t = 0 then Some now else Some t)\<rparr>;
             io = persist s io;
             s = (case st_coalesce_started s of
                    None \<Rightarrow> s\<lparr>st_coalesce_started := Some now\<rparr>
                  | Some t \<Rightarrow> if now < t then s\<lparr>st_coalesce_started := Some now\<rparr> else s);
             started = (case st_coalesce_started s of None \<Rightarrow> now | Some t \<Rightarrow> t);
             elapsed = now - started;
             converged = (pending tk = 0)
         in if (coalesce_secs bd \<le> elapsed \<and> converged) \<or> coalesce_max_secs bd \<le> elapsed then
              (let s = (mark_alerted now (map fst window) s)\<lparr>st_coalescing := None,
                         st_coalesce_started := None\<rparr>;
                   io = persist s io
               in (Report (Wake (with_warning io (coalesced_brief (map snd window)))), io))
            else if \<not> persist_ok io then
              (Report (Wake (with_warning io (coalesced_brief (map snd window)))), io)
            else
              (Skip (WindowOpen \<lfloor>elapsed\<rfloor> \<lfloor>coalesce_secs bd\<rfloor> (length window) (pending tk)),
               persist s io)))"

definition settled_tick :: "irq_bounds \<Rightarrow> secs \<Rightarrow> watch_state \<Rightarrow> tick \<Rightarrow> irq_io \<Rightarrow> verdict \<times> irq_io" where
  "settled_tick bd now s tk io =
     (let s = s\<lparr>st_alerted := Some (alerted_of s)\<rparr>;
          terminal = filter (\<lambda>ob. obs_severity ob = TERMINAL) (observations tk)
      in if terminal \<noteq> [] then
           (let io = persist s io
            in (Done (with_warning io (coalesced_brief (filter (\<lambda>b. b \<noteq> []) (map obs_brief terminal)))), io))
         else
           (case find (\<lambda>ob. obs_severity ob = NMI \<and> should_alert bd now s (obs_key ob)) (observations tk) of
              Some ob \<Rightarrow>
                (let io = persist (mark_alerted now [obs_key ob] s) io
                 in (Report (Wake (with_warning io (obs_brief ob))), io))
            | None \<Rightarrow>
                (if coalesce_secs bd \<le> 0 then
                   (let fresh = fresh_wakes bd now s tk in
                    if fresh \<noteq> [] then
                      (let io = persist (mark_alerted now (map fst fresh) s) io
                       in (Report (Wake (with_warning io (coalesced_brief (map snd fresh)))), io))
                    else (quiet_skip tk, persist s io))
                 else window_tick bd now s tk io)))"

definition run_tick :: "irq_bounds \<Rightarrow> string \<Rightarrow> secs \<Rightarrow> tick \<Rightarrow> irq_io \<Rightarrow> verdict \<times> irq_io" where
  "run_tick bd subject now tk io =
     (let s = load_state (disk io) in
      if \<not> fetch_ok tk then failed_tick bd subject now s io
      else settled_tick bd now (enter_epoch tk (recover s)) tk io)"

text \<open>The whole of \<^verbatim>\<open>run\<close>: \<open>identity\<close> is the probe's identity, \<open>Inl\<close> the text of the
  \<^verbatim>\<open>ValueError\<close> it raised.\<close>

definition irq_run :: "string + string \<times> string \<Rightarrow> irq_bounds \<Rightarrow> secs \<Rightarrow> tick \<Rightarrow> irq_io \<Rightarrow> verdict \<times> irq_io" where
  "irq_run ident bd now tk io =
     (case ident of
        Inl err \<Rightarrow> (Done (''watch: '' @ err @ ''; removing the watch''), io)
      | Inr (kind, subj) \<Rightarrow> run_tick bd (kind @ '' '' @ subj) now tk io)"

subsection \<open>Labels\<close>

text \<open>\<^verbatim>\<open>sanitize_label\<close>: the characters of the class \<^verbatim>\<open>[\w .,:()\[\]/+#-]\<close> stay, all
  others become an underscore, at most 120 are kept; a value that is not a string folds to empty.\<close>

definition safe_label_char :: "char \<Rightarrow> bool" where
  "safe_label_char c = (py_isword c \<or> c \<in> set '' .,:()[]/+#-'')"

definition sanitize_label :: "json \<Rightarrow> string" where
  "sanitize_label v = (case v of
     JStr s \<Rightarrow> take 120 (map (\<lambda>c. if safe_label_char c then c else CHR ''_'') s)
   | _ \<Rightarrow> [])"

lemma underscore_safe [simp]: "safe_label_char CHR ''_''"
  by (simp add: safe_label_char_def py_isword_def)

lemma sanitize_label_safe: "\<forall>c \<in> set (sanitize_label v). safe_label_char c"
  by (auto simp: sanitize_label_def split: json.splits dest!: in_set_takeD)

subsection \<open>The state file survives a round trip\<close>

definition state_wf :: "watch_state \<Rightarrow> bool" where
  "state_wf s = (case st_errors s of None \<Rightarrow> True | Some n \<Rightarrow> 0 \<le> n)"

lemma load_alerted_dump [simp]: "load_alerted (map (\<lambda>(k, t). (k, JFloat (Finite t))) a) = a"
  unfolding load_alerted_def by (induction a) (auto simp: List.map_filter_simps)

lemma load_coalescing_dump [simp]: "load_coalescing (map (\<lambda>(k, b). (k, JStr b)) w) = w"
  unfolding load_coalescing_def by (induction w) (auto simp: List.map_filter_simps)

lemma load_dump: "state_wf s \<Longrightarrow> load_state (Some (dump_state s)) = s"
  by (cases s; cases "st_epoch s"; cases "st_alerted s"; cases "st_errors s";
      cases "st_coalesce_started s"; cases "st_coalescing s")
     (auto simp: load_state_def dump_state_def opt_field_def state_wf_def)

lemma load_state_wf: "state_wf (load_state f)"
  by (auto simp: load_state_def state_wf_def empty_state_def split: option.splits json.splits)

lemma recover_wf: "state_wf s \<Longrightarrow> state_wf (recover s)"
  by (auto simp: recover_def state_wf_def split: option.splits)

lemma enter_epoch_wf: "state_wf s \<Longrightarrow> state_wf (enter_epoch tk s)"
  by (auto simp: enter_epoch_def state_wf_def)

lemma persist_simps [simp]:
  "persist_ok (persist s io) = (persist_ok io \<and> can_write io (writes io))"
  "writes (persist s io) = Suc (writes io)"
  "can_write (persist s io) = can_write io"
  "disk (persist s io) = (if can_write io (writes io) then Some (dump_state s) else disk io)"
  by (simp_all add: persist_def Let_def)

subsection \<open>Masked keys stay quiet\<close>

text \<open>A key is masked at a moment when its alert is younger than the re-alert window. A process
  starts each tick with no write done yet.\<close>

definition start_tick :: "(nat \<Rightarrow> bool) \<Rightarrow> irq_io \<Rightarrow> irq_io" where
  "start_tick cw io = io\<lparr>can_write := cw, writes := 0, persist_ok := True\<rparr>"

fun watch_run :: "irq_bounds \<Rightarrow> string \<Rightarrow> (secs \<times> tick \<times> (nat \<Rightarrow> bool)) list \<Rightarrow> irq_io \<Rightarrow> verdict list \<times> irq_io" where
  "watch_run bd subject [] io = ([], io)"
| "watch_run bd subject ((now, tk, cw) # rest) io =
     (let (v, io1) = run_tick bd subject now tk (start_tick cw io);
          (vs, io2) = watch_run bd subject rest io1
      in (v # vs, io2))"

definition masked_tick :: "irq_bounds \<Rightarrow> watch_state \<Rightarrow> secs \<times> tick \<Rightarrow> bool" where
  "masked_tick bd s nt = (case nt of (now, tk) \<Rightarrow>
     fetch_ok tk \<and> (tick_epoch tk = [] \<or> st_epoch s = Some (tick_epoch tk)) \<and>
     (\<forall>ob \<in> set (observations tk). obs_severity ob \<noteq> TERMINAL \<and> obs_key ob \<noteq> ''blind'' \<and>
        \<not> should_alert bd now s (obs_key ob)))"

text \<open>What the masked ticks read of a state: its epoch, its alerts but for the kernel's own,
  and that no window is open.\<close>

definition same_mask :: "watch_state \<Rightarrow> watch_state \<Rightarrow> bool" where
  "same_mask s s' \<longleftrightarrow> st_epoch s' = st_epoch s \<and> st_coalescing s' = None \<and>
     (\<forall>k. k \<noteq> ''blind'' \<longrightarrow> dict_get (alerted_of s') k = dict_get (alerted_of s) k)"

lemma masked_tick_same: "masked_tick bd s nt \<Longrightarrow> same_mask s s' \<Longrightarrow> masked_tick bd s' nt"
  by (auto simp: masked_tick_def same_mask_def should_alert_def split: prod.splits)

lemma same_mask_recover: "same_mask s s' \<Longrightarrow> same_mask s (recover s')"
  by (auto simp: same_mask_def recover_def alerted_of_def dict_simps split: option.splits)

lemma enter_same_epoch:
  "tick_epoch tk = [] \<or> st_epoch s = Some (tick_epoch tk) \<Longrightarrow> enter_epoch tk s = s"
  by (auto simp: enter_epoch_def)

lemma masked_find_none:
  "\<forall>ob \<in> set obs. \<not> P ob \<Longrightarrow> find P obs = None"
  by (induction obs) auto

lemma masked_step:
  assumes "masked_tick bd s (now, tk)" "same_mask s (load_state (disk io))"
  shows "\<exists>r. fst (run_tick bd subject now tk io) = Skip r"
    and "same_mask s (load_state (disk (snd (run_tick bd subject now tk io))))"
proof -
  define s1 where "s1 = recover (load_state (disk io))"
  define s2 where "s2 = s1\<lparr>st_alerted := Some (alerted_of s1)\<rparr>"
  have sm: "same_mask s s1" unfolding s1_def by (rule same_mask_recover) (rule assms(2))
  have wf: "state_wf s1" unfolding s1_def by (intro recover_wf load_state_wf)
  have al: "alerted_of s2 = alerted_of s1" by (simp add: s2_def alerted_of_def)
  have sm2: "same_mask s s2" using sm by (simp add: same_mask_def al) (simp add: s2_def)
  have mk: "masked_tick bd s2 (now, tk)" by (rule masked_tick_same [OF assms(1) sm2])
  have ep: "enter_epoch tk s1 = s1"
    using masked_tick_same [OF assms(1) sm] by (intro enter_same_epoch) (simp add: masked_tick_def)
  have run: "run_tick bd subject now tk io = settled_tick bd now s1 tk io"
    using assms(1) ep by (simp add: run_tick_def masked_tick_def Let_def flip: s1_def)
  have noterm: "filter (\<lambda>ob. obs_severity ob = TERMINAL) (observations tk) = []"
    using assms(1) by (auto simp: masked_tick_def filter_empty_conv)
  have nonmi: "find (\<lambda>ob. obs_severity ob = NMI \<and> should_alert bd now s2 (obs_key ob)) (observations tk) = None"
    using mk by (intro masked_find_none) (auto simp: masked_tick_def)
  have nofresh: "fresh_wakes bd now s2 tk = []"
    using mk by (auto simp: masked_tick_def fresh_wakes_def intro: arg_cong [where f = "\<lambda>l. fold _ l []"])
  have nowin: "next_window bd now s2 tk = []"
    using sm2 by (simp add: next_window_def nofresh same_mask_def)
  define s3 where "s3 = (if coalesce_secs bd \<le> 0 then s2
      else s2\<lparr>st_coalescing := None, st_coalesce_started := None\<rparr>)"
  have eq: "settled_tick bd now s1 tk io = (quiet_skip tk, persist s3 io)"
    by (simp add: settled_tick_def Let_def flip: s2_def)
       (simp add: noterm nonmi nofresh window_tick_def nowin Let_def s3_def)
  have wf3: "state_wf s3" using wf by (simp add: s3_def s2_def state_wf_def)
  have sm3: "same_mask s s3" using sm2 by (simp add: s3_def same_mask_def alerted_of_def)
  show "\<exists>r. fst (run_tick bd subject now tk io) = Skip r"
    unfolding run eq by (simp add: quiet_skip_def)
  show "same_mask s (load_state (disk (snd (run_tick bd subject now tk io))))"
    unfolding run eq using wf3 sm3 assms(2) by (simp add: load_dump)
qed

lemma disk_start_tick [simp]: "disk (start_tick cw io) = disk io"
  by (simp add: start_tick_def)

lemma masked_run:
  assumes "\<forall>(now, tk, cw) \<in> set nts. masked_tick bd s (now, tk)" "same_mask s (load_state (disk io))"
  shows "\<forall>v \<in> set (fst (watch_run bd subject nts io)). \<exists>r. v = Skip r"
  using assms
proof (induction nts arbitrary: io)
  case (Cons nt nts)
  obtain now tk cw where nt: "nt = (now, tk, cw)" by (metis prod_cases3)
  obtain v io1 where r: "run_tick bd subject now tk (start_tick cw io) = (v, io1)" by (meson surj_pair)
  have mk: "masked_tick bd s (now, tk)" using Cons.prems(1) nt by simp
  have sm: "same_mask s (load_state (disk (start_tick cw io)))" using Cons.prems(2) by simp
  note step = masked_step [OF mk sm, of subject, unfolded r fst_conv snd_conv]
  have "\<forall>v \<in> set (fst (watch_run bd subject nts io1)). \<exists>r. v = Skip r"
    using Cons.prems(1) step(2) by (intro Cons.IH) auto
  with step(1) show ?case
    by (simp add: nt r split: prod.split)
qed simp

subsection \<open>What a coalesced wake contains\<close>

lemma fold_obs_keys:
  "fst ` set (fold (\<lambda>ob. dict_set (obs_key ob) (obs_brief ob)) obs d) = fst ` set d \<union> obs_key ` set obs"
  by (induction obs arbitrary: d) (auto simp: AList.dom_update)

lemma fold_pair_keys:
  "fst ` set (fold (\<lambda>(k, b). dict_set k b) kvs d) = fst ` set d \<union> fst ` set kvs"
proof (induction kvs arbitrary: d)
  case (Cons p kvs)
  then show ?case by (cases p) (simp add: AList.dom_update)
qed simp

lemma fresh_wakes_keys:
  "fst ` set (fresh_wakes bd now s tk) =
     {obs_key ob | ob. ob \<in> set (observations tk) \<and> obs_severity ob = WAKE \<and> should_alert bd now s (obs_key ob)}"
  by (auto simp: fresh_wakes_def fold_obs_keys)

lemma next_window_keys:
  "fst ` set (next_window bd now s tk) =
     {k \<in> observed_wakes tk. k \<in> fst ` set (case st_coalescing s of None \<Rightarrow> [] | Some w \<Rightarrow> w)
        \<or> should_alert bd now s k}"
  by (auto simp: next_window_def fold_pair_keys fresh_wakes_keys observed_wakes_def rev_image_eqI
      split: option.splits)

lemma fold_set_get:
  "dict_get (fold (\<lambda>k. dict_set k v) ks d) k = (if k \<in> set ks then Some v else dict_get d k)"
  by (induction ks arbitrary: d) (auto simp: dict_simps)

lemma alerted_mark: "dict_get (alerted_of (mark_alerted now ks s)) k =
    (if k \<in> set ks then Some now else dict_get (alerted_of s) k)"
  by (simp add: alerted_of_def mark_alerted_def fold_set_get)

lemma alerted_default [simp]: "alerted_of (s\<lparr>st_alerted := Some (alerted_of s)\<rparr>) = alerted_of s"
  by (simp add: alerted_of_def)

lemma should_alert_default [simp]:
  "should_alert bd now (s\<lparr>st_alerted := Some (alerted_of s)\<rparr>) = should_alert bd now s"
  by (simp add: should_alert_def fun_eq_iff)

subsection \<open>When a settled tick wakes\<close>

definition quiet_front :: "irq_bounds \<Rightarrow> secs \<Rightarrow> watch_state \<Rightarrow> tick \<Rightarrow> bool" where
  "quiet_front bd now s tk \<longleftrightarrow> (\<forall>ob \<in> set (observations tk). obs_severity ob \<noteq> TERMINAL \<and>
     (obs_severity ob = NMI \<longrightarrow> \<not> should_alert bd now s (obs_key ob)))"

lemma settled_quiet_front:
  assumes "quiet_front bd now s tk" "0 < coalesce_secs bd"
  shows "settled_tick bd now s tk io = window_tick bd now (s\<lparr>st_alerted := Some (alerted_of s)\<rparr>) tk io"
proof -
  have "filter (\<lambda>ob. obs_severity ob = TERMINAL) (observations tk) = []"
    using assms by (auto simp: quiet_front_def filter_empty_conv)
  moreover have "find (\<lambda>ob. obs_severity ob = NMI \<and> should_alert bd now s (obs_key ob)) (observations tk) = None"
    using assms by (intro masked_find_none) (auto simp: quiet_front_def)
  ultimately show ?thesis using assms(2) by (simp add: settled_tick_def)
qed

lemma settled_never_silent:
  assumes "\<And>n. \<not> can_write io n" "ob \<in> set (observations tk)"
    and "obs_severity ob = TERMINAL \<or> should_alert bd now s (obs_key ob)"
  shows "\<not> (\<exists>r. fst (settled_tick bd now s tk io) = Skip r)"
proof (cases "\<exists>ob \<in> set (observations tk). obs_severity ob = TERMINAL")
  case True
  then have "filter (\<lambda>ob. obs_severity ob = TERMINAL) (observations tk) \<noteq> []"
    by (auto simp: filter_empty_conv)
  then show ?thesis by (simp add: settled_tick_def Let_def)
next
  case False
  then have noterm: "filter (\<lambda>ob. obs_severity ob = TERMINAL) (observations tk) = []"
    by (auto simp: filter_empty_conv)
  define s1 where "s1 = s\<lparr>st_alerted := Some (alerted_of s)\<rparr>"
  have sa: "should_alert bd now s1 = should_alert bd now s" by (simp add: s1_def)
  show ?thesis
  proof (cases "find (\<lambda>ob. obs_severity ob = NMI \<and> should_alert bd now s (obs_key ob)) (observations tk)")
    case (Some ob')
    then show ?thesis by (simp add: settled_tick_def Let_def noterm sa flip: s1_def)
  next
    case None
    then have "obs_severity ob \<noteq> NMI" using assms(2,3) False by (auto simp: find_None_iff)
    then have wk: "obs_severity ob = WAKE" using assms(2) False by (cases "obs_severity ob") auto
    then have al: "should_alert bd now s1 (obs_key ob)" using assms(3) by (simp add: sa)
    have fw: "fresh_wakes bd now s1 tk \<noteq> []"
      using wk al assms(2) fresh_wakes_keys [of bd now s1 tk] by force
    have nw: "next_window bd now s1 tk \<noteq> []"
      using wk al assms(2) next_window_keys [of bd now s1 tk]
      by (auto simp: observed_wakes_def)
    have "\<not> (\<exists>r. fst (window_tick bd now s1 tk io) = Skip r)"
      using nw assms(1) by (simp add: window_tick_def Let_def)
    then show ?thesis
      using None fw by (simp add: settled_tick_def Let_def noterm sa flip: s1_def)
  qed
qed

subsection \<open>An open window reaches its wake\<close>

text \<open>The verdict of a tick for the anomaly k: the watch is over, or the wake is the one of the whole window, k in it. The
  window is the one the tick computes from the state on disk.\<close>

definition wakes_with :: "irq_bounds \<Rightarrow> string \<Rightarrow> secs \<Rightarrow> tick \<Rightarrow> watch_state \<Rightarrow> verdict \<Rightarrow> bool" where
  "wakes_with bd k now tk s v \<longleftrightarrow> (\<exists>d. v = Done d) \<or>
     (k \<in> fst ` set (next_window bd now s tk) \<and>
      (\<exists>io. v = Report (Wake (with_warning io (coalesced_brief (map snd (next_window bd now s tk)))))))"

definition entered :: "tick \<Rightarrow> irq_io \<Rightarrow> watch_state" where
  "entered tk io = enter_epoch tk (recover (load_state (disk io)))"

definition tick_wakes :: "irq_bounds \<Rightarrow> string \<Rightarrow> string \<Rightarrow> secs \<Rightarrow> tick \<Rightarrow> irq_io \<Rightarrow> bool" where
  "tick_wakes bd subject k now tk io = wakes_with bd k now tk (entered tk io) (fst (run_tick bd subject now tk io))"

definition window_open :: "string option \<Rightarrow> secs \<Rightarrow> string \<Rightarrow> watch_state \<Rightarrow> bool" where
  "window_open e t k s \<longleftrightarrow> st_epoch s = e \<and> st_coalesce_started s = Some t \<and>
     (\<exists>w. st_coalescing s = Some w \<and> k \<in> fst ` set w)"

lemma window_open_wf_persist:
  assumes "state_wf s" "window_open e t k s" "window_open e t k (load_state (disk io))"
  shows "window_open e t k (load_state (disk (persist s io)))"
  using assms by (simp add: load_dump)

lemma window_open_recover: "window_open e t k s \<Longrightarrow> window_open e t k (recover s)"
  by (auto simp: window_open_def recover_def split: option.splits)

lemma window_open_failed:
  assumes "state_wf s" "window_open e t k s" "window_open e t k (load_state (disk io))"
  shows "window_open e t k (load_state (disk (snd (failed_tick bd subject now s io))))"
proof -
  have n: "0 \<le> (case st_errors s of None \<Rightarrow> 0 | Some n \<Rightarrow> n) + 1"
    using assms(1) by (auto simp: state_wf_def split: option.splits)
  show ?thesis
    using assms n by (auto simp: failed_tick_def Let_def load_dump state_wf_def window_open_def)
qed

lemma window_open_next:
  assumes "window_open e t k s" "k \<in> observed_wakes tk"
  shows "k \<in> fst ` set (next_window bd now s tk)"
  using assms by (auto simp: next_window_keys window_open_def)

lemma window_tick_open:
  assumes wf: "state_wf s" and op: "window_open e t k s" and "k \<in> observed_wakes tk" "0 < t" "t \<le> now"
  shows "wakes_with bd k now tk s (fst (window_tick bd now s tk io)) \<or>
      window_open e t k (load_state (disk (snd (window_tick bd now s tk io))))"
    and "coalesce_max_secs bd \<le> now - t \<Longrightarrow> wakes_with bd k now tk s (fst (window_tick bd now s tk io))"
proof -
  define w where "w = next_window bd now s tk"
  have k: "k \<in> fst ` set w" unfolding w_def by (rule window_open_next [OF op assms(3)])
  define s1 where "s1 = s\<lparr>st_coalescing := Some w, st_coalesce_started := Some t\<rparr>"
  have s1: "state_wf s1" "window_open e t k s1" "st_coalesce_started s1 = Some t"
    using wf op k by (auto simp: s1_def state_wf_def window_open_def)
  have st: "(case st_coalesce_started s of None \<Rightarrow> Some now | Some t \<Rightarrow> if t = 0 then Some now else Some t) = Some t"
    using op assms(4) by (simp add: window_open_def)
  let ?fires = "(coalesce_secs bd \<le> now - t \<and> pending tk = 0) \<or> coalesce_max_secs bd \<le> now - t \<or>
      \<not> persist_ok (persist s1 io)"
  have fire: "wakes_with bd k now tk s (fst (window_tick bd now s tk io))" if ?fires
    using that k assms(5) unfolding wakes_with_def
    by (auto simp: window_tick_def Let_def w_def [symmetric] st s1_def [symmetric] s1(3))
  have skip: "snd (window_tick bd now s tk io) = persist s1 (persist s1 io)" if "\<not> ?fires"
    using that k assms(5)
    by (auto simp: window_tick_def Let_def w_def [symmetric] st s1_def [symmetric] s1(3))
  show "wakes_with bd k now tk s (fst (window_tick bd now s tk io)) \<or>
      window_open e t k (load_state (disk (snd (window_tick bd now s tk io))))"
  proof (cases ?fires)
    case False
    then show ?thesis using s1(1,2) by (simp add: skip load_dump)
  qed (use fire in simp)
  show "wakes_with bd k now tk s (fst (window_tick bd now s tk io))" if "coalesce_max_secs bd \<le> now - t"
    using fire that by simp
qed

lemma verdict_any_disk:
  "fst (settled_tick bd now s tk (io\<lparr>disk := d\<rparr>)) = fst (settled_tick bd now s tk io)"
  by (simp add: settled_tick_def window_tick_def with_warning_def Let_def split: option.split)

lemma next_window_default [simp]:
  "next_window bd now (s\<lparr>st_alerted := Some (alerted_of s)\<rparr>) tk = next_window bd now s tk"
  by (simp add: next_window_def fresh_wakes_def)

text \<open>An urgent anomaly goes first and leaves the window as it is.\<close>

lemma settled_tick_open:
  assumes wf: "state_wf s" and op: "window_open e t k s" and "k \<in> observed_wakes tk" "0 < t" "t \<le> now"
    and "0 < coalesce_secs bd" "window_open e t k (load_state (disk io))"
  shows "wakes_with bd k now tk s (fst (settled_tick bd now s tk io)) \<or>
      window_open e t k (load_state (disk (snd (settled_tick bd now s tk io))))"
    and "coalesce_max_secs bd \<le> now - t \<Longrightarrow> \<forall>ob \<in> set (observations tk). obs_severity ob \<noteq> NMI \<Longrightarrow>
      wakes_with bd k now tk s (fst (settled_tick bd now s tk io))"
proof -
  define s1 where "s1 = s\<lparr>st_alerted := Some (alerted_of s)\<rparr>"
  have s1: "state_wf s1" "window_open e t k s1" "wakes_with bd k now tk s1 = wakes_with bd k now tk s"
    using wf op by (auto simp: s1_def state_wf_def window_open_def wakes_with_def fun_eq_iff)
  have nmi: "window_open e t k (load_state (disk (persist (mark_alerted now ks s1) io)))" for ks
    using s1 assms(7) by (intro window_open_wf_persist) (auto simp: state_wf_def window_open_def mark_alerted_def)
  have over: "wakes_with bd k now tk s (Done d)" for d by (simp add: wakes_with_def)
  note w = window_tick_open [OF s1(1,2) assms(3-5), of bd io, unfolded s1(3)]
  show "wakes_with bd k now tk s (fst (settled_tick bd now s tk io)) \<or>
      window_open e t k (load_state (disk (snd (settled_tick bd now s tk io))))"
    using w(1) assms(6) nmi over
    by (simp add: settled_tick_def Let_def flip: s1_def split: option.split)
  assume c: "coalesce_max_secs bd \<le> now - t" and n: "\<forall>ob \<in> set (observations tk). obs_severity ob \<noteq> NMI"
  have "find (\<lambda>ob. obs_severity ob = NMI \<and> should_alert bd now s1 (obs_key ob)) (observations tk) = None"
    using n by (auto simp: find_None_iff)
  then show "wakes_with bd k now tk s (fst (settled_tick bd now s tk io))"
    using w(2) [OF c] assms(6) over by (simp add: settled_tick_def Let_def flip: s1_def)
qed

text \<open>A tick that keeps a window alive: the observation failed, or it still sees the anomaly.\<close>

definition keeps_window :: "string option \<Rightarrow> secs \<Rightarrow> string \<Rightarrow> secs \<times> tick \<Rightarrow> bool" where
  "keeps_window e t k nt = (case nt of (now, tk) \<Rightarrow> t \<le> now \<and>
     (fetch_ok tk \<longrightarrow> k \<in> observed_wakes tk \<and> (tick_epoch tk = [] \<or> e = Some (tick_epoch tk))))"

lemma run_tick_open:
  assumes op: "window_open e t k (load_state (disk io))" and kw: "keeps_window e t k (now, tk)"
    and "0 < t" "0 < coalesce_secs bd"
  shows "fetch_ok tk \<and> tick_wakes bd subject k now tk io \<or>
      window_open e t k (load_state (disk (snd (run_tick bd subject now tk io))))"
    and "fetch_ok tk \<Longrightarrow> coalesce_max_secs bd \<le> now - t \<Longrightarrow> \<forall>ob \<in> set (observations tk). obs_severity ob \<noteq> NMI \<Longrightarrow>
      tick_wakes bd subject k now tk io"
proof -
  define s where "s = load_state (disk io)"
  have s: "state_wf s" "window_open e t k s" using op by (auto simp: s_def load_state_wf)
  have r: "state_wf (recover s)" "window_open e t k (recover s)"
    using s by (auto intro: recover_wf window_open_recover)
  have ep: "fetch_ok tk \<Longrightarrow> enter_epoch tk (recover s) = recover s"
    using r(2) kw by (intro enter_same_epoch) (auto simp: window_open_def keeps_window_def)
  have obs: "fetch_ok tk \<Longrightarrow> k \<in> observed_wakes tk" "t \<le> now" using kw by (auto simp: keeps_window_def)
  note st = settled_tick_open [OF r obs(1) assms(3) obs(2) assms(4) op]
  show "fetch_ok tk \<and> tick_wakes bd subject k now tk io \<or>
      window_open e t k (load_state (disk (snd (run_tick bd subject now tk io))))"
    using st(1) window_open_failed [OF s, of io] op
    by (auto simp: run_tick_def tick_wakes_def entered_def Let_def ep simp flip: s_def)
  show "tick_wakes bd subject k now tk io"
    if "fetch_ok tk" "coalesce_max_secs bd \<le> now - t" "\<forall>ob \<in> set (observations tk). obs_severity ob \<noteq> NMI"
    using st(2) [OF that] that by (simp add: run_tick_def tick_wakes_def entered_def Let_def ep flip: s_def)
qed

lemma watch_run_open:
  assumes "window_open e t k (load_state (disk io))" "0 < t" "0 < coalesce_secs bd"
    and "\<forall>(now, tk, cw) \<in> set nts. keeps_window e t k (now, tk)"
    and "\<exists>(now, tk, cw) \<in> set nts. fetch_ok tk \<and> coalesce_max_secs bd \<le> now - t \<and>
      (\<forall>ob \<in> set (observations tk). obs_severity ob \<noteq> NMI)"
  shows "\<exists>earlier now tk cw later. nts = earlier @ (now, tk, cw) # later \<and> fetch_ok tk \<and>
    tick_wakes bd subject k now tk (start_tick cw (snd (watch_run bd subject earlier io)))"
  using assms(1,4,5)
proof (induction nts arbitrary: io)
  case (Cons nt nts)
  obtain now tk cw where nt: "nt = (now, tk, cw)" by (metis prod_cases3)
  have op: "window_open e t k (load_state (disk (start_tick cw io)))" using Cons.prems(1) by simp
  have kw: "keeps_window e t k (now, tk)" using Cons.prems(2) nt by simp
  note step = run_tick_open [OF op kw assms(2,3), of subject]
  define io1 where "io1 = snd (run_tick bd subject now tk (start_tick cw io))"
  show ?case
  proof (cases "fetch_ok tk \<and> tick_wakes bd subject k now tk (start_tick cw io)")
    case True
    then show ?thesis by (intro exI [of _ "[]"]) (auto simp: nt)
  next
    case False
    then have "window_open e t k (load_state (disk io1))" using step(1) unfolding io1_def by blast
    moreover have "\<exists>(now, tk, cw) \<in> set nts. fetch_ok tk \<and> coalesce_max_secs bd \<le> now - t \<and>
        (\<forall>ob \<in> set (observations tk). obs_severity ob \<noteq> NMI)"
      using Cons.prems(3) False step(2) nt by auto
    ultimately obtain earlier n' tk' cw' later where i: "nts = earlier @ (n', tk', cw') # later" "fetch_ok tk'"
        "tick_wakes bd subject k n' tk' (start_tick cw' (snd (watch_run bd subject earlier io1)))"
      using Cons.IH [of io1] Cons.prems(2) by auto
    moreover have "snd (watch_run bd subject (nt # earlier) io) = snd (watch_run bd subject earlier io1)"
      by (simp add: nt io1_def case_prod_beta)
    ultimately have "nt # nts = (nt # earlier) @ (n', tk', cw') # later \<and> fetch_ok tk' \<and>
        tick_wakes bd subject k n' tk' (start_tick cw' (snd (watch_run bd subject (nt # earlier) io)))"
      by simp
    then show ?thesis by blast
  qed
qed simp

subsection \<open>Properties\<close>

text \<open>C1. A delayed wake is never lost. Once a coalescing window has opened at time t with the anomaly k, take any further
  ticks of the watch in which each successful one still observes k, in the same epoch (an anomaly that is gone is
  dropped from the window, and a new epoch forgets all), while observations fail, the process restarts, writes fail at any point
  and urgent anomalies are reported in between. If one successful tick that sees nothing urgent lies
  \<^verbatim>\<open>coalesce_max_secs\<close> after t, then some successful tick reports the wake of the window it has,
  k included, or ends the watch. Neither the count of pending rows nor a floor above the cap can hold it back.\<close>

theorem irq_wake_never_lost:
  assumes "window_open e t k (load_state (disk io))" "0 < t" "0 < coalesce_secs bd"
    and "\<forall>(now, tk, cw) \<in> set nts. keeps_window e t k (now, tk)"
    and "\<exists>(now, tk, cw) \<in> set nts. fetch_ok tk \<and> coalesce_max_secs bd \<le> now - t \<and>
      (\<forall>ob \<in> set (observations tk). obs_severity ob \<noteq> NMI)"
  shows "\<exists>earlier now tk cw later. nts = earlier @ (now, tk, cw) # later \<and> fetch_ok tk \<and>
    tick_wakes bd subject k now tk (start_tick cw (snd (watch_run bd subject earlier io)))"
  using assms by (rule watch_run_open)

definition ex_bounds :: irq_bounds where
  "ex_bounds = \<lparr>coalesce_secs = 2400, coalesce_max_secs = 1800, realert_secs = 21600, max_consecutive_errors = 6\<rparr>"

definition ex_tick :: "string \<Rightarrow> bool \<Rightarrow> tick" where
  "ex_tick e ok = \<lparr>tick_epoch = e, observations = [\<lparr>obs_key = ''ci'', obs_severity = WAKE, obs_brief = ''ci failed''\<rparr>],
     pending = 3, fetch_ok = ok, tick_detail = []\<rparr>"

definition ex_io :: "watch_state \<Rightarrow> irq_io" where
  "ex_io s = \<lparr>disk = Some (dump_state s), can_write = (\<lambda>_. True), writes = 0, persist_ok = True\<rparr>"

definition ex_open :: watch_state where
  "ex_open = \<lparr>st_epoch = Some ''sha1'', st_alerted = Some [], st_errors = Some 0,
     st_coalesce_started = Some 1000, st_coalescing = Some [(''ci'', ''ci failed'')]\<rparr>"

lemma ex_open_loaded: "load_state (disk (ex_io ex_open)) = ex_open"
  by (simp add: ex_io_def load_dump ex_open_def state_wf_def)

lemma ex_open_fields:
  "st_epoch ex_open = Some ''sha1''" "st_coalesce_started ex_open = Some 1000"
  "st_coalescing ex_open = Some [(''ci'', ''ci failed'')]"
  by (simp_all add: ex_open_def)

theorem irq_wake_never_lost_witness:
  "\<exists>earlier now tk cw later.
     [(1300, ex_tick ''sha1'' True, \<lambda>_. False), (1600, ex_tick ''sha1'' False, \<lambda>_. True), (2900, ex_tick ''sha1'' True, \<lambda>_. True)]
       = earlier @ (now, tk, cw) # later \<and> fetch_ok tk \<and>
     tick_wakes ex_bounds ''gh-pr a#1'' ''ci'' now tk (start_tick cw (snd (watch_run ex_bounds ''gh-pr a#1'' earlier (ex_io ex_open))))"
  by (rule irq_wake_never_lost [where e = "Some ''sha1''" and t = 1000])
     (auto simp: ex_open_loaded window_open_def keeps_window_def observed_wakes_def ex_tick_def
       ex_bounds_def ex_open_fields)

text \<open>Dedupe memory holds: while every observed key is masked (alerted less than
  \<^verbatim>\<open>realert_secs\<close> ago, no window open, the epoch unchanged), every tick of the watch is
  silent, whatever the severities WAKE and NMI and whatever writes fail.\<close>

theorem irq_masked_is_silent:
  assumes "\<forall>(now, tk, cw) \<in> set nts. masked_tick bd (load_state (disk io)) (now, tk)"
    and "st_coalescing (load_state (disk io)) = None"
  shows "\<forall>v \<in> set (fst (watch_run bd subject nts io)). \<exists>r. v = Skip r"
  using assms by (intro masked_run) (auto simp: same_mask_def)

definition ex_alerted :: watch_state where
  "ex_alerted = \<lparr>st_epoch = Some ''sha1'', st_alerted = Some [(''ci'', 1000)], st_errors = Some 0,
     st_coalesce_started = None, st_coalescing = None\<rparr>"

lemma ex_alerted_loaded: "load_state (disk (ex_io ex_alerted)) = ex_alerted"
  by (simp add: ex_io_def load_dump ex_alerted_def state_wf_def)

lemma ex_alerted_fields:
  "st_epoch ex_alerted = Some ''sha1''" "st_alerted ex_alerted = Some [(''ci'', 1000)]"
  "st_errors ex_alerted = Some 0" "st_coalescing ex_alerted = None"
  by (simp_all add: ex_alerted_def)

theorem irq_masked_is_silent_witness:
  "list_all (\<lambda>v. \<exists>r. v = Skip r) (fst (watch_run ex_bounds ''gh-pr a#1''
      [(1000, ex_tick ''sha1'' True, \<lambda>_. True), (9000, ex_tick ''sha1'' True, \<lambda>_. False)]
      (ex_io ex_alerted)))"
  unfolding list_all_iff
  by (rule irq_masked_is_silent)
     (auto simp: ex_alerted_loaded masked_tick_def ex_tick_def should_alert_def alert_fresh_def
       alerted_of_def ex_alerted_fields ex_bounds_def)

text \<open>A new epoch forgets everything: once the subject's identity token differs from the
  stored one, the verdict of a successful tick is that of a watch with no state file at all.\<close>

theorem irq_new_epoch_forgets:
  assumes "fetch_ok tk" "tick_epoch tk \<noteq> []" "st_epoch (load_state (disk io)) \<noteq> Some (tick_epoch tk)"
  shows "fst (run_tick bd subject now tk io) = fst (run_tick bd subject now tk (io\<lparr>disk := None\<rparr>))"
proof -
  have r: "st_epoch (recover s) = st_epoch s" for s by (simp add: recover_def split: option.split)
  have "enter_epoch tk (recover (load_state (disk io))) = enter_epoch tk (recover (load_state None))"
    using assms(2,3) by (auto simp: enter_epoch_def r load_state_def empty_state_def)
  then show ?thesis
    using assms(1) by (simp add: run_tick_def Let_def verdict_any_disk)
qed

theorem irq_new_epoch_forgets_witness:
  "fst (run_tick ex_bounds ''gh-pr a#1'' 2000 (ex_tick ''sha2'' True) (ex_io ex_alerted)) =
   fst (run_tick ex_bounds ''gh-pr a#1'' 2000 (ex_tick ''sha2'' True) ((ex_io ex_alerted)\<lparr>disk := None\<rparr>))
   \<and> st_alerted (load_state (disk (ex_io ex_alerted))) \<noteq> Some []"
  using irq_new_epoch_forgets [of "ex_tick ''sha2'' True" "ex_io ex_alerted" ex_bounds "''gh-pr a#1''" 2000]
  by (simp add: ex_alerted_loaded ex_alerted_fields) (simp add: ex_tick_def)

text \<open>C34. An unwritable state directory degrades to repeats and never to silence: when no
  write succeeds, a failed observation is reported at once, and a successful tick that sees a terminal
  state or an unmasked anomaly is not skipped, window or not.\<close>

theorem irq_unwritable_never_silent:
  assumes "\<And>n. \<not> can_write io n"
    and "fetch_ok tk \<Longrightarrow> \<exists>ob \<in> set (observations tk). obs_severity ob = TERMINAL \<or>
           should_alert bd now (enter_epoch tk (recover (load_state (disk io)))) (obs_key ob)"
  shows "\<not> (\<exists>r. fst (run_tick bd subject now tk io) = Skip r)"
proof (cases "fetch_ok tk")
  case True
  then obtain ob where "ob \<in> set (observations tk)" "obs_severity ob = TERMINAL \<or>
      should_alert bd now (enter_epoch tk (recover (load_state (disk io)))) (obs_key ob)"
    using assms(2) by blast
  from settled_never_silent [OF assms(1) this] True show ?thesis by (simp add: run_tick_def Let_def)
next
  case False
  then show ?thesis using assms(1) by (simp add: run_tick_def failed_tick_def Let_def)
qed

theorem irq_unwritable_never_silent_witness:
  "\<not> (\<exists>r. fst (run_tick ex_bounds ''gh-pr a#1'' 2000 (ex_tick ''sha2'' True) ((ex_io ex_alerted)\<lparr>can_write := \<lambda>_. False\<rparr>)) = Skip r)"
  by (rule irq_unwritable_never_silent)
     (auto simp: ex_alerted_loaded ex_tick_def enter_epoch_def
       recover_def ex_alerted_fields should_alert_def alert_fresh_def alerted_of_def)

end
