(* ===== verification/Py_Value.thy ===== *)
theory Py_Value imports Json_Value begin

section \<open>Python values and their JSON form\<close>

text \<open>
  What a script may return or be given: beside the values that \<^verbatim>\<open>json.loads\<close> yields, tuples, dicts with keys of any hashable
  type, and any other object, of which only its \<^verbatim>\<open>str\<close> is known (\<open>PyObject\<close>). \<open>json_dumps\<close> is \<^verbatim>\<open>json.dumps\<close>, given as the JSON
  value that the text denotes when it is read again: tuples become arrays, keys become texts, of two keys with the same text the
  later value counts, an object is its \<^verbatim>\<open>str\<close> under \<^verbatim>\<open>default=str\<close> and raises \<^verbatim>\<open>TypeError\<close> without, and a key that
  is neither text, number, boolean nor \<^verbatim>\<open>None\<close> always raises. The text of a float is the parameter \<open>fl\<close>; floats and integers are read
  back as they were. Circular values are not in the type; \<^verbatim>\<open>json.dumps\<close> raises on them.
\<close>

datatype py_key = KStr string | KInt int | KBool bool | KFloat pyfloat | KNone | KOther string

datatype py =
    PyNone
  | PyBool bool
  | PyInt int
  | PyFloat pyfloat
  | PyStr string
  | PyList "py list"
  | PyTuple "py list"
  | PyDict "(py_key \<times> py) list"
  | PyObject string

text \<open>What \<^verbatim>\<open>json.loads\<close> makes of a JSON value, and a dict with texts as keys.\<close>

primrec py_of :: "json \<Rightarrow> py" where
  "py_of JNull = PyNone"
| "py_of (JBool b) = PyBool b"
| "py_of (JInt n) = PyInt n"
| "py_of (JFloat f) = PyFloat f"
| "py_of (JStr s) = PyStr s"
| "py_of (JArr xs) = PyList (map py_of xs)"
| "py_of (JObj d) = PyDict (map (map_prod KStr py_of) d)"

definition str_dict :: "(string \<times> py) list \<Rightarrow> py" where
  "str_dict d = PyDict (map (map_prod KStr id) d)"

text \<open>A dict comprehension.\<close>

definition from_items :: "('k \<times> 'v) list \<Rightarrow> ('k, 'v) dict" where
  "from_items kvs = fold (\<lambda>(k, v). dict_set k v) kvs []"

fun key_text :: "(pyfloat \<Rightarrow> string) \<Rightarrow> py_key \<Rightarrow> string" where
  "key_text fl (KStr s) = s"
| "key_text fl (KInt n) = show_int n"
| "key_text fl (KBool b) = (if b then ''true'' else ''false'')"
| "key_text fl (KFloat f) = fl f"
| "key_text fl KNone = ''null''"
| "key_text fl (KOther s) = s"

fun is_other :: "py_key \<Rightarrow> bool" where
  "is_other (KOther s) = True"
| "is_other _ = False"

primrec plain :: "(pyfloat \<Rightarrow> string) \<Rightarrow> py \<Rightarrow> json" where
  "plain fl PyNone = JNull"
| "plain fl (PyBool b) = JBool b"
| "plain fl (PyInt n) = JInt n"
| "plain fl (PyFloat f) = JFloat f"
| "plain fl (PyStr s) = JStr s"
| "plain fl (PyList xs) = JArr (map (plain fl) xs)"
| "plain fl (PyTuple xs) = JArr (map (plain fl) xs)"
| "plain fl (PyDict d) = JObj (from_items (map (map_prod (key_text fl) (plain fl)) d))"
| "plain fl (PyObject s) = JStr s"

text \<open>Whether \<^verbatim>\<open>json.dumps\<close> returns, with (\<open>True\<close>) or without \<^verbatim>\<open>default=str\<close>.\<close>

fun dumpable :: "bool \<Rightarrow> py \<Rightarrow> bool" where
  "dumpable dflt (PyList xs) = (\<forall>x \<in> set xs. dumpable dflt x)"
| "dumpable dflt (PyTuple xs) = (\<forall>x \<in> set xs. dumpable dflt x)"
| "dumpable dflt (PyDict d) = (\<forall>p \<in> set d. \<not> is_other (fst p) \<and> dumpable dflt (snd p))"
| "dumpable dflt (PyObject s) = dflt"
| "dumpable dflt _ = True"

definition json_dumps :: "(pyfloat \<Rightarrow> string) \<Rightarrow> bool \<Rightarrow> py \<Rightarrow> json option" where
  "json_dumps fl dflt v = (if dumpable dflt v then Some (plain fl v) else None)"

text \<open>The values that a JSON text denotes: no tuple, no object, dicts with distinct texts as keys.\<close>

fun json_only :: "py \<Rightarrow> bool" where
  "json_only (PyList xs) = (\<forall>x \<in> set xs. json_only x)"
| "json_only (PyTuple xs) = False"
| "json_only (PyDict d) = (dict_ok d \<and> (\<forall>p \<in> set d. (\<exists>s. fst p = KStr s) \<and> json_only (snd p)))"
| "json_only (PyObject s) = False"
| "json_only _ = True"

subsection \<open>Building a dict\<close>

lemma fold_dict_set_fresh:
  "distinct (map fst kvs) \<Longrightarrow> set (map fst kvs) \<inter> set (map fst d) = {} \<Longrightarrow>
     fold (\<lambda>(k, v). dict_set k v) kvs d = d @ kvs"
proof (induction kvs arbitrary: d)
  case (Cons p kvs)
  obtain k v where p: "p = (k, v)" by (cases p)
  have "fold (\<lambda>(k, v). dict_set k v) kvs (d @ [(k, v)]) = (d @ [(k, v)]) @ kvs"
    using Cons.prems by (intro Cons.IH) (auto simp: p)
  then show ?case using Cons.prems by (simp add: p)
qed simp

lemma from_items_id: "distinct (map fst kvs) \<Longrightarrow> from_items kvs = kvs"
  using fold_dict_set_fresh [of kvs "[]"] by (simp add: from_items_def)

lemma fold_dict_set_keys: "set (dict_keys (fold (\<lambda>(k, v). dict_set k v) kvs d)) = set (dict_keys kvs) \<union> set (dict_keys d)"
proof (induction kvs arbitrary: d)
  case (Cons p kvs)
  then show ?case by (cases p) (auto simp: Cons dom_update)
qed simp

lemma from_items_keys: "set (dict_keys (from_items kvs)) = set (dict_keys kvs)"
  using fold_dict_set_keys [of kvs "[]"] by (simp add: from_items_def)

lemma from_items_ok: "dict_ok (from_items kvs)"
proof -
  have "dict_ok d \<Longrightarrow> dict_ok (fold (\<lambda>(k, v). dict_set k v) kvs d)" for d :: "('a \<times> 'b) list"
    by (induction kvs arbitrary: d) auto
  then show ?thesis by (simp add: from_items_def)
qed

subsection \<open>What JSON keeps\<close>

lemma plain_str_dict: "dict_ok d \<Longrightarrow> plain fl (str_dict d) = JObj (map (map_prod id (plain fl)) d)"
proof -
  assume d: "dict_ok d"
  have "map (map_prod (key_text fl) (plain fl) \<circ> map_prod KStr id) d = map (map_prod id (plain fl)) d"
    by (simp add: map_prod_def case_prod_beta)
  moreover have "from_items (map (map_prod id (plain fl)) d) = map (map_prod id (plain fl)) d"
    using d by (intro from_items_id) (simp add: comp_def)
  ultimately show ?thesis by (simp only: str_dict_def plain.simps map_map)
qed

lemma dumpable_str_dict [simp]: "dumpable dflt (str_dict d) = (\<forall>p \<in> set d. dumpable dflt (snd p))"
  by (simp add: str_dict_def)

lemma dumpable_of_json [simp]: "dumpable dflt (py_of j)"
  by (induction j) auto

lemma json_round_trip: "json_only v \<Longrightarrow> py_of (plain fl v) = v"
proof (induction v)
  case (PyDict d)
  have key: "\<exists>s. fst p = KStr s" "json_only (snd p)" if "p \<in> set d" for p using PyDict.prems that by auto
  then have ks: "KStr (key_text fl (fst p)) = fst p" if "p \<in> set d" for p using that by (metis key_text.simps(1))
  have "inj_on (key_text fl) (set (dict_keys d))" by (rule inj_onI) (metis (no_types, lifting) image_iff ks list.set_map)
  then have "distinct (map (key_text fl) (dict_keys d))" using PyDict.prems by (simp only: distinct_map json_only.simps simp_thms)
  moreover have "map fst (map (map_prod (key_text fl) (plain fl)) d) = map (key_text fl) (dict_keys d)" by simp
  ultimately have "from_items (map (map_prod (key_text fl) (plain fl)) d) = map (map_prod (key_text fl) (plain fl)) d"
    by (metis from_items_id)
  moreover have "map_prod KStr py_of (map_prod (key_text fl) (plain fl) p) = p" if "p \<in> set d" for p
    using ks [OF that] PyDict.IH [OF that _ key(2) [OF that]] by (cases p) simp
  ultimately show ?case by (simp add: map_idI)
qed (auto intro: map_idI)

end
