(* ===== verification/Workflow_Events.thy ===== *)
theory Workflow_Events imports Py_Value begin

section \<open>The event stream of a workflow run (\<^verbatim>\<open>workflows/events.py\<close>)\<close>

text \<open>
  \<open>wf_event\<close> is the dataclass \<^verbatim>\<open>WorkflowEvent\<close> of \<^verbatim>\<open>workflows/__init__.py\<close>;
  its data is any Python value, its other fields are JSON values, since \<^verbatim>\<open>from_json\<close> stores what it read without a check.
  An \<open>event_stream\<close> is an \<^verbatim>\<open>EventStream\<close>; a \<open>stream_call\<close> is a call of one of its
  factory methods. A journal text is the JSON value it denotes, \<open>None\<close> when it is not JSON; \<open>fl\<close> is the text of a float as a key.
\<close>

record wf_event =
  ev_run_id :: json
  ev_seq :: json
  ev_ts :: json
  ev_type :: json
  ev_data :: py

datatype event_error =
    UnknownType json
  | MissingKeys json "string list"
  | KeyAbsent string
  | WrongType
  | NotAnArray
  | NotSerializable
  | NotJson

definition EVENT_TYPES :: "string list" where
  "EVENT_TYPES = [''run_started'', ''phase_started'', ''agent_started'', ''agent_progress'',
     ''agent_finished'', ''log'', ''budget_update'', ''approval_requested'', ''run_finished'',
     ''run_failed'', ''run_cancelled'']"

definition REQUIRED_DATA_KEYS :: "(string \<times> string list) list" where
  "REQUIRED_DATA_KEYS =
    [(''run_started'', [''name'', ''args'', ''script_hash'', ''budget_total'']),
     (''phase_started'', [''title'']),
     (''agent_started'', [''agent_id'', ''label'', ''phase'', ''call_index'']),
     (''agent_progress'', [''agent_id'', ''turns'', ''last_tool'', ''elapsed_s'']),
     (''agent_finished'', [''agent_id'', ''result_summary'', ''ok'']),
     (''log'', [''message'']),
     (''budget_update'', [''spent'', ''remaining'']),
     (''approval_requested'', [''prompt'', ''approval_id'']),
     (''run_finished'', [''result'', ''duration_s'']),
     (''run_failed'', [''error'', ''where'']),
     (''run_cancelled'', [''reason''])]"

definition known_type :: "json \<Rightarrow> bool" where
  "known_type t = (case t of JStr s \<Rightarrow> s \<in> set EVENT_TYPES | _ \<Rightarrow> False)"

text \<open>\<^verbatim>\<open>k in data\<close>: \<open>None\<close> is a \<^verbatim>\<open>TypeError\<close>, which stands for all objects but dicts, lists, tuples and texts.\<close>

definition py_contains :: "string \<Rightarrow> py \<Rightarrow> bool option" where
  "py_contains k data = (case data of
      PyDict d \<Rightarrow> Some (KStr k \<in> set (dict_keys d))
    | PyList xs \<Rightarrow> Some (PyStr k \<in> set xs)
    | PyTuple xs \<Rightarrow> Some (PyStr k \<in> set xs)
    | PyStr s \<Rightarrow> Some (contains_sub s k)
    | _ \<Rightarrow> None)"

definition validate_event :: "wf_event \<Rightarrow> event_error + unit" where
  "validate_event ev = (if \<not> known_type (ev_type ev) then Inl (UnknownType (ev_type ev))
     else (case ev_type ev of JStr t \<Rightarrow>
       (let required = (case dict_get REQUIRED_DATA_KEYS t of None \<Rightarrow> [] | Some ks \<Rightarrow> ks) in
        if list_ex (\<lambda>k. py_contains k (ev_data ev) = None) required then Inl WrongType
        else (let missing = filter (\<lambda>k. py_contains k (ev_data ev) = Some False) required in
          if missing \<noteq> [] then Inl (MissingKeys (ev_type ev) missing) else Inr ()))
       | _ \<Rightarrow> Inl (UnknownType (ev_type ev))))"

definition event_to_json :: "wf_event \<Rightarrow> event_error + py" where
  "event_to_json ev = (if \<not> known_type (ev_type ev) then Inl (UnknownType (ev_type ev))
     else Inr (str_dict [(''run_id'', py_of (ev_run_id ev)), (''seq'', py_of (ev_seq ev)), (''ts'', py_of (ev_ts ev)),
                (''type'', py_of (ev_type ev)), (''data'', ev_data ev)]))"

definition event_from_json :: "json \<Rightarrow> event_error + wf_event" where
  "event_from_json obj = (case obj of JObj d \<Rightarrow>
      (case dict_get d ''run_id'' of None \<Rightarrow> Inl (KeyAbsent ''run_id'') | Some r \<Rightarrow>
      (case dict_get d ''seq'' of None \<Rightarrow> Inl (KeyAbsent ''seq'') | Some n \<Rightarrow>
      (case dict_get d ''ts'' of None \<Rightarrow> Inl (KeyAbsent ''ts'') | Some t \<Rightarrow>
      (case dict_get d ''type'' of None \<Rightarrow> Inl (KeyAbsent ''type'') | Some ty \<Rightarrow>
       Inr \<lparr>ev_run_id = r, ev_seq = n, ev_ts = t, ev_type = ty,
            ev_data = (case dict_get d ''data'' of None \<Rightarrow> PyDict [] | Some x \<Rightarrow> py_of x)\<rparr>))))
    | _ \<Rightarrow> Inl WrongType)"

subsection \<open>Building the stream\<close>

record event_stream =
  es_run_id :: string
  es_seq :: int

definition new_stream :: "string \<Rightarrow> event_stream" where
  "new_stream rid = \<lparr>es_run_id = rid, es_seq = 0\<rparr>"

definition stream_emit :: "string \<Rightarrow> string \<Rightarrow> (string \<times> py) list \<Rightarrow> event_stream
    \<Rightarrow> event_error + wf_event \<times> event_stream" where
  "stream_emit ts ty data es =
     (let ev = \<lparr>ev_run_id = JStr (es_run_id es), ev_seq = JInt (es_seq es), ev_ts = JStr ts,
                ev_type = JStr ty, ev_data = str_dict data\<rparr>
      in case validate_event ev of Inl e \<Rightarrow> Inl e
         | Inr _ \<Rightarrow> Inr (ev, es\<lparr>es_seq := es_seq es + 1\<rparr>))"

datatype stream_call =
    RunStarted string py string "int option"
  | RunFinished py secs
  | RunFailed string string
  | RunCancelled string
  | PhaseStarted string
  | LogLine string
  | BudgetUpdate int json
  | AgentStarted string string string int
  | AgentProgress string int string secs
  | AgentFinished string string bool string
  | ApprovalRequested string string

fun call_factory :: "string \<Rightarrow> stream_call \<Rightarrow> event_stream \<Rightarrow> event_error + wf_event \<times> event_stream" where
  "call_factory ts (RunStarted name args hash bt) es = stream_emit ts ''run_started''
     [(''name'', PyStr name), (''args'', args), (''script_hash'', PyStr hash),
      (''budget_total'', (case bt of None \<Rightarrow> PyNone | Some n \<Rightarrow> PyInt n))] es"
| "call_factory ts (RunFinished result dur) es = stream_emit ts ''run_finished''
     [(''result'', result), (''duration_s'', PyFloat (Finite dur))] es"
| "call_factory ts (RunFailed err place) es = stream_emit ts ''run_failed''
     [(''error'', PyStr err), (''where'', PyStr place)] es"
| "call_factory ts (RunCancelled reason) es = stream_emit ts ''run_cancelled'' [(''reason'', PyStr reason)] es"
| "call_factory ts (PhaseStarted title) es = stream_emit ts ''phase_started'' [(''title'', PyStr title)] es"
| "call_factory ts (LogLine msg) es = stream_emit ts ''log'' [(''message'', PyStr msg)] es"
| "call_factory ts (BudgetUpdate spent remaining) es = stream_emit ts ''budget_update''
     [(''spent'', PyInt spent), (''remaining'', py_of remaining)] es"
| "call_factory ts (AgentStarted aid label phase idx) es = stream_emit ts ''agent_started''
     [(''agent_id'', PyStr aid), (''label'', PyStr label), (''phase'', PyStr phase), (''call_index'', PyInt idx)] es"
| "call_factory ts (AgentProgress aid turns tool elapsed) es = stream_emit ts ''agent_progress''
     [(''agent_id'', PyStr aid), (''turns'', PyInt turns), (''last_tool'', PyStr tool),
      (''elapsed_s'', PyFloat (Finite elapsed))] es"
| "call_factory ts (AgentFinished aid summary good err) es = stream_emit ts ''agent_finished''
     [(''agent_id'', PyStr aid), (''result_summary'', PyStr summary), (''ok'', PyBool good), (''error'', PyStr err)] es"
| "call_factory ts (ApprovalRequested prompt aid) es = stream_emit ts ''approval_requested''
     [(''prompt'', PyStr prompt), (''approval_id'', PyStr aid)] es"

fun stream_run :: "(string \<times> stream_call) list \<Rightarrow> event_stream \<Rightarrow> event_error + wf_event list \<times> event_stream" where
  "stream_run [] es = Inr ([], es)"
| "stream_run ((ts, c) # cs) es = (case call_factory ts c es of Inl e \<Rightarrow> Inl e
     | Inr (ev, es1) \<Rightarrow> (case stream_run cs es1 of Inl e \<Rightarrow> Inl e
         | Inr (evs, es2) \<Rightarrow> Inr (ev # evs, es2)))"

subsection \<open>The journal\<close>

fun collect :: "('e + 'a) list \<Rightarrow> 'e + 'a list" where
  "collect [] = Inr []"
| "collect (Inl e # rs) = Inl e"
| "collect (Inr x # rs) = (case collect rs of Inl e \<Rightarrow> Inl e | Inr xs \<Rightarrow> Inr (x # xs))"

definition serialize_events :: "(pyfloat \<Rightarrow> string) \<Rightarrow> wf_event list \<Rightarrow> event_error + json" where
  "serialize_events fl evs = (case collect (map event_to_json evs) of Inl e \<Rightarrow> Inl e
     | Inr js \<Rightarrow> (case json_dumps fl False (PyList js) of None \<Rightarrow> Inl NotSerializable | Some text \<Rightarrow> Inr text))"

definition deserialize_events :: "json option \<Rightarrow> event_error + wf_event list" where
  "deserialize_events text = (case text of None \<Rightarrow> Inl NotJson
     | Some (JArr js) \<Rightarrow> (case collect (map event_from_json js) of Inl e \<Rightarrow> Inl e
         | Inr evs \<Rightarrow> (case collect (map validate_event evs) of Inl e \<Rightarrow> Inl e | Inr _ \<Rightarrow> Inr evs))
     | Some _ \<Rightarrow> Inl NotAnArray)"

lemma collect_all_Inr: "(\<And>x. x \<in> set xs \<Longrightarrow> f x = Inr (g x)) \<Longrightarrow> collect (map f xs) = Inr (map g xs)"
  by (induction xs) auto

subsection \<open>Every factory emits a valid event\<close>

lemma py_contains_str_dict: "py_contains k (str_dict d) = Some (k \<in> set (dict_keys d))"
  by (force simp: py_contains_def str_dict_def)

lemma stream_emit_ok:
  assumes "dict_get REQUIRED_DATA_KEYS ty = Some ks" "ty \<in> set EVENT_TYPES" "set ks \<subseteq> set (dict_keys data)"
  shows "stream_emit ts ty data es =
    Inr (\<lparr>ev_run_id = JStr (es_run_id es), ev_seq = JInt (es_seq es), ev_ts = JStr ts,
          ev_type = JStr ty, ev_data = str_dict data\<rparr>, es\<lparr>es_seq := es_seq es + 1\<rparr>)"
proof -
  have "filter (\<lambda>k. k \<notin> set (dict_keys data)) ks = []"
    using assms(3) by (auto simp: filter_empty_conv)
  then show ?thesis
    using assms(1,2) by (simp add: stream_emit_def Let_def validate_event_def known_type_def
      py_contains_str_dict list_ex_iff)
qed

lemma stream_call_ok:
  "\<exists>ty data. call_factory ts c es =
    Inr (\<lparr>ev_run_id = JStr (es_run_id es), ev_seq = JInt (es_seq es), ev_ts = JStr ts,
          ev_type = JStr ty, ev_data = str_dict data\<rparr>, es\<lparr>es_seq := es_seq es + 1\<rparr>) \<and> dict_ok data"
  by (cases c) (simp_all add: stream_emit_ok REQUIRED_DATA_KEYS_def EVENT_TYPES_def, (intro exI conjI, rule refl, simp)+)

lemma stream_call_valid: "call_factory ts c es = Inr (ev, es') \<Longrightarrow> validate_event ev = Inr ()"
  by (cases c) (auto simp: stream_emit_def Let_def split: sum.splits)

text \<open>What a journal keeps of an event.\<close>

definition stored_event :: "(pyfloat \<Rightarrow> string) \<Rightarrow> wf_event \<Rightarrow> wf_event" where
  "stored_event fl ev = ev\<lparr>ev_data := py_of (plain fl (ev_data ev))\<rparr>"

text \<open>An event as the factories make it: its data is a dict whose keys are distinct texts.\<close>

definition built_event :: "wf_event \<Rightarrow> bool" where
  "built_event ev \<longleftrightarrow> validate_event ev = Inr () \<and> (\<exists>d. ev_data ev = str_dict d \<and> dict_ok d)"

lemma stored_json_event: "json_only (ev_data ev) \<Longrightarrow> stored_event fl ev = ev"
  by (simp add: stored_event_def json_round_trip)

definition event_text :: "(pyfloat \<Rightarrow> string) \<Rightarrow> wf_event \<Rightarrow> json" where
  "event_text fl ev = JObj [(''run_id'', plain fl (py_of (ev_run_id ev))), (''seq'', plain fl (py_of (ev_seq ev))),
     (''ts'', plain fl (py_of (ev_ts ev))), (''type'', plain fl (py_of (ev_type ev))), (''data'', plain fl (ev_data ev))]"

lemma event_to_json_plain:
  assumes "known_type (ev_type ev)"
  shows "\<exists>v. event_to_json ev = Inr v \<and> plain fl v = event_text fl ev \<and> dumpable dflt v = dumpable dflt (ev_data ev)"
  using assms by (simp add: event_to_json_def event_text_def plain_str_dict)

lemma validate_event_cong:
  assumes "ev_type a = ev_type b" "\<And>k. py_contains k (ev_data a) = py_contains k (ev_data b)"
  shows "validate_event a = validate_event b"
  unfolding validate_event_def assms ..

lemma stored_valid:
  assumes "built_event ev"
  shows "validate_event (stored_event fl ev) = Inr ()"
proof -
  obtain d where d: "ev_data ev = str_dict d" "dict_ok d" using assms by (auto simp: built_event_def)
  have "py_contains k (py_of (plain fl (str_dict d))) = py_contains k (str_dict d)" for k
    unfolding plain_str_dict [OF d(2)] by (force simp: py_contains_def str_dict_def)
  then have "validate_event (stored_event fl ev) = validate_event ev"
    using d(1) by (intro validate_event_cong) (simp_all add: stored_event_def)
  then show ?thesis using assms by (simp add: built_event_def)
qed

definition plain_fields :: "wf_event \<Rightarrow> bool" where
  "plain_fields ev \<longleftrightarrow> (\<exists>r n t ty. ev_run_id ev = JStr r \<and> ev_seq ev = JInt n \<and> ev_ts ev = JStr t \<and> ev_type ev = JStr ty)"

lemma event_from_text: "plain_fields ev \<Longrightarrow> event_from_json (event_text fl ev) = Inr (stored_event fl ev)"
  by (auto simp: plain_fields_def event_text_def event_from_json_def stored_event_def)

lemma validate_known: "validate_event ev = Inr () \<Longrightarrow> known_type (ev_type ev)"
  by (auto simp: validate_event_def split: if_splits)

lemma events_to_json:
  assumes "\<forall>ev \<in> set evs. known_type (ev_type ev)"
  shows "\<exists>vs. collect (map event_to_json evs) = Inr vs \<and> map (plain fl) vs = map (event_text fl) evs \<and>
     (\<forall>v \<in> set vs. dumpable dflt v) = (\<forall>ev \<in> set evs. dumpable dflt (ev_data ev))"
proof -
  define g where "g ev = projr (event_to_json ev)" for ev
  have g: "event_to_json ev = Inr (g ev)" "plain fl (g ev) = event_text fl ev" "dumpable dflt (g ev) = dumpable dflt (ev_data ev)"
    if "ev \<in> set evs" for ev
    using event_to_json_plain [of ev fl dflt] assms that by (auto simp: g_def)
  have "collect (map event_to_json evs) = Inr (map g evs)" by (rule collect_all_Inr) (rule g)
  then show ?thesis using g by auto
qed

lemma journal_roundtrip:
  assumes "\<forall>ev \<in> set evs. built_event ev \<and> plain_fields ev"
  shows "if \<forall>ev \<in> set evs. dumpable False (ev_data ev)
    then \<exists>j. serialize_events fl evs = Inr j \<and> deserialize_events (Some j) = Inr (map (stored_event fl) evs)
    else serialize_events fl evs = Inl NotSerializable"
proof -
  have "\<forall>ev \<in> set evs. known_type (ev_type ev)" using assms by (auto simp: built_event_def validate_known)
  from events_to_json [OF this, of fl False] obtain vs where vs: "collect (map event_to_json evs) = Inr vs"
    "map (plain fl) vs = map (event_text fl) evs" "(\<forall>v \<in> set vs. dumpable False v) = (\<forall>ev \<in> set evs. dumpable False (ev_data ev))"
    by blast
  have "collect (map event_from_json (map (event_text fl) evs)) = Inr (map (stored_event fl) evs)"
    unfolding map_map using assms by (intro collect_all_Inr) (simp add: event_from_text)
  moreover have "collect (map validate_event (map (stored_event fl) evs)) = Inr (map (\<lambda>_. ()) evs)"
    unfolding map_map using assms by (intro collect_all_Inr) (simp add: stored_valid)
  ultimately show ?thesis by (simp add: serialize_events_def deserialize_events_def json_dumps_def vs)
qed

lemma stream_call_event:
  "\<exists>ev. call_factory ts c es = Inr (ev, es\<lparr>es_seq := es_seq es + 1\<rparr>) \<and> ev_seq ev = JInt (es_seq es) \<and>
     ev_run_id ev = JStr (es_run_id es) \<and> built_event ev \<and> plain_fields ev"
  using stream_call_ok [of ts c es] stream_call_valid [of ts c es] by (auto simp: built_event_def plain_fields_def)

lemma stream_run_events:
  "\<exists>evs. stream_run cs es = Inr (evs, es\<lparr>es_seq := es_seq es + int (length cs)\<rparr>) \<and>
     map ev_seq evs = map (\<lambda>i. JInt (es_seq es + int i)) [0..<length cs] \<and>
     (\<forall>ev \<in> set evs. ev_run_id ev = JStr (es_run_id es) \<and> built_event ev \<and> plain_fields ev)"
proof (induction cs arbitrary: es)
  case (Cons tc cs)
  obtain ts c where tc: "tc = (ts, c)" by (cases tc)
  obtain ev where ev: "call_factory ts c es = Inr (ev, es\<lparr>es_seq := es_seq es + 1\<rparr>)"
    "ev_seq ev = JInt (es_seq es)" "ev_run_id ev = JStr (es_run_id es)" "built_event ev" "plain_fields ev"
    using stream_call_event [of ts c es] by blast
  from Cons [of "es\<lparr>es_seq := es_seq es + 1\<rparr>"] obtain evs where
    evs: "stream_run cs (es\<lparr>es_seq := es_seq es + 1\<rparr>) =
            Inr (evs, es\<lparr>es_seq := es_seq es + 1 + int (length cs)\<rparr>)"
      "map ev_seq evs = map (\<lambda>i. JInt (es_seq es + 1 + int i)) [0..<length cs]"
      "\<forall>ev \<in> set evs. ev_run_id ev = JStr (es_run_id es) \<and> built_event ev \<and> plain_fields ev"
    by (auto simp: add.assoc)
  have "map (\<lambda>i. JInt (es_seq es + int i)) [0..<Suc (length cs)] =
      JInt (es_seq es) # map (\<lambda>i. JInt (es_seq es + 1 + int i)) [0..<length cs]"
    by (simp add: upt_conv_Cons map_Suc_upt [symmetric] comp_def algebra_simps del: upt_Suc)
  then show ?case
    using ev evs by (auto simp: tc algebra_simps)
qed simp

text \<open>C36. Whatever sequence of factory methods a run calls, no call fails: the stream carries
  the run's id and the sequence numbers 0, 1, 2, ... without a gap, and every event satisfies the
  contract of its type. The journal is written unless the arguments or the result of the run hold an object that JSON has no
  form for or a key that is no text, number, boolean or \<^verbatim>\<open>None\<close>; then \<^verbatim>\<open>json.dumps\<close> raises. A journal that was written parses back to the same
  events with the JSON form of their data (tuples as lists, keys as texts), which is the data itself when it has only JSON values.\<close>

theorem event_stream_journal:
  "\<exists>evs. stream_run cs (new_stream rid) = Inr (evs, \<lparr>es_run_id = rid, es_seq = int (length cs)\<rparr>) \<and>
     map ev_seq evs = map (\<lambda>i. JInt (int i)) [0..<length cs] \<and>
     list_all (\<lambda>ev. ev_run_id ev = JStr rid \<and> validate_event ev = Inr ()) evs \<and>
     (if \<forall>ev \<in> set evs. dumpable False (ev_data ev)
      then \<exists>j. serialize_events fl evs = Inr j \<and> deserialize_events (Some j) = Inr (map (stored_event fl) evs)
      else serialize_events fl evs = Inl NotSerializable) \<and>
     (\<forall>ev \<in> set evs. json_only (ev_data ev) \<longrightarrow> stored_event fl ev = ev)"
proof -
  obtain evs where e: "stream_run cs (new_stream rid) = Inr (evs, \<lparr>es_run_id = rid, es_seq = int (length cs)\<rparr>)"
    "map ev_seq evs = map (\<lambda>i. JInt (int i)) [0..<length cs]"
    "\<forall>ev \<in> set evs. ev_run_id ev = JStr rid \<and> built_event ev \<and> plain_fields ev"
    using stream_run_events [of cs "new_stream rid"] by (auto simp: new_stream_def)
  then have "list_all (\<lambda>ev. ev_run_id ev = JStr rid \<and> validate_event ev = Inr ()) evs"
    by (auto simp: list_all_iff built_event_def)
  then show ?thesis using e journal_roundtrip [of evs fl] stored_json_event by blast
qed

text \<open>A tuple is read back as a list.\<close>

theorem event_stream_journal_witness:
  "\<forall>fl. \<exists>evs j. stream_run [(''t'', RunFinished (PyTuple [PyInt 1, PyStr ''a'']) 2)] (new_stream ''wf_1'') = Inr (evs, \<lparr>es_run_id = ''wf_1'', es_seq = 1\<rparr>) \<and>
     serialize_events fl evs = Inr j \<and> deserialize_events (Some j) =
       Inr [\<lparr>ev_run_id = JStr ''wf_1'', ev_seq = JInt 0, ev_ts = JStr ''t'', ev_type = JStr ''run_finished'',
         ev_data = str_dict [(''result'', PyList [PyInt 1, PyStr ''a'']), (''duration_s'', PyFloat (Finite 2))]\<rparr>]"
proof -
  let ?cs = "[(''t'', RunFinished (PyTuple [PyInt 1, PyStr ''a'']) 2)]"
  let ?read = "[\<lparr>ev_run_id = JStr ''wf_1'', ev_seq = JInt 0, ev_ts = JStr ''t'', ev_type = JStr ''run_finished'',
      ev_data = str_dict [(''result'', PyList [PyInt 1, PyStr ''a'']), (''duration_s'', PyFloat (Finite 2))]\<rparr>]"
  have e: "stream_run ?cs (new_stream ''wf_1'') = Inr ([\<lparr>ev_run_id = JStr ''wf_1'', ev_seq = JInt 0, ev_ts = JStr ''t'', ev_type = JStr ''run_finished'',
      ev_data = str_dict [(''result'', PyTuple [PyInt 1, PyStr ''a'']), (''duration_s'', PyFloat (Finite 2))]\<rparr>], \<lparr>es_run_id = ''wf_1'', es_seq = 1\<rparr>)"
    by (simp add: stream_emit_ok REQUIRED_DATA_KEYS_def EVENT_TYPES_def new_stream_def)
  show ?thesis
  proof
    fix fl
    from event_stream_journal [of ?cs "''wf_1''" fl]
    show "\<exists>evs j. stream_run ?cs (new_stream ''wf_1'') = Inr (evs, \<lparr>es_run_id = ''wf_1'', es_seq = 1\<rparr>) \<and>
        serialize_events fl evs = Inr j \<and> deserialize_events (Some j) = Inr ?read"
    unfolding e by (auto simp: stored_event_def str_dict_def from_items_def)
  qed
qed

end
