(* ===== verification/Run_Store.thy ===== *)
theory Run_Store imports Py_Value begin

section \<open>The on-disk store of workflow runs (\<^verbatim>\<open>workflows/store.py\<close>)\<close>

text \<open>
  \<open>run_files\<close> is the directory \<^verbatim>\<open>runs/\<close>: file name and content, in order of
  modification time, oldest first (a rewritten file goes last); a content of \<open>None\<close> is a file
  that is not JSON. \<^verbatim>\<open>hashlib.sha256(..).hexdigest()\<close> is the parameter \<open>sha\<close>, the
  redaction of one string (\<^verbatim>\<open>junction.security\<close>) the parameter \<open>red\<close> and the text of a float that is a key \<open>fl\<close>. A save
  of a record that \<^verbatim>\<open>json.dumps\<close> raises on, or that cannot create the directory or write the file (\<open>ok = False\<close>), leaves the directory as it was.

  The locale \<open>run_mirror\<close> is what the registry of runs relies on: a saved run is found again,
  a deleted one is not, and neither operation touches the record of another run.
\<close>

type_synonym run_files = "(string \<times> json option) list"

text \<open>The redaction walks dicts and lists; keys, tuples and other objects it leaves as they are.\<close>

primrec redact :: "(string \<Rightarrow> string) \<Rightarrow> py \<Rightarrow> py" where
  "redact red PyNone = PyNone"
| "redact red (PyBool b) = PyBool b"
| "redact red (PyInt n) = PyInt n"
| "redact red (PyFloat f) = PyFloat f"
| "redact red (PyStr s) = PyStr (red s)"
| "redact red (PyList xs) = PyList (map (redact red) xs)"
| "redact red (PyTuple xs) = PyTuple xs"
| "redact red (PyDict d) = PyDict (map (map_prod id (redact red)) d)"
| "redact red (PyObject s) = PyObject s"

definition safe_id_char :: "char \<Rightarrow> bool" where
  "safe_id_char c = (py_isalnum c \<or> c = CHR ''_'' \<or> c = CHR ''-'')"

definition path_for :: "(string \<Rightarrow> string) \<Rightarrow> string \<Rightarrow> string" where
  "path_for sha run_id =
     (let safe = filter safe_id_char run_id;
          stem = (if safe \<noteq> run_id
                  then (let digest = take 12 (sha run_id)
                        in if safe \<noteq> [] then safe @ ''-'' @ digest else digest)
                  else safe)
      in stem @ ''.json'')"

text \<open>A run id is the JSON value the registry holds: only a string has a path, any other is a
  \<^verbatim>\<open>TypeError\<close> that both callers swallow.\<close>

definition store_save :: "(string \<Rightarrow> string) \<Rightarrow> (string \<Rightarrow> string) \<Rightarrow> (pyfloat \<Rightarrow> string) \<Rightarrow> bool \<Rightarrow> json \<Rightarrow> py \<Rightarrow> run_files \<Rightarrow> run_files" where
  "store_save sha red fl ok run_id store_json fs = (case run_id of
      JStr i \<Rightarrow> if i = [] \<or> \<not> ok then fs
                else (case json_dumps fl True (redact red store_json) of None \<Rightarrow> fs
                  | Some payload \<Rightarrow> dict_pop (path_for sha i) fs @ [(path_for sha i, Some payload)])
    | _ \<Rightarrow> fs)"

definition store_delete :: "(string \<Rightarrow> string) \<Rightarrow> json \<Rightarrow> run_files \<Rightarrow> run_files" where
  "store_delete sha run_id fs = (case run_id of JStr i \<Rightarrow> dict_pop (path_for sha i) fs | _ \<Rightarrow> fs)"

definition loadable :: "json option \<Rightarrow> json option" where
  "loadable content = (case content of
      Some (JObj d) \<Rightarrow> (case dict_get d ''run_id'' of
          Some r \<Rightarrow> if jtruthy r then Some (JObj d) else None | None \<Rightarrow> None)
    | _ \<Rightarrow> None)"

definition store_load_all :: "run_files \<Rightarrow> json list" where
  "store_load_all fs = List.map_filter (\<lambda>p. loadable (snd p)) fs"

subsection \<open>What the registry relies on\<close>

definition record_id :: "json \<Rightarrow> json option" where
  "record_id r = jget ''run_id'' r"

text \<open>What a file holds of a value, and the records that are written, as records of the given run.\<close>

definition file_image :: "(string \<Rightarrow> string) \<Rightarrow> (pyfloat \<Rightarrow> string) \<Rightarrow> py \<Rightarrow> json" where
  "file_image red fl v = plain fl (redact red v)"

definition writable :: "(string \<Rightarrow> string) \<Rightarrow> (pyfloat \<Rightarrow> string) \<Rightarrow> json \<Rightarrow> py \<Rightarrow> bool" where
  "writable red fl i v \<longleftrightarrow> dumpable True v \<and> record_id (file_image red fl v) = Some i"

definition lookup_run :: "json \<Rightarrow> json list \<Rightarrow> json option" where
  "lookup_run i rs = find (\<lambda>r. record_id r = Some i) rs"

locale run_mirror =
  fixes save :: "json \<Rightarrow> py \<Rightarrow> 's \<Rightarrow> 's"
    and remove :: "json \<Rightarrow> 's \<Rightarrow> 's"
    and load_all :: "'s \<Rightarrow> json list"
    and norm :: "py \<Rightarrow> json"
    and fits :: "json \<Rightarrow> py \<Rightarrow> bool"
    and ok_id :: "json \<Rightarrow> bool"
    and good :: "'s \<Rightarrow> bool"
  assumes good_save: "good s \<Longrightarrow> ok_id i \<Longrightarrow> fits i r \<Longrightarrow> good (save i r s)"
    and good_remove: "good s \<Longrightarrow> good (remove i s)"
    and find_save: "good s \<Longrightarrow> ok_id i \<Longrightarrow> fits i r \<Longrightarrow>
          lookup_run i (load_all (save i r s)) = Some (norm r)"
    and save_frame: "good s \<Longrightarrow> ok_id i \<Longrightarrow> ok_id j \<Longrightarrow> i \<noteq> j \<Longrightarrow> fits i r \<Longrightarrow>
          lookup_run j (load_all (save i r s)) = lookup_run j (load_all s)"
    and find_remove: "good s \<Longrightarrow> ok_id i \<Longrightarrow> lookup_run i (load_all (remove i s)) = None"
    and remove_frame: "good s \<Longrightarrow> ok_id i \<Longrightarrow> ok_id j \<Longrightarrow> i \<noteq> j \<Longrightarrow>
          lookup_run j (load_all (remove i s)) = lookup_run j (load_all s)"
begin

lemma remove_all_frame:
  assumes "good s" "\<forall>i \<in> set js. ok_id i" "ok_id j" "j \<notin> set js"
  shows "lookup_run j (load_all (fold remove js s)) = lookup_run j (load_all s)"
  using assms by (induction js arbitrary: s) (auto simp: remove_frame good_remove)

lemma remove_all_good: "good s \<Longrightarrow> good (fold remove js s)"
  by (induction js arbitrary: s) (auto intro: good_remove)

lemma last_save_wins:
  assumes "good s" "ok_id i" "fits i r" "fits i r'"
  shows "lookup_run i (load_all (save i r' (save i r s))) = Some (norm r')"
  using assms by (intro find_save good_save)

lemma saved_survives:
  assumes "good s" "ok_id i" "fits i r"
    and "\<forall>p \<in> set ps. ok_id (fst p) \<and> fst p \<noteq> i \<and> fits (fst p) (snd p)"
  shows "lookup_run i (load_all (fold (\<lambda>p. save (fst p) (snd p)) ps (save i r s))) = Some (norm r)"
proof -
  have "good t \<Longrightarrow> lookup_run i (load_all (fold (\<lambda>p. save (fst p) (snd p)) ps t)) = lookup_run i (load_all t)" for t
    using assms(2,4)
  proof (induction ps arbitrary: t)
    case (Cons p ps)
    then have p: "ok_id (fst p)" "fst p \<noteq> i" "fits (fst p) (snd p)" by auto
    have "good (save (fst p) (snd p) t)" using Cons.prems(1) p by (intro good_save)
    then have "lookup_run i (load_all (fold (\<lambda>p. save (fst p) (snd p)) ps (save (fst p) (snd p) t))) =
        lookup_run i (load_all (save (fst p) (snd p) t))"
      using Cons.prems by (intro Cons.IH) auto
    also have "\<dots> = lookup_run i (load_all t)" using Cons.prems(1,2) p by (intro save_frame)
    finally show ?case by simp
  qed simp
  then show ?thesis using assms by (simp add: find_save good_save)
qed

end

subsection \<open>The files provide it\<close>

text \<open>A well-formed run id: what the gateway generates. Its text is unchanged by redaction.\<close>

definition wf_run_id :: "(string \<Rightarrow> string) \<Rightarrow> json \<Rightarrow> bool" where
  "wf_run_id red i = (case i of JStr s \<Rightarrow> s \<noteq> [] \<and> list_all safe_id_char s \<and> red s = s | _ \<Rightarrow> False)"

text \<open>Every file with a loadable record of a well-formed id carries that id's name.\<close>

definition files_ok :: "(string \<Rightarrow> string) \<Rightarrow> (string \<Rightarrow> string) \<Rightarrow> run_files \<Rightarrow> bool" where
  "files_ok sha red fs \<longleftrightarrow> dict_ok fs \<and>
     (\<forall>p \<in> set fs. \<forall>r i. loadable (snd p) = Some r \<longrightarrow> record_id r = Some (JStr i) \<longrightarrow>
        wf_run_id red (JStr i) \<longrightarrow> fst p = path_for sha i)"

lemma path_for_safe: "list_all safe_id_char i \<Longrightarrow> path_for sha i = i @ ''.json''"
proof -
  assume "list_all safe_id_char i"
  then have "filter safe_id_char i = i" by (simp add: list_all_iff)
  then show ?thesis by (simp add: path_for_def)
qed

lemma path_for_inj:
  "list_all safe_id_char i \<Longrightarrow> list_all safe_id_char j \<Longrightarrow> path_for sha i = path_for sha j \<longleftrightarrow> i = j"
  by (simp add: path_for_safe)

lemma loadable_SomeD: "loadable c = Some r \<Longrightarrow> c = Some r"
  by (auto simp: loadable_def split: option.splits json.splits if_splits)

lemma dumpable_redact [simp]: "dumpable dflt (redact red v) = dumpable dflt v"
proof (induction v)
  case (PyDict d)
  have "dumpable dflt (redact red (snd p)) = dumpable dflt (snd p)" if "p \<in> set d" for p
    using PyDict.IH [OF that] by (cases p) simp
  then show ?case by simp
qed simp_all

lemma redact_json: "json_only v \<Longrightarrow> json_only (redact red v)"
proof (induction v)
  case (PyDict d)
  have "json_only (redact red (snd p))" if "p \<in> set d" for p
    using PyDict.IH [OF that] PyDict.prems that by (cases p) force
  with PyDict.prems show ?case by (simp add: comp_def)
qed simp_all

text \<open>Of a JSON value the file holds the redaction.\<close>

lemma file_image_json: "json_only v \<Longrightarrow> py_of (file_image red fl v) = redact red v"
  by (simp add: file_image_def redact_json json_round_trip)

lemma save_writes:
  assumes "writable red fl (JStr i) r" "i \<noteq> []"
  shows "store_save sha red fl True (JStr i) r fs = dict_pop (path_for sha i) fs @ [(path_for sha i, Some (file_image red fl r))]"
  using assms by (simp add: store_save_def writable_def json_dumps_def file_image_def)

lemma loadable_record:
  assumes "record_id x = Some (JStr i)" "i \<noteq> []"
  shows "loadable (Some x) = Some x"
  using assms by (auto simp: record_id_def jget_def loadable_def split: json.splits)

lemma lookup_load_append:
  "lookup_run i (store_load_all (fs @ gs)) =
     (case lookup_run i (store_load_all fs) of Some r \<Rightarrow> Some r | None \<Rightarrow> lookup_run i (store_load_all gs))"
  by (induction fs) (auto simp: store_load_all_def lookup_run_def List.map_filter_simps split: option.splits)

lemma lookup_load_pop:
  assumes "files_ok sha red fs" "wf_run_id red (JStr i)" "p \<noteq> path_for sha i"
  shows "lookup_run (JStr i) (store_load_all (dict_pop p fs)) = lookup_run (JStr i) (store_load_all fs)"
  using assms(1)
proof (induction fs)
  case (Cons f fs)
  then have ok: "files_ok sha red fs" by (auto simp: files_ok_def)
  have "\<not> (\<exists>r. loadable (snd f) = Some r \<and> record_id r = Some (JStr i))" if "fst f = p"
    using Cons.prems assms(2,3) that by (auto simp: files_ok_def)
  then show ?case using Cons.IH [OF ok]
    by (cases f) (auto simp: store_load_all_def lookup_run_def List.map_filter_simps AList.delete_eq split: option.splits)
qed simp

lemma lookup_load_popped:
  assumes "files_ok sha red fs" "wf_run_id red (JStr i)"
  shows "lookup_run (JStr i) (store_load_all (dict_pop (path_for sha i) fs)) = None"
  using assms(1)
proof (induction fs)
  case (Cons f fs)
  then have ok: "files_ok sha red fs" by (auto simp: files_ok_def)
  have "\<not> (\<exists>r. loadable (snd f) = Some r \<and> record_id r = Some (JStr i))" if "fst f \<noteq> path_for sha i"
    using Cons.prems assms(2) that by (auto simp: files_ok_def)
  then show ?case using Cons.IH [OF ok]
    by (cases f) (auto simp: store_load_all_def lookup_run_def List.map_filter_simps AList.delete_eq split: option.splits)
qed (simp add: store_load_all_def lookup_run_def List.map_filter_simps)

lemma files_ok_pop: "files_ok sha red fs \<Longrightarrow> files_ok sha red (dict_pop p fs)"
  by (auto simp: files_ok_def dest: subsetD [OF set_dict_pop])

lemma files_ok_save:
  assumes "files_ok sha red fs" "record_id x = Some (JStr i)"
  shows "files_ok sha red (dict_pop (path_for sha i) fs @ [(path_for sha i, Some x)])"
proof -
  have fresh: "path_for sha i \<notin> set (dict_keys (dict_pop (path_for sha i) fs))"
    by (simp add: AList.delete_keys)
  have new: "fst p = path_for sha j"
    if "p = (path_for sha i, Some x)" "loadable (snd p) = Some r'" "record_id r' = Some (JStr j)" for p r' j
    using loadable_SomeD [OF that(2)] that assms(2) by simp
  have "files_ok sha red (dict_pop (path_for sha i) fs)" by (rule files_ok_pop [OF assms(1)])
  note old = this [unfolded files_ok_def, THEN conjunct1]
    this [unfolded files_ok_def, THEN conjunct2, rule_format]
  have "dict_ok (dict_pop (path_for sha i) fs @ [(path_for sha i, Some x)])"
    using old(1) fresh by simp
  moreover have "fst p = path_for sha j"
    if "p \<in> set (dict_pop (path_for sha i) fs @ [(path_for sha i, Some x)])"
      "loadable (snd p) = Some r'" "record_id r' = Some (JStr j)" "wf_run_id red (JStr j)" for p r' j
  proof (cases "p = (path_for sha i, Some x)")
    case True
    then show ?thesis using that(2,3) by (rule new)
  next
    case False
    then have "p \<in> set (dict_pop (path_for sha i) fs)" using that(1) by simp
    then show ?thesis using that(2-4) by (rule old(2))
  qed
  ultimately show ?thesis unfolding files_ok_def by (intro conjI ballI allI impI)
qed

lemma lookup_load_one:
  assumes "record_id x = Some (JStr i)" "i \<noteq> []"
  shows "lookup_run (JStr j) (store_load_all [(p, Some x)]) = (if j = i then Some x else None)"
  using loadable_record [OF assms] assms(1) by (auto simp: store_load_all_def lookup_run_def List.map_filter_simps)

interpretation run_dir: run_mirror "store_save sha red fl True" "store_delete sha" store_load_all
    "file_image red fl" "writable red fl" "wf_run_id red" "files_ok sha red" for sha red fl
proof (unfold_locales, goal_cases)
  case (1 s i r)
  then obtain x where x: "i = JStr x" "x \<noteq> []" by (auto simp: wf_run_id_def split: json.splits)
  with 1 show ?case by (simp add: save_writes files_ok_save writable_def)
next
  case (2 s i)
  then show ?case by (cases i) (auto simp: store_delete_def files_ok_pop)
next
  case (3 s i r)
  then obtain x where x: "i = JStr x" "x \<noteq> []" by (auto simp: wf_run_id_def split: json.splits)
  have "record_id (file_image red fl r) = Some (JStr x)" using 3 x by (simp add: writable_def)
  with 3 x show ?case
    by (simp add: save_writes lookup_load_append lookup_load_popped lookup_load_one)
next
  case (4 s i j r)
  then obtain x y where x: "i = JStr x" "j = JStr y" "x \<noteq> []" "x \<noteq> y"
    by (auto simp: wf_run_id_def split: json.splits)
  have "path_for sha x \<noteq> path_for sha y"
    using 4 x by (auto simp: wf_run_id_def path_for_inj)
  moreover have "record_id (file_image red fl r) = Some (JStr x)" using 4 x by (simp add: writable_def)
  ultimately show ?case using 4 x
    by (auto simp: save_writes lookup_load_append lookup_load_pop lookup_load_one split: option.split)
next
  case (5 s i)
  then obtain x where x: "i = JStr x" by (auto simp: wf_run_id_def split: json.splits)
  with 5 show ?case by (simp add: store_delete_def lookup_load_popped)
next
  case (6 s i j)
  then obtain x y where x: "i = JStr x" "j = JStr y" "x \<noteq> y"
    by (auto simp: wf_run_id_def split: json.splits)
  have "path_for sha x \<noteq> path_for sha y"
    using 6 x by (auto simp: wf_run_id_def path_for_inj)
  with 6 x show ?case by (simp add: store_delete_def lookup_load_pop)
qed

subsection \<open>Properties\<close>

text \<open>A tuple is written with its texts unredacted, although its JSON form is the one of a list.\<close>

lemma tuple_is_written_unredacted:
  "file_image red fl (PyTuple (map PyStr ss)) = JArr (map JStr ss)" "file_image red fl (PyList (map PyStr ss)) = JArr (map (JStr \<circ> red) ss)"
  by (simp_all add: file_image_def)

text \<open>Whatever the run id, its file stays inside the runs directory: the file name has no
  path separator and no dot but that of its extension, so no id can climb out of it or name a
  temporary file, given that hex digests hold only letters and digits.\<close>

theorem run_path_contained:
  assumes "\<And>s. list_all py_isalnum (sha s)"
  shows "\<exists>stem. path_for sha i = stem @ ''.json'' \<and> list_all safe_id_char stem"
proof -
  have d: "list_all safe_id_char (take 12 (sha i))"
    using assms [of i] by (auto simp: list_all_iff safe_id_char_def dest: in_set_takeD)
  have "list_all safe_id_char ''-''" by (simp add: safe_id_char_def)
  with d show ?thesis by (auto simp: path_for_def Let_def list_all_iff filter_id_conv)
qed

theorem run_path_contained_witness:
  "\<exists>stem. path_for (\<lambda>_. ''0123456789abcdef'') ''../../etc/passwd'' = stem @ ''.json'' \<and> list_all safe_id_char stem"
  by (rule run_path_contained) (simp add: py_isalnum_def)

text \<open>The mapping from run ids to file names is not injective: an id with a stripped
  character and the well-formed id that spells out its sanitised form and digest share one file,
  so saving the second replaces the record of the first.\<close>

theorem run_path_collides:
  assumes "\<not> list_all safe_id_char i" "filter safe_id_char i \<noteq> []" "list_all py_isalnum (sha i)"
  shows "\<exists>j. j \<noteq> i \<and> list_all safe_id_char j \<and> path_for sha j = path_for sha i"
proof -
  define j where "j = filter safe_id_char i @ ''-'' @ take 12 (sha i)"
  have j: "list_all safe_id_char j"
    using assms(3) by (auto simp: j_def list_all_iff safe_id_char_def dest: in_set_takeD)
  have "filter safe_id_char i \<noteq> i" using assms(1) by (auto simp: list_all_iff filter_id_conv)
  then have "path_for sha i = j @ ''.json''"
    using assms(2) by (simp add: path_for_def j_def)
  moreover have "path_for sha j = j @ ''.json''" using j by (rule path_for_safe)
  moreover have "j \<noteq> i" using j assms(1) by auto
  ultimately show ?thesis using j by auto
qed

theorem run_path_collides_witness:
  "\<exists>j. j \<noteq> ''wf/1'' \<and> list_all safe_id_char j \<and>
     path_for (\<lambda>_. ''0123456789abcdef'') j = path_for (\<lambda>_. ''0123456789abcdef'') ''wf/1''"
  by (rule run_path_collides) (simp_all add: safe_id_char_def py_isalnum_def)

end
