(* ===== verification/Run_Registry.thy ===== *)
theory Run_Registry imports Workflow_Events Run_Store begin

section \<open>The registry of background runs (\<^verbatim>\<open>workflows/registry.py\<close>)\<close>

text \<open>
  \<open>run_handle\<close> is the dataclass \<^verbatim>\<open>RunHandle\<close>; as Python does, it holds whatever JSON value
  a stored record had in a field. Result, arguments and cached results of agents are any Python values. \<open>registry\<close> is a \<^verbatim>\<open>RunRegistry\<close>: its runs in insertion
  order, the store with the three operations the registry calls on it (\<open>store_ops\<close>), and the
  notices sent to the two callbacks. An operation of the store that raises leaves it unchanged, since the
  registry swallows the exception. An operation of the registry that raises is \<open>None\<close>.
\<close>

subsection \<open>Handles\<close>

definition STATUS_RUNNING :: string where "STATUS_RUNNING = ''running''"
definition STATUS_FINISHED :: string where "STATUS_FINISHED = ''finished''"
definition STATUS_FAILED :: string where "STATUS_FAILED = ''failed''"
definition STATUS_CANCELLED :: string where "STATUS_CANCELLED = ''cancelled''"
definition DEFAULT_MAX_RUNS :: int where "DEFAULT_MAX_RUNS = 200"
definition SAVE_EVERY :: nat where "SAVE_EVERY = 5"

datatype run_key = IntKey int | StrKey string

definition int_key :: "string \<Rightarrow> run_key" where
  "int_key k = (case py_int k of Some n \<Rightarrow> IntKey n | None \<Rightarrow> StrKey k)"

definition str_key :: "run_key \<Rightarrow> string" where
  "str_key k = (case k of IntKey n \<Rightarrow> show_int n | StrKey s \<Rightarrow> s)"

definition str_items :: "(run_key, 'v) dict \<Rightarrow> (string \<times> 'v) list" where
  "str_items d = from_items (map (\<lambda>(k, v). (str_key k, v)) d)"

definition str_keyed :: "(run_key, 'v) dict \<Rightarrow> (string \<times> 'v) list" where
  "str_keyed d = str_items (sort_key (\<lambda>p. str_key (fst p)) d)"

record run_handle =
  rh_id :: json
  rh_name :: json
  rh_status :: json
  rh_events :: "wf_event list"
  rh_result :: py
  rh_error :: json
  rh_author :: json
  rh_session_key :: json
  rh_task :: bool
  rh_source :: json
  rh_args :: py
  rh_agent_results :: "(run_key, py) dict"
  rh_agent_errors :: "(run_key, json) dict"

definition new_handle :: "string \<Rightarrow> string \<Rightarrow> string \<Rightarrow> string \<Rightarrow> string \<Rightarrow> py \<Rightarrow> run_handle" where
  "new_handle rid name author sess src args =
     \<lparr>rh_id = JStr rid, rh_name = JStr name, rh_status = JStr STATUS_RUNNING, rh_events = [],
      rh_result = PyNone, rh_error = JNull, rh_author = JStr author, rh_session_key = JStr sess,
      rh_task = False, rh_source = JStr src, rh_args = args,
      rh_agent_results = [], rh_agent_errors = []\<rparr>"

definition is_running :: "run_handle \<Rightarrow> bool" where
  "is_running h = (rh_status h = JStr STATUS_RUNNING)"

text \<open>\<^verbatim>\<open>_latest\<close>: a data field that is not a dict is an \<^verbatim>\<open>AttributeError\<close> (\<open>None\<close>).\<close>

definition latest :: "string \<Rightarrow> string \<Rightarrow> wf_event list \<Rightarrow> py option" where
  "latest ty key evs = (case find (\<lambda>e. ev_type e = JStr ty) (rev evs) of
      None \<Rightarrow> Some (PyStr [])
    | Some e \<Rightarrow> (case ev_data e of
        PyDict d \<Rightarrow> Some (case dict_get d (KStr key) of None \<Rightarrow> PyStr [] | Some v \<Rightarrow> v)
      | _ \<Rightarrow> None))"

definition current_phase :: "run_handle \<Rightarrow> py option" where
  "current_phase h = latest ''phase_started'' ''title'' (rh_events h)"

definition last_log :: "run_handle \<Rightarrow> py option" where
  "last_log h = latest ''log'' ''message'' (rh_events h)"

definition partials :: "run_handle \<Rightarrow> (run_key, py) dict" where
  "partials h = (if rh_status h \<noteq> JStr STATUS_RUNNING \<and> rh_status h \<noteq> JStr STATUS_FINISHED
                 then rh_agent_results h else [])"

definition events_json :: "wf_event list \<Rightarrow> py option" where
  "events_json evs = (case collect (map event_to_json evs) of Inl _ \<Rightarrow> None | Inr js \<Rightarrow> Some (PyList js))"

definition count_of :: "'a list \<Rightarrow> py" where
  "count_of xs = PyInt (int (length xs))"

definition errors_of :: "(run_key, json) dict \<Rightarrow> (run_key, py) dict" where
  "errors_of d = map (map_prod id py_of) d"

definition snapshot :: "bool \<Rightarrow> run_handle \<Rightarrow> py option" where
  "snapshot include_events h =
     (case (current_phase h, last_log h, if include_events then events_json (rh_events h) else Some PyNone) of
        (Some phase, Some lastlog, Some evs) \<Rightarrow> Some (str_dict (
          [(''run_id'', py_of (rh_id h)), (''name'', py_of (rh_name h)), (''status'', py_of (rh_status h)),
           (''result'', rh_result h), (''error'', py_of (rh_error h)), (''author'', py_of (rh_author h)),
           (''session_key'', py_of (rh_session_key h)), (''event_count'', count_of (rh_events h)),
           (''phase'', phase), (''last_log'', lastlog)] @
          (if partials h \<noteq> [] then [(''partial_result_count'', count_of (partials h))] else []) @
          (if rh_agent_errors h \<noteq> [] then [(''agent_error_count'', count_of (rh_agent_errors h))] else []) @
          (if include_events then
             [(''events'', evs), (''source'', py_of (rh_source h))] @
             (if partials h \<noteq> [] then [(''partial_results'', str_dict (str_keyed (partials h)))] else []) @
             (if rh_agent_errors h \<noteq> [] then [(''agent_errors'', str_dict (str_keyed (errors_of (rh_agent_errors h))))] else [])
           else [])))
      | _ \<Rightarrow> None)"

definition to_store_json :: "run_handle \<Rightarrow> py option" where
  "to_store_json h = (case events_json (rh_events h) of None \<Rightarrow> None | Some evs \<Rightarrow> Some (str_dict
     [(''run_id'', py_of (rh_id h)), (''name'', py_of (rh_name h)), (''status'', py_of (rh_status h)), (''result'', rh_result h),
      (''error'', py_of (rh_error h)), (''author'', py_of (rh_author h)), (''session_key'', py_of (rh_session_key h)),
      (''source'', py_of (rh_source h)), (''args'', rh_args h),
      (''agent_results'', str_dict (str_items (rh_agent_results h))),
      (''agent_errors'', str_dict (str_items (errors_of (rh_agent_errors h)))), (''events'', evs)]))"

definition jget_or :: "(string \<times> json) list \<Rightarrow> string \<Rightarrow> json \<Rightarrow> json" where
  "jget_or d k dflt = (case dict_get d k of None \<Rightarrow> dflt | Some v \<Rightarrow> v)"

definition json_or :: "json \<Rightarrow> json \<Rightarrow> json" where
  "json_or a b = (if jtruthy a then a else b)"

text \<open>\<^verbatim>\<open>for e in obj.get("events", [])\<close>: an empty list, text or dict yields no event, an
  entry that is not a well-formed event record raises, and so does a value one cannot iterate.\<close>

definition stored_events :: "json \<Rightarrow> wf_event list option" where
  "stored_events v = (case v of
      JArr js \<Rightarrow> (case collect (map event_from_json js) of Inl _ \<Rightarrow> None | Inr evs \<Rightarrow> Some evs)
    | JStr s \<Rightarrow> if s = [] then Some [] else None
    | JObj d \<Rightarrow> if d = [] then Some [] else None
    | _ \<Rightarrow> None)"

definition stored_keyed :: "json \<Rightarrow> (run_key, json) dict option" where
  "stored_keyed v = (case json_or v (JObj []) of
      JObj d \<Rightarrow> Some (from_items (map (\<lambda>(k, x). (int_key k, x)) d)) | _ \<Rightarrow> None)"

definition interrupted_error :: string where
  "interrupted_error = ''interrupted: gateway restarted while running''"

definition from_store_json :: "(string \<times> json) list \<Rightarrow> run_handle option" where
  "from_store_json d =
     (let status = jget_or d ''status'' (JStr STATUS_FINISHED); err = jget_or d ''error'' JNull;
          dead = (status = JStr STATUS_RUNNING)
      in case (dict_get d ''run_id'', stored_events (jget_or d ''events'' (JArr [])),
               stored_keyed (jget_or d ''agent_results'' JNull),
               stored_keyed (jget_or d ''agent_errors'' JNull)) of
           (Some rid, Some evs, Some res, Some errs) \<Rightarrow>
             Some \<lparr>rh_id = rid, rh_name = jget_or d ''name'' (JStr []),
                   rh_status = (if dead then JStr STATUS_FAILED else status),
                   rh_events = evs, rh_result = py_of (jget_or d ''result'' JNull),
                   rh_error = (if dead then json_or err (JStr interrupted_error) else err),
                   rh_author = jget_or d ''author'' (JStr []),
                   rh_session_key = jget_or d ''session_key'' (JStr []), rh_task = False,
                   rh_source = jget_or d ''source'' (JStr []),
                   rh_args = py_of (json_or (jget_or d ''args'' JNull) (JObj [])),
                   rh_agent_results = map (map_prod id py_of) res, rh_agent_errors = errs\<rparr>
         | _ \<Rightarrow> None)"

subsection \<open>The registry\<close>

record 's store_ops =
  op_save :: "json \<Rightarrow> py \<Rightarrow> 's \<Rightarrow> 's"
  op_delete :: "json \<Rightarrow> 's \<Rightarrow> 's"
  op_load_all :: "'s \<Rightarrow> json list"

datatype run_notice = EventNotice json py | DoneNotice json py

record 's registry =
  reg_runs :: "(json, run_handle) dict"
  reg_max :: int
  reg_store :: "'s option"
  reg_on_done :: bool
  reg_on_event :: bool
  reg_notices :: "run_notice list"

definition new_registry :: "int \<Rightarrow> 's option \<Rightarrow> 's registry" where
  "new_registry mx st = \<lparr>reg_runs = [], reg_max = mx, reg_store = st, reg_on_done = False,
     reg_on_event = False, reg_notices = []\<rparr>"

definition set_on_done :: "bool \<Rightarrow> 's registry \<Rightarrow> 's registry" where
  "set_on_done cb r = r\<lparr>reg_on_done := cb\<rparr>"

definition set_on_event :: "bool \<Rightarrow> 's registry \<Rightarrow> 's registry" where
  "set_on_event cb r = r\<lparr>reg_on_event := cb\<rparr>"

definition persist_handle :: "'s store_ops \<Rightarrow> run_handle \<Rightarrow> 's registry \<Rightarrow> 's registry" where
  "persist_handle ops h r = (case reg_store r of None \<Rightarrow> r
     | Some st \<Rightarrow> (case to_store_json h of None \<Rightarrow> r
         | Some j \<Rightarrow> r\<lparr>reg_store := Some (op_save ops (rh_id h) j st)\<rparr>))"

function evict_runs :: "int \<Rightarrow> (json \<Rightarrow> 's \<Rightarrow> 's) \<Rightarrow> (json, run_handle) dict \<Rightarrow> 's option
    \<Rightarrow> (json, run_handle) dict \<times> 's option" where
  "evict_runs mx del runs st =
     (if int (length runs) \<le> mx then (runs, st)
      else case find (\<lambda>p. \<not> is_running (snd p)) runs of
             None \<Rightarrow> (runs, st)
           | Some p \<Rightarrow> evict_runs mx del (dict_pop (fst p) runs) (map_option (del (fst p)) st))"
  by pat_completeness auto

lemma find_in_set: "find P xs = Some x \<Longrightarrow> x \<in> set xs \<and> P x"
  by (induction xs) (auto split: if_splits)

lemma dict_pop_shrinks: "p \<in> set d \<Longrightarrow> length (dict_pop (fst p) d) < length d"
  by (auto simp: AList.delete_eq intro!: length_filter_less)

termination evict_runs
  by (relation "measure (\<lambda>(mx, del, runs, st). length runs)")
     (auto dest!: find_in_set dict_pop_shrinks)

declare evict_runs.simps [simp del]

definition reg_evict :: "'s store_ops \<Rightarrow> 's registry \<Rightarrow> 's registry" where
  "reg_evict ops r = (let (runs, st) = evict_runs (reg_max r) (op_delete ops) (reg_runs r) (reg_store r)
     in r\<lparr>reg_runs := runs, reg_store := st\<rparr>)"

definition reg_register :: "'s store_ops \<Rightarrow> run_handle \<Rightarrow> 's registry \<Rightarrow> 's registry" where
  "reg_register ops h r = persist_handle ops h
     (reg_evict ops (r\<lparr>reg_runs := dict_pop (rh_id h) (reg_runs r) @ [(rh_id h, h)]\<rparr>))"

definition set_run :: "json \<Rightarrow> run_handle \<Rightarrow> 's registry \<Rightarrow> 's registry" where
  "set_run i h r = r\<lparr>reg_runs := dict_set i h (reg_runs r)\<rparr>"

definition notify :: "bool \<Rightarrow> run_notice option \<Rightarrow> 's registry \<Rightarrow> 's registry" where
  "notify enabled n r = (case n of Some m \<Rightarrow> if enabled then r\<lparr>reg_notices := reg_notices r @ [m]\<rparr> else r
     | None \<Rightarrow> r)"

definition record_event :: "'s store_ops \<Rightarrow> json \<Rightarrow> wf_event \<Rightarrow> 's registry \<Rightarrow> 's registry" where
  "record_event ops run_id ev r = (case dict_get (reg_runs r) run_id of None \<Rightarrow> r
     | Some h \<Rightarrow>
        (let h = h\<lparr>rh_events := rh_events h @ [ev]\<rparr>;
             r = set_run run_id h r;
             r = notify (reg_on_event r)
                   (case event_to_json ev of Inl _ \<Rightarrow> None | Inr j \<Rightarrow> Some (EventNotice run_id j)) r
         in if length (rh_events h) mod SAVE_EVERY = 0 then persist_handle ops h r else r))"

definition record_agent_result :: "json \<Rightarrow> int \<Rightarrow> py \<Rightarrow> bool \<Rightarrow> string \<Rightarrow> 's registry \<Rightarrow> 's registry" where
  "record_agent_result run_id idx result ok err r = (case dict_get (reg_runs r) run_id of None \<Rightarrow> r
     | Some h \<Rightarrow>
        (let h = h\<lparr>rh_agent_results := dict_set (IntKey idx) result (rh_agent_results h)\<rparr>;
             h = (if err \<noteq> [] \<or> \<not> ok
                  then h\<lparr>rh_agent_errors := dict_set (IntKey idx)
                           (JStr (if err \<noteq> [] then err else ''agent call failed (no reason recorded)''))
                           (rh_agent_errors h)\<rparr>
                  else h)
         in set_run run_id h r))"

definition mark_terminal :: "'s store_ops \<Rightarrow> json \<Rightarrow> string \<Rightarrow> py \<Rightarrow> json \<Rightarrow> 's registry \<Rightarrow> 's registry" where
  "mark_terminal ops run_id status result err r = (case dict_get (reg_runs r) run_id of None \<Rightarrow> r
     | Some h \<Rightarrow> if \<not> is_running h then r
        else (let h = h\<lparr>rh_status := JStr status, rh_result := result, rh_error := err\<rparr>;
                  r = persist_handle ops h (set_run run_id h r)
              in notify (reg_on_done r) (map_option (DoneNotice run_id) (snapshot False h)) r))"

definition reg_persist :: "'s store_ops \<Rightarrow> json \<Rightarrow> 's registry \<Rightarrow> 's registry" where
  "reg_persist ops run_id r = (case dict_get (reg_runs r) run_id of None \<Rightarrow> r
     | Some h \<Rightarrow> persist_handle ops h r)"

text \<open>The loop of \<^verbatim>\<open>load_persisted\<close>. A run id that is a list or a dict is not hashable: the
  membership test raises, outside the handler of bad records, which ends the loop.\<close>

definition hashable :: "json \<Rightarrow> bool" where
  "hashable j = (case j of JArr _ \<Rightarrow> False | JObj _ \<Rightarrow> False | _ \<Rightarrow> True)"

fun load_records :: "json list \<Rightarrow> (json, run_handle) dict \<times> nat \<Rightarrow> (json, run_handle) dict \<times> nat" where
  "load_records [] acc = acc"
| "load_records (obj # objs) (runs, loaded) =
     (case obj of JObj d \<Rightarrow>
        (let rid = jget_or d ''run_id'' JNull in
         if \<not> jtruthy rid then load_records objs (runs, loaded)
         else if \<not> hashable rid then (runs, loaded)
         else if rid \<in> set (dict_keys runs) then load_records objs (runs, loaded)
         else (case from_store_json d of None \<Rightarrow> load_records objs (runs, loaded)
               | Some h \<Rightarrow> load_records objs (runs @ [(rid, h)], Suc loaded)))
      | _ \<Rightarrow> (runs, loaded))"

definition load_persisted :: "'s store_ops \<Rightarrow> 's registry \<Rightarrow> nat \<times> 's registry" where
  "load_persisted ops r = (case reg_store r of None \<Rightarrow> (0, r)
     | Some st \<Rightarrow> (let (runs, loaded) = load_records (op_load_all ops st) (reg_runs r, 0)
         in (loaded, reg_evict ops (r\<lparr>reg_runs := runs\<rparr>))))"

definition reg_get :: "json \<Rightarrow> 's registry \<Rightarrow> run_handle option" where
  "reg_get run_id r = dict_get (reg_runs r) run_id"

definition reg_status :: "json \<Rightarrow> bool \<Rightarrow> 's registry \<Rightarrow> py option option" where
  "reg_status run_id include_events r = map_option (snapshot include_events) (reg_get run_id r)"

definition reg_list :: "'s registry \<Rightarrow> py option list" where
  "reg_list r = map (\<lambda>p. snapshot False (snd p)) (rev (reg_runs r))"

definition reg_cancel :: "json \<Rightarrow> 's registry \<Rightarrow> bool" where
  "reg_cancel run_id r = (case reg_get run_id r of None \<Rightarrow> False
     | Some h \<Rightarrow> is_running h \<and> rh_task h)"

subsection \<open>Driving a run\<close>

text \<open>How the coroutine of \<^verbatim>\<open>start_background_run\<close> ended.\<close>

datatype run_outcome =
    Returned py string json "(run_key, py) dict"
  | TaskCancelled
  | Crashed string

definition start_run :: "'s store_ops \<Rightarrow> run_handle \<Rightarrow> 's registry \<Rightarrow> 's registry" where
  "start_run ops h r = (let r = reg_register ops h r in
     case dict_get (reg_runs r) (rh_id h) of None \<Rightarrow> r
     | Some h \<Rightarrow> set_run (rh_id h) (h\<lparr>rh_task := True\<rparr>) r)"

definition drive_end :: "'s store_ops \<Rightarrow> json \<Rightarrow> run_outcome \<Rightarrow> 's registry \<Rightarrow> 's registry" where
  "drive_end ops run_id out r = (case out of
      Returned result status err results \<Rightarrow>
        (let r = (case dict_get (reg_runs r) run_id of None \<Rightarrow> r
             | Some h \<Rightarrow> set_run run_id (h\<lparr>rh_agent_results :=
                 fold (\<lambda>(k, v). dict_set k v) results (rh_agent_results h)\<rparr>) r)
         in mark_terminal ops run_id status result err r)
    | TaskCancelled \<Rightarrow> mark_terminal ops run_id STATUS_CANCELLED PyNone (JStr ''cancelled'') r
    | Crashed repr \<Rightarrow> mark_terminal ops run_id STATUS_FAILED PyNone (JStr repr) r)"

subsection \<open>Eviction\<close>

text \<open>What eviction leaves: the list without its first n ended runs.\<close>

fun drop_ended :: "nat \<Rightarrow> (json, run_handle) dict \<Rightarrow> (json, run_handle) dict" where
  "drop_ended 0 ps = ps"
| "drop_ended (Suc n) [] = []"
| "drop_ended (Suc n) (p # ps) = (if is_running (snd p) then p # drop_ended (Suc n) ps else drop_ended n ps)"

lemma drop_ended_all_running:
  "find (\<lambda>p. \<not> is_running (snd p)) ps = None \<Longrightarrow> drop_ended n ps = ps"
  by (induction n ps rule: drop_ended.induct) (auto split: if_splits)

lemma drop_ended_step:
  assumes "dict_ok ps" "find (\<lambda>p. \<not> is_running (snd p)) ps = Some q"
  shows "drop_ended (Suc n) ps = drop_ended n (dict_pop (fst q) ps)"
  using assms
proof (induction ps)
  case (Cons p ps)
  show ?case
  proof (cases "is_running (snd p)")
    case True
    with Cons.prems have q: "find (\<lambda>p. \<not> is_running (snd p)) ps = Some q" by simp
    then have "q \<in> set ps" by (auto dest: find_in_set)
    with Cons.prems(1) have ne: "fst p \<noteq> fst q" by auto
    have "drop_ended (Suc n) (p # ps) = p # drop_ended n (dict_pop (fst q) ps)"
      using Cons q True by simp
    also have "\<dots> = drop_ended n (p # dict_pop (fst q) ps)" using True by (cases n) simp_all
    finally show ?thesis using ne by (cases p) simp
  next
    case False
    with Cons.prems have "q = p" by simp
    with Cons.prems have "fst q \<notin> set (dict_keys ps)" by simp
    with \<open>q = p\<close> show ?thesis using False by (cases p) simp
  qed
qed simp

lemma evict_runs_eq:
  "dict_ok runs \<Longrightarrow> fst (evict_runs mx del runs st) = drop_ended (nat (int (length runs) - mx)) runs"
proof (induction mx del runs st rule: evict_runs.induct)
  case (1 mx del runs st)
  show ?case
  proof (cases "int (length runs) \<le> mx")
    case True
    then show ?thesis by (subst evict_runs.simps) simp
  next
    case big: False
    show ?thesis
    proof (cases "find (\<lambda>p. \<not> is_running (snd p)) runs")
      case None
      then show ?thesis using big by (subst evict_runs.simps) (simp add: drop_ended_all_running)
    next
      case (Some q)
      then have q: "fst q \<in> set (dict_keys runs)" by (auto dest: find_in_set)
      have n: "nat (int (length runs) - mx) = Suc (nat (int (length (dict_pop (fst q) runs)) - mx))"
      proof -
        have "length (dict_pop (fst q) runs) = length runs - 1" "0 < length runs"
          using dict_pop_present [OF 1(2) q] q by (auto simp: length_pos_if_in_set)
        then show ?thesis using big by linarith
      qed
      have "fst (evict_runs mx del runs st) =
          drop_ended (nat (int (length (dict_pop (fst q) runs)) - mx)) (dict_pop (fst q) runs)"
        using 1(1) [OF big Some] 1(2) big Some by (subst evict_runs.simps) simp
      then show ?thesis by (simp only: n drop_ended_step [OF 1(2) Some])
    qed
  qed
qed

lemma drop_ended_running: "p \<in> set ps \<Longrightarrow> is_running (snd p) \<Longrightarrow> p \<in> set (drop_ended n ps)"
  by (induction n ps rule: drop_ended.induct) auto

lemma drop_ended_subset: "set (drop_ended n ps) \<subseteq> set ps"
  by (induction n ps rule: drop_ended.induct) auto

lemma drop_ended_dict_ok: "dict_ok ps \<Longrightarrow> dict_ok (drop_ended n ps)"
proof (induction n ps rule: drop_ended.induct)
  case (3 n p ps)
  then show ?case using drop_ended_subset [of "Suc n" ps] by auto
qed simp_all

lemma drop_ended_length:
  "length (drop_ended n ps) \<le> length ps - n \<or> list_all (\<lambda>p. is_running (snd p)) (drop_ended n ps)"
proof (induction n ps rule: drop_ended.induct)
  case (3 n p ps)
  show ?case
  proof (cases "is_running (snd p) \<and> drop_ended (Suc n) ps \<noteq> []")
    case True
    with 3 show ?thesis by (cases "drop_ended (Suc n) ps") auto
  qed (use 3 in auto)
qed simp_all

lemma drop_ended_get:
  assumes "dict_ok ps" "dict_get ps k = Some h" "is_running h"
  shows "dict_get (drop_ended n ps) k = Some h"
  using assms drop_ended_running [of "(k, h)" ps n] drop_ended_dict_ok [of ps n]
  by (auto dest: map_of_SomeD intro: map_of_is_SomeI)

lemma reg_evict_runs:
  "dict_ok (reg_runs r) \<Longrightarrow>
     reg_runs (reg_evict ops r) = drop_ended (nat (int (length (reg_runs r)) - reg_max r)) (reg_runs r)"
  using evict_runs_eq [of "reg_runs r" "reg_max r" "op_delete ops" "reg_store r"]
  by (simp add: reg_evict_def case_prod_beta)

lemma persist_handle_runs [simp]:
  "reg_runs (persist_handle ops h r) = reg_runs r" "reg_max (persist_handle ops h r) = reg_max r"
  "reg_notices (persist_handle ops h r) = reg_notices r"
  "reg_on_done (persist_handle ops h r) = reg_on_done r"
  "reg_on_event (persist_handle ops h r) = reg_on_event r"
  by (simp_all add: persist_handle_def split: option.split)

lemma notify_simps [simp]:
  "reg_runs (notify b n r) = reg_runs r" "reg_max (notify b n r) = reg_max r"
  "reg_store (notify b n r) = reg_store r"
  by (simp_all add: notify_def split: option.split)

subsection \<open>An ended run stays ended\<close>

datatype reg_op =
    OpEvent json wf_event
  | OpResult json int py bool string
  | OpTerminal json string py json
  | OpPersist json
  | OpDriveEnd json run_outcome

fun reg_step :: "'s store_ops \<Rightarrow> reg_op \<Rightarrow> 's registry \<Rightarrow> 's registry" where
  "reg_step ops (OpEvent i ev) r = record_event ops i ev r"
| "reg_step ops (OpResult i n res good err) r = record_agent_result i n res good err r"
| "reg_step ops (OpTerminal i status res err) r = mark_terminal ops i status res err r"
| "reg_step ops (OpPersist i) r = reg_persist ops i r"
| "reg_step ops (OpDriveEnd i out) r = drive_end ops i out r"

definition ended_as :: "json \<Rightarrow> string \<Rightarrow> py \<Rightarrow> json \<Rightarrow> 's registry \<Rightarrow> bool" where
  "ended_as i status res err r \<longleftrightarrow> (\<exists>h. reg_get i r = Some h \<and> rh_status h = JStr status \<and>
     rh_result h = res \<and> rh_error h = err)"

definition done_notices :: "json \<Rightarrow> 's registry \<Rightarrow> run_notice list" where
  "done_notices i r = filter (\<lambda>n. \<exists>j. n = DoneNotice i j) (reg_notices r)"

lemma set_run_get [simp]:
  "dict_get (reg_runs (set_run i h r)) j = (if j = i then Some h else dict_get (reg_runs r) j)"
  by (simp add: set_run_def dict_simps)

lemma set_run_fields [simp]:
  "reg_notices (set_run i h r) = reg_notices r" "reg_store (set_run i h r) = reg_store r"
  "reg_on_done (set_run i h r) = reg_on_done r" "reg_on_event (set_run i h r) = reg_on_event r"
  by (simp_all add: set_run_def)

lemma mark_terminal_ended:
  assumes "ended_as i status res err r" "status \<noteq> STATUS_RUNNING"
  shows "ended_as i status res err (mark_terminal ops j st' res' err' r)"
    and "done_notices i (mark_terminal ops j st' res' err' r) = done_notices i r"
  using assms
  by (auto simp: ended_as_def done_notices_def reg_get_def mark_terminal_def is_running_def Let_def
      notify_def split: option.split)

lemma reg_step_ended:
  assumes "ended_as i status res err r" "status \<noteq> STATUS_RUNNING"
  shows "ended_as i status res err (reg_step ops x r) \<and> done_notices i (reg_step ops x r) = done_notices i r"
proof (cases x)
  case (OpDriveEnd j out)
  define r1 where "r1 = (case out of Returned a b c results \<Rightarrow>
      (case dict_get (reg_runs r) j of None \<Rightarrow> r
       | Some h \<Rightarrow> set_run j (h\<lparr>rh_agent_results :=
             fold (\<lambda>(k, v). dict_set k v) results (rh_agent_results h)\<rparr>) r) | _ \<Rightarrow> r)"
  have "ended_as i status res err r1" "done_notices i r1 = done_notices i r"
    using assms by (auto simp: r1_def ended_as_def done_notices_def reg_get_def split: run_outcome.split option.split)
  then show ?thesis
    using mark_terminal_ended [of i status res err r1 ops j] assms(2)
    by (simp add: OpDriveEnd drive_end_def r1_def split: run_outcome.splits)
qed (use assms mark_terminal_ended [OF assms] in
    \<open>auto simp: ended_as_def done_notices_def reg_get_def record_event_def record_agent_result_def
       reg_persist_def Let_def notify_def split: option.splits sum.splits\<close>)

lemma reg_steps_ended:
  assumes "ended_as i status res err r" "status \<noteq> STATUS_RUNNING"
  shows "ended_as i status res err (fold (reg_step ops) xs r) \<and>
    done_notices i (fold (reg_step ops) xs r) = done_notices i r"
  using assms(1)
proof (induction xs arbitrary: r)
  case (Cons x xs)
  from Cons.IH [of "reg_step ops x r"] show ?case
    using reg_step_ended [OF Cons.prems assms(2), of ops x] by simp
qed simp

lemma mark_terminal_first:
  assumes "reg_get i r = Some h" "is_running h"
  shows "ended_as i status res err (mark_terminal ops i status res err r)"
  using assms by (simp add: ended_as_def reg_get_def mark_terminal_def Let_def)

subsection \<open>What a restart restores\<close>

text \<open>A handle as the gateway builds it: known event types, result keys that survive being
  written as JSON keys, arguments that are a dict.\<close>

definition keys_ok :: "(run_key, 'v) dict \<Rightarrow> bool" where
  "keys_ok d \<longleftrightarrow> dict_ok d \<and> list_all (\<lambda>p. int_key (str_key (fst p)) = fst p) d"

definition handle_ok :: "run_handle \<Rightarrow> bool" where
  "handle_ok h \<longleftrightarrow> list_all (\<lambda>e. known_type (ev_type e)) (rh_events h) \<and>
     keys_ok (rh_agent_results h) \<and> keys_ok (rh_agent_errors h) \<and> (\<exists>d. rh_args h = PyDict d)"

text \<open>Whether \<^verbatim>\<open>json.dumps(..., default=str)\<close> takes all that the handle holds: no dict in it has a key
  that is neither text, number, boolean nor \<^verbatim>\<open>None\<close>.\<close>

definition handle_dumpable :: "run_handle \<Rightarrow> bool" where
  "handle_dumpable h \<longleftrightarrow> dumpable True (rh_result h) \<and> dumpable True (rh_args h) \<and>
     (\<forall>p \<in> set (rh_agent_results h). dumpable True (snd p)) \<and> (\<forall>e \<in> set (rh_events h). dumpable True (ev_data e))"

text \<open>A handle as a file brings it back: each field as the redactor leaves it, and result, arguments, cached results and data of
  events in their JSON form, which is the value itself for a value that JSON has (\<open>file_image_json\<close>).\<close>

definition restored_event :: "(string \<Rightarrow> string) \<Rightarrow> (pyfloat \<Rightarrow> string) \<Rightarrow> wf_event \<Rightarrow> wf_event" where
  "restored_event red fl e = \<lparr>ev_run_id = file_image red fl (py_of (ev_run_id e)), ev_seq = file_image red fl (py_of (ev_seq e)),
     ev_ts = file_image red fl (py_of (ev_ts e)), ev_type = file_image red fl (py_of (ev_type e)), ev_data = py_of (file_image red fl (ev_data e))\<rparr>"

definition restored_handle :: "(string \<Rightarrow> string) \<Rightarrow> (pyfloat \<Rightarrow> string) \<Rightarrow> run_handle \<Rightarrow> run_handle" where
  "restored_handle red fl h =
     \<lparr>rh_id = file_image red fl (py_of (rh_id h)), rh_name = file_image red fl (py_of (rh_name h)), rh_status = file_image red fl (py_of (rh_status h)),
      rh_events = map (restored_event red fl) (rh_events h), rh_result = py_of (file_image red fl (rh_result h)),
      rh_error = file_image red fl (py_of (rh_error h)), rh_author = file_image red fl (py_of (rh_author h)),
      rh_session_key = file_image red fl (py_of (rh_session_key h)), rh_task = False,
      rh_source = file_image red fl (py_of (rh_source h)), rh_args = py_of (file_image red fl (rh_args h)),
      rh_agent_results = map (map_prod id (py_of \<circ> file_image red fl)) (rh_agent_results h),
      rh_agent_errors = map (map_prod id (file_image red fl \<circ> py_of)) (rh_agent_errors h)\<rparr>"

text \<open>What the status of a stored run becomes in a new process.\<close>

definition demote :: "run_handle \<Rightarrow> run_handle" where
  "demote h = (if is_running h
     then h\<lparr>rh_status := JStr STATUS_FAILED, rh_error := json_or (rh_error h) (JStr interrupted_error)\<rparr> else h)"

lemma str_key_inj: "int_key (str_key a) = a \<Longrightarrow> int_key (str_key b) = b \<Longrightarrow> str_key a = str_key b \<longleftrightarrow> a = b"
  by metis

lemma str_items_eq:
  assumes "keys_ok d"
  shows "str_items d = map (map_prod str_key id) d" "dict_ok (map (map_prod str_key id) d)"
proof -
  have "inj_on str_key (set (map fst d))"
    using assms by (intro inj_onI) (auto simp: keys_ok_def list_all_iff, metis fst_conv)
  moreover have "distinct (map fst d)" using assms by (simp add: keys_ok_def)
  ultimately have "distinct (map str_key (map fst d))"
    unfolding distinct_map [of str_key "map fst d"] by blast
  moreover have "map str_key (map fst d) = map fst (map (map_prod str_key id) d)" by simp
  ultimately show d: "dict_ok (map (map_prod str_key id) d)" by metis
  then show "str_items d = map (map_prod str_key id) d"
    unfolding str_items_def by (simp only: map_prod_def id_apply from_items_id)
qed

lemma redact_str_dict: "redact red (str_dict d) = str_dict (map (map_prod id (redact red)) d)"
  by (simp add: str_dict_def comp_def map_prod_def case_prod_beta)

lemma file_image_str_dict:
  assumes "dict_ok d"
  shows "file_image red fl (str_dict d) = JObj (map (map_prod id (file_image red fl)) d)"
proof -
  have "dict_ok (map (map_prod id (redact red)) d)" using assms by (simp add: comp_def)
  then show ?thesis
    by (simp add: file_image_def redact_str_dict plain_str_dict) (simp add: file_image_def map_prod_def case_prod_beta comp_def)
qed

lemma stored_keyed_items:
  assumes "keys_ok d"
  shows "stored_keyed (file_image red fl (str_dict (str_items d))) = Some (map (map_prod id (file_image red fl)) d)"
proof -
  define m where "m = map (map_prod id (file_image red fl)) (map (map_prod str_key id) d)"
  define kvs where "kvs = map (\<lambda>(k, x). (int_key k, x)) m"
  have kvs: "kvs = map (map_prod id (file_image red fl)) d"
    unfolding kvs_def m_def using assms by (auto simp: keys_ok_def list_all_iff)
  have "map fst kvs = map fst d" by (simp add: kvs)
  then have "from_items kvs = kvs" using assms by (intro from_items_id) (simp add: keys_ok_def)
  moreover have "file_image red fl (str_dict (str_items d)) = JObj m"
    using str_items_eq(2) [OF assms] by (simp only: str_items_eq(1) [OF assms] m_def file_image_str_dict)
  moreover have "json_or (JObj m) (JObj []) = JObj m" by (simp add: json_or_def)
  ultimately show ?thesis by (simp only: stored_keyed_def json.case kvs_def [symmetric]) (simp only: kvs)
qed

lemma keys_ok_errors: "keys_ok d \<Longrightarrow> keys_ok (errors_of d)"
  by (auto simp: keys_ok_def errors_of_def list_all_iff comp_def)

text \<open>An event in the store.\<close>

lemma stored_events_image:
  assumes "list_all (\<lambda>e. known_type (ev_type e)) evs" "events_json evs = Some v"
  shows "stored_events (file_image red fl v) = Some (map (restored_event red fl) evs)"
    and "dumpable True v \<longleftrightarrow> (\<forall>e \<in> set evs. dumpable True (ev_data e))"
proof -
  define g where "g e = str_dict [(''run_id'', py_of (ev_run_id e)), (''seq'', py_of (ev_seq e)), (''ts'', py_of (ev_ts e)),
      (''type'', py_of (ev_type e)), (''data'', ev_data e)]" for e :: wf_event
  have "collect (map event_to_json evs) = Inr (map g evs)"
    using assms(1) by (intro collect_all_Inr) (simp add: event_to_json_def g_def list_all_iff)
  then have v: "v = PyList (map g evs)" using assms(2) by (simp add: events_json_def)
  have "event_from_json (file_image red fl (g e)) = Inr (restored_event red fl e)" for e
    by (simp add: g_def file_image_str_dict event_from_json_def restored_event_def)
  then have "collect (map event_from_json (map (\<lambda>e. file_image red fl (g e)) evs)) = Inr (map (restored_event red fl) evs)"
    unfolding map_map comp_def by (intro collect_all_Inr) simp
  then show "stored_events (file_image red fl v) = Some (map (restored_event red fl) evs)"
    by (simp add: v file_image_def stored_events_def comp_def)
  show "dumpable True v \<longleftrightarrow> (\<forall>e \<in> set evs. dumpable True (ev_data e))" by (simp add: v g_def)
qed

lemma events_json_ok: "list_all (\<lambda>e. known_type (ev_type e)) evs \<Longrightarrow> \<exists>v. events_json evs = Some v"
proof -
  assume "list_all (\<lambda>e. known_type (ev_type e)) evs"
  then have "collect (map event_to_json evs) = Inr (map (\<lambda>e. projr (event_to_json e)) evs)"
    by (intro collect_all_Inr) (simp add: event_to_json_def list_all_iff)
  then show ?thesis by (simp add: events_json_def)
qed

lemma store_json_roundtrip:
  assumes "handle_ok h" "handle_dumpable h"
  shows "\<exists>v d. to_store_json h = Some v \<and> file_image red fl v = JObj d \<and> dumpable True v \<and>
     record_id (JObj d) = Some (file_image red fl (py_of (rh_id h))) \<and> from_store_json d = Some (demote (restored_handle red fl h))"
proof -
  obtain evs where evs: "events_json (rh_events h) = Some evs"
    using assms events_json_ok by (auto simp: handle_ok_def)
  have se: "stored_events (file_image red fl evs) = Some (map (restored_event red fl) (rh_events h))"
      "dumpable True evs"
    using assms stored_events_image(1) [OF _ evs, of red fl] stored_events_image(2) [OF _ evs] by (auto simp: handle_ok_def handle_dumpable_def)
  obtain ad where ad: "rh_args h = PyDict ad" using assms by (auto simp: handle_ok_def)
  have args: "json_or (file_image red fl (rh_args h)) (JObj []) = file_image red fl (rh_args h)"
    by (simp add: json_or_def ad file_image_def)
  have keys: "keys_ok (rh_agent_results h)" "keys_ok (errors_of (rh_agent_errors h))"
    using assms(1) by (auto simp: handle_ok_def keys_ok_errors)
  note ks = stored_keyed_items [OF keys(1), of red fl] stored_keyed_items [OF keys(2), of red fl]
  have "p \<in> set (errors_of (rh_agent_errors h)) \<Longrightarrow> dumpable True (snd p)" for p by (auto simp: errors_of_def)
  then have du: "dumpable True (str_dict (str_items (rh_agent_results h)))" "dumpable True (str_dict (str_items (errors_of (rh_agent_errors h))))"
    using assms(2) by (auto simp: str_items_eq(1) [OF keys(1)] str_items_eq(1) [OF keys(2)] handle_dumpable_def)
  have errs: "map (map_prod id (file_image red fl)) (errors_of (rh_agent_errors h)) = map (map_prod id (file_image red fl \<circ> py_of)) (rh_agent_errors h)"
    by (simp add: errors_of_def map_prod_def case_prod_beta comp_def)
  have res: "map (map_prod id py_of \<circ> map_prod id (file_image red fl)) (rh_agent_results h) = map (map_prod id (py_of \<circ> file_image red fl)) (rh_agent_results h)"
    by auto
  define v where "v = the (to_store_json h)"
  have v: "to_store_json h = Some v" by (simp add: v_def to_store_json_def evs)
  define d where "d = map (map_prod id (file_image red fl)) [(''run_id'', py_of (rh_id h)), (''name'', py_of (rh_name h)), (''status'', py_of (rh_status h)), (''result'', rh_result h),
      (''error'', py_of (rh_error h)), (''author'', py_of (rh_author h)), (''session_key'', py_of (rh_session_key h)),
      (''source'', py_of (rh_source h)), (''args'', rh_args h),
      (''agent_results'', str_dict (str_items (rh_agent_results h))),
      (''agent_errors'', str_dict (str_items (errors_of (rh_agent_errors h)))), (''events'', evs)]"
  have "file_image red fl v = JObj d" by (simp add: v_def to_store_json_def evs file_image_str_dict d_def)
  moreover have "dumpable True v" using assms(2) du se(2) by (simp add: v_def to_store_json_def evs handle_dumpable_def del: dumpable_str_dict) simp
  moreover have "record_id (JObj d) = Some (file_image red fl (py_of (rh_id h)))" by (simp add: d_def record_id_def jget_def)
  moreover have "from_store_json d = Some (demote (restored_handle red fl h))"
    by (simp add: d_def from_store_json_def jget_or_def Let_def se(1) ks args errs res restored_handle_def demote_def is_running_def)
  ultimately show ?thesis using v by blast
qed

text \<open>The loader finds the first record of an id, if no record before it stops the loop.\<close>

definition loads_cleanly :: "json list \<Rightarrow> bool" where
  "loads_cleanly rs \<longleftrightarrow> list_all (\<lambda>r. \<exists>d i. r = JObj d \<and> dict_get d ''run_id'' = Some i \<and>
     jtruthy i \<and> hashable i) rs"

lemma load_records_keep:
  "dict_get runs i = Some h \<Longrightarrow> dict_get (fst (load_records rs (runs, n))) i = Some h"
  by (induction rs "(runs, n)" arbitrary: runs n rule: load_records.induct)
     (auto simp: Let_def split: json.splits option.splits)

lemma load_records_length:
  "length (fst (load_records rs (runs, n))) \<le> length runs + length rs"
  by (induction rs "(runs, n)" arbitrary: runs n rule: load_records.induct)
     (force simp: Let_def split: json.splits option.splits)+

lemma load_records_dict_ok:
  "dict_ok runs \<Longrightarrow> dict_ok (fst (load_records rs (runs, n)))"
  by (induction rs "(runs, n)" arbitrary: runs n rule: load_records.induct)
     (auto simp: Let_def split: json.splits option.splits)

lemma load_records_finds:
  assumes "loads_cleanly rs" "lookup_run i rs = Some (JObj d)" "from_store_json d = Some h"
    and "i \<notin> set (dict_keys runs)"
  shows "dict_get (fst (load_records rs (runs, n))) i = Some h"
  using assms(1,2,4)
proof (induction rs arbitrary: runs n)
  case (Cons r rs)
  from Cons.prems(1) obtain d' j where r: "r = JObj d'" "dict_get d' ''run_id'' = Some j"
      "jtruthy j" "hashable j" and cl: "loads_cleanly rs"
    by (auto simp: loads_cleanly_def)
  show ?case
  proof (cases "j = i")
    case True
    then have "d' = d" using Cons.prems(2) r by (simp add: lookup_run_def record_id_def jget_def)
    then show ?thesis
      using True r Cons.prems(3) assms(3)
      by (simp add: jget_or_def Let_def load_records_keep map_add_def map_of_eq_None_iff [THEN iffD2])
  next
    case False
    then have "lookup_run i rs = Some (JObj d)"
      using Cons.prems(2) r by (simp add: lookup_run_def record_id_def jget_def)
    from Cons.IH [OF cl this] show ?thesis
      using r False Cons.prems(3) by (auto simp: jget_or_def Let_def split: option.split)
  qed
qed (simp add: lookup_run_def)

lemma evict_below: "int (length runs) \<le> mx \<Longrightarrow> evict_runs mx del runs st = (runs, st)"
  by (subst evict_runs.simps) simp

context run_mirror
begin

lemma reload_finds:
  assumes "good s" "ok_id i" "fits i r" "norm r = JObj d" "from_store_json d = Some h"
    and "loads_cleanly (load_all (save i r s))" "int (length (load_all (save i r s))) \<le> mx"
  shows "reg_get i (snd (load_persisted \<lparr>op_save = save, op_delete = remove, op_load_all = load_all\<rparr>
      (new_registry mx (Some (save i r s))))) = Some h"
proof -
  let ?rs = "load_all (save i r s)"
  have f: "dict_get (fst (load_records ?rs ([], 0))) i = Some h"
    using find_save [OF assms(1-3)] assms(4-6) by (intro load_records_finds) auto
  have "int (length (fst (load_records ?rs ([], 0)))) \<le> mx"
    using load_records_length [of ?rs "[]" 0] assms(7) by simp
  with f show ?thesis
    by (simp add: load_persisted_def new_registry_def reg_get_def reg_evict_def evict_below case_prod_beta)
qed

end

text \<open>The store operations on the runs directory.\<close>

definition dir_ops :: "(string \<Rightarrow> string) \<Rightarrow> (string \<Rightarrow> string) \<Rightarrow> (pyfloat \<Rightarrow> string) \<Rightarrow> bool \<Rightarrow> run_files store_ops" where
  "dir_ops sha red fl ok = \<lparr>op_save = store_save sha red fl ok, op_delete = store_delete sha, op_load_all = store_load_all\<rparr>"

lemma load_all_save_sub:
  "set (store_load_all (dict_pop p fs @ [(p, c)])) \<subseteq> set (store_load_all fs) \<union> set (store_load_all [(p, c)])"
  "length (store_load_all (dict_pop p fs @ [(p, c)])) \<le> Suc (length fs)"
proof -
  have sub: "set (store_load_all (dict_pop p fs)) \<subseteq> set (store_load_all fs)" for p fs
    by (induction fs) (auto simp: store_load_all_def List.map_filter_simps split: option.splits)
  have "store_load_all (xs @ ys) = store_load_all xs @ store_load_all ys" for xs ys
    by (simp add: store_load_all_def List.map_filter_def)
  then show "set (store_load_all (dict_pop p fs @ [(p, c)])) \<subseteq> set (store_load_all fs) \<union> set (store_load_all [(p, c)])"
    using sub [of p fs] by auto
  have "length (store_load_all xs) \<le> length xs" for xs :: run_files
    by (simp add: store_load_all_def List.map_filter_def)
  from le_trans [OF this] show "length (store_load_all (dict_pop p fs @ [(p, c)])) \<le> Suc (length fs)"
    using dict_pop_length_le [of p fs] by simp
qed

lemma loads_cleanly_save:
  assumes "loads_cleanly (store_load_all fs)" "record_id x = Some (JStr i)" "i \<noteq> []"
  shows "loads_cleanly (store_load_all (dict_pop p fs @ [(p, Some x)]))"
proof -
  have "loads_cleanly (store_load_all [(p, Some x)])"
    using assms(2,3) by (auto simp: loads_cleanly_def store_load_all_def List.map_filter_def loadable_def
        record_id_def jget_def hashable_def split: json.splits option.splits if_splits)
  with assms(1) show ?thesis
    using load_all_save_sub(1) [of p fs "Some x"]
    unfolding loads_cleanly_def list_all_iff by blast
qed

lemma restart_restores:
  assumes "files_ok sha red fs" "wf_run_id red (rh_id h)" "handle_ok h" "handle_dumpable h"
    and "to_store_json h = Some v" "loads_cleanly (store_load_all fs)" "int (Suc (length fs)) \<le> mx"
  shows "reg_get (rh_id h) (snd (load_persisted (dir_ops sha red fl True)
      (new_registry mx (Some (store_save sha red fl True (rh_id h) v fs))))) =
    Some (demote (restored_handle red fl h))"
proof -
  obtain i where i: "rh_id h = JStr i" "i \<noteq> []" "red i = i" using assms(2) by (auto simp: wf_run_id_def split: json.splits)
  obtain d where d: "file_image red fl v = JObj d" "dumpable True v" "record_id (JObj d) = Some (JStr i)"
      "from_store_json d = Some (demote (restored_handle red fl h))"
    using store_json_roundtrip [OF assms(3,4), of red fl] assms(5) i by (auto simp: file_image_def)
  have fits: "writable red fl (JStr i) v" using d by (simp add: writable_def)
  note sv = save_writes [OF fits i(2), of sha fs]
  have len: "int (length (store_load_all (store_save sha red fl True (JStr i) v fs))) \<le> mx"
    using load_all_save_sub(2) [of "path_for sha i" fs "Some (file_image red fl v)"] assms(7) unfolding sv by linarith
  have cl: "loads_cleanly (store_load_all (store_save sha red fl True (JStr i) v fs))"
    unfolding sv using assms(6) d(1,3) i by (intro loads_cleanly_save) auto
  show ?thesis
    unfolding dir_ops_def i
    by (rule run_dir.reload_finds [OF assms(1) _ fits d(1,4) cl len]) (use assms(2) i in simp)
qed

subsection \<open>Checkpoints\<close>

type_synonym checkpoint = "int \<times> py \<times> bool \<times> string"

definition record_checkpoint :: "json \<Rightarrow> checkpoint \<Rightarrow> 's registry \<Rightarrow> 's registry" where
  "record_checkpoint i c r = (case c of (n, v, good, err) \<Rightarrow> record_agent_result i n v good err r)"

text \<open>The last payload recorded for a call.\<close>

definition last_payload :: "checkpoint list \<Rightarrow> int \<Rightarrow> py option" where
  "last_payload cs n = map_of (rev (map (\<lambda>(n, v, good, err). (n, v)) cs)) n"

lemma last_payload_Cons:
  "last_payload ((n', v, good, err) # cs) n =
     (case last_payload cs n of Some x \<Rightarrow> Some x | None \<Rightarrow> if n = n' then Some v else None)"
  by (auto simp: last_payload_def map_add_def split: option.split)

lemma record_checkpoint_get:
  assumes "reg_get i r = Some h"
  shows "\<exists>h'. reg_get i (record_checkpoint i (n, v, good, err) r) = Some h' \<and>
     rh_status h' = rh_status h \<and> rh_agent_results h' = dict_set (IntKey n) v (rh_agent_results h)"
  using assms by (simp add: record_checkpoint_def record_agent_result_def reg_get_def Let_def)

lemma record_checkpoints_get:
  assumes "reg_get i r = Some h"
  shows "\<exists>h'. reg_get i (fold (record_checkpoint i) cs r) = Some h' \<and> rh_status h' = rh_status h \<and>
     (\<forall>n. dict_get (rh_agent_results h') (IntKey n) =
        (case last_payload cs n of Some v \<Rightarrow> Some v | None \<Rightarrow> dict_get (rh_agent_results h) (IntKey n)))"
  using assms
proof (induction cs arbitrary: r h)
  case Nil
  then show ?case by (simp add: last_payload_def)
next
  case (Cons c cs)
  obtain n v good err where c: "c = (n, v, good, err)" by (metis prod_cases4)
  obtain h1 where h1: "reg_get i (record_checkpoint i c r) = Some h1" "rh_status h1 = rh_status h"
      "rh_agent_results h1 = dict_set (IntKey n) v (rh_agent_results h)"
    using record_checkpoint_get [OF Cons.prems, of n v good err] by (auto simp: c)
  from Cons.IH [OF h1(1)] show ?case
    by (auto simp: h1 c last_payload_Cons dict_simps split: option.split)
qed

lemma fold_items_get:
  "dict_get (fold (\<lambda>(k, v). dict_set k v) kvs d) k =
     (case dict_get (rev kvs) k of Some v \<Rightarrow> Some v | None \<Rightarrow> dict_get d k)"
  by (induction kvs arbitrary: d) (auto simp: dict_simps map_add_def split: option.splits)

text \<open>The status a run ends with and the results its driver hands over.\<close>

fun outcome_status :: "run_outcome \<Rightarrow> string" where
  "outcome_status (Returned res status err results) = status"
| "outcome_status TaskCancelled = STATUS_CANCELLED"
| "outcome_status (Crashed repr) = STATUS_FAILED"

fun outcome_results :: "run_outcome \<Rightarrow> (run_key, py) dict" where
  "outcome_results (Returned res status err results) = results"
| "outcome_results _ = []"

lemma mark_terminal_get:
  assumes "reg_get i r = Some h" "is_running h"
  shows "reg_get i (mark_terminal ops i status res err r) =
     Some (h\<lparr>rh_status := JStr status, rh_result := res, rh_error := err\<rparr>)"
  using assms by (simp add: reg_get_def mark_terminal_def Let_def)

lemma drive_end_get:
  assumes "reg_get i r = Some h" "is_running h"
  shows "\<exists>h'. reg_get i (drive_end ops i out r) = Some h' \<and> rh_status h' = JStr (outcome_status out) \<and>
     rh_agent_results h' = fold (\<lambda>(k, v). dict_set k v) (outcome_results out) (rh_agent_results h)"
proof (cases out)
  case (Returned res status err results)
  let ?h = "h\<lparr>rh_agent_results := fold (\<lambda>(k, v). dict_set k v) results (rh_agent_results h)\<rparr>"
  have "reg_get i (set_run i ?h r) = Some ?h" "is_running ?h"
    using assms(2) by (simp_all add: reg_get_def is_running_def)
  from mark_terminal_get [OF this, of ops status res err] assms(1) show ?thesis
    by (simp add: Returned drive_end_def reg_get_def)
qed (use mark_terminal_get [OF assms] in \<open>simp_all add: drive_end_def\<close>)

subsection \<open>Properties\<close>

text \<open>C16. A completed run survives a restart of the gateway. When a run with a well-formed id reaches its terminal state, \<^verbatim>\<open>json.dumps\<close> takes
  what it holds and the write succeeds, a new process that loads the store finds it under its id, provided that
  the files of the store are named by the ids they hold and have ids that can be looked up, and that there are
  no more of them than the registry keeps. What it finds is what the file says of the run: status, result, error, script,
  arguments, events and cached agent results as the redactor wrote them and in their JSON form, in which a tuple is a list, a key is a text
  and any other object its \<^verbatim>\<open>str\<close>. Values that JSON has, and the call indices, come back as themselves.\<close>

theorem run_survives_restart:
  assumes "reg_get (rh_id h) r = Some h" "is_running h" "reg_store r = Some fs" "handle_ok h"
    and "handle_dumpable (h\<lparr>rh_result := res\<rparr>)"
    and "files_ok sha red fs" "wf_run_id red (rh_id h)" "loads_cleanly (store_load_all fs)"
    and "int (Suc (length fs)) \<le> mx" "red status = status" "status \<noteq> STATUS_RUNNING"
  shows "reg_get (rh_id h) (snd (load_persisted (dir_ops sha red fl True)
      (new_registry mx (reg_store (mark_terminal (dir_ops sha red fl True) (rh_id h) status res err r))))) =
    Some (restored_handle red fl (h\<lparr>rh_status := JStr status, rh_result := res, rh_error := err\<rparr>))"
proof -
  let ?h = "h\<lparr>rh_status := JStr status, rh_result := res, rh_error := err\<rparr>"
  have ok: "handle_ok ?h" "handle_dumpable ?h" using assms(4,5) by (simp_all add: handle_ok_def handle_dumpable_def)
  then obtain v where v: "to_store_json ?h = Some v" using store_json_roundtrip by blast
  have st: "reg_store (mark_terminal (dir_ops sha red fl True) (rh_id h) status res err r) =
      Some (store_save sha red fl True (rh_id ?h) v fs)"
    using assms(1-3) v by (simp add: mark_terminal_def reg_get_def Let_def persist_handle_def dir_ops_def)
  have "demote (restored_handle red fl ?h) = restored_handle red fl ?h"
    using assms(10,11) by (simp add: demote_def is_running_def restored_handle_def file_image_def)
  then show ?thesis
    unfolding st using restart_restores [OF assms(6) _ ok v assms(8,9)] assms(7) by simp
qed

definition ex_handle :: run_handle where
  "ex_handle = (new_handle ''wf_1'' ''nightly'' ''me'' ''s1'' ''return 1'' (PyDict []))
     \<lparr>rh_agent_results := [(IntKey 0, PyStr ''done'')]\<rparr>"

theorem run_survives_restart_witness:
  "\<forall>fl. map_option rh_result (reg_get (rh_id ex_handle) (snd (load_persisted (dir_ops (\<lambda>_. ''00'') id fl True)
      (new_registry 200 (reg_store (mark_terminal (dir_ops (\<lambda>_. ''00'') id fl True) (rh_id ex_handle) ''finished''
        (PyTuple [PyDict [(KInt 1, PyStr ''a'')]]) JNull (set_run (rh_id ex_handle) ex_handle (new_registry 200 (Some []))))))))) =
     Some (PyList [PyDict [(KStr ''1'', PyStr ''a'')]])"
proof
  fix fl
  let ?res = "PyTuple [PyDict [(KInt 1, PyStr ''a'')]]"
  have k: "int_key (str_key (IntKey 0)) = IntKey 0" by (simp add: int_key_def str_key_def)
  have s: "show_int 1 = ''1''" by code_simp
  have "reg_get (rh_id ex_handle) (snd (load_persisted (dir_ops (\<lambda>_. ''00'') id fl True)
      (new_registry 200 (reg_store (mark_terminal (dir_ops (\<lambda>_. ''00'') id fl True) (rh_id ex_handle) ''finished''
        ?res JNull (set_run (rh_id ex_handle) ex_handle (new_registry 200 (Some [])))))))) =
      Some (restored_handle id fl (ex_handle\<lparr>rh_status := JStr ''finished'', rh_result := ?res, rh_error := JNull\<rparr>))"
    by (rule run_survives_restart [where fs = "[]"])
       (simp_all add: reg_get_def set_run_def new_registry_def is_running_def ex_handle_def new_handle_def
         handle_ok_def handle_dumpable_def keys_ok_def k files_ok_def wf_run_id_def safe_id_char_def py_isalnum_def
         loads_cleanly_def store_load_all_def List.map_filter_def STATUS_RUNNING_def)
  then show "map_option rh_result (reg_get (rh_id ex_handle) (snd (load_persisted (dir_ops (\<lambda>_. ''00'') id fl True)
      (new_registry 200 (reg_store (mark_terminal (dir_ops (\<lambda>_. ''00'') id fl True) (rh_id ex_handle) ''finished''
        ?res JNull (set_run (rh_id ex_handle) ex_handle (new_registry 200 (Some []))))))))) =
     Some (PyList [PyDict [(KStr ''1'', PyStr ''a'')]])"
    by (simp add: restored_handle_def file_image_def from_items_def s)
qed

text \<open>Nothing paid for is lost: when a run ends in any way but finishing - its driver
  returned a ceiling or failure status, the task was cancelled, the coroutine crashed - the handle still
  holds, for every agent call, the payload the driver handed back for it, else the last one
  checkpointed while it ran, and offers exactly these as partial results.\<close>

theorem run_keeps_partial_results:
  assumes "reg_get i r = Some h" "is_running h"
    and "outcome_status out \<noteq> STATUS_FINISHED" "outcome_status out \<noteq> STATUS_RUNNING"
  shows "\<exists>h'. reg_get i (drive_end ops i out (fold (record_checkpoint i) cs r)) = Some h' \<and>
     partials h' = rh_agent_results h' \<and>
     (\<forall>n. dict_get (partials h') (IntKey n) =
       (case dict_get (rev (outcome_results out)) (IntKey n) of Some v \<Rightarrow> Some v
        | None \<Rightarrow> (case last_payload cs n of Some v \<Rightarrow> Some v
            | None \<Rightarrow> dict_get (rh_agent_results h) (IntKey n))))"
proof -
  obtain h1 where h1: "reg_get i (fold (record_checkpoint i) cs r) = Some h1" "is_running h1"
     "\<forall>n. dict_get (rh_agent_results h1) (IntKey n) =
        (case last_payload cs n of Some v \<Rightarrow> Some v | None \<Rightarrow> dict_get (rh_agent_results h) (IntKey n))"
    using record_checkpoints_get [OF assms(1)] assms(2) by (auto simp: is_running_def)
  from drive_end_get [OF h1(1,2), of ops out] obtain h' where h':
    "reg_get i (drive_end ops i out (fold (record_checkpoint i) cs r)) = Some h'"
    "rh_status h' = JStr (outcome_status out)"
    "rh_agent_results h' = fold (\<lambda>(k, v). dict_set k v) (outcome_results out) (rh_agent_results h1)"
    by auto
  then have "partials h' = rh_agent_results h'" using assms(3,4) by (simp add: partials_def)
  with h' h1(3) show ?thesis by (auto simp: fold_items_get split: option.split)
qed

theorem run_keeps_partial_results_witness:
  "\<exists>h'. reg_get (JStr ''wf_1'') (drive_end (dir_ops (\<lambda>_. ''00'') id (\<lambda>_. []) True) (JStr ''wf_1'') TaskCancelled
       (fold (record_checkpoint (JStr ''wf_1'')) [(0, PyStr ''a'', True, []), (1, PyNone, False, []), (0, PyStr ''b'', True, [])]
         (set_run (JStr ''wf_1'') ex_handle (new_registry 200 (Some []))))) = Some h' \<and>
     dict_get (partials h') (IntKey 0) = Some (PyStr ''b'')"
proof -
  have g: "reg_get (JStr ''wf_1'') (set_run (JStr ''wf_1'') ex_handle (new_registry 200 (Some ([] :: run_files)))) = Some ex_handle"
    "is_running ex_handle"
    by (simp_all add: reg_get_def is_running_def ex_handle_def new_handle_def)
  have o: "outcome_status TaskCancelled \<noteq> STATUS_FINISHED" "outcome_status TaskCancelled \<noteq> STATUS_RUNNING"
    by (simp_all add: STATUS_FINISHED_def STATUS_RUNNING_def STATUS_CANCELLED_def)
  from run_keeps_partial_results [OF g o, of "dir_ops (\<lambda>_. ''00'') id (\<lambda>_. []) True"
      "[(0, PyStr ''a'', True, []), (1, PyNone, False, []), (0, PyStr ''b'', True, [])]"]
  show ?thesis by (elim exE conjE) (simp add: last_payload_def)
qed

text \<open>C35. A run ends once: after the first terminal transition no later event, checkpoint,
  flush, terminal transition or end of a driver, of this run or another, changes its status, result or
  error, and its completion is not announced again.\<close>

theorem run_ends_once:
  assumes "reg_get i r = Some h" "is_running h" "status \<noteq> STATUS_RUNNING"
  shows "ended_as i status res err (fold (reg_step ops) xs (mark_terminal ops i status res err r)) \<and>
     done_notices i (fold (reg_step ops) xs (mark_terminal ops i status res err r)) =
     done_notices i (mark_terminal ops i status res err r)"
  using reg_steps_ended [OF mark_terminal_first [OF assms(1,2)] assms(3)] .

theorem run_ends_once_witness:
  "ended_as (JStr ''wf_1'') ''finished'' (PyInt 1) JNull
     (fold (reg_step (dir_ops (\<lambda>_. ''00'') id (\<lambda>_. []) True)) [OpDriveEnd (JStr ''wf_1'') TaskCancelled, OpPersist (JStr ''wf_1'')]
       (mark_terminal (dir_ops (\<lambda>_. ''00'') id (\<lambda>_. []) True) (JStr ''wf_1'') ''finished'' (PyInt 1) JNull
         (set_run (JStr ''wf_1'') ex_handle (new_registry 200 (Some [])))))"
  by (rule run_ends_once [where h = ex_handle, THEN conjunct1])
     (simp_all add: reg_get_def is_running_def ex_handle_def new_handle_def STATUS_RUNNING_def)

text \<open>Registering a run leaves exactly the registry's other runs in their order, the new
  run last, less the oldest ended ones beyond the bound: no running run is ever dropped, and
  afterwards either the bound holds or every tracked run is running.\<close>

theorem register_evicts_oldest_ended:
  assumes "dict_ok (reg_runs r)" "is_running h"
  defines "others \<equiv> dict_pop (rh_id h) (reg_runs r)"
  shows "reg_runs (reg_register ops h r) =
      drop_ended (nat (int (Suc (length others)) - reg_max r)) (others @ [(rh_id h, h)]) \<and>
    reg_get (rh_id h) (reg_register ops h r) = Some h \<and>
    (\<forall>j g. j \<noteq> rh_id h \<longrightarrow> reg_get j r = Some g \<longrightarrow> is_running g \<longrightarrow> reg_get j (reg_register ops h r) = Some g) \<and>
    (int (length (reg_runs (reg_register ops h r))) \<le> max 0 (reg_max r) \<or>
     list_all (\<lambda>p. is_running (snd p)) (reg_runs (reg_register ops h r)))"
proof -
  define ps where "ps = others @ [(rh_id h, h)]"
  have ok: "dict_ok ps" using assms(1) by (auto simp: ps_def others_def AList.delete_eq)
  define n where "n = nat (int (Suc (length others)) - reg_max r)"
  have eq: "reg_runs (reg_register ops h r) = drop_ended n ps"
    using ok by (simp add: reg_register_def reg_evict_runs ps_def others_def n_def)
  have new: "dict_get ps (rh_id h) = Some h"
    by (simp add: ps_def others_def map_add_def dict_simps)
  have old: "dict_get ps j = Some g" if "j \<noteq> rh_id h" "reg_get j r = Some g" for j g
    using that by (simp add: ps_def others_def reg_get_def map_add_def dict_simps)
  have bound: "int (length (drop_ended n ps)) \<le> max 0 (reg_max r) \<or>
      list_all (\<lambda>p. is_running (snd p)) (drop_ended n ps)"
    using drop_ended_length [of n ps] by (auto simp: n_def ps_def)
  show ?thesis
    unfolding reg_get_def eq n_def [symmetric] ps_def [symmetric]
    using drop_ended_get [OF ok new assms(2)] drop_ended_get [OF ok old] bound
    by (auto simp: reg_get_def)
qed

theorem register_evicts_oldest_ended_witness:
  "reg_get (rh_id ex_handle) (reg_register (dir_ops (\<lambda>_. ''00'') id (\<lambda>_. []) True) ex_handle
     (set_run (JStr ''wf_0'') ex_handle (new_registry 1 (Some [])))) = Some ex_handle"
  using register_evicts_oldest_ended [of "set_run (JStr ''wf_0'') ex_handle (new_registry 1 (Some []))" ex_handle
      "dir_ops (\<lambda>_. ''00'') id (\<lambda>_. []) True"]
  by (simp add: set_run_def new_registry_def is_running_def ex_handle_def new_handle_def)

text \<open>A record whose run id is a list or a dict is not skipped: it ends the rehydration,
  and no record stored after it is loaded, however well-formed.\<close>

theorem load_stops_at_unhashable_id:
  assumes "jtruthy rid" "\<not> hashable rid" "dict_get d ''run_id'' = Some rid"
    and "op_load_all ops st = rs @ JObj d # later" "op_load_all ops st' = rs"
  shows "fst (load_persisted ops (new_registry mx (Some st))) = fst (load_persisted ops (new_registry mx (Some st'))) \<and>
     reg_runs (snd (load_persisted ops (new_registry mx (Some st)))) =
     reg_runs (snd (load_persisted ops (new_registry mx (Some st'))))"
proof -
  have "load_records (rs @ JObj d # later) (runs, n) = load_records rs (runs, n)" for runs n
  proof (induction rs "(runs, n)" arbitrary: runs n rule: load_records.induct)
    case 1
    then show ?case using assms(1-3) by (simp add: jget_or_def)
  qed (auto simp: Let_def split: json.split option.split)
  moreover have "dict_ok (fst (load_records rs ([] :: (json, run_handle) dict, 0)))"
    by (rule load_records_dict_ok) simp
  ultimately show ?thesis
    using assms(4,5) by (simp add: load_persisted_def new_registry_def case_prod_beta reg_evict_runs)
qed

theorem load_stops_at_unhashable_id_witness:
  "let bad = JObj [(''run_id'', JArr [JInt 1])];
       fs = [(''a.json'', Some bad), (''wf_1.json'', Some (JObj [(''run_id'', JStr ''wf_1'')]))];
       ops = dir_ops (\<lambda>_. ''00'') id (\<lambda>_. []) True
   in fst (load_persisted ops (new_registry 200 (Some fs))) = 0 \<and>
      fst (load_persisted ops (new_registry 200 (Some (tl fs)))) = 1"
proof -
  let ?d = "[(''run_id'', JArr [JInt 1])]"
  let ?good = "JObj [(''run_id'', JStr ''wf_1'')]"
  let ?ops = "dir_ops (\<lambda>_. ''00'') id (\<lambda>_. []) True"
  have "fst (load_persisted ?ops (new_registry 200 (Some [(''a.json'', Some (JObj ?d)), (''wf_1.json'', Some ?good)]))) =
      fst (load_persisted ?ops (new_registry 200 (Some [])))"
    by (rule load_stops_at_unhashable_id [where rid = "JArr [JInt 1]" and d = ?d and later = "[?good]" and rs = "[]",
          THEN conjunct1])
       (simp_all add: hashable_def dir_ops_def store_load_all_def List.map_filter_def loadable_def)
  then show ?thesis
    by (simp add: Let_def load_persisted_def new_registry_def dir_ops_def store_load_all_def List.map_filter_def
        loadable_def jget_or_def hashable_def from_store_json_def stored_events_def stored_keyed_def
        json_or_def from_items_def case_prod_beta)
qed

end
