(* ===== verification/Hazard_Ledger.thy ===== *)
theory Hazard_Ledger imports Json_Value "HOL-Library.Multiset" begin

section \<open>The ledger of observed sharing hazards (\<^verbatim>\<open>mcp_gateway/hazards.py\<close>)\<close>

text \<open>
  \<open>haz_record\<close> is \<^verbatim>\<open>_Record\<close> and \<open>ledger\<close> a \<^verbatim>\<open>HazardLedger\<close>: server name to
  launch identity to record. The file is a JSON value, \<open>None\<close> when absent or unreadable.
  \<^verbatim>\<open>flush\<close> runs on a worker thread while \<^verbatim>\<open>record\<close> runs on the event loop; it is split
  at the points where the loop can get in between: taking the lock and reading the generation, building the
  payload, and writing it. A payload built while a record changed may mix old and new, or the build may raise.

  The locale \<open>hazard_source\<close> is what a reader of the evidence relies on: an accepted
  observation is reported for its launch until the server is cleared, and never for another launch.
\<close>

definition HAZARD_UNROUTABLE_SERVER_REQUEST :: string where
  "HAZARD_UNROUTABLE_SERVER_REQUEST = ''unroutable_server_request''"
definition HAZARD_UNATTRIBUTABLE_NOTIFICATION :: string where
  "HAZARD_UNATTRIBUTABLE_NOTIFICATION = ''unattributable_notification''"
definition KNOWN_HAZARDS :: "string set" where
  "KNOWN_HAZARDS = {HAZARD_UNROUTABLE_SERVER_REQUEST, HAZARD_UNATTRIBUTABLE_NOTIFICATION}"
definition HAZARDS_SCHEMA :: int where "HAZARDS_SCHEMA = 1"

definition nul_join :: "string list \<Rightarrow> string" where
  "nul_join fs = join_with [CHR 0x00] fs"

definition launch_identity :: "string \<Rightarrow> string \<Rightarrow> string \<Rightarrow> string" where
  "launch_identity command_args_hash env_hash binary_version =
     nul_join [command_args_hash, env_hash, binary_version]"

record haz_record =
  hz_codes :: "string set"
  hz_count :: int
  hz_last_seen :: secs

definition blank_record :: haz_record where
  "blank_record = \<lparr>hz_codes = {}, hz_count = 0, hz_last_seen = 0\<rparr>"

type_synonym identity_records = "(string, haz_record) dict"
type_synonym server_records = "(string, identity_records) dict"

record ledger =
  lg_records :: server_records
  lg_dirty :: bool
  lg_generation :: nat

definition new_ledger :: ledger where
  "new_ledger = \<lparr>lg_records = [], lg_dirty = False, lg_generation = 0\<rparr>"

definition dict_default :: "('k, 'v) dict \<Rightarrow> 'k \<Rightarrow> 'v \<Rightarrow> 'v" where
  "dict_default d k v = (case dict_get d k of None \<Rightarrow> v | Some x \<Rightarrow> x)"

subsection \<open>Recording\<close>

definition record_hazard :: "string \<Rightarrow> string \<Rightarrow> string \<Rightarrow> secs \<Rightarrow> ledger \<Rightarrow> bool \<times> ledger" where
  "record_hazard server code identity now l =
     (if code \<notin> KNOWN_HAZARDS then (False, l)
      else if server = [] then (False, l)
      else let per = dict_default (lg_records l) server [];
               rec0 = dict_default per identity blank_record;
               rec1 = \<lparr>hz_codes = insert code (hz_codes rec0), hz_count = hz_count rec0 + 1, hz_last_seen = now\<rparr>
           in (code \<notin> hz_codes rec0,
               l\<lparr>lg_records := dict_set server (dict_set identity rec1 per) (lg_records l),
                 lg_dirty := True, lg_generation := Suc (lg_generation l)\<rparr>))"

definition clear_hazards :: "string \<Rightarrow> ledger \<Rightarrow> bool \<times> ledger" where
  "clear_hazards server l =
     (case dict_get (lg_records l) server of None \<Rightarrow> (False, l)
      | Some _ \<Rightarrow> (True, l\<lparr>lg_records := dict_pop server (lg_records l), lg_dirty := True,
                           lg_generation := Suc (lg_generation l)\<rparr>))"

subsection \<open>Reading\<close>

definition hazard_codes_for :: "string \<Rightarrow> string \<Rightarrow> ledger \<Rightarrow> string list" where
  "hazard_codes_for server identity l =
     (case dict_get (dict_default (lg_records l) server []) identity of
        None \<Rightarrow> [] | Some r \<Rightarrow> sorted_list_of_set (hz_codes r))"

definition all_codes :: "identity_records \<Rightarrow> string set" where
  "all_codes per = (\<Union>p \<in> set per. hz_codes (snd p))"

definition codes_for_name :: "string \<Rightarrow> ledger \<Rightarrow> string list" where
  "codes_for_name server l = sorted_list_of_set (all_codes (dict_default (lg_records l) server []))"

definition ledger_as_dict :: "ledger \<Rightarrow> (string, string list) dict" where
  "ledger_as_dict l = map (\<lambda>(name, _). (name, codes_for_name name l)) (lg_records l)"

subsection \<open>The file\<close>

definition codes_json :: "string set \<Rightarrow> json" where
  "codes_json cs = JArr (map JStr (sorted_list_of_set cs))"

definition record_json :: "haz_record \<Rightarrow> json" where
  "record_json r = JObj [(''codes'', codes_json (hz_codes r)), (''count'', JInt (hz_count r)),
     (''lastSeen'', JFloat (Finite (hz_last_seen r)))]"

definition sorted_items :: "(string, 'v) dict \<Rightarrow> (string, 'v) dict" where
  "sorted_items d = sort_key fst d"

definition max_seen :: "identity_records \<Rightarrow> secs" where
  "max_seen per = (case map (\<lambda>p. hz_last_seen (snd p)) per of [] \<Rightarrow> 0 | t # ts \<Rightarrow> foldl max t ts)"

definition server_json :: "identity_records \<Rightarrow> json" where
  "server_json per = JObj
     [(''identities'', JObj (map (\<lambda>(i, r). (i, record_json r)) (sorted_items per))),
      (''codes'', codes_json (all_codes per)),
      (''count'', JInt (sum_list (map (\<lambda>p. hz_count (snd p)) per))),
      (''lastSeen'', JFloat (Finite (max_seen per)))]"

definition hazard_payload :: "server_records \<Rightarrow> json" where
  "hazard_payload recs = JObj [(''schema'', JInt HAZARDS_SCHEMA),
     (''servers'', JObj (map (\<lambda>(n, per). (n, server_json per)) (sorted_items recs)))]"

text \<open>Python's \<^verbatim>\<open>==\<close> of a JSON value with an int: \<^verbatim>\<open>True\<close> and \<^verbatim>\<open>1.0\<close> equal 1.\<close>

definition json_eq_int :: "json option \<Rightarrow> int \<Rightarrow> bool" where
  "json_eq_int v n = (case v of Some (JInt m) \<Rightarrow> m = n | Some (JFloat (Finite r)) \<Rightarrow> r = of_int n
     | Some (JBool b) \<Rightarrow> n = (if b then 1 else 0) | _ \<Rightarrow> False)"

definition kept_codes :: "json list \<Rightarrow> string set" where
  "kept_codes cs = set (List.map_filter (\<lambda>c. case c of JStr s \<Rightarrow> if s \<in> KNOWN_HAZARDS then Some s else None | _ \<Rightarrow> None) cs)"

definition load_count :: "json option \<Rightarrow> string set \<Rightarrow> int" where
  "load_count v kept = (case v of Some (JInt n) \<Rightarrow> if 0 \<le> n then n else int (card kept)
     | Some (JBool b) \<Rightarrow> if b then 1 else 0
     | _ \<Rightarrow> int (card kept))"

definition load_record :: "json \<Rightarrow> haz_record option" where
  "load_record sub = (case sub of JObj d \<Rightarrow>
      (case dict_get d ''codes'' of Some (JArr cs) \<Rightarrow>
         (let kept = kept_codes cs in
          if kept = {} then None
          else Some \<lparr>hz_codes = kept,
                     hz_count = load_count (dict_get d ''count'') kept,
                     hz_last_seen = finite_float (case dict_get d ''lastSeen'' of None \<Rightarrow> JNull | Some v \<Rightarrow> v) 0\<rparr>)
       | _ \<Rightarrow> None)
    | _ \<Rightarrow> None)"

definition load_identities :: "(string \<times> json) list \<Rightarrow> identity_records" where
  "load_identities d = List.map_filter (\<lambda>(i, sub). map_option (Pair i) (load_record sub)) d"

definition load_server :: "json \<Rightarrow> identity_records" where
  "load_server entry = (case entry of JObj e \<Rightarrow>
      load_identities (case dict_get e ''identities'' of Some (JObj ids) \<Rightarrow> ids | _ \<Rightarrow> [([], entry)])
    | _ \<Rightarrow> [])"

definition load_hazards :: "json option \<Rightarrow> ledger \<Rightarrow> ledger" where
  "load_hazards fl l = (case fl of Some (JObj raw) \<Rightarrow>
      (if json_eq_int (dict_get raw ''schema'') HAZARDS_SCHEMA then
         (case dict_get raw ''servers'' of Some (JObj servers) \<Rightarrow>
            l\<lparr>lg_records := fold (\<lambda>(name, entry) recs.
                 if load_server entry = [] then recs else dict_set name (load_server entry) recs)
                 servers (lg_records l)\<rparr>
          | _ \<Rightarrow> l)
       else l)
    | _ \<Rightarrow> l)"

subsection \<open>Flushing, with the event loop in between\<close>

datatype flush_phase = Idle | Started nat | Built nat json

record ledger_world =
  lw_ledger :: ledger
  lw_phase :: flush_phase
  lw_disk :: "json option"

inductive ledger_step :: "ledger_world \<Rightarrow> ledger_world \<Rightarrow> bool" where
  step_record: "ledger_step w (w\<lparr>lw_ledger := snd (record_hazard server code identity now (lw_ledger w))\<rparr>)"
| step_clear: "ledger_step w (w\<lparr>lw_ledger := snd (clear_hazards server (lw_ledger w))\<rparr>)"
| step_flush: "lw_phase w = Idle \<Longrightarrow> lg_dirty (lw_ledger w) \<Longrightarrow>
    ledger_step w (w\<lparr>lw_phase := Started (lg_generation (lw_ledger w))\<rparr>)"
| step_build: "lw_phase w = Started g \<Longrightarrow>
    (lg_generation (lw_ledger w) = g \<longrightarrow> payload = hazard_payload (lg_records (lw_ledger w))) \<Longrightarrow>
    ledger_step w (w\<lparr>lw_phase := Built g payload\<rparr>)"
| step_build_raises: "lw_phase w = Started g \<Longrightarrow> lg_generation (lw_ledger w) \<noteq> g \<Longrightarrow>
    ledger_step w (w\<lparr>lw_phase := Idle\<rparr>)"
| step_write: "lw_phase w = Built g payload \<Longrightarrow>
    ledger_step w (w\<lparr>lw_phase := Idle, lw_disk := Some payload,
      lw_ledger := (lw_ledger w)\<lparr>lg_dirty := (lg_dirty (lw_ledger w) \<and> lg_generation (lw_ledger w) \<noteq> g)\<rparr>\<rparr>)"
| step_write_fails: "lw_phase w = Built g payload \<Longrightarrow> ledger_step w (w\<lparr>lw_phase := Idle\<rparr>)"

inductive_cases ledger_stepE: "ledger_step w w'"

text \<open>The daemon starts by loading what is on disk.\<close>

definition ledger_start :: "json option \<Rightarrow> ledger_world" where
  "ledger_start fl = \<lparr>lw_ledger = load_hazards fl new_ledger, lw_phase = Idle, lw_disk = fl\<rparr>"

inductive ledger_reachable :: "json option \<Rightarrow> ledger_world \<Rightarrow> bool" for start where
  reach_start: "ledger_reachable start (ledger_start start)"
| reach_step: "ledger_reachable start w \<Longrightarrow> ledger_step w w' \<Longrightarrow> ledger_reachable start w'"

text \<open>One flush with nothing in between.\<close>

definition flush_alone :: "bool \<Rightarrow> ledger \<Rightarrow> json option \<Rightarrow> ledger \<times> json option" where
  "flush_alone ok l disk = (if \<not> lg_dirty l then (l, disk)
     else if ok then (l\<lparr>lg_dirty := False\<rparr>, Some (hazard_payload (lg_records l))) else (l, disk))"

subsection \<open>The process-wide sink\<close>

definition record_observed :: "string \<Rightarrow> string \<Rightarrow> string \<Rightarrow> secs \<Rightarrow> ledger option \<Rightarrow> bool \<times> ledger option" where
  "record_observed server code identity now sink = (case sink of None \<Rightarrow> (False, None)
     | Some l \<Rightarrow> (let (b, l) = record_hazard server code identity now l in (b, Some l)))"

definition clear_observed :: "string \<Rightarrow> ledger option \<Rightarrow> bool \<times> ledger option" where
  "clear_observed server sink = (case sink of None \<Rightarrow> (False, None)
     | Some l \<Rightarrow> (let (b, l) = clear_hazards server l in (b, Some l)))"

definition flush_sink :: "bool \<Rightarrow> ledger option \<Rightarrow> json option \<Rightarrow> ledger option \<times> json option" where
  "flush_sink ok sink disk = (case sink of None \<Rightarrow> (None, disk)
     | Some l \<Rightarrow> (let (l, disk) = flush_alone ok l disk in (Some l, disk)))"

definition install_sink :: "json option \<Rightarrow> ledger option" where
  "install_sink fl = Some (load_hazards fl new_ledger)"

subsection \<open>The records invariant\<close>

definition record_ok :: "haz_record \<Rightarrow> bool" where
  "record_ok r \<longleftrightarrow> hz_codes r \<noteq> {} \<and> hz_codes r \<subseteq> KNOWN_HAZARDS \<and> 0 \<le> hz_count r"

definition records_ok :: "server_records \<Rightarrow> bool" where
  "records_ok recs \<longleftrightarrow> dict_ok recs \<and>
     (\<forall>p \<in> set recs. snd p \<noteq> [] \<and> dict_ok (snd p) \<and> (\<forall>q \<in> set (snd p). record_ok (snd q)))"

lemma known_finite [simp]: "finite KNOWN_HAZARDS"
  by (simp add: KNOWN_HAZARDS_def)

lemma record_ok_finite: "record_ok r \<Longrightarrow> finite (hz_codes r)"
  by (auto simp: record_ok_def intro: finite_subset)

lemma dict_default_set [simp]: "dict_default (dict_set k v d) k' x = (if k' = k then v else dict_default d k' x)"
  by (simp add: dict_default_def dict_simps)

lemma dict_default_pop [simp]: "dict_default (dict_pop k d) k' x = (if k' = k then x else dict_default d k' x)"
  by (simp add: dict_default_def dict_simps)

lemma records_ok_per:
  assumes "records_ok recs"
  shows "dict_ok (dict_default recs n [])" "q \<in> set (dict_default recs n []) \<Longrightarrow> record_ok (snd q)"
  using assms by (auto simp: records_ok_def dict_default_def split: option.splits dest!: map_of_SomeD)

lemma record_hazard_ok: "records_ok (lg_records l) \<Longrightarrow> records_ok (lg_records (snd (record_hazard s c i t l)))"
proof -
  assume ok: "records_ok (lg_records l)"
  define per where "per = dict_default (lg_records l) s []"
  define r0 where "r0 = dict_default per i blank_record"
  have per: "dict_ok per" "\<forall>q \<in> set per. record_ok (snd q)"
    using records_ok_per [OF ok, where n = s] by (auto simp: per_def)
  have r0: "hz_codes r0 \<subseteq> KNOWN_HAZARDS" "0 \<le> hz_count r0"
  proof -
    have "r0 = blank_record \<or> record_ok r0"
      using per(2) by (force simp: r0_def dict_default_def split: option.splits dest!: map_of_SomeD)
    then show "hz_codes r0 \<subseteq> KNOWN_HAZARDS" "0 \<le> hz_count r0"
      by (auto simp: record_ok_def blank_record_def)
  qed
  define r1 where "r1 = \<lparr>hz_codes = insert c (hz_codes r0), hz_count = hz_count r0 + 1, hz_last_seen = t\<rparr>"
  show ?thesis
  proof (cases "c \<in> KNOWN_HAZARDS \<and> s \<noteq> []")
    case True
    then have r1: "record_ok r1" using r0 by (simp add: record_ok_def r1_def)
    have ne: "dict_set i r1 per \<noteq> []" by (cases per) auto
    have qs: "record_ok (snd q)" if "q \<in> set (dict_set i r1 per)" for q
      using that per(2) r1 set_dict_set [of i r1 per] by auto
    have "records_ok (dict_set s (dict_set i r1 per) (lg_records l))"
      using ok per(1) ne qs set_dict_set [of s "dict_set i r1 per" "lg_records l"]
      by (fastforce simp: records_ok_def)
    then show ?thesis using True
      by (simp add: record_hazard_def Let_def flip: per_def r0_def r1_def)
  qed (use ok in \<open>auto simp: record_hazard_def\<close>)
qed

lemma clear_hazards_ok: "records_ok (lg_records l) \<Longrightarrow> records_ok (lg_records (snd (clear_hazards s l)))"
  by (auto simp: clear_hazards_def records_ok_def split: option.split dest: subsetD [OF set_dict_pop])

lemma load_count_nonneg [simp]: "0 \<le> load_count v kept"
  by (simp add: load_count_def split: option.split json.split)

lemma load_record_cases:
  assumes "load_record j = Some r"
  obtains cs where "hz_codes r = kept_codes cs" "kept_codes cs \<noteq> {}" "0 \<le> hz_count r"
proof (cases j)
  case (JObj d)
  show ?thesis
  proof (cases "dict_get d ''codes''")
    case (Some v)
    then show ?thesis
    proof (cases v)
      case (JArr cs)
      have "0 \<le> hz_count r" "hz_codes r = kept_codes cs" "kept_codes cs \<noteq> {}"
        using assms by (auto simp: load_record_def JObj Some JArr Let_def split: if_splits)
      then show ?thesis by (rule that [rotated 2])
    qed (use assms in \<open>simp_all add: load_record_def JObj Some\<close>)
  qed (use assms in \<open>simp add: load_record_def JObj\<close>)
qed (use assms in \<open>simp_all add: load_record_def\<close>)

lemma kept_codes_known: "kept_codes cs \<subseteq> KNOWN_HAZARDS"
  by (auto simp: kept_codes_def List.map_filter_def split: json.splits if_splits)

lemma load_record_ok: "load_record j = Some r \<Longrightarrow> record_ok r"
  by (erule load_record_cases) (simp add: record_ok_def kept_codes_known)

lemma load_identities_simps [simp]:
  "load_identities [] = []"
  "load_identities ((i, sub) # ids) = (case load_record sub of None \<Rightarrow> load_identities ids
     | Some r \<Rightarrow> (i, r) # load_identities ids)"
  by (simp_all add: load_identities_def List.map_filter_simps split: option.split)

lemma load_identities_keys: "fst ` set (load_identities ids) \<subseteq> fst ` set ids"
proof (induction ids)
  case (Cons p ids)
  then show ?case by (cases p) (auto split: option.split intro: subset_insertI2)
qed simp

lemma load_identities_ok:
  "dict_ok ids \<Longrightarrow> dict_ok (load_identities ids)"
  "\<forall>q \<in> set (load_identities ids). record_ok (snd q)"
proof -
  show "dict_ok (load_identities ids)" if "dict_ok ids"
    using that
  proof (induction ids)
    case (Cons p ids)
    then show ?case using load_identities_keys [of ids] by (cases p) (auto split: option.split)
  qed simp
  show "\<forall>q \<in> set (load_identities ids). record_ok (snd q)"
  proof (induction ids)
    case (Cons p ids)
    then show ?case by (cases p) (auto split: option.split dest: load_record_ok)
  qed simp
qed

lemma load_server_ok:
  assumes "\<And>e ids. entry = JObj e \<Longrightarrow> dict_get e ''identities'' = Some (JObj ids) \<Longrightarrow> dict_ok ids"
  shows "dict_ok (load_server entry)" "\<forall>q \<in> set (load_server entry). record_ok (snd q)"
proof -
  show "dict_ok (load_server entry)"
  proof (cases entry)
    case (JObj e)
    have "dict_ok (case dict_get e ''identities'' of Some (JObj ids) \<Rightarrow> ids | _ \<Rightarrow> [([], entry)])"
    proof (cases "\<exists>ids. dict_get e ''identities'' = Some (JObj ids)")
      case True
      then obtain ids where ids: "dict_get e ''identities'' = Some (JObj ids)" by blast
      show ?thesis using assms [OF JObj ids] by (simp add: ids)
    qed (simp split: option.split json.split)
    from load_identities_ok(1) [OF this] show ?thesis by (simp only: load_server_def JObj json.case)
  qed (simp_all add: load_server_def)
  show "\<forall>q \<in> set (load_server entry). record_ok (snd q)"
  proof (cases entry)
    case (JObj e)
    show ?thesis unfolding load_server_def JObj json.case by (rule load_identities_ok(2))
  qed (simp_all add: load_server_def)
qed

text \<open>JSON objects as the parser yields them: no key twice, at any depth.\<close>

primrec json_distinct :: "json \<Rightarrow> bool" where
  "json_distinct JNull = True"
| "json_distinct (JBool b) = True"
| "json_distinct (JInt n) = True"
| "json_distinct (JFloat f) = True"
| "json_distinct (JStr s) = True"
| "json_distinct (JArr xs) = list_all id (map json_distinct xs)"
| "json_distinct (JObj d) = (distinct (map fst d) \<and> list_all snd (map (map_prod id json_distinct) d))"

definition file_ok :: "json option \<Rightarrow> bool" where
  "file_ok fl = (case fl of None \<Rightarrow> True | Some j \<Rightarrow> json_distinct j)"

lemma json_distinct_get: "json_distinct (JObj d) \<Longrightarrow> dict_get d k = Some v \<Longrightarrow> json_distinct v"
  by (auto simp: list_all_iff dest!: map_of_SomeD)

lemma json_distinct_keys: "json_distinct (JObj d) \<Longrightarrow> dict_ok d"
  by simp


subsection \<open>What is written is read back\<close>

lemma kept_codes_json [simp]: "cs \<subseteq> KNOWN_HAZARDS \<Longrightarrow> kept_codes (map JStr (sorted_list_of_set cs)) = cs"
proof -
  assume sub: "cs \<subseteq> KNOWN_HAZARDS"
  have "kept_codes (map JStr xs) = {x \<in> set xs. x \<in> KNOWN_HAZARDS}" for xs
    by (induction xs) (auto simp: kept_codes_def List.map_filter_simps)
  moreover have "finite cs" using sub by (rule finite_subset) simp
  ultimately show ?thesis using sub by auto
qed

lemma load_record_json: "record_ok r \<Longrightarrow> load_record (record_json r) = Some r"
  by (simp add: load_record_def record_json_def codes_json_def record_ok_def load_count_def
      finite_float_def Let_def)

lemma load_identities_json:
  assumes "\<forall>q \<in> set per. record_ok (snd q)"
  shows "load_identities (map (\<lambda>(i, r). (i, record_json r)) per) = per"
  using assms
proof (induction per)
  case (Cons p per)
  then show ?case by (cases p) (simp add: load_record_json)
qed simp

lemma load_server_json: "\<forall>q \<in> set per. record_ok (snd q) \<Longrightarrow> load_server (server_json per) = sorted_items per"
  by (simp add: load_server_def server_json_def load_identities_json sorted_items_def)

text \<open>The records as a reader sees them: by name and identity, whatever the order.\<close>

definition record_at :: "server_records \<Rightarrow> string \<Rightarrow> string \<Rightarrow> haz_record option" where
  "record_at recs n i = (case dict_get recs n of None \<Rightarrow> None | Some per \<Rightarrow> dict_get per i)"

lemma sorted_items_props [simp]:
  "set (sorted_items d) = set d" "dict_ok (sorted_items d) = dict_ok d" "sorted_items d = [] \<longleftrightarrow> d = []"
proof -
  show "set (sorted_items d) = set d" by (simp add: sorted_items_def)
  have "mset (map fst (sort_key fst d)) = mset (map fst d)" by (simp only: mset_map mset_sort)
  then show "dict_ok (sorted_items d) = dict_ok d"
    unfolding sorted_items_def by (metis mset_eq_imp_distinct_iff)
  show "sorted_items d = [] \<longleftrightarrow> d = []" unfolding sorted_items_def by (metis mset_sort mset_zero_iff)
qed

lemma dict_get_sorted: "dict_ok d \<Longrightarrow> dict_get (sorted_items d) = dict_get d"
  by (rule map_of_eqI) (auto simp: dest: map_of_SomeD)

lemma load_servers_fold:
  assumes "dict_ok servers" "\<forall>p \<in> set servers. load_server (snd p) \<noteq> []" "set (dict_keys servers) \<inter> set (dict_keys recs) = {}"
  shows "fold (\<lambda>(name, entry) recs. if load_server entry = [] then recs
       else dict_set name (load_server entry) recs) servers recs =
     recs @ map (\<lambda>(n, e). (n, load_server e)) servers"
  using assms
proof (induction servers arbitrary: recs)
  case (Cons p servers)
  obtain n e where p: "p = (n, e)" by (cases p)
  have "n \<notin> set (dict_keys recs)" using Cons.prems(3) by (simp add: p)
  moreover have "fold (\<lambda>(name, entry) recs. if load_server entry = [] then recs
       else dict_set name (load_server entry) recs) servers (recs @ [(n, load_server e)]) =
     (recs @ [(n, load_server e)]) @ map (\<lambda>(n, e). (n, load_server e)) servers"
    using Cons.prems by (intro Cons.IH) (auto simp: p)
  ultimately show ?case using Cons.prems(2) by (simp add: p)
qed simp

lemma load_payload_records:
  assumes "records_ok recs"
  shows "lg_records (load_hazards (Some (hazard_payload recs)) new_ledger) =
     map (\<lambda>(n, per). (n, sorted_items per)) (sorted_items recs)"
proof -
  define servers where "servers = map (\<lambda>(n, per). (n, server_json per)) (sorted_items recs)"
  have ls: "load_server (server_json per) = sorted_items per" if "(n, per) \<in> set recs" for n per
    using assms that by (intro load_server_json) (auto simp: records_ok_def)
  have keys: "map fst servers = map fst (sorted_items recs)" by (simp add: servers_def case_prod_beta comp_def)
  have "dict_ok servers" unfolding keys using assms by (simp add: records_ok_def)
  moreover have "\<forall>p \<in> set servers. load_server (snd p) \<noteq> []"
    using assms ls by (auto simp: servers_def records_ok_def)
  ultimately have "fold (\<lambda>(name, entry) recs. if load_server entry = [] then recs
       else dict_set name (load_server entry) recs) servers [] = map (\<lambda>(n, e). (n, load_server e)) servers"
    using load_servers_fold [of servers "[]"] by simp
  also have "\<dots> = map (\<lambda>(n, per). (n, sorted_items per)) (sorted_items recs)"
    using ls by (auto simp: servers_def)
  finally show ?thesis
    by (simp add: load_hazards_def hazard_payload_def json_eq_int_def new_ledger_def flip: servers_def)
qed

lemma record_at_sorted:
  assumes "records_ok recs"
  shows "record_at (map (\<lambda>(n, per). (n, sorted_items per)) (sorted_items recs)) = record_at recs"
proof (intro ext)
  fix n i
  have m: "dict_get (map (\<lambda>(n, per). (n, f per)) d) n = map_option f (dict_get d n)" for d :: server_records and f :: "identity_records \<Rightarrow> identity_records"
    by (induction d) auto
  have g: "dict_get (sorted_items recs) = dict_get recs"
    using assms by (intro dict_get_sorted) (simp add: records_ok_def)
  show "record_at (map (\<lambda>(n, per). (n, sorted_items per)) (sorted_items recs)) n i = record_at recs n i"
  proof (cases "dict_get recs n")
    case (Some per)
    then have "dict_ok per" using assms by (auto simp: records_ok_def dest: map_of_SomeD)
    then show ?thesis by (simp add: record_at_def m g Some dict_get_sorted)
  qed (simp add: record_at_def m g)
qed

lemma load_payload:
  "records_ok recs \<Longrightarrow> record_at (lg_records (load_hazards (Some (hazard_payload recs)) new_ledger)) = record_at recs"
  by (simp add: load_payload_records record_at_sorted)

lemma load_hazards_ok:
  assumes "file_ok fl"
  shows "records_ok (lg_records (load_hazards fl new_ledger))"
proof -
  have f: "records_ok (fold (\<lambda>(name, entry) recs. if load_server entry = [] then recs
       else dict_set name (load_server entry) recs) servers recs)"
    if "records_ok recs" "\<forall>p \<in> set servers. json_distinct (snd p)" for servers recs
    using that
  proof (induction servers arbitrary: recs)
    case (Cons p servers)
    obtain n e where p: "p = (n, e)" by (cases p)
    have "dict_ok ids" if "e = JObj o1" "dict_get o1 ''identities'' = Some (JObj ids)" for o1 ids
      using Cons.prems(2) json_distinct_get [of o1 "''identities''" "JObj ids"] that by (simp add: p)
    note sv = load_server_ok [of e, OF this]
    have "records_ok (dict_set n (load_server e) recs)" if "load_server e \<noteq> []"
      using Cons.prems(1) sv that set_dict_set [of n "load_server e" recs]
      by (fastforce simp: records_ok_def)
    then show ?case using Cons by (auto simp: p)
  qed simp
  have "records_ok []" by (simp add: records_ok_def)
  show ?thesis
  proof (cases fl)
    case (Some j)
    show ?thesis
    proof (cases j)
      case (JObj raw)
      show ?thesis
      proof (cases "dict_get raw ''servers''")
        case (Some v)
        have d: "json_distinct v"
          using assms json_distinct_get [OF _ Some] by (simp add: file_ok_def \<open>fl = Some j\<close> JObj)
        show ?thesis
        proof (cases v)
          case [simp]: (JObj servers)
          have "\<forall>p \<in> set servers. json_distinct (snd p)" using d by (auto simp: list_all_iff)
          from f [OF \<open>records_ok []\<close> this] show ?thesis
            using \<open>records_ok []\<close> by (simp add: load_hazards_def \<open>fl = Some j\<close> \<open>j = JObj raw\<close> Some new_ledger_def)
        qed (use \<open>records_ok []\<close> in \<open>simp_all add: load_hazards_def \<open>fl = Some j\<close> JObj Some new_ledger_def\<close>)
      qed (use \<open>records_ok []\<close> in \<open>simp add: load_hazards_def Some JObj new_ledger_def\<close>)
    qed (use \<open>records_ok []\<close> in \<open>simp_all add: load_hazards_def Some new_ledger_def\<close>)
  qed (use \<open>records_ok []\<close> in \<open>simp add: load_hazards_def new_ledger_def\<close>)
qed

subsection \<open>Every interleaving of flushes and observations\<close>

definition world_inv :: "ledger_world \<Rightarrow> bool" where
  "world_inv w \<longleftrightarrow> records_ok (lg_records (lw_ledger w)) \<and>
     (lw_phase w \<noteq> Idle \<longrightarrow> lg_dirty (lw_ledger w)) \<and>
     (\<not> lg_dirty (lw_ledger w) \<longrightarrow>
        record_at (lg_records (load_hazards (lw_disk w) new_ledger)) = record_at (lg_records (lw_ledger w))) \<and>
     (\<forall>g. lw_phase w = Started g \<longrightarrow> g \<le> lg_generation (lw_ledger w)) \<and>
     (\<forall>g p. lw_phase w = Built g p \<longrightarrow> g \<le> lg_generation (lw_ledger w) \<and>
        (g = lg_generation (lw_ledger w) \<longrightarrow> p = hazard_payload (lg_records (lw_ledger w))))"

lemma record_hazard_effect:
  "snd (record_hazard s c i t l) = l \<or>
   lg_dirty (snd (record_hazard s c i t l)) \<and> lg_generation (snd (record_hazard s c i t l)) = Suc (lg_generation l)"
  by (simp add: record_hazard_def Let_def)

lemma clear_hazards_effect:
  "snd (clear_hazards s l) = l \<or>
   lg_dirty (snd (clear_hazards s l)) \<and> lg_generation (snd (clear_hazards s l)) = Suc (lg_generation l)"
  by (simp add: clear_hazards_def split: option.split)

lemma world_inv_update:
  assumes "world_inv w" "l' = lw_ledger w \<or> lg_dirty l' \<and> lg_generation l' = Suc (lg_generation (lw_ledger w))"
    and "records_ok (lg_records l')"
  shows "world_inv (w\<lparr>lw_ledger := l'\<rparr>)"
  using assms by (auto simp: world_inv_def le_Suc_eq)

lemma world_inv_step:
  assumes "world_inv w" "ledger_step w w'"
  shows "world_inv w'"
  using assms(2)
proof cases
  case (step_record server code identity now)
  then show ?thesis
    using world_inv_update [OF assms(1) record_hazard_effect record_hazard_ok] assms(1)
    by (simp add: world_inv_def)
next
  case (step_clear server)
  then show ?thesis
    using world_inv_update [OF assms(1) clear_hazards_effect clear_hazards_ok] assms(1)
    by (simp add: world_inv_def)
next
  case (step_write g payload)
  show ?thesis
  proof (cases "lg_generation (lw_ledger w) = g")
    case True
    then have "payload = hazard_payload (lg_records (lw_ledger w))" "records_ok (lg_records (lw_ledger w))"
      using assms(1) step_write(2) by (auto simp: world_inv_def)
    then show ?thesis using step_write True by (simp add: world_inv_def load_payload)
  next
    case False
    then show ?thesis using step_write assms(1) by (simp add: world_inv_def)
  qed
qed (use assms(1) in \<open>auto simp: world_inv_def\<close>)

lemma world_inv_start: "file_ok fl \<Longrightarrow> world_inv (ledger_start fl)"
  by (simp add: world_inv_def ledger_start_def load_hazards_ok)

lemma world_inv_reachable: "ledger_reachable fl w \<Longrightarrow> file_ok fl \<Longrightarrow> world_inv w"
  by (induction rule: ledger_reachable.induct) (auto intro: world_inv_start world_inv_step)

subsection \<open>What a reader of the evidence relies on\<close>

datatype hazard_op = Observe string string string secs | Forget string

fun evidence :: "string set \<Rightarrow> string \<Rightarrow> string \<Rightarrow> hazard_op list \<Rightarrow> string set \<Rightarrow> string set" where
  "evidence known s i [] acc = acc"
| "evidence known s i (Observe s' c i' t # ops) acc =
     evidence known s i ops (if s' = s \<and> i' = i \<and> c \<in> known \<and> s \<noteq> [] then insert c acc else acc)"
| "evidence known s i (Forget s' # ops) acc = evidence known s i ops (if s' = s then {} else acc)"

fun apply_hazard_op :: "(string \<Rightarrow> string \<Rightarrow> string \<Rightarrow> secs \<Rightarrow> 'l \<Rightarrow> 'l) \<Rightarrow> (string \<Rightarrow> 'l \<Rightarrow> 'l) \<Rightarrow> hazard_op \<Rightarrow> 'l \<Rightarrow> 'l" where
  "apply_hazard_op observe forget (Observe s c i t) l = observe s c i t l"
| "apply_hazard_op observe forget (Forget s) l = forget s l"

locale hazard_source =
  fixes observe :: "string \<Rightarrow> string \<Rightarrow> string \<Rightarrow> secs \<Rightarrow> 'l \<Rightarrow> 'l"
    and forget :: "string \<Rightarrow> 'l \<Rightarrow> 'l"
    and codes :: "string \<Rightarrow> string \<Rightarrow> 'l \<Rightarrow> string set"
    and known :: "string set"
    and good :: "'l \<Rightarrow> bool"
  assumes codes_observe: "good l \<Longrightarrow> codes s i (observe s' c i' t l) =
        (if s' = s \<and> i' = i \<and> c \<in> known \<and> s \<noteq> [] then insert c (codes s i l) else codes s i l)"
    and codes_forget: "good l \<Longrightarrow> codes s i (forget s' l) = (if s' = s then {} else codes s i l)"
    and good_observe: "good l \<Longrightarrow> good (observe s' c i' t l)"
    and good_forget: "good l \<Longrightarrow> good (forget s' l)"
begin

lemma good_apply: "good l \<Longrightarrow> good (apply_hazard_op observe forget x l)"
  by (cases x) (auto intro: good_observe good_forget)

lemma codes_history: "good l \<Longrightarrow> codes s i (fold (apply_hazard_op observe forget) ops l) = evidence known s i ops (codes s i l)"
proof (induction ops arbitrary: l)
  case (Cons x ops)
  from Cons.prems have "good (apply_hazard_op observe forget x l)" by (rule good_apply)
  with Cons show ?case by (cases x) (auto simp: codes_observe codes_forget)
qed simp

lemma observed_until_cleared:
  assumes "good l" "c \<in> known" "s \<noteq> []" "\<forall>x \<in> set ops. x \<noteq> Forget s"
  shows "c \<in> codes s i (fold (apply_hazard_op observe forget) (Observe s c i t # ops) l)"
proof -
  have keep: "\<forall>x \<in> set ops. x \<noteq> Forget s \<Longrightarrow> c \<in> acc \<Longrightarrow> c \<in> evidence known s i ops acc" for ops acc
  proof (induction ops arbitrary: acc)
    case (Cons x ops)
    then show ?case by (cases x) auto
  qed simp
  have "evidence known s i (Observe s c i t # ops) acc = evidence known s i ops (insert c acc)" for acc
    using assms(2,3) by simp
  then show ?thesis unfolding codes_history [OF assms(1)] using keep [OF assms(4)] by simp
qed

end

lemma codes_for_set:
  "records_ok (lg_records l) \<Longrightarrow> set (hazard_codes_for s i l) =
     (case record_at (lg_records l) s i of None \<Rightarrow> {} | Some r \<Rightarrow> hz_codes r)"
proof -
  assume ok: "records_ok (lg_records l)"
  show ?thesis
  proof (cases "dict_get (dict_default (lg_records l) s []) i")
    case (Some r)
    then have "record_ok r" using records_ok_per(2) [OF ok, of "(i, r)" s] by (auto dest: map_of_SomeD)
    then show ?thesis using Some
      by (auto simp: hazard_codes_for_def record_at_def dict_default_def record_ok_finite split: option.splits)
  qed (auto simp: hazard_codes_for_def record_at_def dict_default_def split: option.splits)
qed

definition observe_hazard :: "string \<Rightarrow> string \<Rightarrow> string \<Rightarrow> secs \<Rightarrow> ledger \<Rightarrow> ledger" where
  "observe_hazard s c i t l = snd (record_hazard s c i t l)"

definition forget_hazards :: "string \<Rightarrow> ledger \<Rightarrow> ledger" where
  "forget_hazards s l = snd (clear_hazards s l)"

definition observed_codes :: "string \<Rightarrow> string \<Rightarrow> ledger \<Rightarrow> string set" where
  "observed_codes s i l = set (hazard_codes_for s i l)"

lemma record_at_record:
  assumes "c \<in> KNOWN_HAZARDS" "s' \<noteq> []"
  shows "record_at (lg_records (snd (record_hazard s' c i' t l))) s i =
    (if s = s' \<and> i = i' then (let r = dict_default (dict_default (lg_records l) s []) i blank_record in
        Some \<lparr>hz_codes = insert c (hz_codes r), hz_count = hz_count r + 1, hz_last_seen = t\<rparr>)
     else record_at (lg_records l) s i)"
  using assms by (auto simp: record_hazard_def record_at_def Let_def dict_simps dict_default_def split: option.splits)

lemma rec_default:
  "hz_codes (dict_default (dict_default recs s []) i blank_record) =
     (case record_at recs s i of None \<Rightarrow> {} | Some r \<Rightarrow> hz_codes r)"
  by (auto simp: record_at_def dict_default_def blank_record_def split: option.split)

interpretation ledger_source: hazard_source observe_hazard forget_hazards observed_codes KNOWN_HAZARDS
  "\<lambda>l. records_ok (lg_records l)"
proof (unfold_locales, goal_cases)
  case (1 l s i s' c i' t)
  note ok = record_hazard_ok [OF 1, of s' c i' t]
  show ?case
  proof (cases "c \<in> KNOWN_HAZARDS \<and> s' \<noteq> []")
    case True
    show ?thesis
      unfolding observed_codes_def observe_hazard_def codes_for_set [OF 1] codes_for_set [OF ok]
      using True by (simp add: record_at_record Let_def rec_default)
  qed (auto simp: observe_hazard_def record_hazard_def)
next
  case (2 l s i s')
  then show ?case
    using clear_hazards_ok [OF 2, of s']
    by (auto simp: observed_codes_def forget_hazards_def codes_for_set)
       (auto simp: clear_hazards_def record_at_def dict_simps split: option.splits if_splits)
next
  case (3 l s' c i' t)
  then show ?case by (simp add: observe_hazard_def record_hazard_ok)
next
  case (4 l s')
  then show ?case by (simp add: forget_hazards_def clear_hazards_ok)
qed

subsection \<open>The flat fields kept for an older build\<close>

text \<open>The file as a writer or reader without the nested map has it.\<close>

definition without_identities :: "json \<Rightarrow> json" where
  "without_identities payload = (case payload of JObj p \<Rightarrow> JObj (map (\<lambda>(k, v). (k,
       if k = ''servers'' then
         (case v of JObj ss \<Rightarrow> JObj (map (\<lambda>(n, e). (n, case e of JObj d \<Rightarrow> JObj (dict_pop ''identities'' d) | _ \<Rightarrow> e)) ss)
          | _ \<Rightarrow> v)
       else v)) p)
     | _ \<Rightarrow> payload)"

definition flat_record :: "identity_records \<Rightarrow> haz_record" where
  "flat_record per = \<lparr>hz_codes = all_codes per, hz_count = sum_list (map (\<lambda>p. hz_count (snd p)) per),
     hz_last_seen = max_seen per\<rparr>"

lemma flat_record_ok:
  assumes "per \<noteq> []" "\<forall>q \<in> set per. record_ok (snd q)"
  shows "record_ok (flat_record per)"
proof -
  have "all_codes per \<noteq> {}" using assms by (cases per) (auto simp: all_codes_def record_ok_def)
  moreover have "all_codes per \<subseteq> KNOWN_HAZARDS" using assms(2) by (auto simp: all_codes_def record_ok_def)
  moreover have "0 \<le> sum_list (map (\<lambda>p. hz_count (snd p)) per)"
    using assms(2) by (intro sum_list_nonneg) (auto simp: record_ok_def)
  ultimately show ?thesis by (simp add: record_ok_def flat_record_def)
qed

lemma load_flat_server:
  assumes "record_ok (flat_record per)"
  shows "load_server (JObj [(''codes'', codes_json (all_codes per)),
      (''count'', JInt (sum_list (map (\<lambda>p. hz_count (snd p)) per))), (''lastSeen'', JFloat (Finite (max_seen per)))]) =
    [([], flat_record per)]"
  using load_record_json [OF assms] by (simp add: load_server_def record_json_def flat_record_def)

lemma load_flat_records:
  assumes "records_ok recs"
  shows "lg_records (load_hazards (Some (without_identities (hazard_payload recs))) new_ledger) =
     map (\<lambda>(n, per). (n, [([], flat_record per)])) (sorted_items recs)"
proof -
  define flat where "flat per = JObj [(''codes'', codes_json (all_codes per)),
      (''count'', JInt (sum_list (map (\<lambda>p. hz_count (snd p)) per))), (''lastSeen'', JFloat (Finite (max_seen per)))]" for per
  define servers where "servers = map (\<lambda>(n, per). (n, flat per)) (sorted_items recs)"
  have wi: "without_identities (hazard_payload recs) =
      JObj [(''schema'', JInt HAZARDS_SCHEMA), (''servers'', JObj servers)]"
    by (simp add: without_identities_def hazard_payload_def server_json_def servers_def flat_def case_prod_beta comp_def)
  have ls: "load_server (flat per) = [([], flat_record per)]" if "(n, per) \<in> set recs" for n per
    using assms that unfolding flat_def
    by (intro load_flat_server flat_record_ok) (auto simp: records_ok_def)
  have keys: "map fst servers = map fst (sorted_items recs)" by (simp add: servers_def case_prod_beta comp_def)
  have "dict_ok servers" unfolding keys using assms by (simp add: records_ok_def)
  moreover have "\<forall>p \<in> set servers. load_server (snd p) \<noteq> []" using ls by (auto simp: servers_def)
  ultimately have "fold (\<lambda>(name, entry) recs. if load_server entry = [] then recs
       else dict_set name (load_server entry) recs) servers [] = map (\<lambda>(n, e). (n, load_server e)) servers"
    using load_servers_fold [of servers "[]"] by simp
  also have "\<dots> = map (\<lambda>(n, per). (n, [([], flat_record per)])) (sorted_items recs)"
    using ls by (auto simp: servers_def)
  finally show ?thesis by (simp add: wi load_hazards_def json_eq_int_def new_ledger_def)
qed

subsection \<open>Properties\<close>

text \<open>C20. No flush loses an observation, however it interleaves with the event loop: in every
  reachable state of the daemon, whatever observations and clearings fell between the stages of a flush, and
  whichever builds or writes failed, a ledger that counts as persisted is exactly what a restart would
  load from disk - every server, launch identity, code, count and time.\<close>

theorem ledger_clean_is_durable:
  assumes "ledger_reachable fl w" "file_ok fl" "\<not> lg_dirty (lw_ledger w)"
  shows "record_at (lg_records (load_hazards (lw_disk w) new_ledger)) = record_at (lg_records (lw_ledger w))"
  using world_inv_reachable [OF assms(1,2)] assms(3) by (simp add: world_inv_def)

theorem ledger_clean_is_durable_witness:
  "\<exists>w. ledger_reachable None w \<and> \<not> lg_dirty (lw_ledger w) \<and>
     record_at (lg_records (load_hazards (lw_disk w) new_ledger)) ''srv'' ''v1'' =
       Some \<lparr>hz_codes = {HAZARD_UNROUTABLE_SERVER_REQUEST}, hz_count = 1, hz_last_seen = 7\<rparr>"
proof -
  define l where "l = snd (record_hazard ''srv'' HAZARD_UNROUTABLE_SERVER_REQUEST ''v1'' 7 new_ledger)"
  have l: "lg_dirty l" "lg_generation l = 1"
    by (simp_all add: l_def record_hazard_def new_ledger_def KNOWN_HAZARDS_def Let_def)
  have r0: "ledger_reachable None \<lparr>lw_ledger = new_ledger, lw_phase = Idle, lw_disk = None\<rparr>"
    using reach_start [of None] by (simp add: ledger_start_def load_hazards_def)
  have r1: "ledger_reachable None \<lparr>lw_ledger = l, lw_phase = Idle, lw_disk = None\<rparr>"
    using reach_step [OF r0 step_record] by (simp add: l_def)
  have r2: "ledger_reachable None \<lparr>lw_ledger = l, lw_phase = Started 1, lw_disk = None\<rparr>"
    using reach_step [OF r1 step_flush] l by simp
  have r3: "ledger_reachable None \<lparr>lw_ledger = l, lw_phase = Built 1 (hazard_payload (lg_records l)), lw_disk = None\<rparr>"
    using reach_step [OF r2 step_build] by simp
  have r4: "ledger_reachable None \<lparr>lw_ledger = l\<lparr>lg_dirty := False\<rparr>, lw_phase = Idle,
      lw_disk = Some (hazard_payload (lg_records l))\<rparr>" (is "ledger_reachable None ?w")
    using reach_step [OF r3 step_write] l by simp
  have "file_ok None" "\<not> lg_dirty (lw_ledger ?w)" by (simp_all add: file_ok_def)
  from ledger_clean_is_durable [OF r4 this] r4 show ?thesis
    by (intro exI [of _ ?w])
       (simp add: l_def record_at_record KNOWN_HAZARDS_def new_ledger_def dict_default_def blank_record_def Let_def)
qed

text \<open>The ledger answers for exactly the program asked about: after any history of
  observations and clearings on top of what was on disk, the codes reported for a server under a launch identity are
  the known ones observed for this very server and identity since the server was last cleared; other
  identities, other servers, unknown codes and the passage of time change nothing.\<close>

theorem ledger_evidence_exact:
  assumes "file_ok fl"
  shows "observed_codes s i (fold (apply_hazard_op observe_hazard forget_hazards) ops (load_hazards fl new_ledger)) =
    evidence KNOWN_HAZARDS s i ops (observed_codes s i (load_hazards fl new_ledger))"
  using assms by (intro ledger_source.codes_history load_hazards_ok)

theorem ledger_evidence_exact_witness:
  "observed_codes ''srv'' ''v2'' (fold (apply_hazard_op observe_hazard forget_hazards)
      [Observe ''srv'' HAZARD_UNROUTABLE_SERVER_REQUEST ''v1'' 1, Observe ''srv'' ''typo'' ''v2'' 2,
       Observe ''srv'' HAZARD_UNATTRIBUTABLE_NOTIFICATION ''v2'' 3] (load_hazards None new_ledger)) =
    {HAZARD_UNATTRIBUTABLE_NOTIFICATION}"
proof -
  have "file_ok None" by (simp add: file_ok_def)
  then show ?thesis
    by (simp only: ledger_evidence_exact [of None])
       (simp add: load_hazards_def new_ledger_def observed_codes_def hazard_codes_for_def dict_default_def
         KNOWN_HAZARDS_def HAZARD_UNROUTABLE_SERVER_REQUEST_def HAZARD_UNATTRIBUTABLE_NOTIFICATION_def)
qed

text \<open>The two shapes in the file agree: with the per-identity map taken away, what is left
  still reports, by server name, exactly the codes the ledger holds across all identities, and it
  answers for no named launch identity.\<close>

theorem flat_shape_agrees:
  assumes "records_ok (lg_records l)"
  shows "codes_for_name n (load_hazards (Some (without_identities (hazard_payload (lg_records l)))) new_ledger) =
      codes_for_name n l \<and>
    (i \<noteq> [] \<longrightarrow> hazard_codes_for n i (load_hazards (Some (without_identities (hazard_payload (lg_records l)))) new_ledger) = [])"
proof -
  have m: "dict_get (map (\<lambda>(n, per). (n, f per)) d) n = map_option f (dict_get d n)"
    for d :: server_records and f :: "identity_records \<Rightarrow> identity_records"
    by (induction d) auto
  have g: "dict_get (sorted_items (lg_records l)) = dict_get (lg_records l)"
    using assms by (intro dict_get_sorted) (simp add: records_ok_def)
  show ?thesis
    by (auto simp: codes_for_name_def hazard_codes_for_def load_flat_records [OF assms] dict_default_def m g
        all_codes_def flat_record_def split: option.split)
qed

theorem flat_shape_agrees_witness:
  "codes_for_name ''srv'' (load_hazards (Some (without_identities (hazard_payload
      [(''srv'', [(''v1'', \<lparr>hz_codes = {HAZARD_UNROUTABLE_SERVER_REQUEST}, hz_count = 1, hz_last_seen = 7\<rparr>)])]))) new_ledger) =
    [HAZARD_UNROUTABLE_SERVER_REQUEST]"
  using flat_shape_agrees [of "\<lparr>lg_records = [(''srv'', [(''v1'',
      \<lparr>hz_codes = {HAZARD_UNROUTABLE_SERVER_REQUEST}, hz_count = 1, hz_last_seen = 7\<rparr>)])], lg_dirty = False, lg_generation = 0\<rparr>" "''srv''" "[]"]
  by (simp add: records_ok_def record_ok_def KNOWN_HAZARDS_def) (simp add: codes_for_name_def dict_default_def all_codes_def)

end
