(* ===== verification/Shareability.thy ===== *)
theory Shareability imports Hazard_Ledger begin

section \<open>Is an MCP server safe to share? (\<^verbatim>\<open>mcp_gateway/shareability.py\<close>)\<close>

text \<open>
  \<open>assess\<close> is the pure function of the same name, split at its return statements:
  \<open>config_notes\<close>, \<open>declared_verdict\<close> and \<open>undeclared_verdict\<close> are the blocks it is made of.
  \<open>assess_server\<close> is what the dashboard asks it (\<^verbatim>\<open>dashboard/handlers/mcp.py\<close>), with the hazards as it reads them from the file.
  The capabilities of a server are the JSON object it sent, \<open>None\<close> when no handshake succeeded.
  The type of evidence strengths is a linear order, weakest first, as the enumeration lists it.
\<close>

datatype strength = UNKNOWN | NO_OBJECTION | MEASURED | DECLARED | DISQUALIFIED | REFUTED

fun strength_value :: "strength \<Rightarrow> string" where
  "strength_value UNKNOWN = ''unknown''"
| "strength_value NO_OBJECTION = ''no_objection''"
| "strength_value MEASURED = ''measured''"
| "strength_value DECLARED = ''declared''"
| "strength_value DISQUALIFIED = ''disqualified''"
| "strength_value REFUTED = ''refuted''"

fun strength_rank :: "strength \<Rightarrow> nat" where
  "strength_rank UNKNOWN = 0"
| "strength_rank NO_OBJECTION = 1"
| "strength_rank MEASURED = 2"
| "strength_rank DECLARED = 3"
| "strength_rank DISQUALIFIED = 4"
| "strength_rank REFUTED = 5"

lemma strength_rank_inj [simp]: "strength_rank a = strength_rank b \<longleftrightarrow> a = b"
  by (cases a; cases b) simp_all

instantiation strength :: linorder
begin

definition less_eq_strength :: "strength \<Rightarrow> strength \<Rightarrow> bool" where
  "a \<le> b \<longleftrightarrow> strength_rank a \<le> strength_rank b"

definition less_strength :: "strength \<Rightarrow> strength \<Rightarrow> bool" where
  "a < b \<longleftrightarrow> strength_rank a < strength_rank b"

instance
  by standard (auto simp: less_eq_strength_def less_strength_def)

end

lemmas strength_order = less_eq_strength_def less_strength_def

record reason =
  rs_code :: string
  rs_detail :: string

definition Reason :: "string \<Rightarrow> string \<Rightarrow> reason" where
  "Reason code detail = \<lparr>rs_code = code, rs_detail = detail\<rparr>"

record share_evidence =
  se_name :: string
  se_is_stdio :: bool
  se_session_bound :: bool
  se_probe_ok :: bool
  se_capabilities :: "(string \<times> json) list option"
  se_protocol_version :: string
  se_tool_annotations :: "(string \<times> json) list list"
  se_has_tools :: bool
  se_declared_env :: "string list"
  se_hazards :: "string list"
  se_preflight_ran :: "bool option"
  se_caller_sensitive :: bool

record share_verdict =
  sv_name :: string
  sv_strength :: strength
  sv_stub :: bool
  sv_share :: bool
  sv_reasons :: "reason list"

definition verdict_to_dict :: "share_verdict \<Rightarrow> json" where
  "verdict_to_dict v = JObj [(''strength'', JStr (strength_value (sv_strength v))),
     (''recommendStub'', JBool (sv_stub v)), (''recommendShare'', JBool (sv_share v)),
     (''reasons'', JArr (map (\<lambda>r. JObj [(''code'', JStr (rs_code r)), (''detail'', JStr (rs_detail r))]) (sv_reasons v)))]"

definition CALLER_IDENTITY_CAPABILITY :: string where
  "CALLER_IDENTITY_CAPABILITY = ''junction.caller-identity''"

definition ROTATING_SECRET_ENV_PREFIXES :: "string list" where
  "ROTATING_SECRET_ENV_PREFIXES = [''AWS_SECRET'', ''AWS_SESSION'', ''OAUTH'']"

definition SHARED_BACKEND_DEGRADATIONS :: "(string list \<times> string) list" where
  "SHARED_BACKEND_DEGRADATIONS = [([''logging''], ''logging_level'')]"

definition rotating_secret_env :: "string list \<Rightarrow> string list \<Rightarrow> string list" where
  "rotating_secret_env env_names identity_keys =
     filter (\<lambda>n. n \<notin> set identity_keys \<and> list_ex (starts_with (py_upper n)) ROTATING_SECRET_ENV_PREFIXES) env_names"

fun has_path :: "string list \<Rightarrow> json \<Rightarrow> bool" where
  "has_path [] node = True"
| "has_path (k # ks) node = (case node of
      JObj d \<Rightarrow> (case dict_get d k of None \<Rightarrow> False | Some v \<Rightarrow> has_path ks v)
    | _ \<Rightarrow> False)"

definition shared_backend_degradations :: "(string \<times> json) list \<Rightarrow> reason list" where
  "shared_backend_degradations caps =
     map (\<lambda>p. Reason ''degrades_when_shared'' (snd p))
       (filter (\<lambda>p. has_path (fst p) (JObj caps)) SHARED_BACKEND_DEGRADATIONS)"

definition declares_caller_identity :: "(string \<times> json) list \<Rightarrow> bool" where
  "declares_caller_identity caps = (case dict_get caps ''experimental'' of
      Some (JObj d) \<Rightarrow> CALLER_IDENTITY_CAPABILITY \<in> set (dict_keys d) | _ \<Rightarrow> False)"

definition all_tools_read_only :: "(string \<times> json) list list \<Rightarrow> bool" where
  "all_tools_read_only anns = (anns \<noteq> [] \<and> list_all (\<lambda>a. dict_get a ''readOnlyHint'' = Some (JBool True)) anns)"

subsection \<open>The verdict\<close>

definition verdict :: "share_evidence \<Rightarrow> strength \<Rightarrow> reason list \<Rightarrow> bool \<Rightarrow> bool \<Rightarrow> share_verdict" where
  "verdict e st reasons stub share = \<lparr>sv_name = se_name e, sv_strength = st, sv_stub = stub,
     sv_share = share, sv_reasons = reasons\<rparr>"

definition config_notes :: "share_evidence \<Rightarrow> string list \<Rightarrow> reason list" where
  "config_notes e keys = map (Reason ''rotating_secret_env'') (rotating_secret_env (se_declared_env e) keys)"

definition preflight_ok :: "share_evidence \<Rightarrow> bool" where
  "preflight_ok e = (se_preflight_ran e = Some True)"

definition diverged :: "share_evidence \<Rightarrow> bool" where
  "diverged e = (preflight_ok e \<and> se_caller_sensitive e)"

definition travelling_notes :: "share_evidence \<Rightarrow> string list \<Rightarrow> (string \<times> json) list \<Rightarrow> reason list" where
  "travelling_notes e keys caps = config_notes e keys @ shared_backend_degradations caps @
     (if diverged e then [Reason ''handshake_not_reproducible'' []] else [])"

definition declared_verdict :: "share_evidence \<Rightarrow> bool \<Rightarrow> reason list \<Rightarrow> share_verdict" where
  "declared_verdict e withhold notes =
     (let reasons = Reason ''declares_caller_identity'' [] #
            (if all_tools_read_only (se_tool_annotations e) then [Reason ''all_tools_read_only'' []] else []) @
            (if preflight_ok e \<and> \<not> diverged e then [Reason ''preflight_passed'' []]
             else if \<not> preflight_ok e then [Reason ''preflight_not_run'' []] else [])
      in verdict e DECLARED (reasons @ notes) True (preflight_ok e \<and> \<not> withhold))"

definition undeclared_verdict :: "share_evidence \<Rightarrow> reason list \<Rightarrow> share_verdict" where
  "undeclared_verdict e notes =
     (let measured = (preflight_ok e \<and> \<not> se_caller_sensitive e);
          reasons = Reason (if measured then ''preflight_passed'' else ''no_objection_found'') [] #
            (if all_tools_read_only (se_tool_annotations e) then [Reason ''all_tools_read_only'' []]
             else if se_tool_annotations e = [] then [Reason ''no_tool_annotations'' (se_protocol_version e)]
             else []) @
            (if \<not> se_has_tools e then [Reason ''no_tools_listed'' []] else [])
      in verdict e (if measured then MEASURED else NO_OBJECTION) (reasons @ notes) True False)"

definition assess :: "share_evidence \<Rightarrow> string list \<Rightarrow> share_verdict" where
  "assess e keys =
     (if se_hazards e \<noteq> [] then verdict e REFUTED (map (Reason ''observed_hazard'') (se_hazards e)) False False
      else if \<not> se_is_stdio e then verdict e DISQUALIFIED [Reason ''not_stdio'' []] False False
      else if se_session_bound e then
        verdict e DISQUALIFIED [Reason ''session_bound_by_construction'' []] False False
      else (case se_capabilities e of
          None \<Rightarrow> verdict e UNKNOWN (Reason ''not_probed'' [] # config_notes e keys) False False
        | Some caps \<Rightarrow>
           if \<not> se_probe_ok e then verdict e UNKNOWN (Reason ''not_probed'' [] # config_notes e keys) False False
           else (let notes = travelling_notes e keys caps in
             if declares_caller_identity caps
             then declared_verdict e (config_notes e keys \<noteq> []) notes
             else undeclared_verdict e notes)))"

subsection \<open>The question of the dashboard\<close>




lemma verdict_fields [simp]:
  "sv_strength (verdict e st rs a b) = st" "sv_stub (verdict e st rs a b) = a"
  "sv_share (verdict e st rs a b) = b" "sv_reasons (verdict e st rs a b) = rs"
  by (simp_all add: verdict_def)

lemmas assess_simps = assess_def declared_verdict_def undeclared_verdict_def Let_def

subsection \<open>Properties\<close>

text \<open>Sharing is recommended on exactly one body of evidence: nothing observed against the
  server, a stdio server not bound to a session, no declared secret that the pool key leaves out,
  a successful handshake that declares the caller-identity extension, and a pre-flight that ran. A verdict
  that recommends sharing recommends the stub too.\<close>

theorem share_recommended_iff:
  "(sv_share (assess e keys) \<longleftrightarrow>
      se_hazards e = [] \<and> se_is_stdio e \<and> \<not> se_session_bound e \<and>
      rotating_secret_env (se_declared_env e) keys = [] \<and> se_probe_ok e \<and>
      (case se_capabilities e of None \<Rightarrow> False | Some caps \<Rightarrow> declares_caller_identity caps) \<and>
      se_preflight_ran e = Some True) \<and>
   (sv_stub (assess e keys) \<longleftrightarrow>
      se_hazards e = [] \<and> se_is_stdio e \<and> \<not> se_session_bound e \<and> se_probe_ok e \<and> se_capabilities e \<noteq> None)"
  by (auto simp: assess_simps preflight_ok_def config_notes_def split: option.splits)

text \<open>A verdict weaker than a declaration never recommends sharing, nor does one stronger:
  the measured tier in particular carries no share recommendation, however the pre-flight went,
  and it is reached only by a pre-flight that ran and found no difference.\<close>

theorem share_only_on_declaration:
  "(sv_strength (assess e keys) < DECLARED \<or> DECLARED < sv_strength (assess e keys) \<longrightarrow> \<not> sv_share (assess e keys)) \<and>
   (sv_strength (assess e keys) = MEASURED \<longrightarrow> se_preflight_ran e = Some True \<and> \<not> se_caller_sensitive e \<and> sv_stub (assess e keys))"
  by (auto simp: assess_simps preflight_ok_def strength_order split: option.splits if_splits)

text \<open>A capability that degrades on a shared backend informs and never gates: adding it to
  the handshake, or taking the value it has away, changes neither the strength nor a
  recommendation; the note is all that differs.\<close>

theorem degradation_never_gates:
  assumes "se_capabilities e = Some caps"
  shows "let v = assess e keys; v' = assess (e\<lparr>se_capabilities := Some (dict_set ''logging'' x caps)\<rparr>) keys
     in sv_strength v' = sv_strength v \<and> sv_stub v' = sv_stub v \<and> sv_share v' = sv_share v \<and>
        (sv_stub v \<longrightarrow> Reason ''degrades_when_shared'' ''logging_level'' \<in> set (sv_reasons v'))"
proof -
  have d: "declares_caller_identity (dict_set ''logging'' x caps) = declares_caller_identity caps"
    by (simp add: declares_caller_identity_def dict_simps)
  have s: "shared_backend_degradations (dict_set ''logging'' x caps) = [Reason ''degrades_when_shared'' ''logging_level'']"
    by (simp add: shared_backend_degradations_def SHARED_BACKEND_DEGRADATIONS_def dict_simps)
  show ?thesis
    using assms by (auto simp: assess_simps preflight_ok_def diverged_def config_notes_def travelling_notes_def d s)
qed

definition ex_evidence :: share_evidence where
  "ex_evidence = \<lparr>se_name = ''srv'', se_is_stdio = True, se_session_bound = False, se_probe_ok = True,
     se_capabilities = Some [(''experimental'', JObj [(CALLER_IDENTITY_CAPABILITY, JObj [])])],
     se_protocol_version = ''2025-03-26'', se_tool_annotations = [], se_has_tools = True,
     se_declared_env = [], se_hazards = [], se_preflight_ran = Some True, se_caller_sensitive = False\<rparr>"

theorem share_only_on_declaration_witness:
  "\<not> sv_share (assess (ex_evidence\<lparr>se_capabilities := Some []\<rparr>) [])"
proof -
  have "sv_strength (assess (ex_evidence\<lparr>se_capabilities := Some []\<rparr>) []) = MEASURED"
    by (simp add: assess_simps ex_evidence_def declares_caller_identity_def preflight_ok_def)
  then show ?thesis
    using share_only_on_declaration [of "ex_evidence\<lparr>se_capabilities := Some []\<rparr>" "[]"] by (simp add: strength_order)
qed

theorem degradation_never_gates_witness:
  "sv_share (assess (ex_evidence\<lparr>se_capabilities := Some (dict_set ''logging'' (JObj [])
     [(''experimental'', JObj [(CALLER_IDENTITY_CAPABILITY, JObj [])])])\<rparr>) [])"
proof -
  have c: "se_capabilities ex_evidence = Some [(''experimental'', JObj [(CALLER_IDENTITY_CAPABILITY, JObj [])])]"
    by (simp add: ex_evidence_def)
  have "sv_share (assess ex_evidence [])"
    by (simp add: assess_simps ex_evidence_def declares_caller_identity_def preflight_ok_def config_notes_def
        rotating_secret_env_def)
  then show ?thesis using degradation_never_gates [OF c, of "[]" "JObj []"] by (simp add: Let_def)
qed

subsection \<open>From the observation to the verdict\<close>











end
