(* ===== verification/Verdict_Cache.thy ===== *)
theory Verdict_Cache imports Hazard_Ledger begin

section \<open>The cache of pre-flight measurements (\<^verbatim>\<open>mcp_gateway/verdict_cache.py\<close>)\<close>

text \<open>
  One row per server name, stamped with the launch identity it was measured under. The file is a
  JSON value, \<open>None\<close> when absent or unreadable; what \<^verbatim>\<open>flush\<close> writes is \<open>cache_payload\<close>.
  The locale \<open>measurement_cache\<close> is what the pre-flight relies on: a row is returned only for the
  identity it was put under, and a reported version that contradicts the row removes it for every reader.
\<close>

definition CACHE_SCHEMA :: int where "CACHE_SCHEMA = 2"

record launch_id =
  li_command_args :: string
  li_env :: string
  li_binary :: string
  li_schema :: int

definition current_id :: "string \<Rightarrow> string \<Rightarrow> string \<Rightarrow> launch_id" where
  "current_id cmd env bin = \<lparr>li_command_args = cmd, li_env = env, li_binary = bin, li_schema = CACHE_SCHEMA\<rparr>"

definition id_as_str :: "launch_id \<Rightarrow> string" where
  "id_as_str i = nul_join [li_command_args i, li_env i, li_binary i, show_int (li_schema i)]"

definition identity_matches_schema :: "string \<Rightarrow> bool" where
  "identity_matches_schema s = (after_last (CHR 0x00) s = show_int CACHE_SCHEMA \<and> CHR 0x00 \<in> set s)"

record cached_preflight =
  cp_ran :: bool
  cp_caller_sensitive :: bool
  cp_reasons :: "string list"
  cp_evaluated_at :: secs
  cp_identity :: string
  cp_reported_version :: string

definition cp_to_json :: "cached_preflight \<Rightarrow> json" where
  "cp_to_json c = JObj [(''ran'', JBool (cp_ran c)), (''callerSensitive'', JBool (cp_caller_sensitive c)),
     (''reasons'', JArr (map JStr (cp_reasons c))), (''evaluatedAt'', JFloat (Finite (cp_evaluated_at c))),
     (''identity'', JStr (cp_identity c)), (''reportedVersion'', JStr (cp_reported_version c))]"

record verdict_cache =
  vc_entries :: "(string, cached_preflight) dict"
  vc_applied :: "string set"
  vc_dirty :: bool

definition new_cache :: verdict_cache where
  "new_cache = \<lparr>vc_entries = [], vc_applied = {}, vc_dirty = False\<rparr>"

subsection \<open>Loading\<close>

definition strs_of :: "json list \<Rightarrow> string list" where
  "strs_of js = List.map_filter (\<lambda>j. case j of JStr s \<Rightarrow> Some s | _ \<Rightarrow> None) js"

definition str_or_empty :: "json option \<Rightarrow> string" where
  "str_or_empty v = (case v of Some (JStr s) \<Rightarrow> s | _ \<Rightarrow> [])"

definition load_row :: "json \<Rightarrow> cached_preflight option" where
  "load_row value = (case value of JObj d \<Rightarrow>
      (let stored = str_or_empty (dict_get d ''identity'') in
       if \<not> identity_matches_schema stored then None
       else (case dict_get d ''ran'' of Some (JBool b) \<Rightarrow>
           Some \<lparr>cp_ran = b, cp_caller_sensitive = (dict_get d ''callerSensitive'' = Some (JBool True)),
                 cp_reasons = (case dict_get d ''reasons'' of Some (JArr rs) \<Rightarrow> strs_of rs | _ \<Rightarrow> []),
                 cp_evaluated_at = finite_float (case dict_get d ''evaluatedAt'' of None \<Rightarrow> JNull | Some v \<Rightarrow> v) 0,
                 cp_identity = stored,
                 cp_reported_version = str_or_empty (dict_get d ''reportedVersion'')\<rparr>
         | _ \<Rightarrow> None))
    | _ \<Rightarrow> None)"

definition load_rows :: "(string \<times> json) list \<Rightarrow> (string, cached_preflight) dict \<Rightarrow> (string, cached_preflight) dict" where
  "load_rows entries rows = fold (\<lambda>(name, value) rows.
     if name = [] then rows else (case load_row value of None \<Rightarrow> rows | Some r \<Rightarrow> dict_set name r rows)) entries rows"

definition load_cache :: "json option \<Rightarrow> verdict_cache \<Rightarrow> verdict_cache" where
  "load_cache fl c = (case fl of Some (JObj raw) \<Rightarrow>
      (case dict_get raw ''entries'' of Some (JObj entries) \<Rightarrow>
         c\<lparr>vc_applied := (case dict_get raw ''applied'' of
               Some (JArr js) \<Rightarrow> set (filter (\<lambda>a. a \<noteq> []) (strs_of js)) | _ \<Rightarrow> vc_applied c),
           vc_entries := load_rows entries (vc_entries c)\<rparr>
       | _ \<Rightarrow> c)
    | _ \<Rightarrow> c)"

subsection \<open>Operations\<close>

definition cache_get :: "string \<Rightarrow> launch_id \<Rightarrow> string \<Rightarrow> verdict_cache \<Rightarrow> cached_preflight option \<times> verdict_cache" where
  "cache_get name ident reported c = (case dict_get (vc_entries c) name of
      None \<Rightarrow> (None, c)
    | Some row \<Rightarrow>
       if cp_identity row \<noteq> id_as_str ident then (None, c)
       else if reported \<noteq> [] \<and> cp_reported_version row \<noteq> [] \<and> reported \<noteq> cp_reported_version row
       then (None, c\<lparr>vc_entries := dict_pop name (vc_entries c), vc_dirty := True\<rparr>)
       else (Some row, c))"

definition get_by_name :: "string \<Rightarrow> verdict_cache \<Rightarrow> cached_preflight option" where
  "get_by_name name c = dict_get (vc_entries c) name"

definition cache_put :: "string \<Rightarrow> launch_id \<Rightarrow> cached_preflight \<Rightarrow> verdict_cache \<Rightarrow> verdict_cache" where
  "cache_put name ident v c =
     c\<lparr>vc_entries := dict_set name (v\<lparr>cp_identity := id_as_str ident\<rparr>) (vc_entries c), vc_dirty := True\<rparr>"

definition was_applied :: "string \<Rightarrow> verdict_cache \<Rightarrow> bool" where
  "was_applied name c = (name \<in> vc_applied c)"

definition mark_applied :: "string \<Rightarrow> verdict_cache \<Rightarrow> verdict_cache" where
  "mark_applied name c = (if name \<noteq> [] \<and> name \<notin> vc_applied c
     then c\<lparr>vc_applied := insert name (vc_applied c), vc_dirty := True\<rparr> else c)"

definition server_names :: "verdict_cache \<Rightarrow> string set" where
  "server_names c = set (dict_keys (vc_entries c))"

definition cache_len :: "verdict_cache \<Rightarrow> nat" where
  "cache_len c = length (vc_entries c)"

definition cache_payload :: "verdict_cache \<Rightarrow> json" where
  "cache_payload c = JObj
     [(''entries'', JObj (map (\<lambda>(k, v). (k, cp_to_json v)) (sorted_items (vc_entries c)))),
      (''applied'', JArr (map JStr (sorted_list_of_set (vc_applied c))))]"

definition cache_flush :: "bool \<Rightarrow> verdict_cache \<Rightarrow> json option \<Rightarrow> verdict_cache \<times> json option" where
  "cache_flush ok c disk = (if \<not> vc_dirty c then (c, disk)
     else if ok then (c\<lparr>vc_dirty := False\<rparr>, Some (cache_payload c)) else (c, disk))"

subsection \<open>Launch identities\<close>

lemma digits_no_nul: "CHR 0x00 \<notin> set (show_int n)"
proof
  assume "CHR 0x00 \<in> set (show_int n)"
  then have "digit_val (CHR 0x00) \<noteq> None \<or> CHR 0x00 = CHR ''-''"
    by (auto simp: show_int_def split: if_splits dest: show_nat_chars)
  then show False by (simp add: digit_val_def)
qed

definition no_nul :: "launch_id \<Rightarrow> bool" where
  "no_nul i \<longleftrightarrow> CHR 0x00 \<notin> set (li_command_args i) \<and> CHR 0x00 \<notin> set (li_env i) \<and> CHR 0x00 \<notin> set (li_binary i)"

lemma append_sep_inj:
  assumes "x \<notin> set a" "x \<notin> set b" "a @ x # s = b @ x # t"
  shows "a = b \<and> s = t"
proof -
  have "takeWhile (\<lambda>c. c \<noteq> x) (a @ x # s) = a" "takeWhile (\<lambda>c. c \<noteq> x) (b @ x # t) = b"
    using assms(1,2) by (simp_all add: takeWhile_append)
  then have "a = b" using assms(3) by metis
  then show ?thesis using assms(3) by simp
qed

lemma id_as_str_inj: "no_nul i \<Longrightarrow> no_nul j \<Longrightarrow> id_as_str i = id_as_str j \<Longrightarrow> i = j"
proof -
  assume n: "no_nul i" "no_nul j" and eq: "id_as_str i = id_as_str j"
  obtain a b c d where i: "i = \<lparr>li_command_args = a, li_env = b, li_binary = c, li_schema = d\<rparr>" by (cases i) auto
  obtain a' b' c' d' where j: "j = \<lparr>li_command_args = a', li_env = b', li_binary = c', li_schema = d'\<rparr>" by (cases j) auto
  have nn: "CHR 0x00 \<notin> set a" "CHR 0x00 \<notin> set a'" "CHR 0x00 \<notin> set b" "CHR 0x00 \<notin> set b'"
      "CHR 0x00 \<notin> set c" "CHR 0x00 \<notin> set c'"
    using n by (auto simp: i j no_nul_def)
  have e0: "a @ CHR 0x00 # (b @ CHR 0x00 # (c @ CHR 0x00 # show_int d)) =
      a' @ CHR 0x00 # (b' @ CHR 0x00 # (c' @ CHR 0x00 # show_int d'))"
    using eq by (simp add: id_as_str_def nul_join_def i j)
  note e1 = append_sep_inj [OF nn(1,2) e0]
  note e2 = append_sep_inj [OF nn(3,4) conjunct2 [OF e1]]
  note e3 = append_sep_inj [OF nn(5,6) conjunct2 [OF e2]]
  show ?thesis using e1 e2 e3 by (simp add: i j)
qed

lemma id_matches_schema: "li_schema i = CACHE_SCHEMA \<Longrightarrow> identity_matches_schema (id_as_str i)"
proof -
  assume s: "li_schema i = CACHE_SCHEMA"
  have "id_as_str i = (li_command_args i @ CHR 0x00 # li_env i @ CHR 0x00 # li_binary i) @ CHR 0x00 # show_int CACHE_SCHEMA"
    by (simp add: id_as_str_def nul_join_def s)
  then show ?thesis
    unfolding identity_matches_schema_def by (simp only: after_last_append_sep [OF digits_no_nul]) simp
qed

subsection \<open>What the pre-flight relies on\<close>

locale measurement_cache =
  fixes put :: "string \<Rightarrow> 'i \<Rightarrow> 'r \<Rightarrow> 'c \<Rightarrow> 'c"
    and get :: "string \<Rightarrow> 'i \<Rightarrow> string \<Rightarrow> 'c \<Rightarrow> 'r option \<times> 'c"
    and peek :: "string \<Rightarrow> 'c \<Rightarrow> 'r option"
    and stamp :: "'i \<Rightarrow> 'r \<Rightarrow> 'r"
    and fits :: "'i \<Rightarrow> 'r \<Rightarrow> bool"
    and version :: "'r \<Rightarrow> string"
  assumes peek_put: "peek n (put m i r c) = (if n = m then Some (stamp i r) else peek n c)"
    and fits_stamp: "fits i (stamp i r)"
    and version_stamp: "version (stamp i r) = version r"
    and get_result: "fst (get n i v c) = (case peek n c of None \<Rightarrow> None
          | Some r \<Rightarrow> if fits i r \<and> (v = [] \<or> version r = [] \<or> v = version r) then Some r else None)"
    and get_effect: "peek m (snd (get n i v c)) = (case peek n c of None \<Rightarrow> peek m c
          | Some r \<Rightarrow> if fits i r \<and> v \<noteq> [] \<and> version r \<noteq> [] \<and> v \<noteq> version r \<and> m = n then None else peek m c)"
begin

lemma get_after_put:
  "v = [] \<or> version r = [] \<or> v = version r \<Longrightarrow> fst (get n i v (put n i r c)) = Some (stamp i r)"
  by (auto simp: get_result peek_put fits_stamp version_stamp)

lemma contradicted_everywhere:
  assumes "v \<noteq> []" "version r \<noteq> []" "v \<noteq> version r"
  shows "fst (get n i v (put n i r c)) = None" "peek n (snd (get n i v (put n i r c))) = None"
  using assms by (auto simp: get_result get_effect peek_put fits_stamp version_stamp)

lemma get_frame: "m \<noteq> n \<Longrightarrow> peek m (snd (get n i v c)) = peek m c"
  by (auto simp: get_effect split: option.split)

end

interpretation cache: measurement_cache cache_put cache_get get_by_name
    "\<lambda>i r. r\<lparr>cp_identity := id_as_str i\<rparr>" "\<lambda>i r. cp_identity r = id_as_str i" cp_reported_version
  by unfold_locales
     (auto simp: cache_put_def cache_get_def get_by_name_def dict_simps split: option.split)

text \<open>Any use of a cache.\<close>

datatype cache_op =
    CachePut string launch_id cached_preflight
  | CacheGet string launch_id string
  | CacheApplied string

fun cache_step :: "cache_op \<Rightarrow> verdict_cache \<Rightarrow> verdict_cache" where
  "cache_step (CachePut n i r) c = cache_put n i r c"
| "cache_step (CacheGet n i v) c = snd (cache_get n i v c)"
| "cache_step (CacheApplied n) c = mark_applied n c"

text \<open>The row a history leaves for a name: the last one put, unless a later read contradicted it.\<close>

fun last_row :: "string \<Rightarrow> cache_op list \<Rightarrow> cached_preflight option \<Rightarrow> cached_preflight option" where
  "last_row n [] acc = acc"
| "last_row n (CachePut m i r # ops) acc =
     last_row n ops (if m = n then Some (r\<lparr>cp_identity := id_as_str i\<rparr>) else acc)"
| "last_row n (CacheGet m i v # ops) acc = last_row n ops (case acc of None \<Rightarrow> None
     | Some r \<Rightarrow> if m = n \<and> cp_identity r = id_as_str i \<and> v \<noteq> [] \<and> cp_reported_version r \<noteq> [] \<and> v \<noteq> cp_reported_version r
                 then None else Some r)"
| "last_row n (CacheApplied m # ops) acc = last_row n ops acc"

lemma cache_history: "get_by_name n (fold cache_step ops c) = last_row n ops (get_by_name n c)"
proof (induction ops arbitrary: c)
  case (Cons x ops)
  show ?case
  proof (cases x)
    case (CachePut m i r)
    with Cons show ?thesis by (simp add: cache.peek_put)
  next
    case (CacheGet m i v)
    have "get_by_name n (snd (cache_get m i v c)) = (case get_by_name n c of None \<Rightarrow> None
     | Some r \<Rightarrow> if m = n \<and> cp_identity r = id_as_str i \<and> v \<noteq> [] \<and> cp_reported_version r \<noteq> [] \<and> v \<noteq> cp_reported_version r
                 then None else Some r)"
      by (auto simp: cache.get_effect split: option.split)
    with Cons CacheGet show ?thesis by simp
  next
    case (CacheApplied m)
    with Cons show ?thesis by (simp add: mark_applied_def get_by_name_def)
  qed
qed simp

subsection \<open>The file\<close>

definition cache_ok :: "verdict_cache \<Rightarrow> bool" where
  "cache_ok c \<longleftrightarrow> dict_ok (vc_entries c) \<and> [] \<notin> set (dict_keys (vc_entries c)) \<and> finite (vc_applied c) \<and> [] \<notin> vc_applied c"

lemma strs_of_JStr [simp]: "strs_of (map JStr xs) = xs"
  by (induction xs) (auto simp: strs_of_def List.map_filter_simps)

lemma load_row_json:
  "load_row (cp_to_json r) = (if identity_matches_schema (cp_identity r) then Some r else None)"
  by (simp add: load_row_def cp_to_json_def str_or_empty_def finite_float_def)

lemma load_rows_fold:
  assumes "dict_ok es" "[] \<notin> set (dict_keys es)" "set (dict_keys es) \<inter> set (dict_keys rows) = {}"
  shows "load_rows (map (\<lambda>(k, v). (k, cp_to_json v)) es) rows =
    rows @ filter (\<lambda>p. identity_matches_schema (cp_identity (snd p))) es"
  using assms
proof (induction es arbitrary: rows)
  case (Cons p es)
  obtain k v where p: "p = (k, v)" by (cases p)
  have k: "k \<noteq> []" "k \<notin> set (dict_keys rows)" using Cons.prems by (auto simp: p)
  define rows' where "rows' = (if identity_matches_schema (cp_identity v) then rows @ [(k, v)] else rows)"
  have "load_rows (map (\<lambda>(k, v). (k, cp_to_json v)) (p # es)) rows = load_rows (map (\<lambda>(k, v). (k, cp_to_json v)) es) rows'"
    using k by (simp add: load_rows_def p load_row_json rows'_def)
  also have "\<dots> = rows' @ filter (\<lambda>p. identity_matches_schema (cp_identity (snd p))) es"
    using Cons.prems by (intro Cons.IH) (auto simp: p rows'_def)
  finally show ?case by (simp add: p rows'_def)
qed (simp add: load_rows_def)

lemma load_cache_payload:
  assumes "cache_ok c"
  shows "load_cache (Some (cache_payload c)) new_cache =
    \<lparr>vc_entries = filter (\<lambda>p. identity_matches_schema (cp_identity (snd p))) (sorted_items (vc_entries c)),
     vc_applied = vc_applied c, vc_dirty = False\<rparr>"
proof -
  have "load_rows (map (\<lambda>(k, v). (k, cp_to_json v)) (sorted_items (vc_entries c))) [] =
      filter (\<lambda>p. identity_matches_schema (cp_identity (snd p))) (sorted_items (vc_entries c))"
    using assms load_rows_fold [of "sorted_items (vc_entries c)" "[]"] by (simp add: cache_ok_def)
  moreover have "set (filter (\<lambda>a. a \<noteq> []) (sorted_list_of_set (vc_applied c))) = vc_applied c"
    using assms by (auto simp: cache_ok_def)
  ultimately show ?thesis by (simp add: load_cache_def cache_payload_def new_cache_def)
qed

lemma cache_step_ok:
  assumes "cache_ok c" "\<forall>n i r. x = CachePut n i r \<longrightarrow> n \<noteq> []"
  shows "cache_ok (cache_step x c)"
proof (cases x)
  case (CachePut n i r)
  then show ?thesis using assms by (auto simp: cache_ok_def cache_put_def AList.dom_update)
next
  case (CacheGet n i v)
  then show ?thesis
    using assms by (auto simp: cache_ok_def cache_get_def AList.delete_eq split: option.split)
next
  case (CacheApplied n)
  then show ?thesis using assms by (auto simp: cache_ok_def mark_applied_def)
qed

lemma cache_run_ok:
  assumes "cache_ok c" "\<forall>x \<in> set ops. \<forall>n i r. x = CachePut n i r \<longrightarrow> n \<noteq> []"
  shows "cache_ok (fold cache_step ops c)"
  using assms
proof (induction ops arbitrary: c)
  case (Cons x ops)
  then show ?case using cache_step_ok [of c x] by simp
qed simp

lemma applied_monotone: "n \<in> vc_applied c \<Longrightarrow> n \<in> vc_applied (fold cache_step ops c)"
proof (induction ops arbitrary: c)
  case (Cons x ops)
  have "n \<in> vc_applied (cache_step x c)"
    using Cons.prems
    by (cases x) (auto simp: cache_put_def cache_get_def mark_applied_def split: option.split)
  then show ?case using Cons.IH by simp
qed simp

subsection \<open>Properties\<close>

text \<open>C33. A measurement is only ever used for the program it was taken of: over any use of a
  fresh cache, with identities whose fields hold no NUL, which joins them, what a read returns is the row last put for that server, and that row was put under the very
  command, environment, binary and schema asked for, with no known version contradicting it.\<close>

theorem measurement_describes_server:
  assumes "fst (cache_get n i v (fold cache_step ops new_cache)) = Some row" "no_nul i"
    and "\<forall>m j r. CachePut m j r \<in> set ops \<longrightarrow> no_nul j"
  shows "\<exists>r. CachePut n i r \<in> set ops \<and> row = r\<lparr>cp_identity := id_as_str i\<rparr> \<and>
     last_row n ops None = Some row \<and> (v = [] \<or> cp_reported_version row = [] \<or> v = cp_reported_version row)"
proof -
  have src: "last_row n ops acc = Some row \<Longrightarrow> acc = Some row \<or> (\<exists>j r. CachePut n j r \<in> set ops \<and> row = r\<lparr>cp_identity := id_as_str j\<rparr>)"
    for acc
    by (induction n ops acc rule: last_row.induct) (auto split: option.splits if_splits)
  have p: "get_by_name n (fold cache_step ops new_cache) = last_row n ops None"
    by (simp add: cache_history) (simp add: get_by_name_def new_cache_def)
  have row: "last_row n ops None = Some row" "cp_identity row = id_as_str i"
    "v = [] \<or> cp_reported_version row = [] \<or> v = cp_reported_version row"
    using assms(1) unfolding cache.get_result p by (auto split: option.splits if_splits)
  from src [OF row(1)] obtain j r where j: "CachePut n j r \<in> set ops" "row = r\<lparr>cp_identity := id_as_str j\<rparr>" by auto
  then have "j = i" using row(2) assms(2,3) by (intro id_as_str_inj) auto
  then show ?thesis using j row by blast
qed

definition ex_row :: cached_preflight where
  "ex_row = \<lparr>cp_ran = True, cp_caller_sensitive = False, cp_reasons = [], cp_evaluated_at = 5,
     cp_identity = [], cp_reported_version = ''1.2''\<rparr>"

theorem measurement_describes_server_witness:
  "\<exists>r. CachePut ''srv'' (current_id ''c'' ''e'' ''b'') r \<in> set [CachePut ''srv'' (current_id ''c'' ''e'' ''b'') ex_row]"
proof -
  have "fst (cache_get ''srv'' (current_id ''c'' ''e'' ''b'') ''1.2''
      (fold cache_step [CachePut ''srv'' (current_id ''c'' ''e'' ''b'') ex_row] new_cache)) =
      Some (ex_row\<lparr>cp_identity := id_as_str (current_id ''c'' ''e'' ''b'')\<rparr>)"
    using cache.get_after_put [of "''1.2''" ex_row "''srv''"] by (simp add: ex_row_def)
  from measurement_describes_server [OF this] show ?thesis by (auto simp: no_nul_def current_id_def)
qed

text \<open>A version that contradicts a measurement withdraws it for every reader: a read that
  reports another version than the row was measured at returns nothing, and afterwards neither the
  identity-checked nor the name-only read finds the row, while every other server's row stays.\<close>

theorem contradicted_row_dropped:
  fixes c :: verdict_cache and n v w :: string and i j :: launch_id and r :: cached_preflight
  assumes "v \<noteq> []" "cp_reported_version r \<noteq> []" "v \<noteq> cp_reported_version r"
  defines "c' \<equiv> snd (cache_get n i v (cache_put n i r c))"
  shows "fst (cache_get n i v (cache_put n i r c)) = None \<and> get_by_name n c' = None \<and>
     fst (cache_get n j w c') = None \<and> (\<forall>m. m \<noteq> n \<longrightarrow> get_by_name m c' = get_by_name m c)"
  using cache.contradicted_everywhere [OF assms(1-3)] 
  by (auto simp: c'_def cache.get_result cache.get_frame cache.peek_put)

theorem contradicted_row_dropped_witness:
  "get_by_name ''srv'' (snd (cache_get ''srv'' (current_id ''c'' ''e'' ''b'') ''2.0''
     (cache_put ''srv'' (current_id ''c'' ''e'' ''b'') ex_row new_cache))) = None"
  using contradicted_row_dropped [of "''2.0''" ex_row] by (simp add: ex_row_def)

text \<open>A restart keeps what is still evidence and every operator's choice: after any use of a
  fresh cache, loading what a flush writes yields, by name, exactly the rows measured under this
  build's schema, and every server once marked as applied is still marked.\<close>

theorem cache_survives_restart:
  assumes "\<forall>x \<in> set ops. \<forall>n i r. x = CachePut n i r \<longrightarrow> n \<noteq> []"
  defines "c \<equiv> fold cache_step ops new_cache"
  shows "get_by_name n (load_cache (Some (cache_payload c)) new_cache) =
      (case get_by_name n c of Some r \<Rightarrow> if identity_matches_schema (cp_identity r) then Some r else None | None \<Rightarrow> None) \<and>
    (CacheApplied n \<in> set ops \<and> n \<noteq> [] \<longrightarrow> was_applied n (load_cache (Some (cache_payload c)) new_cache))"
proof -
  have "cache_ok new_cache" by (simp add: cache_ok_def new_cache_def)
  then have ok: "cache_ok c" unfolding c_def using assms(1) by (rule cache_run_ok)
  have a: "n \<in> vc_applied c" if m: "CacheApplied n \<in> set ops" "n \<noteq> []"
  proof -
    obtain xs ys where ops: "ops = xs @ CacheApplied n # ys" using split_list [OF m(1)] by blast
    have "n \<in> vc_applied (cache_step (CacheApplied n) (fold cache_step xs new_cache))"
      using m(2) by (simp add: mark_applied_def)
    then show ?thesis unfolding c_def ops by (simp add: applied_monotone)
  qed
  have "dict_get (filter (\<lambda>p. identity_matches_schema (cp_identity (snd p))) (sorted_items (vc_entries c))) n =
      (case dict_get (vc_entries c) n of Some r \<Rightarrow> if identity_matches_schema (cp_identity r) then Some r else None | None \<Rightarrow> None)"
    using ok dict_get_filter_value [of "sorted_items (vc_entries c)" "\<lambda>r. identity_matches_schema (cp_identity r)" n]
    by (simp add: cache_ok_def dict_get_sorted)
  then show ?thesis using a by (simp add: load_cache_payload [OF ok] get_by_name_def was_applied_def)
qed

theorem cache_survives_restart_witness:
  "was_applied ''srv'' (load_cache (Some (cache_payload (fold cache_step
      [CachePut ''srv'' (current_id ''c'' ''e'' ''b'') ex_row, CacheApplied ''srv''] new_cache))) new_cache)"
  using cache_survives_restart [of "[CachePut ''srv'' (current_id ''c'' ''e'' ''b'') ex_row, CacheApplied ''srv'']" "''srv''"]
  by simp

end
