(* ===== verification/Notification_Bus.thy ===== *)
theory Notification_Bus imports Json_Value begin

section \<open>The notification bus (\<^verbatim>\<open>notifications/bus.py\<close>)\<close>

text \<open>
  A payload holds whatever values its producer passed: its fields are JSON values, \<open>JNull\<close> for
  \<^verbatim>\<open>None\<close>, so the type checks of \<^verbatim>\<open>validate\<close> are the code's own. A note is the
  dictionary the sink receives. The clock's text is the argument \<open>ts\<close>; \<^verbatim>\<open>str()\<close> of
  a value that is no string is the parameter \<open>to_str\<close>. The ellipsis appended to truncated
  text, U+2026, lies outside the characters of \<^typ>\<open>string\<close>; \<open>ELLIPSIS\<close>, one character, stands for it.
\<close>

type_synonym bus_note = "(string \<times> json) list"

definition PRIORITIES :: "string list" where
  "PRIORITIES = [''critical'', ''default'', ''passive'']"
definition DEFAULT_PRIORITY :: string where "DEFAULT_PRIORITY = ''default''"
definition SYSTEM_SOURCE :: string where "SYSTEM_SOURCE = ''system''"
definition SYSTEM_CHANNELS :: "(string, string) dict" where
  "SYSTEM_CHANNELS = [(''system.cron'', DEFAULT_PRIORITY), (''system.heartbeat'', DEFAULT_PRIORITY),
     (''system.hook'', DEFAULT_PRIORITY), (''system.agent'', DEFAULT_PRIORITY),
     (''system.approval'', ''critical''), (''system.subagent'', ''passive''),
     (''system.taskrunner'', DEFAULT_PRIORITY), (''system.skills'', DEFAULT_PRIORITY),
     (''system.safety_override'', DEFAULT_PRIORITY), (''system.resources'', DEFAULT_PRIORITY)]"
definition FALLBACK_CHANNEL :: string where "FALLBACK_CHANNEL = ''system.agent''"
definition MAX_TITLE_LEN :: nat where "MAX_TITLE_LEN = 500"
definition MAX_BODY_LEN :: nat where "MAX_BODY_LEN = 20000"
definition MAX_ACTIONS :: nat where "MAX_ACTIONS = 4"
definition MAX_ACTION_ID_LEN :: nat where "MAX_ACTION_ID_LEN = 64"
definition MAX_ACTION_LABEL_LEN :: nat where "MAX_ACTION_LABEL_LEN = 40"
definition MAX_ACTION_URL_LEN :: nat where "MAX_ACTION_URL_LEN = 500"
definition ELLIPSIS :: char where "ELLIPSIS = CHR 0x85"

definition RESERVED_NOTE_KEYS :: "string list" where
  "RESERVED_NOTE_KEYS = [''kind'', ''source'', ''channel'', ''priority'', ''title'', ''body'', ''ts'',
     ''group_key'', ''actions'', ''url'', ''icon'', ''ttl'', ''silenced'', ''acked'']"

datatype note_error =
    Required string
  | NotAString string
  | TooLong string
  | BadPriority json
  | BadTtl
  | ActionsNotAList
  | TooManyActions
  | BadActionFields
  | UnknownActionFields
  | NotInternal string
  | UnregisteredChannel json

text \<open>\<^verbatim>\<open>_validate_internal_url\<close>.\<close>

definition internal_url :: "string \<Rightarrow> bool" where
  "internal_url url = (starts_with url ''/'' \<and> \<not> starts_with url ''//'' \<and> CHR 0x5C \<notin> set url \<and>
     CHR 0x09 \<notin> set url \<and> CHR 0x0A \<notin> set url \<and> CHR 0x0D \<notin> set url)"

record notification_payload =
  np_source :: json
  np_channel :: json
  np_title :: json
  np_body :: json
  np_priority :: json
  np_kind :: json
  np_group_key :: json
  np_actions :: json
  np_url :: json
  np_icon :: json
  np_ttl :: json
  np_meta :: "(string \<times> json) list"

subsection \<open>Validation\<close>

definition nonempty_str :: "json \<Rightarrow> bool" where
  "nonempty_str j = (case j of JStr s \<Rightarrow> s \<noteq> [] | _ \<Rightarrow> False)"

definition nonblank_str :: "json option \<Rightarrow> bool" where
  "nonblank_str v = (case v of Some (JStr s) \<Rightarrow> py_strip s \<noteq> [] | _ \<Rightarrow> False)"

definition str_longer :: "json \<Rightarrow> nat \<Rightarrow> bool" where
  "str_longer j n = (case j of JStr s \<Rightarrow> n < length s | _ \<Rightarrow> False)"

definition known_priority :: "json \<Rightarrow> bool" where
  "known_priority p = (case p of JStr s \<Rightarrow> s \<in> set PRIORITIES | _ \<Rightarrow> False)"

definition action_error :: "json \<Rightarrow> note_error option" where
  "action_error action = (case action of
      JObj d \<Rightarrow>
        (if \<not> nonblank_str (dict_get d ''id'') \<or> \<not> nonblank_str (dict_get d ''label'') then Some BadActionFields
         else if \<not> set (dict_keys d) \<subseteq> {''id'', ''label'', ''url''} then Some UnknownActionFields
         else if str_longer (the (dict_get d ''id'')) MAX_ACTION_ID_LEN then Some (TooLong ''action id'')
         else if str_longer (the (dict_get d ''label'')) MAX_ACTION_LABEL_LEN then Some (TooLong ''action label'')
         else (case dict_get d ''url'' of
             None \<Rightarrow> None
           | Some JNull \<Rightarrow> None
           | Some (JStr u) \<Rightarrow> if MAX_ACTION_URL_LEN < length u then Some (TooLong ''action url'')
                else if \<not> internal_url u then Some (NotInternal ''action url'') else None
           | Some _ \<Rightarrow> Some (NotInternal ''action url'')))
    | _ \<Rightarrow> Some BadActionFields)"

fun first_error :: "note_error option list \<Rightarrow> note_error option" where
  "first_error [] = None"
| "first_error (None # es) = first_error es"
| "first_error (Some e # es) = Some e"

definition actions_error :: "json \<Rightarrow> note_error option" where
  "actions_error actions = (case actions of
      JNull \<Rightarrow> None
    | JArr as \<Rightarrow> if MAX_ACTIONS < length as then Some TooManyActions else first_error (map action_error as)
    | _ \<Rightarrow> Some ActionsNotAList)"

definition url_error :: "json \<Rightarrow> note_error option" where
  "url_error url = (case url of JNull \<Rightarrow> None
     | JStr u \<Rightarrow> if internal_url u then None else Some (NotInternal ''url'')
     | _ \<Rightarrow> Some (NotInternal ''url''))"

definition ttl_error :: "json \<Rightarrow> note_error option" where
  "ttl_error ttl = (case ttl of JNull \<Rightarrow> None | JInt n \<Rightarrow> if n \<le> 0 then Some BadTtl else None | _ \<Rightarrow> Some BadTtl)"

definition validate_payload :: "notification_payload \<Rightarrow> note_error option" where
  "validate_payload p =
     (if \<not> nonempty_str (np_source p) then Some (Required ''source'')
      else if \<not> nonempty_str (np_channel p) then Some (Required ''channel'')
      else if \<not> nonempty_str (np_title p) then Some (Required ''title'')
      else if \<not> (\<exists>s. np_body p = JStr s) then Some (NotAString ''body'')
      else if str_longer (np_title p) MAX_TITLE_LEN then Some (TooLong ''title'')
      else if str_longer (np_body p) MAX_BODY_LEN then Some (TooLong ''body'')
      else if np_priority p \<noteq> JNull \<and> \<not> known_priority (np_priority p) then Some (BadPriority (np_priority p))
      else first_error [ttl_error (np_ttl p), actions_error (np_actions p), url_error (np_url p)])"

subsection \<open>The legacy adapter\<close>

definition coerce_text :: "(json \<Rightarrow> string) \<Rightarrow> json \<Rightarrow> string" where
  "coerce_text to_str v = (case v of JStr s \<Rightarrow> s | JNull \<Rightarrow> [] | _ \<Rightarrow> to_str v)"

definition truncate_text :: "nat \<Rightarrow> string \<Rightarrow> string" where
  "truncate_text n s = (if n < length s then take (n - 1) s @ [ELLIPSIS] else s)"

definition channel_for_kind :: "string \<Rightarrow> string" where
  "channel_for_kind kind = (if ''system.'' @ kind \<in> set (dict_keys SYSTEM_CHANNELS)
     then ''system.'' @ kind else FALLBACK_CHANNEL)"

definition payload_from_legacy :: "(json \<Rightarrow> string) \<Rightarrow> string \<Rightarrow> json \<Rightarrow> json \<Rightarrow> (string \<times> json) list \<Rightarrow> json \<Rightarrow> json \<Rightarrow> notification_payload" where
  "payload_from_legacy to_str kind title body meta url actions =
     (let t = coerce_text to_str title; b = coerce_text to_str body
      in \<lparr>np_source = JStr SYSTEM_SOURCE, np_channel = JStr (channel_for_kind kind),
          np_title = JStr (if t = [] then ''Notification'' else truncate_text MAX_TITLE_LEN t),
          np_body = JStr (truncate_text MAX_BODY_LEN b), np_priority = JNull, np_kind = JStr kind,
          np_group_key = JNull, np_actions = actions, np_url = url, np_icon = JNull, np_ttl = JNull,
          np_meta = meta\<rparr>)"

text \<open>\<^verbatim>\<open>normalize_note\<close>: a stored channel that is a list or a dict is a \<^verbatim>\<open>TypeError\<close>
  (\<open>None\<close>) when its priority is looked up.\<close>

definition normalize_note :: "(json \<Rightarrow> string) \<Rightarrow> bus_note \<Rightarrow> bus_note option" where
  "normalize_note to_str n =
     (let n1 = (case dict_get n ''channel'' of Some _ \<Rightarrow> n
          | None \<Rightarrow> (let kind = (case dict_get n ''kind'' of None \<Rightarrow> ''agent''
                         | Some k \<Rightarrow> (case k of JStr s \<Rightarrow> s | _ \<Rightarrow> to_str k))
                     in dict_set ''source'' (JStr SYSTEM_SOURCE) (dict_set ''channel'' (JStr (channel_for_kind kind)) n)))
      in case dict_get n1 ''priority'' of Some _ \<Rightarrow> Some n1
         | None \<Rightarrow> (case dict_get n1 ''channel'' of
              Some (JStr c) \<Rightarrow> Some (dict_set ''priority'' (JStr (case dict_get SYSTEM_CHANNELS c of
                   None \<Rightarrow> DEFAULT_PRIORITY | Some p \<Rightarrow> p)) n1)
            | Some (JArr _) \<Rightarrow> None
            | Some (JObj _) \<Rightarrow> None
            | _ \<Rightarrow> Some (dict_set ''priority'' (JStr DEFAULT_PRIORITY) n1)))"

subsection \<open>The bus\<close>

type_synonym channels = "(string, string) dict"

definition new_bus :: channels where "new_bus = SYSTEM_CHANNELS"

definition register_channel :: "string \<Rightarrow> string \<Rightarrow> channels \<Rightarrow> note_error + channels" where
  "register_channel channel prio chs =
     (if prio \<notin> set PRIORITIES then Inl (BadPriority (JStr prio)) else Inr (dict_set channel prio chs))"

definition unregister_channel :: "string \<Rightarrow> channels \<Rightarrow> channels" where
  "unregister_channel channel chs =
     (if channel \<in> set (dict_keys SYSTEM_CHANNELS) then chs else dict_pop channel chs)"

definition unregister_app_channels :: "string \<Rightarrow> channels \<Rightarrow> nat \<times> channels" where
  "unregister_app_channels app chs =
     (let doomed = filter (\<lambda>c. starts_with c (app @ ''.'') \<and> c \<notin> set (dict_keys SYSTEM_CHANNELS)) (dict_keys chs)
      in (length doomed, fold dict_pop doomed chs))"

definition is_registered :: "string \<Rightarrow> channels \<Rightarrow> bool" where
  "is_registered channel chs = (channel \<in> set (dict_keys chs))"

definition base_note :: "notification_payload \<Rightarrow> string \<Rightarrow> string \<Rightarrow> string \<Rightarrow> bus_note" where
  "base_note p chan prio ts =
     [(''kind'', if jtruthy (np_kind p) then np_kind p else JStr (after_last (CHR ''.'') chan)),
      (''source'', np_source p), (''channel'', np_channel p),
      (''priority'', if jtruthy (np_priority p) then np_priority p else JStr prio),
      (''title'', np_title p), (''body'', np_body p), (''ts'', JStr ts)]"

definition optional_fields :: "notification_payload \<Rightarrow> bus_note" where
  "optional_fields p = filter (\<lambda>kv. snd kv \<noteq> JNull)
     [(''group_key'', np_group_key p), (''actions'', np_actions p), (''url'', np_url p),
      (''icon'', np_icon p), (''ttl'', np_ttl p)]"

definition merge_meta :: "(string \<times> json) list \<Rightarrow> bus_note \<Rightarrow> bus_note" where
  "merge_meta meta n = fold (\<lambda>(k, v) n.
     if k \<in> set (dict_keys n) \<or> starts_with k ''_'' \<or> k \<in> set RESERVED_NOTE_KEYS then n else dict_set k v n) meta n"

definition bus_push :: "string \<Rightarrow> channels \<Rightarrow> notification_payload \<Rightarrow> note_error + bus_note" where
  "bus_push ts chs p = (case validate_payload p of
      Some e \<Rightarrow> Inl e
    | None \<Rightarrow> (case np_channel p of
        JStr chan \<Rightarrow> (case dict_get chs chan of
            None \<Rightarrow> Inl (UnregisteredChannel (np_channel p))
          | Some prio \<Rightarrow> Inr (merge_meta (np_meta p) (base_note p chan prio ts @ optional_fields p)))
      | _ \<Rightarrow> Inl (UnregisteredChannel (np_channel p))))"

subsection \<open>Lemmas\<close>

lemma first_error_None: "first_error es = None \<longleftrightarrow> (\<forall>e \<in> set es. e = None)"
  by (induction es rule: first_error.induct) auto

lemma merge_meta_keeps:
  "dict_get n k = Some v \<Longrightarrow> dict_get (merge_meta meta n) k = Some v"
proof (induction meta arbitrary: n)
  case (Cons p meta)
  obtain k' v' where p: "p = (k', v')" by (cases p)
  have "k \<in> set (dict_keys n)" using Cons.prems by (force dest: map_of_SomeD)
  then have "dict_get (if k' \<in> set (dict_keys n) \<or> starts_with k' ''_'' \<or> k' \<in> set RESERVED_NOTE_KEYS then n
      else dict_set k' v' n) k = Some v"
    using Cons.prems by (auto simp: dict_simps simp del: dict_set_new)
  from Cons.IH [OF this] show ?case by (simp add: merge_meta_def p)
qed (simp add: merge_meta_def)

lemma merge_meta_guard:
  "starts_with k ''_'' \<or> k \<in> set RESERVED_NOTE_KEYS \<Longrightarrow> dict_get (merge_meta meta n) k = dict_get n k"
proof (induction meta arbitrary: n)
  case (Cons p meta)
  obtain k' v' where p: "p = (k', v')" by (cases p)
  have "dict_get (if k' \<in> set (dict_keys n) \<or> starts_with k' ''_'' \<or> k' \<in> set RESERVED_NOTE_KEYS then n
      else dict_set k' v' n) k = dict_get n k"
    using Cons.prems by (auto simp: dict_simps simp del: dict_set_new)
  with Cons.IH [of "if k' \<in> set (dict_keys n) \<or> starts_with k' ''_'' \<or> k' \<in> set RESERVED_NOTE_KEYS then n
      else dict_set k' v' n"] Cons.prems show ?case by (simp add: merge_meta_def p)
qed (simp add: merge_meta_def)

lemma bus_push_Inr:
  assumes "bus_push ts chs p = Inr n"
  obtains chan prio where "validate_payload p = None" "np_channel p = JStr chan" "dict_get chs chan = Some prio"
    "n = merge_meta (np_meta p) (base_note p chan prio ts @ optional_fields p)"
  using assms by (auto simp: bus_push_def split: option.splits json.splits)

lemma optional_fields_get:
  "dict_get (optional_fields p) k =
     (if k = ''group_key'' \<and> np_group_key p \<noteq> JNull then Some (np_group_key p)
      else if k = ''actions'' \<and> np_actions p \<noteq> JNull then Some (np_actions p)
      else if k = ''url'' \<and> np_url p \<noteq> JNull then Some (np_url p)
      else if k = ''icon'' \<and> np_icon p \<noteq> JNull then Some (np_icon p)
      else if k = ''ttl'' \<and> np_ttl p \<noteq> JNull then Some (np_ttl p) else None)"
  by (simp add: optional_fields_def)

lemma reserved_get:
  assumes "bus_push ts chs p = Inr n"
  obtains chan prio where "\<And>k. k \<in> set RESERVED_NOTE_KEYS \<or> starts_with k ''_'' \<Longrightarrow>
      dict_get n k = (case dict_get (optional_fields p) k of Some v \<Rightarrow> Some v
        | None \<Rightarrow> dict_get (base_note p chan prio ts) k)"
proof -
  obtain chan prio where c: "n = merge_meta (np_meta p) (base_note p chan prio ts @ optional_fields p)"
    using assms by (rule bus_push_Inr)
  have "dict_get n k = (case dict_get (optional_fields p) k of Some v \<Rightarrow> Some v
        | None \<Rightarrow> dict_get (base_note p chan prio ts) k)"
    if "k \<in> set RESERVED_NOTE_KEYS \<or> starts_with k ''_''" for k
  proof -
    have k: "dict_get n k = dict_get (base_note p chan prio ts @ optional_fields p) k"
      unfolding c using that by (intro merge_meta_guard) blast
    have "dict_get (optional_fields p) k = None \<or> dict_get (base_note p chan prio ts) k = None"
      by (auto simp: optional_fields_get base_note_def)
    then show ?thesis unfolding k by (auto simp: map_add_def split: option.split)
  qed
  then show ?thesis by (rule that)
qed

lemma dict_pop_fold_get: "dict_get (fold dict_pop ks d) k = (if k \<in> set ks then None else dict_get d k)"
  by (induction ks arbitrary: d) (auto simp: dict_simps)

text \<open>Any use of the channel registry.\<close>

datatype channel_op = RegisterChannel string string | UnregisterChannel string | UnregisterApp string

fun channel_step :: "channel_op \<Rightarrow> channels \<Rightarrow> channels" where
  "channel_step (RegisterChannel c prio) chs = (case register_channel c prio chs of Inl _ \<Rightarrow> chs | Inr chs' \<Rightarrow> chs')"
| "channel_step (UnregisterChannel c) chs = unregister_channel c chs"
| "channel_step (UnregisterApp app) chs = snd (unregister_app_channels app chs)"

lemma dict_key_iff: "k \<in> set (dict_keys d) \<longleftrightarrow> dict_get d k \<noteq> None"
  by (induction d) auto

lemma channel_step_system:
  "c \<in> set (dict_keys SYSTEM_CHANNELS) \<Longrightarrow> dict_get chs c \<noteq> None \<Longrightarrow> dict_get (channel_step x chs) c \<noteq> None"
  by (cases x)
     (auto simp: register_channel_def unregister_channel_def unregister_app_channels_def dict_pop_fold_get
       dict_simps Let_def simp del: not_None_eq)

lemma channel_run_system:
  "c \<in> set (dict_keys SYSTEM_CHANNELS) \<Longrightarrow> dict_get (fold channel_step xs new_bus) c \<noteq> None"
proof -
  assume c: "c \<in> set (dict_keys SYSTEM_CHANNELS)"
  have "dict_get chs c \<noteq> None \<Longrightarrow> dict_get (fold channel_step xs chs) c \<noteq> None" for chs
  proof (induction xs arbitrary: chs)
    case (Cons x xs)
    then show ?case using channel_step_system [OF c] by simp
  qed simp
  then show ?thesis using c by (simp only: new_bus_def flip: dict_key_iff)
qed

lemma channel_for_kind_system: "channel_for_kind kind \<in> set (dict_keys SYSTEM_CHANNELS)"
  by (simp add: channel_for_kind_def FALLBACK_CHANNEL_def SYSTEM_CHANNELS_def)

lemma legacy_valid:
  assumes "actions_error actions = None" "url_error url = None"
  shows "validate_payload (payload_from_legacy to_str kind title body meta url actions) = None"
proof -
  have "channel_for_kind kind \<noteq> []" by (simp add: channel_for_kind_def FALLBACK_CHANNEL_def)
  then show ?thesis
    using assms by (simp add: validate_payload_def payload_from_legacy_def Let_def nonempty_str_def str_longer_def
        truncate_text_def MAX_TITLE_LEN_def MAX_BODY_LEN_def SYSTEM_SOURCE_def ttl_error_def)
qed

subsection \<open>Properties\<close>

text \<open>How a browser reads a deep link: it strips tabs and line breaks and reads a backslash as a
  slash.\<close>

definition browser_url :: "string \<Rightarrow> string" where
  "browser_url u = map (\<lambda>c. if c = CHR 0x5C then CHR ''/'' else c)
     (filter (\<lambda>c. c \<notin> {CHR 0x09, CHR 0x0A, CHR 0x0D}) u)"

definition stays_internal :: "json \<Rightarrow> bool" where
  "stays_internal j = (case j of JStr u \<Rightarrow> starts_with (browser_url u) ''/'' \<and> \<not> starts_with (browser_url u) ''//''
     | _ \<Rightarrow> False)"

lemma internal_browser: "internal_url u \<Longrightarrow> stays_internal (JStr u)"
proof -
  assume u: "internal_url u"
  then have "filter (\<lambda>c. c \<notin> {CHR 0x09, CHR 0x0A, CHR 0x0D}) u = u"
    by (auto simp: internal_url_def filter_id_conv)
  moreover have "map (\<lambda>c. if c = CHR 0x5C then CHR ''/'' else c) u = u"
    using u by (intro map_idI) (auto simp: internal_url_def)
  ultimately have "browser_url u = u" by (simp add: browser_url_def)
  then show ?thesis using u by (simp add: stays_internal_def internal_url_def)
qed

definition action_url_safe :: "json \<Rightarrow> bool" where
  "action_url_safe a = (case jget ''url'' a of None \<Rightarrow> True | Some JNull \<Rightarrow> True | Some u \<Rightarrow> stays_internal u)"

lemma action_error_None: "action_error a = None \<Longrightarrow> action_url_safe a"
  by (cases a)
     (auto simp: action_error_def action_url_safe_def jget_def intro: internal_browser
       split: if_splits option.splits json.splits)

lemma valid_url: "url_error u = None \<Longrightarrow> u \<noteq> JNull \<Longrightarrow> stays_internal u"
  by (cases u) (auto simp: url_error_def intro: internal_browser split: if_splits)

lemma valid_actions:
  "actions_error v = None \<Longrightarrow> v \<noteq> JNull \<Longrightarrow> \<exists>as. v = JArr as \<and> length as \<le> MAX_ACTIONS \<and> list_all action_url_safe as"
  by (cases v) (auto simp: actions_error_def first_error_None list_all_iff action_error_None split: if_splits)

definition note_fields :: "string list" where
  "note_fields = [''kind'', ''source'', ''channel'', ''priority'', ''title'', ''body'', ''ts'',
     ''group_key'', ''actions'', ''url'', ''icon'', ''ttl'']"

lemma note_fields_plain:
  "list_all (\<lambda>k. k \<noteq> ''silenced'' \<and> k \<noteq> ''acked'' \<and> \<not> starts_with k ''_'') note_fields"
  by (simp add: note_fields_def starts_with_def)

lemma no_such_field:
  assumes "k \<notin> set note_fields"
  shows "dict_get (optional_fields p) k = None" "dict_get (base_note p chan prio ts) k = None"
proof -
  have "set (dict_keys (optional_fields p)) \<subseteq> set note_fields"
    by (simp add: optional_fields_def note_fields_def)
  then show "dict_get (optional_fields p) k = None" using assms by (auto simp: map_of_eq_None_iff)
  have "set (dict_keys (base_note p chan prio ts)) \<subseteq> set note_fields"
    by (simp add: base_note_def note_fields_def)
  then show "dict_get (base_note p chan prio ts) k = None" using assms by (auto simp: map_of_eq_None_iff)
qed

lemma pushed_note_fields:
  assumes "bus_push ts chs p = Inr n"
  shows "(case dict_get n ''url'' of None \<Rightarrow> True | Some u \<Rightarrow> stays_internal u) \<and>
     (case dict_get n ''actions'' of None \<Rightarrow> True
      | Some v \<Rightarrow> \<exists>as. v = JArr as \<and> length as \<le> MAX_ACTIONS \<and> list_all action_url_safe as) \<and>
     dict_get n ''silenced'' = None \<and> dict_get n ''acked'' = None \<and>
     (\<forall>k. starts_with k ''_'' \<longrightarrow> dict_get n k = None)"
proof -
  have valid: "url_error (np_url p) = None" "actions_error (np_actions p) = None" "validate_payload p = None"
    using assms by (auto simp: bus_push_def validate_payload_def first_error_None split: option.splits if_splits)
  obtain chan prio where r: "\<And>k. k \<in> set RESERVED_NOTE_KEYS \<or> starts_with k ''_'' \<Longrightarrow>
      dict_get n k = (case dict_get (optional_fields p) k of Some v \<Rightarrow> Some v
        | None \<Rightarrow> dict_get (base_note p chan prio ts) k)"
    using reserved_get [OF assms] by blast
  have u: "dict_get n ''url'' = (if np_url p = JNull then None else Some (np_url p))"
    by (subst r) (simp_all add: RESERVED_NOTE_KEYS_def optional_fields_get base_note_def)
  have a: "dict_get n ''actions'' = (if np_actions p = JNull then None else Some (np_actions p))"
    by (subst r) (simp_all add: RESERVED_NOTE_KEYS_def optional_fields_get base_note_def)
  have s: "dict_get n k = None" if k: "k = ''silenced'' \<or> k = ''acked'' \<or> starts_with k ''_''" for k
  proof -
    have "k \<in> set RESERVED_NOTE_KEYS \<or> starts_with k ''_''" using k by (auto simp: RESERVED_NOTE_KEYS_def)
    note r [OF this]
    moreover have "k \<notin> set note_fields" using k note_fields_plain by (auto simp only: list_all_iff)
    note no_such_field [OF this]
    ultimately show ?thesis by simp
  qed
  show ?thesis
  proof (intro conjI allI impI)
    show "case dict_get n ''url'' of None \<Rightarrow> True | Some u \<Rightarrow> stays_internal u"
      using valid_url [OF valid(1)] by (simp add: u)
    show "case dict_get n ''actions'' of None \<Rightarrow> True
      | Some v \<Rightarrow> \<exists>as. v = JArr as \<and> length as \<le> MAX_ACTIONS \<and> list_all action_url_safe as"
      using valid_actions [OF valid(2)] by (simp add: a)
  qed (auto intro: s)
qed

text \<open>Persistence is a root of trust for navigation: whatever payload is pushed, metadata
  included, a note that reaches the sink carries a deep link, and actions with deep links, only of the
  kind a browser resolves inside the dashboard, at most four actions, and no field that would
  mark it silenced or acknowledged or address the broadcast envelope.\<close>

theorem pushed_note_navigates_inside:
  assumes "bus_push ts chs p = Inr n"
  shows "(case dict_get n ''url'' of None \<Rightarrow> True | Some u \<Rightarrow> stays_internal u) \<and>
     (case dict_get n ''actions'' of None \<Rightarrow> True
      | Some v \<Rightarrow> \<exists>as. v = JArr as \<and> length as \<le> MAX_ACTIONS \<and> list_all action_url_safe as) \<and>
     dict_get n ''silenced'' = None \<and> dict_get n ''acked'' = None \<and>
     (\<forall>k. starts_with k ''_'' \<longrightarrow> dict_get n k = None)"
  using assms by (rule pushed_note_fields)

definition ex_payload :: notification_payload where
  "ex_payload = \<lparr>np_source = JStr ''radar'', np_channel = JStr ''radar.tickets'', np_title = JStr ''Ticket'',
     np_body = JStr [], np_priority = JNull, np_kind = JNull, np_group_key = JNull, np_actions = JNull,
     np_url = JStr ''/apps/radar'', np_icon = JNull, np_ttl = JInt 60,
     np_meta = [(''_type'', JStr ''x''), (''url'', JStr ''//evil.example''), (''job_id'', JStr ''j1'')]\<rparr>"

theorem pushed_note_navigates_inside_witness:
  "\<exists>n. bus_push ''t'' [(''radar.tickets'', ''default'')] ex_payload = Inr n \<and>
     dict_get n ''_type'' = None \<and> dict_get n ''job_id'' = Some (JStr ''j1'')"
proof -
  have v: "validate_payload ex_payload = None"
    by (simp add: validate_payload_def ex_payload_def nonempty_str_def str_longer_def ttl_error_def
        actions_error_def url_error_def internal_url_def starts_with_def MAX_TITLE_LEN_def MAX_BODY_LEN_def)
  obtain n where n: "bus_push ''t'' [(''radar.tickets'', ''default'')] ex_payload = Inr n"
    "n = merge_meta (np_meta ex_payload) (base_note ex_payload ''radar.tickets'' ''default'' ''t'' @ optional_fields ex_payload)"
    using v by (simp add: bus_push_def) (simp add: ex_payload_def)
  have "dict_get n ''job_id'' = Some (JStr ''j1'')"
    unfolding n(2) by (simp add: merge_meta_def ex_payload_def base_note_def optional_fields_def starts_with_def
        RESERVED_NOTE_KEYS_def)
  moreover have "starts_with ''_type'' ''_''" by (simp add: starts_with_def)
  then have "dict_get n ''_type'' = None" using pushed_note_navigates_inside [OF n(1)] by blast
  ultimately show ?thesis using n(1) by blast
qed

text \<open>A legacy notification without a deep link is never dropped: whatever kind, title, body
  and metadata, of any type, a legacy caller passes, and however channels were registered and
  removed before, the push delivers a note on a system channel with the caller's kind, a title
  that is not empty, and texts within the limits.\<close>

theorem legacy_never_dropped:
  assumes "kind \<noteq> []"
  shows "\<exists>n. bus_push ts (fold channel_step xs new_bus) (payload_from_legacy to_str kind title body meta JNull JNull) = Inr n \<and>
     dict_get n ''kind'' = Some (JStr kind) \<and> dict_get n ''channel'' = Some (JStr (channel_for_kind kind)) \<and>
     (\<exists>t b. dict_get n ''title'' = Some (JStr t) \<and> t \<noteq> [] \<and> length t \<le> MAX_TITLE_LEN \<and>
        dict_get n ''body'' = Some (JStr b) \<and> length b \<le> MAX_BODY_LEN)"
proof -
  let ?p = "payload_from_legacy to_str kind title body meta JNull JNull"
  have v: "validate_payload ?p = None" by (rule legacy_valid) (simp_all add: actions_error_def url_error_def)
  obtain prio where prio: "dict_get (fold channel_step xs new_bus) (channel_for_kind kind) = Some prio"
    using channel_run_system [OF channel_for_kind_system] by blast
  have c: "np_channel ?p = JStr (channel_for_kind kind)" by (simp add: payload_from_legacy_def Let_def)
  define n where "n = merge_meta (np_meta ?p) (base_note ?p (channel_for_kind kind) prio ts @ optional_fields ?p)"
  have push: "bus_push ts (fold channel_step xs new_bus) ?p = Inr n"
    using v prio c by (simp add: bus_push_def n_def)
  have base: "dict_get n k = Some x" if "dict_get (base_note ?p (channel_for_kind kind) prio ts) k = Some x" for k x
    unfolding n_def
    using that by (intro merge_meta_keeps)
      (auto simp: map_add_def optional_fields_get base_note_def split: option.split if_splits)
  have "dict_get n ''kind'' = Some (JStr kind)" "dict_get n ''channel'' = Some (JStr (channel_for_kind kind))"
    "dict_get n ''title'' = Some (np_title ?p)" "dict_get n ''body'' = Some (np_body ?p)"
    using assms by (auto intro!: base simp: base_note_def payload_from_legacy_def Let_def)
  moreover have "\<exists>t. np_title ?p = JStr t \<and> t \<noteq> [] \<and> length t \<le> MAX_TITLE_LEN"
    by (simp add: payload_from_legacy_def Let_def truncate_text_def MAX_TITLE_LEN_def)
  moreover have "\<exists>b. np_body ?p = JStr b \<and> length b \<le> MAX_BODY_LEN"
    by (simp add: payload_from_legacy_def Let_def truncate_text_def MAX_BODY_LEN_def)
  ultimately show ?thesis using push by auto
qed

theorem legacy_never_dropped_witness:
  "\<exists>n. bus_push ''t'' (fold channel_step [UnregisterChannel ''system.cron'', UnregisterApp ''system''] new_bus)
       (payload_from_legacy (\<lambda>_. []) ''cron'' JNull (JInt 3) [] JNull JNull) = Inr n \<and>
     dict_get n ''channel'' = Some (JStr ''system.cron'')"
  using legacy_never_dropped [of "''cron''" "''t''" "[UnregisterChannel ''system.cron'', UnregisterApp ''system'']" "\<lambda>_. []" JNull "JInt 3" "[]"]
  by (auto simp: channel_for_kind_def SYSTEM_CHANNELS_def)

end
