(* ===== verification/Channel_Settings.thy ===== *)
theory Channel_Settings imports Notification_Bus begin

section \<open>Per-channel settings and the push rate limit\<close>

text \<open>
  \<^verbatim>\<open>notifications/settings.py\<close>: \<open>settings\<close> is the in-memory mapping, \<open>disk\<close> the file
  (\<open>None\<close>: absent or unreadable); a write that fails raises and changes neither.
  \<^verbatim>\<open>notifications/rate_limit.py\<close>: the token bucket of one app, over exact rationals.

  The locale \<open>delivery_stage\<close> is what the delivery sink relies on when it rewrites a note on its way
  to the surfaces: only the attention fields change, and a protected channel keeps its floor.
\<close>

subsection \<open>Settings\<close>

type_synonym entry = "(string \<times> json) list"
type_synonym settings = "(string, entry) dict"

definition PROTECTED_CHANNELS :: "string list" where
  "PROTECTED_CHANNELS = [''system.approval'']"

datatype settings_error = UnknownPriority string | CannotMute string | CannotLower string | WriteFailed

definition settings_load :: "json option \<Rightarrow> settings" where
  "settings_load disk = (case disk of Some (JObj d) \<Rightarrow>
      (case dict_get d ''channel_settings'' of
         Some (JObj raw) \<Rightarrow> List.map_filter (\<lambda>(ch, e). case e of JObj x \<Rightarrow> Some (ch, x) | _ \<Rightarrow> None) raw
       | _ \<Rightarrow> [])
    | _ \<Rightarrow> [])"

definition settings_payload :: "settings \<Rightarrow> json" where
  "settings_payload s = JObj [(''channel_settings'', JObj (map (\<lambda>(ch, e). (ch, JObj e)) s))]"

definition settings_get :: "string \<Rightarrow> settings \<Rightarrow> entry" where
  "settings_get ch s = (case dict_get s ch of None \<Rightarrow> [] | Some e \<Rightarrow> e)"

definition updated_entry :: "bool option \<Rightarrow> string option \<Rightarrow> bool \<Rightarrow> entry \<Rightarrow> entry" where
  "updated_entry muted prio clear e =
     (let e = (case muted of None \<Rightarrow> e
                | Some m \<Rightarrow> if m then dict_set ''muted'' (JBool True) e else dict_pop ''muted'' e)
      in if clear then dict_pop ''priority'' e
         else (case prio of None \<Rightarrow> e | Some p \<Rightarrow> dict_set ''priority'' (JStr p) e))"

definition settings_update :: "bool \<Rightarrow> string \<Rightarrow> bool option \<Rightarrow> string option \<Rightarrow> bool \<Rightarrow> settings \<times> json option
    \<Rightarrow> (settings_error + entry) \<times> settings \<times> json option" where
  "settings_update ok ch muted prio clear st =
     (case st of (s, disk) \<Rightarrow>
       if (case prio of Some p \<Rightarrow> p \<notin> set PRIORITIES | None \<Rightarrow> False) then (Inl (UnknownPriority (the prio)), s, disk)
       else if ch \<in> set PROTECTED_CHANNELS \<and> muted = Some True then (Inl (CannotMute ch), s, disk)
       else if ch \<in> set PROTECTED_CHANNELS \<and> prio \<noteq> None \<and> prio \<noteq> Some ''critical''
       then (Inl (CannotLower ch), s, disk)
       else (let e = updated_entry muted prio clear (settings_get ch s);
                 candidate = (if e \<noteq> [] then dict_set ch e s else dict_pop ch s)
             in if ok then (Inr e, candidate, Some (settings_payload candidate))
                else (Inl WriteFailed, s, disk)))"

text \<open>\<^verbatim>\<open>apply\<close>: a channel that is a list or a dict cannot be looked up (\<open>None\<close>, a
  \<^verbatim>\<open>TypeError\<close>).\<close>

definition settings_apply :: "settings \<Rightarrow> bus_note \<Rightarrow> bus_note option" where
  "settings_apply s n = (case dict_get n ''channel'' of
      None \<Rightarrow> Some n
    | Some ch \<Rightarrow> if \<not> jtruthy ch then Some n else
       (case ch of
          JArr _ \<Rightarrow> None
        | JObj _ \<Rightarrow> None
        | JStr c \<Rightarrow>
           (let e = settings_get c s in
            if e = [] then Some n
            else (let override = (case dict_get e ''priority'' of None \<Rightarrow> JNull | Some p \<Rightarrow> p);
                      n = (if known_priority override \<and> \<not> (c \<in> set PROTECTED_CHANNELS \<and> override \<noteq> JStr ''critical'')
                           then dict_set ''priority'' override n else n);
                      muted = (case dict_get e ''muted'' of None \<Rightarrow> False | Some m \<Rightarrow> jtruthy m)
                  in Some (if muted \<and> c \<notin> set PROTECTED_CHANNELS
                           then dict_set ''priority'' (JStr ''passive'') (dict_set ''silenced'' (JBool True) n)
                           else n)))
        | _ \<Rightarrow> Some n))"


lemma settings_load_payload: "settings_load (Some (settings_payload s)) = s"
proof -
  have "List.map_filter (\<lambda>(ch, e). case e of JObj x \<Rightarrow> Some (ch, x) | _ \<Rightarrow> None) (map (\<lambda>(ch, e). (ch, JObj e)) s) = s"
    by (induction s) (auto simp: List.map_filter_simps)
  then show ?thesis by (simp add: settings_load_def settings_payload_def)
qed

text \<open>A request to change a channel's settings, and whether its write succeeds.\<close>

record settings_request =
  rq_ok :: bool
  rq_channel :: string
  rq_muted :: "bool option"
  rq_priority :: "string option"
  rq_clear :: bool

definition settings_step :: "settings_request \<Rightarrow> settings \<times> json option \<Rightarrow> settings \<times> json option" where
  "settings_step r st = snd (settings_update (rq_ok r) (rq_channel r) (rq_muted r) (rq_priority r) (rq_clear r) st)"

lemma settings_step_agree:
  "fst st = settings_load (snd st) \<Longrightarrow> fst (settings_step r st) = settings_load (snd (settings_step r st))"
  by (cases st) (auto simp: settings_step_def settings_update_def Let_def settings_load_payload)

text \<open>Settings that only ever went through \<^verbatim>\<open>update\<close>.\<close>

definition protected_ok :: "settings \<Rightarrow> bool" where
  "protected_ok s \<longleftrightarrow> (\<forall>c \<in> set PROTECTED_CHANNELS. dict_get (settings_get c s) ''muted'' = None \<and>
     (\<forall>p. dict_get (settings_get c s) ''priority'' = Some p \<longrightarrow> p = JStr ''critical''))"

subsection \<open>A stage of the delivery\<close>

locale delivery_stage =
  fixes stage :: "bus_note \<Rightarrow> bus_note option"
    and protects :: "string \<Rightarrow> bool"
  assumes keeps: "stage n = Some n' \<Longrightarrow> k \<noteq> ''priority'' \<Longrightarrow> k \<noteq> ''silenced'' \<Longrightarrow> dict_get n' k = dict_get n k"
    and total: "dict_get n ''channel'' = Some (JStr c) \<Longrightarrow> \<exists>n'. stage n = Some n'"
    and floor: "stage n = Some n' \<Longrightarrow> dict_get n ''channel'' = Some (JStr c) \<Longrightarrow> protects c \<Longrightarrow>
        dict_get n' ''silenced'' = dict_get n ''silenced'' \<and>
        (dict_get n' ''priority'' = dict_get n ''priority'' \<or> dict_get n' ''priority'' = Some (JStr ''critical''))"
begin

lemma pushed_delivered:
  assumes "bus_push ts chs p = Inr n"
  shows "\<exists>n'. stage n = Some n' \<and>
     (case dict_get n' ''url'' of None \<Rightarrow> True | Some u \<Rightarrow> stays_internal u) \<and>
     (\<forall>c. np_channel p = JStr c \<longrightarrow> protects c \<longrightarrow> dict_get n' ''silenced'' = None \<and>
        (dict_get n' ''priority'' = dict_get n ''priority'' \<or> dict_get n' ''priority'' = Some (JStr ''critical'')))"
proof -
  obtain chan prio where c: "np_channel p = JStr chan"
      "n = merge_meta (np_meta p) (base_note p chan prio ts @ optional_fields p)"
    using assms by (rule bus_push_Inr)
  have "dict_get (base_note p chan prio ts @ optional_fields p) ''channel'' = Some (JStr chan)"
    by (simp add: map_add_def optional_fields_get base_note_def c(1))
  then have ch: "dict_get n ''channel'' = Some (JStr chan)" unfolding c(2) by (rule merge_meta_keeps)
  obtain n' where n': "stage n = Some n'" using total [OF ch] by blast
  note nav = pushed_note_fields [OF assms]
  have "dict_get n' ''url'' = dict_get n ''url''" using keeps [OF n', of "''url''"] by simp
  with nav n' ch c(1) floor [OF n' ch] show ?thesis by auto
qed

end

lemma settings_apply_str:
  assumes "dict_get n ''channel'' = Some (JStr c)"
  shows "\<exists>n'. settings_apply s n = Some n' \<and> n' \<in> {n,
      dict_set ''priority'' (case dict_get (settings_get c s) ''priority'' of None \<Rightarrow> JNull | Some p \<Rightarrow> p) n,
      dict_set ''priority'' (JStr ''passive'') (dict_set ''silenced'' (JBool True) n),
      dict_set ''priority'' (JStr ''passive'') (dict_set ''silenced'' (JBool True)
        (dict_set ''priority'' (case dict_get (settings_get c s) ''priority'' of None \<Rightarrow> JNull | Some p \<Rightarrow> p) n))} \<and>
     (c \<in> set PROTECTED_CHANNELS \<longrightarrow> n' = n \<or> n' = dict_set ''priority'' (JStr ''critical'') n)"
  using assms by (auto simp: settings_apply_def Let_def)

interpretation user_settings: delivery_stage "settings_apply s" "\<lambda>c. c \<in> set PROTECTED_CHANNELS" for s
proof (unfold_locales, goal_cases)
  case (1 n n' k)
  show ?case
  proof (cases "\<exists>c. dict_get n ''channel'' = Some (JStr c)")
    case True
    then obtain c where "dict_get n ''channel'' = Some (JStr c)" by blast
    from settings_apply_str [OF this, of s] 1 show ?thesis by (auto simp: dict_simps)
  next
    case False
    then have "n' = n" using 1(1) by (auto simp: settings_apply_def split: option.splits json.splits if_splits)
    then show ?thesis by simp
  qed
next
  case (2 n c)
  from settings_apply_str [OF 2, of s] show ?case by blast
next
  case (3 n n' c)
  have "n' = n \<or> n' = dict_set ''priority'' (JStr ''critical'') n"
    using settings_apply_str [OF 3(2), of s] 3(1,3) by fastforce
  then show ?case by (auto simp: dict_simps)
qed

subsection \<open>The rate limit\<close>

definition RATE_LIMIT_TOKENS_PER_WINDOW :: secs where "RATE_LIMIT_TOKENS_PER_WINDOW = 30"
definition RATE_LIMIT_WINDOW_SECS :: secs where "RATE_LIMIT_WINDOW_SECS = 300"
definition RATE_LIMIT_BURST :: secs where "RATE_LIMIT_BURST = 10"
definition REFILL_RATE :: secs where "REFILL_RATE = RATE_LIMIT_TOKENS_PER_WINDOW / RATE_LIMIT_WINDOW_SECS"

record bucket =
  bk_tokens :: secs
  bk_last_refill :: secs

type_synonym limiter = "(string, bucket) dict"

definition limiter_allow :: "string \<Rightarrow> secs \<Rightarrow> limiter \<Rightarrow> bool \<times> limiter" where
  "limiter_allow app now l =
     (let b = (case dict_get l app of None \<Rightarrow> \<lparr>bk_tokens = RATE_LIMIT_BURST, bk_last_refill = now\<rparr> | Some b \<Rightarrow> b);
          tokens = min RATE_LIMIT_BURST (bk_tokens b + (now - bk_last_refill b) * REFILL_RATE)
      in if 1 \<le> tokens then (True, dict_set app \<lparr>bk_tokens = tokens - 1, bk_last_refill = now\<rparr> l)
         else (False, dict_set app \<lparr>bk_tokens = tokens, bk_last_refill = now\<rparr> l))"

definition limiter_refund :: "string \<Rightarrow> limiter \<Rightarrow> limiter" where
  "limiter_refund app l = (case dict_get l app of None \<Rightarrow> l
     | Some b \<Rightarrow> dict_set app (b\<lparr>bk_tokens := min RATE_LIMIT_BURST (bk_tokens b + 1)\<rparr>) l)"

datatype limiter_op = PushAt string secs | RefundFor string

fun granted :: "string \<Rightarrow> limiter_op list \<Rightarrow> limiter \<Rightarrow> nat" where
  "granted app [] l = 0"
| "granted app (PushAt a t # ops) l =
     (if a = app \<and> fst (limiter_allow a t l) then 1 else 0) + granted app ops (snd (limiter_allow a t l))"
| "granted app (RefundFor a # ops) l = granted app ops (limiter_refund a l)"

fun push_times :: "string \<Rightarrow> limiter_op list \<Rightarrow> secs list" where
  "push_times app [] = []"
| "push_times app (PushAt a t # ops) = (if a = app then t # push_times app ops else push_times app ops)"
| "push_times app (RefundFor a # ops) = push_times app ops"

definition refunds :: "string \<Rightarrow> limiter_op list \<Rightarrow> nat" where
  "refunds app ops = length (filter (\<lambda>x. x = RefundFor app) ops)"

lemma refill_rate [simp]: "REFILL_RATE = 1 / 10"
  by (simp add: REFILL_RATE_def RATE_LIMIT_TOKENS_PER_WINDOW_def RATE_LIMIT_WINDOW_SECS_def)

lemma limiter_other [simp]:
  "a \<noteq> app \<Longrightarrow> dict_get (snd (limiter_allow a t l)) app = dict_get l app"
  "a \<noteq> app \<Longrightarrow> dict_get (limiter_refund a l) app = dict_get l app"
  by (auto simp: limiter_allow_def limiter_refund_def Let_def dict_simps split: option.split)

definition refilled :: "bucket \<Rightarrow> secs \<Rightarrow> secs" where
  "refilled b t = min RATE_LIMIT_BURST (bk_tokens b + (t - bk_last_refill b) * REFILL_RATE)"

lemma limiter_allow_bucket:
  assumes "dict_get l app = Some b"
  shows "fst (limiter_allow app t l) = (1 \<le> refilled b t)"
    and "dict_get (snd (limiter_allow app t l)) app =
       Some \<lparr>bk_tokens = (if 1 \<le> refilled b t then refilled b t - 1 else refilled b t), bk_last_refill = t\<rparr>"
  using assms by (simp_all add: limiter_allow_def Let_def refilled_def dict_simps)

lemma granted_bucket:
  assumes "dict_get l app = Some b" "sorted (bk_last_refill b # push_times app ops)" "0 \<le> bk_tokens b"
  shows "of_nat (granted app ops l) \<le>
    bk_tokens b + (last (bk_last_refill b # push_times app ops) - bk_last_refill b) * REFILL_RATE + of_nat (refunds app ops)"
  using assms
proof (induction ops arbitrary: l b)
  case Nil
  then show ?case by (simp add: refunds_def)
next
  case (Cons x ops)
  show ?case
  proof (cases x)
    case (PushAt a t)
    show ?thesis
    proof (cases "a = app")
      case True
      define b' where "b' = \<lparr>bk_tokens = (if 1 \<le> refilled b t then refilled b t - 1 else refilled b t), bk_last_refill = t\<rparr>"
      have b': "dict_get (snd (limiter_allow app t l)) app = Some b'"
        unfolding b'_def by (rule limiter_allow_bucket(2) [OF Cons.prems(1)])
      have t: "bk_last_refill b \<le> t" using Cons.prems(2) by (simp add: PushAt True)
      then have "0 \<le> refilled b t" using Cons.prems(3) by (simp add: refilled_def RATE_LIMIT_BURST_def)
      then have nn: "0 \<le> bk_tokens b'" by (simp add: b'_def)
      have so: "sorted (bk_last_refill b' # push_times app ops)"
        using Cons.prems(2) by (simp add: PushAt True b'_def)
      have "of_nat (granted app ops (snd (limiter_allow app t l))) \<le>
          bk_tokens b' + (last (t # push_times app ops) - t) * REFILL_RATE + of_nat (refunds app ops)"
        using Cons.IH [OF b' so nn] by (simp add: b'_def)
      moreover have "of_nat (granted app (x # ops) l) =
          refilled b t - bk_tokens b' + of_nat (granted app ops (snd (limiter_allow app t l)))"
        by (simp add: PushAt True limiter_allow_bucket(1) [OF Cons.prems(1)] b'_def)
      moreover have "refilled b t \<le> bk_tokens b + (t - bk_last_refill b) * REFILL_RATE" by (simp add: refilled_def)
      moreover have "(of_nat (refunds app (x # ops)) :: rat) = of_nat (refunds app ops)" by (simp add: PushAt refunds_def)
      moreover have "last (bk_last_refill b # push_times app (x # ops)) = last (t # push_times app ops)"
        by (simp add: PushAt True)
      ultimately show ?thesis unfolding refill_rate by (simp only: left_diff_distrib)
    next
      case False
      then show ?thesis using Cons by (simp add: PushAt refunds_def)
    qed
  next
    case (RefundFor a)
    show ?thesis
    proof (cases "a = app")
      case True
      define b' where "b' = b\<lparr>bk_tokens := min RATE_LIMIT_BURST (bk_tokens b + 1)\<rparr>"
      have b': "dict_get (limiter_refund app l) app = Some b'"
        using Cons.prems(1) by (simp add: limiter_refund_def b'_def dict_simps)
      have "0 \<le> bk_tokens b'" "bk_tokens b' \<le> bk_tokens b + 1" "bk_last_refill b' = bk_last_refill b"
        using Cons.prems(3) by (simp_all add: b'_def RATE_LIMIT_BURST_def)
      with Cons.IH [OF b'] Cons.prems(2) show ?thesis by (simp add: RefundFor True refunds_def)
    next
      case False
      then show ?thesis using Cons by (simp add: RefundFor refunds_def)
    qed
  qed
qed

lemma granted_fresh:
  assumes "dict_get l app = None" "sorted (push_times app ops)" "push_times app ops \<noteq> []"
  shows "of_nat (granted app ops l) \<le>
    RATE_LIMIT_BURST + (last (push_times app ops) - hd (push_times app ops)) * REFILL_RATE + of_nat (refunds app ops)"
  using assms
proof (induction ops arbitrary: l)
  case (Cons x ops)
  show ?case
  proof (cases x)
    case (PushAt a t)
    show ?thesis
    proof (cases "a = app")
      case True
      have 1: "fst (limiter_allow app t l)"
        using Cons.prems(1) by (simp add: limiter_allow_def Let_def RATE_LIMIT_BURST_def)
      have b: "dict_get (snd (limiter_allow app t l)) app = Some \<lparr>bk_tokens = RATE_LIMIT_BURST - 1, bk_last_refill = t\<rparr>"
        using Cons.prems(1) by (simp add: limiter_allow_def Let_def RATE_LIMIT_BURST_def dict_simps)
      have "sorted (t # push_times app ops)" using Cons.prems(2) by (simp add: PushAt True)
      then show ?thesis
        using granted_bucket [OF b, of ops] 1 by (simp add: PushAt True refunds_def RATE_LIMIT_BURST_def)
    next
      case False
      then show ?thesis using Cons by (simp add: PushAt refunds_def)
    qed
  next
    case (RefundFor a)
    have "dict_get (limiter_refund a l) app = None"
      using Cons.prems(1) by (auto simp: limiter_refund_def dict_simps split: option.split)
    moreover have "sorted (push_times app ops)" "push_times app ops \<noteq> []"
      using Cons.prems(2,3) by (simp_all add: RefundFor)
    ultimately have "of_nat (granted app ops (limiter_refund a l)) \<le>
        RATE_LIMIT_BURST + (last (push_times app ops) - hd (push_times app ops)) * REFILL_RATE + of_nat (refunds app ops)"
      by (rule Cons.IH)
    moreover have "(of_nat (refunds app ops) :: rat) \<le> of_nat (refunds app (RefundFor a # ops))"
      by (simp add: refunds_def)
    ultimately show ?thesis by (simp only: RefundFor granted.simps push_times.simps)
  qed
qed simp

subsection \<open>Properties\<close>

text \<open>Runtime and disk never disagree: after any requests to change settings, accepted or
  refused, their writes failing or not, the settings in force are exactly what a restart would
  load, and a refused request changed neither.\<close>

theorem settings_agree_with_disk:
  assumes "st = (settings_load disk, disk)"
  shows "fst (fold settings_step rs st) = settings_load (snd (fold settings_step rs st)) \<and>
    (\<forall>e. fst (settings_update good ch muted prio clr (fold settings_step rs st)) = Inl e \<longrightarrow>
       snd (settings_update good ch muted prio clr (fold settings_step rs st)) = fold settings_step rs st)"
proof -
  have "fst t = settings_load (snd t) \<Longrightarrow> fst (fold settings_step rs t) = settings_load (snd (fold settings_step rs t))" for t
    by (induction rs arbitrary: t) (auto simp: settings_step_agree)
  moreover have "snd (settings_update good ch muted prio clr t) = t"
    if "fst (settings_update good ch muted prio clr t) = Inl e" for t e
    using that by (cases t) (auto simp: settings_update_def Let_def split: if_splits)
  ultimately show ?thesis using assms by simp
qed

theorem settings_agree_with_disk_witness:
  "let st = fold settings_step [\<lparr>rq_ok = True, rq_channel = ''system.cron'', rq_muted = Some True, rq_priority = None, rq_clear = False\<rparr>,
        \<lparr>rq_ok = False, rq_channel = ''system.hook'', rq_muted = Some True, rq_priority = None, rq_clear = False\<rparr>] ([], None)
   in fst st = settings_load (snd st) \<and> dict_get (fst st) ''system.cron'' = Some [(''muted'', JBool True)] \<and>
      dict_get (fst st) ''system.hook'' = None"
  using settings_agree_with_disk [of "([], None)" None
      "[\<lparr>rq_ok = True, rq_channel = ''system.cron'', rq_muted = Some True, rq_priority = None, rq_clear = False\<rparr>,
        \<lparr>rq_ok = False, rq_channel = ''system.hook'', rq_muted = Some True, rq_priority = None, rq_clear = False\<rparr>]"]
  by (simp add: Let_def settings_load_def [of None])
     (simp add: settings_step_def settings_update_def updated_entry_def settings_get_def PROTECTED_CHANNELS_def Let_def)

text \<open>Approval prompts always interrupt: whatever the settings file holds, hand-edited
  rows included, a pushed note leaves the settings stage with its deep link still internal, and one
  on the approval channel is not silenced and keeps its priority or is raised to critical.\<close>

theorem approval_keeps_floor:
  assumes "bus_push ts chs p = Inr n"
  shows "\<exists>n'. settings_apply s n = Some n' \<and>
     (case dict_get n' ''url'' of None \<Rightarrow> True | Some u \<Rightarrow> stays_internal u) \<and>
     (np_channel p = JStr ''system.approval'' \<longrightarrow> dict_get n' ''silenced'' = None \<and>
        (dict_get n' ''priority'' = dict_get n ''priority'' \<or> dict_get n' ''priority'' = Some (JStr ''critical'')))"
  using user_settings.pushed_delivered [OF assms, of s] by (auto simp: PROTECTED_CHANNELS_def)

theorem approval_keeps_floor_witness:
  "\<exists>n n'. bus_push ''t'' new_bus (payload_from_legacy (\<lambda>_. []) ''approval'' (JStr ''run?'') (JStr []) [] JNull JNull) = Inr n \<and>
     settings_apply [(''system.approval'', [(''muted'', JBool True), (''priority'', JStr ''passive'')])] n = Some n' \<and>
     dict_get n' ''silenced'' = None"
proof -
  let ?p = "payload_from_legacy (\<lambda>_. []) ''approval'' (JStr ''run?'') (JStr []) [] JNull JNull"
  have c: "np_channel ?p = JStr ''system.approval''"
    by (simp add: payload_from_legacy_def Let_def channel_for_kind_def SYSTEM_CHANNELS_def)
  have "validate_payload ?p = None" by (rule legacy_valid) (simp_all add: actions_error_def url_error_def)
  then obtain n where "bus_push ''t'' new_bus ?p = Inr n"
    by (simp add: bus_push_def c new_bus_def SYSTEM_CHANNELS_def)
  from approval_keeps_floor [OF this] this c show ?thesis by blast
qed

text \<open>The rate limit: over any interleaving of the pushes and refunds of all apps, an app
  that starts without a bucket is granted at most the burst, plus the sustained rate times the
  time between its first and last push, plus one for each of its refunds.\<close>

theorem rate_limit_bound:
  assumes "dict_get l app = None" "sorted (push_times app ops)" "push_times app ops \<noteq> []"
  shows "of_nat (granted app ops l) \<le>
    RATE_LIMIT_BURST + (last (push_times app ops) - hd (push_times app ops)) * REFILL_RATE + of_nat (refunds app ops)"
  using assms by (rule granted_fresh)

theorem rate_limit_bound_witness:
  "of_nat (granted ''a'' [PushAt ''a'' 0, PushAt ''b'' 5, PushAt ''a'' 10, RefundFor ''a''] []) \<le> (12 :: rat)"
  using rate_limit_bound [of "[]" "''a''" "[PushAt ''a'' 0, PushAt ''b'' 5, PushAt ''a'' 10, RefundFor ''a'']"]
  by (simp add: RATE_LIMIT_BURST_def refunds_def)

end
