(* ===== verification/Model_Router.thy ===== *)
theory Model_Router imports Json_Value begin

section \<open>Role-based model routing (\<^verbatim>\<open>model_router/routing.py\<close>, \<^verbatim>\<open>catalog.py\<close>)\<close>

text \<open>
  The catalog is what \<^verbatim>\<open>catalog.json\<close> parses to (\<open>None\<close>: unreadable); \<open>load_catalog\<close>
  builds the model rows, \<open>None\<close> being an exception. \<open>classify_cost\<close> reads a cost class off a
  slug, \<open>build_plan\<close> assigns every role its wire id. The operator's pins are a dictionary of texts, the
  advertised ids whatever sequence of values the client reported. \<^verbatim>\<open>str()\<close> of a value that is no
  string is the parameter \<open>to_str\<close>.
\<close>

subsection \<open>Constants\<close>

datatype role = ORCHESTRATION | PLANNING | EXECUTION | BACKGROUND | SUBAGENT
datatype cost_class = COST_ECONOMY | COST_STANDARD | COST_CAPABLE

fun role_key :: "role \<Rightarrow> string" where
  "role_key ORCHESTRATION = ''orchestration''"
| "role_key PLANNING = ''planning''"
| "role_key EXECUTION = ''execution''"
| "role_key BACKGROUND = ''background''"
| "role_key SUBAGENT = ''subagent''"

definition ROUTE_ROLES :: "role list" where
  "ROUTE_ROLES = [ORCHESTRATION, PLANNING, EXECUTION, BACKGROUND, SUBAGENT]"

fun ROLE_COST_CLASS :: "role \<Rightarrow> cost_class" where
  "ROLE_COST_CLASS ORCHESTRATION = COST_ECONOMY"
| "ROLE_COST_CLASS PLANNING = COST_CAPABLE"
| "ROLE_COST_CLASS EXECUTION = COST_STANDARD"
| "ROLE_COST_CLASS BACKGROUND = COST_ECONOMY"
| "ROLE_COST_CLASS SUBAGENT = COST_STANDARD"

definition ROLE_DAG_EDGES :: "(role \<times> role) list" where
  "ROLE_DAG_EDGES = [(ORCHESTRATION, PLANNING), (PLANNING, EXECUTION), (EXECUTION, SUBAGENT)]"

fun CLASS_RANK :: "cost_class \<Rightarrow> nat" where
  "CLASS_RANK COST_ECONOMY = 0"
| "CLASS_RANK COST_STANDARD = 1"
| "CLASS_RANK COST_CAPABLE = 2"

definition DEFAULT_MODEL :: string where "DEFAULT_MODEL = ''auto''"
definition CHEAP_SIZE_TOKENS :: "string list" where
  "CHEAP_SIZE_TOKENS = [''flash'', ''haiku'', ''highspeed'', ''free'', ''tiny'', ''lite'', ''nano'']"
definition ECONOMY_TURBO :: string where "ECONOMY_TURBO = ''turbo''"
definition CAPABLE_TOKENS :: "string list" where
  "CAPABLE_TOKENS = [''opus'', ''pro'', ''max'', ''ultra'', ''fable'', ''k3'', ''sol'', ''terra'']"
definition CAPABLE_LEAVES :: "string list" where
  "CAPABLE_LEAVES = [''grok-4.5'', ''grok-4.6'', ''kimi-k3'', ''k3'']"
definition CAPABLE_FAMILIES :: "string list" where
  "CAPABLE_FAMILIES = [''gpt-5'', ''glm-5'', ''grok-4'', ''kimi-k3'', ''claude-opus'']"

instantiation cost_class :: linorder
begin

definition less_eq_cost_class :: "cost_class \<Rightarrow> cost_class \<Rightarrow> bool" where
  "a \<le> b \<longleftrightarrow> CLASS_RANK a \<le> CLASS_RANK b"

definition less_cost_class :: "cost_class \<Rightarrow> cost_class \<Rightarrow> bool" where
  "a < b \<longleftrightarrow> CLASS_RANK a < CLASS_RANK b"

instance
proof
  fix a b :: cost_class
  show "a \<le> b \<Longrightarrow> b \<le> a \<Longrightarrow> a = b"
    by (cases a; cases b) (simp_all add: less_eq_cost_class_def)
qed (auto simp: less_eq_cost_class_def less_cost_class_def)

end

subsection \<open>The catalog\<close>

record catalog_model =
  cm_slug :: string
  cm_display_name :: string
  cm_provider :: string
  cm_listed :: bool
  cm_context_window :: "json"
  cm_input_modalities :: "string list"
  cm_default_effort :: string
  cm_priority :: int

record catalog_provider =
  pv_id :: string
  pv_display_name :: string
  pv_auth_kind :: string
  pv_catalog_kind :: string
  pv_owned_by :: string

record model_catalog =
  mc_version :: int
  mc_source :: string
  mc_providers :: "catalog_provider list"
  mc_models :: "catalog_model list"

definition CATALOG_VERSION :: int where "CATALOG_VERSION = 1"
definition SOURCE_PROJECT :: string where "SOURCE_PROJECT = ''duolahypercho/codex-router''"

definition empty_catalog :: model_catalog where
  "empty_catalog = \<lparr>mc_version = CATALOG_VERSION, mc_source = SOURCE_PROJECT, mc_providers = [], mc_models = []\<rparr>"

text \<open>\<^verbatim>\<open>str(row.get(k) or dflt)\<close>.\<close>

definition text_or :: "(json \<Rightarrow> string) \<Rightarrow> (string \<times> json) list \<Rightarrow> string \<Rightarrow> string \<Rightarrow> string" where
  "text_or to_str d k dflt = (case dict_get d k of None \<Rightarrow> dflt
     | Some v \<Rightarrow> if jtruthy v then (case v of JStr s \<Rightarrow> s | _ \<Rightarrow> to_str v) else dflt)"

text \<open>A bool is an int to Python.\<close>

definition int_value :: "json option \<Rightarrow> int option" where
  "int_value v = (case v of Some (JInt n) \<Rightarrow> Some n | Some (JBool b) \<Rightarrow> Some (if b then 1 else 0) | _ \<Rightarrow> None)"

definition load_model_row :: "(json \<Rightarrow> string) \<Rightarrow> json \<Rightarrow> catalog_model option" where
  "load_model_row to_str row = (case row of JObj d \<Rightarrow>
     (case dict_get d ''slug'' of Some (JStr slug) \<Rightarrow>
        Some \<lparr>cm_slug = slug, cm_display_name = text_or to_str d ''display_name'' slug,
              cm_provider = text_or to_str d ''provider'' (before_first (CHR ''/'') slug),
              cm_listed = (case dict_get d ''listed'' of None \<Rightarrow> True | Some v \<Rightarrow> jtruthy v),
              cm_context_window = (if int_value (dict_get d ''context_window'') = None then JNull
                                   else the (dict_get d ''context_window'')),
              cm_input_modalities = (case dict_get d ''input_modalities'' of
                  Some (JArr ms) \<Rightarrow> List.map_filter (\<lambda>m. case m of JStr s \<Rightarrow> Some s | _ \<Rightarrow> None) ms | _ \<Rightarrow> []),
              cm_default_effort = text_or to_str d ''default_effort'' [],
              cm_priority = (case int_value (dict_get d ''priority'') of None \<Rightarrow> 0 | Some n \<Rightarrow> n)\<rparr>
      | _ \<Rightarrow> None)
   | _ \<Rightarrow> None)"

definition load_provider_row :: "(json \<Rightarrow> string) \<Rightarrow> json \<Rightarrow> catalog_provider option" where
  "load_provider_row to_str row = (case row of JObj d \<Rightarrow>
     (case dict_get d ''id'' of Some (JStr i) \<Rightarrow>
        Some \<lparr>pv_id = i, pv_display_name = text_or to_str d ''display_name'' i,
              pv_auth_kind = text_or to_str d ''auth_kind'' ''api_key'',
              pv_catalog_kind = text_or to_str d ''catalog_kind'' ''static'',
              pv_owned_by = text_or to_str d ''owned_by'' []\<rparr>
      | _ \<Rightarrow> None)
   | _ \<Rightarrow> None)"

text \<open>\<^verbatim>\<open>for row in raw.get(k) or []\<close>: a dict and a text are iterated by their keys and characters,
  none of which is a row; a true number or a true bool raises.\<close>

definition catalog_rows :: "(string \<times> json) list \<Rightarrow> string \<Rightarrow> json list option" where
  "catalog_rows d k = (case dict_get d k of None \<Rightarrow> Some []
     | Some v \<Rightarrow> if \<not> jtruthy v then Some []
       else (case v of JArr rows \<Rightarrow> Some rows | JObj o1 \<Rightarrow> Some (map (JStr \<circ> fst) o1)
             | JStr s \<Rightarrow> Some (map (\<lambda>c. JStr [c]) s) | _ \<Rightarrow> None))"

definition load_catalog :: "(json \<Rightarrow> string) \<Rightarrow> json option \<Rightarrow> model_catalog option" where
  "load_catalog to_str raw = (case raw of Some (JObj d) \<Rightarrow>
      (case (catalog_rows d ''providers'', catalog_rows d ''models'') of
         (Some ps, Some ms) \<Rightarrow>
           Some \<lparr>mc_version = (case int_value (dict_get d ''version'') of None \<Rightarrow> CATALOG_VERSION | Some n \<Rightarrow> n),
                 mc_source = text_or to_str d ''source'' SOURCE_PROJECT,
                 mc_providers = List.map_filter (load_provider_row to_str) ps,
                 mc_models = List.map_filter (load_model_row to_str) ms\<rparr>
       | _ \<Rightarrow> None)
    | _ \<Rightarrow> Some empty_catalog)"

definition is_catalog_slug :: "model_catalog \<Rightarrow> string \<Rightarrow> bool" where
  "is_catalog_slug cat v = (let needle = py_strip v in
     needle \<noteq> [] \<and> list_ex (\<lambda>m. cm_slug m = needle) (mc_models cat))"

definition catalog_slugs :: "model_catalog \<Rightarrow> string set" where
  "catalog_slugs cat = set (map cm_slug (mc_models cat))"

subsection \<open>Cost classes\<close>

definition is_slug_char :: "char \<Rightarrow> bool" where
  "is_slug_char c = (let n = (of_char c :: nat) in (97 \<le> n \<and> n \<le> 122) \<or> (48 \<le> n \<and> n \<le> 57))"

definition family_is_capable :: "string \<Rightarrow> string \<Rightarrow> bool" where
  "family_is_capable raw leaf = list_ex (\<lambda>f. starts_with leaf f \<or> starts_with raw f) CAPABLE_FAMILIES"

definition classify_cost :: "string \<Rightarrow> cost_class" where
  "classify_cost model_id =
     (let raw = py_lower (py_strip model_id) in
      if raw = [] then COST_STANDARD
      else let leaf = after_last (CHR ''/'') raw;
               tokens = tokens_by (\<lambda>c. \<not> is_slug_char c) [] leaf
           in if list_ex (\<lambda>t. t \<in> set CHEAP_SIZE_TOKENS) tokens \<or> ends_with leaf ''-free'' \<or> ends_with leaf '':free''
              then COST_ECONOMY
              else if leaf \<in> set CAPABLE_LEAVES \<or> raw \<in> set CAPABLE_LEAVES \<or> family_is_capable raw leaf
              then COST_CAPABLE
              else if list_ex (\<lambda>t. t \<in> set CAPABLE_TOKENS) tokens then COST_CAPABLE
              else if ECONOMY_TURBO \<in> set tokens then COST_ECONOMY
              else COST_STANDARD)"

subsection \<open>The plan\<close>

record role_assignment =
  ra_role :: role
  ra_cost_class :: cost_class
  ra_pin :: string
  ra_wire_id :: string
  ra_suggestion :: string
  ra_reason :: string

record routing_plan =
  rp_roles :: "role_assignment list"
  rp_edges :: "(role \<times> role) list"

fun clean_from :: "json list \<Rightarrow> string list \<Rightarrow> string list" where
  "clean_from [] out = out"
| "clean_from (JStr item # items) out =
     (let v = py_strip item in
      if v = [] \<or> v = DEFAULT_MODEL \<or> v \<in> set out then clean_from items out else clean_from items (out @ [v]))"
| "clean_from (_ # items) out = clean_from items out"

definition clean_ids :: "json list option \<Rightarrow> string list" where
  "clean_ids raw = (case raw of None \<Rightarrow> [] | Some items \<Rightarrow> clean_from items [])"

definition pick_advertised :: "cost_class \<Rightarrow> string list \<Rightarrow> string" where
  "pick_advertised cost ids =
     (let matched = filter (\<lambda>i. classify_cost i = cost) ids in
      if matched \<noteq> [] then hd (sort matched)
      else if cost = COST_ECONOMY then
        (let ranked = sort_key (\<lambda>i. (CLASS_RANK (classify_cost i), i)) ids in
         if ranked \<noteq> [] then hd ranked else DEFAULT_MODEL)
      else DEFAULT_MODEL)"

definition suggest_catalog_slug :: "cost_class \<Rightarrow> catalog_model list \<Rightarrow> string" where
  "suggest_catalog_slug cost rows =
     (let matched = filter (\<lambda>r. classify_cost (cm_slug r) = cost) rows in
      if matched = [] then [] else cm_slug (hd (sort_key (\<lambda>r. (- cm_priority r, cm_slug r)) matched)))"

definition pin_of :: "(string, string) dict option \<Rightarrow> role \<Rightarrow> string" where
  "pin_of pins role = (case pins of None \<Rightarrow> []
     | Some d \<Rightarrow> py_strip (case dict_get d (role_key role) of None \<Rightarrow> [] | Some p \<Rightarrow> p))"

definition assign_role :: "catalog_model list \<Rightarrow> (string, string) dict option \<Rightarrow> string list \<Rightarrow> role \<Rightarrow> role_assignment" where
  "assign_role listed pins ids role =
     (let cost = ROLE_COST_CLASS role; pin = pin_of pins role;
          (wire, reason) =
            (if pin \<noteq> [] then (pin, ''operator pin'')
             else if ids \<noteq> [] then
               (let w = pick_advertised cost ids in
                (w, if w \<noteq> DEFAULT_MODEL \<and> classify_cost w = cost then ''advertised cost-class match''
                    else if w \<noteq> DEFAULT_MODEL then ''advertised cheapest fallback''
                    else ''no advertised id in cost class; inherit''))
             else (DEFAULT_MODEL, ''no advertised set; inherit session default''))
      in \<lparr>ra_role = role, ra_cost_class = cost, ra_pin = pin,
          ra_wire_id = (if wire \<noteq> [] then wire else DEFAULT_MODEL),
          ra_suggestion = suggest_catalog_slug cost listed, ra_reason = reason\<rparr>)"

definition build_plan :: "model_catalog \<Rightarrow> (string, string) dict option \<Rightarrow> json list option \<Rightarrow> routing_plan" where
  "build_plan cat pins advertised =
     \<lparr>rp_roles = map (assign_role (filter cm_listed (mc_models cat)) pins (clean_ids advertised)) ROUTE_ROLES,
      rp_edges = ROLE_DAG_EDGES\<rparr>"

definition plan_assignment :: "routing_plan \<Rightarrow> string \<Rightarrow> role_assignment option" where
  "plan_assignment plan key = find (\<lambda>r. role_key (ra_role r) = key) (rp_roles plan)"

definition resolve_wire_id :: "model_catalog \<Rightarrow> string \<Rightarrow> (string, string) dict option \<Rightarrow> json list option \<Rightarrow> string" where
  "resolve_wire_id cat key pins advertised =
     (case plan_assignment (build_plan cat pins advertised) key of
        None \<Rightarrow> DEFAULT_MODEL
      | Some row \<Rightarrow> if ra_wire_id row \<noteq> [] then ra_wire_id row else DEFAULT_MODEL)"

definition orchestrator_turn_role :: "bool \<Rightarrow> bool \<Rightarrow> role" where
  "orchestrator_turn_role in_stage synthetic =
     (if in_stage then EXECUTION else if synthetic then ORCHESTRATION else PLANNING)"

definition is_harness_wire_id :: "string \<Rightarrow> bool" where
  "is_harness_wire_id m = (m \<noteq> [] \<and> CHR ''/'' \<notin> set m)"

text \<open>\<^verbatim>\<open>apply_role_model\<close>: the id returned, and the call of \<^verbatim>\<open>set_model\<close> it made.
  \<open>setter\<close> is \<open>None\<close> for a client without one, else whether the call succeeds.\<close>

definition apply_role_model :: "model_catalog \<Rightarrow> (string, string) dict option \<Rightarrow> json list option \<Rightarrow>
    (string \<Rightarrow> bool) option \<Rightarrow> string \<Rightarrow> string \<times> string option" where
  "apply_role_model cat pins advertised setter key =
     (if key \<notin> role_key ` set ROUTE_ROLES then (DEFAULT_MODEL, None)
      else let wire = resolve_wire_id cat key pins advertised in
        if wire = [] \<or> wire = DEFAULT_MODEL then (DEFAULT_MODEL, None)
        else if \<not> is_harness_wire_id wire then (wire, None)
        else (case setter of None \<Rightarrow> (DEFAULT_MODEL, None)
           | Some call \<Rightarrow> if call wire then (wire, Some wire) else (DEFAULT_MODEL, Some wire)))"

subsection \<open>Lemmas\<close>

lemma clean_from_set:
  "set (clean_from items out) = set out \<union>
     {py_strip s | s. JStr s \<in> set items \<and> py_strip s \<noteq> [] \<and> py_strip s \<noteq> DEFAULT_MODEL}"
  by (induction items out rule: clean_from.induct) (auto simp: Let_def)

lemma clean_ids_set: "set (clean_ids (Some items)) =
    {py_strip s | s. JStr s \<in> set items \<and> py_strip s \<noteq> [] \<and> py_strip s \<noteq> DEFAULT_MODEL}"
  by (simp add: clean_ids_def clean_from_set)

lemma clean_ids_ok: "v \<in> set (clean_ids raw) \<Longrightarrow> v \<noteq> [] \<and> v \<noteq> DEFAULT_MODEL"
proof (cases raw)
  case (Some items)
  assume "v \<in> set (clean_ids raw)"
  then show ?thesis unfolding Some clean_ids_set by (elim CollectE exE conjE) simp
qed (simp add: clean_ids_def)

lemma hd_sort_key_min:
  assumes "xs \<noteq> []"
  shows "hd (sort_key f xs) \<in> set xs" "\<forall>x \<in> set xs. f (hd (sort_key f xs)) \<le> f x"
proof -
  obtain y ys where s: "sort_key f xs = y # ys" using assms by (metis list.exhaust list.size(3) length_sort length_0_conv)
  have "set (sort_key f xs) = set xs" by simp
  then have set: "set xs = insert y (set ys)" by (simp add: s)
  then show "hd (sort_key f xs) \<in> set xs" by (simp add: s)
  have "sorted (map f (sort_key f xs))" by simp
  then show "\<forall>x \<in> set xs. f (hd (sort_key f xs)) \<le> f x" by (auto simp: s set)
qed

lemma hd_sort_min:
  assumes "xs \<noteq> []"
  shows "hd (sort xs) = Min (set xs)"
  using hd_sort_key_min [OF assms, of "\<lambda>x. x"] assms by (intro Min_eqI [symmetric]) auto

lemma pick_advertised_cases:
  assumes "ids \<noteq> []"
  shows "pick_advertised cost ids = DEFAULT_MODEL \<and> cost \<noteq> COST_ECONOMY \<and> (\<forall>i \<in> set ids. classify_cost i \<noteq> cost) \<or>
    pick_advertised cost ids \<in> set ids \<and> classify_cost (pick_advertised cost ids) = cost \<or>
    pick_advertised cost ids \<in> set ids \<and> cost = COST_ECONOMY \<and>
      (\<forall>i \<in> set ids. classify_cost (pick_advertised cost ids) \<le> classify_cost i)"
proof (cases "filter (\<lambda>i. classify_cost i = cost) ids = []")
  case True
  define f where "f = (\<lambda>i. (CLASS_RANK (classify_cost i), i))"
  have ne: "sort_key f ids \<noteq> []" using assms by (metis length_sort length_0_conv)
  have none: "\<forall>i \<in> set ids. classify_cost i \<noteq> cost" using True by (simp add: filter_empty_conv)
  show ?thesis
  proof (cases "cost = COST_ECONOMY")
    case eco: True
    have p: "pick_advertised cost ids = hd (sort_key f ids)"
      using True ne eco by (simp add: pick_advertised_def f_def Let_def)
    have "hd (sort_key f ids) \<in> set ids" "\<forall>i \<in> set ids. f (hd (sort_key f ids)) \<le> f i"
      using hd_sort_key_min [OF assms, of f] by blast+
    then show ?thesis unfolding p using eco by (auto simp: f_def less_eq_cost_class_def less_eq_prod_def)
  qed (use True none in \<open>simp add: pick_advertised_def\<close>)
next
  case False
  define m where "m = filter (\<lambda>i. classify_cost i = cost) ids"
  have "pick_advertised cost ids = hd (sort m)" using False by (simp add: pick_advertised_def m_def)
  moreover have "hd (sort m) \<in> set m" using hd_sort_key_min(1) [of m "\<lambda>x. x"] False by (simp add: m_def)
  ultimately show ?thesis by (auto simp: m_def)
qed

lemma role_key_inj [simp]: "role_key a = role_key b \<longleftrightarrow> a = b"
  by (cases a; cases b) simp_all

lemma find_role:
  "(\<And>r. ra_role (f r) = r) \<Longrightarrow> find (\<lambda>x. role_key (ra_role x) = role_key r) (map f ROUTE_ROLES) = Some (f r)"
  by (cases r) (simp_all add: ROUTE_ROLES_def)

lemma assign_role_role: "ra_role (assign_role listed pins ids r) = r"
  by (simp add: assign_role_def Let_def case_prod_beta)

lemma assign_role_wire: "ra_wire_id (assign_role listed pins ids r) \<noteq> []"
  by (simp add: assign_role_def Let_def case_prod_beta DEFAULT_MODEL_def)

lemma resolve_wire_role:
  "resolve_wire_id cat (role_key r) pins advertised =
     ra_wire_id (assign_role (filter cm_listed (mc_models cat)) pins (clean_ids advertised) r)"
  unfolding resolve_wire_id_def plan_assignment_def build_plan_def
  by (simp only: routing_plan.select_convs find_role [OF assign_role_role]) (simp add: assign_role_wire)

lemma wire_cases:
  "resolve_wire_id cat (role_key r) pins advertised =
     (if pin_of pins r \<noteq> [] then pin_of pins r
      else if clean_ids advertised = [] then DEFAULT_MODEL
      else pick_advertised (ROLE_COST_CLASS r) (clean_ids advertised))"
proof -
  have "pick_advertised (ROLE_COST_CLASS r) (clean_ids advertised) \<noteq> []" if "clean_ids advertised \<noteq> []"
    using pick_advertised_cases [OF that, of "ROLE_COST_CLASS r"] clean_ids_ok [of _ advertised]
    by (auto simp: DEFAULT_MODEL_def)
  then show ?thesis by (simp add: resolve_wire_role assign_role_def Let_def DEFAULT_MODEL_def)
qed

lemma pick_advertised_set:
  assumes "set ids = set ids'"
  shows "pick_advertised cost ids = pick_advertised cost ids'"
proof -
  let ?m = "filter (\<lambda>i. classify_cost i = cost)"
  define f where "f = (\<lambda>i. (CLASS_RANK (classify_cost i), i))"
  have ms: "set (?m ids) = set (?m ids')" using assms by auto
  then have me: "?m ids = [] \<longleftrightarrow> ?m ids' = []" by (metis set_empty)
  have ie: "ids = [] \<longleftrightarrow> ids' = []" using assms by (metis set_empty)
  have h: "hd (sort_key f ids) = hd (sort_key f ids')" if "ids \<noteq> []"
  proof -
    have ne: "ids' \<noteq> []" using ie that by simp
    have "f (hd (sort_key f ids)) \<le> f (hd (sort_key f ids'))" "f (hd (sort_key f ids')) \<le> f (hd (sort_key f ids))"
      using hd_sort_key_min [OF that, of f] hd_sort_key_min [OF ne, of f] assms by auto
    then have "f (hd (sort_key f ids)) = f (hd (sort_key f ids'))" by (rule order.antisym)
    then show ?thesis by (simp add: f_def)
  qed
  have s: "sort_key f xs = [] \<longleftrightarrow> xs = []" for xs by (metis length_sort length_0_conv)
  show ?thesis
  proof (cases "?m ids = []")
    case True
    then show ?thesis using me h s [of ids] s [of ids'] ie by (auto simp: pick_advertised_def f_def Let_def)
  next
    case False
    then have "hd (sort (?m ids)) = hd (sort (?m ids'))"
      using me ms by (simp add: hd_sort_min)
    then show ?thesis using False me by (simp add: pick_advertised_def)
  qed
qed

subsection \<open>Properties\<close>

text \<open>Routing invents no model and moves no work to a costlier class: a pin always wins; without
  one the wire id is \<^verbatim>\<open>auto\<close> or an advertised id; it is of the role's cost class, or the role is
  an economy role that no advertised id fits and the id is of the cheapest class advertised. A role that is not
  economy falls back to \<^verbatim>\<open>auto\<close> exactly when no advertised id is of its class.\<close>

theorem routing_sound:
  fixes cat pins advertised r
  defines "w \<equiv> resolve_wire_id cat (role_key r) pins advertised" and "ids \<equiv> set (clean_ids advertised)"
  shows "(pin_of pins r \<noteq> [] \<longrightarrow> w = pin_of pins r) \<and>
    (pin_of pins r = [] \<longrightarrow>
       (w = DEFAULT_MODEL \<or> w \<in> ids \<and> classify_cost w = ROLE_COST_CLASS r \<or>
        w \<in> ids \<and> ROLE_COST_CLASS r = COST_ECONOMY \<and> (\<forall>i \<in> ids. classify_cost w \<le> classify_cost i)) \<and>
       (w = DEFAULT_MODEL \<longleftrightarrow> (if ROLE_COST_CLASS r = COST_ECONOMY then ids = {}
          else \<forall>i \<in> ids. classify_cost i \<noteq> ROLE_COST_CLASS r)))"
proof (cases "pin_of pins r = [] \<and> clean_ids advertised \<noteq> []")
  case True
  then have w: "w = pick_advertised (ROLE_COST_CLASS r) (clean_ids advertised)"
    by (simp add: w_def wire_cases)
  from True have "clean_ids advertised \<noteq> []" by simp
  from pick_advertised_cases [OF this, of "ROLE_COST_CLASS r"] True clean_ids_ok [of _ advertised]
  show ?thesis unfolding w [symmetric] ids_def by auto
qed (auto simp: w_def wire_cases ids_def)

theorem routing_sound_witness:
  "resolve_wire_id empty_catalog ''planning'' None (Some [JStr ''grok-4.5'']) = ''grok-4.5''"
proof -
  have c: "classify_cost ''grok-4.5'' = COST_CAPABLE" by code_simp
  have i: "clean_ids (Some [JStr ''grok-4.5'']) = [''grok-4.5'']" by code_simp
  show ?thesis
    using routing_sound [of None PLANNING empty_catalog "Some [JStr ''grok-4.5'']"]
    by (auto simp: i c pin_of_def)
qed

text \<open>The order in which a client advertises its models is irrelevant: the wire id of a role
  depends on the set of usable ids only, so it is not the first advertised id of the class but the
  alphabetically first.\<close>

theorem routing_order_free:
  assumes "set (clean_ids advertised) = set (clean_ids advertised')"
  shows "resolve_wire_id cat (role_key r) pins advertised = resolve_wire_id cat (role_key r) pins advertised'"
proof -
  have "clean_ids advertised = [] \<longleftrightarrow> clean_ids advertised' = []" using assms by (metis set_empty)
  then show ?thesis by (simp add: wire_cases pick_advertised_set [OF assms])
qed

theorem routing_order_free_witness:
  "resolve_wire_id empty_catalog ''planning'' None (Some [JStr ''z-opus'', JStr ''a-opus'']) = ''a-opus''"
proof -
  have "resolve_wire_id empty_catalog (role_key PLANNING) None (Some [JStr ''z-opus'', JStr ''a-opus'']) =
      resolve_wire_id empty_catalog (role_key PLANNING) None (Some [JStr ''a-opus'', JStr ''z-opus''])"
  proof (rule routing_order_free)
    have "clean_ids (Some [JStr ''z-opus'', JStr ''a-opus'']) = [''z-opus'', ''a-opus'']"
      "clean_ids (Some [JStr ''a-opus'', JStr ''z-opus'']) = [''a-opus'', ''z-opus'']" by code_simp+
    then show "set (clean_ids (Some [JStr ''z-opus'', JStr ''a-opus''])) = set (clean_ids (Some [JStr ''a-opus'', JStr ''z-opus'']))"
      by auto
  qed
  moreover have "resolve_wire_id empty_catalog ''planning'' None (Some [JStr ''a-opus'', JStr ''z-opus'']) = ''a-opus''"
    by code_simp
  ultimately show ?thesis by simp
qed

text \<open>The loader of the catalog does raise on a corrupt file: it fails exactly when the
  file is a JSON object whose providers or models are a non-zero number or \<^verbatim>\<open>true\<close>; whatever else is on disk, it
  yields a catalog.\<close>

theorem catalog_load_raises_iff:
  "load_catalog to_str raw = None \<longleftrightarrow>
    (\<exists>d k v. raw = Some (JObj d) \<and> k \<in> {''providers'', ''models''} \<and> dict_get d k = Some v \<and> jtruthy v \<and>
       ((\<exists>n. v = JInt n) \<or> (\<exists>f. v = JFloat f) \<or> v = JBool True))"
proof -
  have rows: "catalog_rows d k = None \<longleftrightarrow> (\<exists>v. dict_get d k = Some v \<and> jtruthy v \<and>
       ((\<exists>n. v = JInt n) \<or> (\<exists>f. v = JFloat f) \<or> v = JBool True))" for d k
    by (auto simp: catalog_rows_def split: option.split json.split)
  show ?thesis
  proof (cases "\<exists>d. raw = Some (JObj d)")
    case True
    then obtain d where raw: "raw = Some (JObj d)" by blast
    have "load_catalog to_str raw = None \<longleftrightarrow> catalog_rows d ''providers'' = None \<or> catalog_rows d ''models'' = None"
      by (simp add: raw load_catalog_def split: option.split)
    then show ?thesis unfolding rows by (simp only: raw option.inject json.inject) blast
  next
    case False
    then have "load_catalog to_str raw = Some empty_catalog"
      by (simp add: load_catalog_def split: option.split json.split)
    then show ?thesis using False by auto
  qed
qed

end
