(* ===== verification/Resume_Expectation.thy ===== *)
theory Resume_Expectation imports Json_Value begin

section \<open>The durable shadow of resume bindings (\<^verbatim>\<open>messaging/resume_expectation.py\<close>)\<close>

text \<open>
  A versioned compare-and-swap store: conversation id to expected session, one file per channel.
  \<open>expectation_store\<close> is one \<^verbatim>\<open>ResumeExpectations\<close> object together with the world it
  writes to: the disk (a slot per path), the live data home, and the writes whose awaiting
  coroutine was cancelled: \<^verbatim>\<open>asyncio.to_thread\<close> cannot stop the worker thread, so such a write
  still lands, but later and with the lock already released (\<open>late\<close>). An operation is
  atomic under the object's lock. \<open>write_outcome\<close> is what \<^verbatim>\<open>_write\<close> does, which
  replaces the file in one rename or leaves it as it was. \<^verbatim>\<open>str\<close> of a float, an array or an
  object is the parameter \<open>repr\<close>, a non-empty text.

  The locale \<open>versioned_register\<close> is what the settlement code relies on: the version of a
  conversation never goes back, not across a restart either.
\<close>

record expectation =
  exp_key :: string
  exp_title :: string
  exp_version :: int
  exp_retired :: bool

type_synonym expectations = "(string, expectation) dict"

datatype store_slot = Absent | Unreadable | NotJson | Holds json

datatype store_error = CouldNotRead | NotValidJson | NotAnObject
  | MalformedRow string | UnusableVersion string | UnusableRetired string | CouldNotPersist

datatype write_outcome = WriteOk | WriteFails | WriteCancelled

record expectation_store =
  loaded_from :: "string option"
  records :: expectations
  disk :: "string \<Rightarrow> store_slot"
  home :: string
  late :: "(string \<times> json) list"

definition store_filename :: "string \<Rightarrow> string" where
  "store_filename channel_type = channel_type @ ''_resume_expectations.json''"

definition py_str :: "(json \<Rightarrow> string) \<Rightarrow> json \<Rightarrow> string" where
  "py_str repr v = (case v of
       JStr s \<Rightarrow> s
     | JInt n \<Rightarrow> show_int n
     | JBool b \<Rightarrow> if b then ''True'' else ''False''
     | JNull \<Rightarrow> ''None''
     | _ \<Rightarrow> repr v)"

text \<open>\<^verbatim>\<open>str(value.get(k) or "")\<close>.\<close>

definition str_or_empty :: "(json \<Rightarrow> string) \<Rightarrow> json option \<Rightarrow> string" where
  "str_or_empty repr v = (case v of Some w \<Rightarrow> if jtruthy w then py_str repr w else [] | None \<Rightarrow> [])"

definition read_row :: "(json \<Rightarrow> string) \<Rightarrow> string \<Rightarrow> json \<Rightarrow> store_error + expectation" where
  "read_row repr channel_id value = (case value of
       JObj d \<Rightarrow>
         if str_or_empty repr (dict_get d ''key'') = [] then Inl (MalformedRow channel_id)
         else (case dict_get d ''version'' of
             Some (JInt version) \<Rightarrow>
               (case dict_get d ''retired'' of
                   None \<Rightarrow> Inr \<lparr>exp_key = str_or_empty repr (dict_get d ''key''),
                     exp_title = str_or_empty repr (dict_get d ''title''),
                     exp_version = version, exp_retired = False\<rparr>
                 | Some (JBool retired) \<Rightarrow> Inr \<lparr>exp_key = str_or_empty repr (dict_get d ''key''),
                     exp_title = str_or_empty repr (dict_get d ''title''),
                     exp_version = version, exp_retired = retired\<rparr>
                 | _ \<Rightarrow> Inl (UnusableRetired channel_id))
           | _ \<Rightarrow> Inl (UnusableVersion channel_id))
     | _ \<Rightarrow> Inl (MalformedRow channel_id))"

fun read_rows :: "(json \<Rightarrow> string) \<Rightarrow> expectations \<Rightarrow> (string \<times> json) list \<Rightarrow> store_error + expectations" where
  "read_rows repr acc [] = Inr acc"
| "read_rows repr acc ((channel_id, value) # rest) =
     (case read_row repr channel_id value of
         Inl e \<Rightarrow> Inl e
       | Inr r \<Rightarrow> read_rows repr (dict_set channel_id r acc) rest)"

definition read_store :: "(json \<Rightarrow> string) \<Rightarrow> store_slot \<Rightarrow> store_error + expectations" where
  "read_store repr slot = (case slot of
       Absent \<Rightarrow> Inr []
     | Unreadable \<Rightarrow> Inl CouldNotRead
     | NotJson \<Rightarrow> Inl NotValidJson
     | Holds (JObj raw) \<Rightarrow> read_rows repr [] raw
     | Holds _ \<Rightarrow> Inl NotAnObject)"

definition payload :: "expectations \<Rightarrow> json" where
  "payload rs = JObj (map (\<lambda>(channel_id, r). (channel_id,
     JObj [(''key'', JStr (exp_key r)), (''title'', JStr (exp_title r)),
           (''version'', JInt (exp_version r)), (''retired'', JBool (exp_retired r))])) rs)"

definition store_path :: "string \<Rightarrow> string \<Rightarrow> string" where
  "store_path data_home channel_type = data_home @ ''/trust/'' @ store_filename channel_type"

text \<open>\<^verbatim>\<open>_resolve\<close> and \<^verbatim>\<open>_synced\<close>: reload only when the path changed.\<close>

definition synced :: "(json \<Rightarrow> string) \<Rightarrow> string \<Rightarrow> expectation_store \<Rightarrow> store_error + string \<times> expectation_store" where
  "synced repr chan s =
     (let path = store_path (home s) chan
      in if Some path = loaded_from s then Inr (path, s)
         else (case read_store repr (disk s path) of
             Inl e \<Rightarrow> Inl e
           | Inr rs \<Rightarrow> Inr (path, s\<lparr>records := rs, loaded_from := Some path\<rparr>)))"

text \<open>\<^verbatim>\<open>_publish\<close>: persist, then publish. The flag says whether it returned.\<close>

definition publish :: "write_outcome \<Rightarrow> string \<Rightarrow> expectations \<Rightarrow> expectation_store \<Rightarrow> expectation_store \<times> bool" where
  "publish w path candidate s = (case w of
       WriteOk \<Rightarrow> (s\<lparr>disk := (disk s)(path := Holds (payload candidate)), records := candidate\<rparr>, True)
     | WriteFails \<Rightarrow> (s, False)
     | WriteCancelled \<Rightarrow> (s\<lparr>late := late s @ [(path, payload candidate)]\<rparr>, False))"

text \<open>The results: a store error, a cancellation (\<open>None\<close>), or a value.\<close>

type_synonym 'a reply = "store_error + 'a option"

definition write_reply :: "write_outcome \<Rightarrow> 'a \<Rightarrow> 'a reply" where
  "write_reply w v = (case w of WriteOk \<Rightarrow> Inr (Some v)
     | WriteFails \<Rightarrow> Inl CouldNotPersist | WriteCancelled \<Rightarrow> Inr None)"

definition get_expectation :: "(json \<Rightarrow> string) \<Rightarrow> string \<Rightarrow> string \<Rightarrow> expectation_store
    \<Rightarrow> expectation_store \<times> (expectation option) reply" where
  "get_expectation repr chan channel_id s = (case synced repr chan s of
       Inl e \<Rightarrow> (s, Inl e)
     | Inr (path, s') \<Rightarrow> (s', Inr (Some (dict_get (records s') channel_id))))"

definition record_expectation :: "(json \<Rightarrow> string) \<Rightarrow> string \<Rightarrow> write_outcome \<Rightarrow> string \<Rightarrow> string \<Rightarrow> string
    \<Rightarrow> expectation_store \<Rightarrow> expectation_store \<times> expectation reply" where
  "record_expectation repr chan w channel_id key title s = (case synced repr chan s of
       Inl e \<Rightarrow> (s, Inl e)
     | Inr (path, s') \<Rightarrow>
         let version = (case dict_get (records s') channel_id of
               Some current \<Rightarrow> exp_version current + 1 | None \<Rightarrow> 1);
             r = \<lparr>exp_key = key, exp_title = title, exp_version = version, exp_retired = False\<rparr>
         in (fst (publish w path (dict_set channel_id r (records s')) s'), write_reply w r))"

definition record_if :: "(json \<Rightarrow> string) \<Rightarrow> string \<Rightarrow> write_outcome \<Rightarrow> string \<Rightarrow> int \<Rightarrow> string \<Rightarrow> string
    \<Rightarrow> expectation_store \<Rightarrow> expectation_store \<times> unit reply" where
  "record_if repr chan w channel_id version key title s = (case synced repr chan s of
       Inl e \<Rightarrow> (s, Inl e)
     | Inr (path, s') \<Rightarrow>
        (case dict_get (records s') channel_id of
            None \<Rightarrow> (s', Inr (Some ()))
          | Some current \<Rightarrow>
              if exp_version current = version
              then (case record_expectation repr chan w channel_id key title s' of
                  (s'', Inl e) \<Rightarrow> (s'', Inl e)
                | (s'', Inr r) \<Rightarrow> (s'', Inr (map_option (\<lambda>_. ()) r)))
              else (s', Inr (Some ()))))"

definition retire_if :: "(json \<Rightarrow> string) \<Rightarrow> string \<Rightarrow> write_outcome \<Rightarrow> string \<Rightarrow> int
    \<Rightarrow> expectation_store \<Rightarrow> expectation_store \<times> bool reply" where
  "retire_if repr chan w channel_id version s = (case synced repr chan s of
       Inl e \<Rightarrow> (s, Inl e)
     | Inr (path, s') \<Rightarrow>
        (case dict_get (records s') channel_id of
            None \<Rightarrow> (s', Inr (Some False))
          | Some current \<Rightarrow>
              if exp_version current \<noteq> version then (s', Inr (Some False))
              else let retired = current\<lparr>exp_version := exp_version current + 1, exp_retired := True\<rparr>
                   in (fst (publish w path (dict_set channel_id retired (records s')) s'),
                       write_reply w True)))"

text \<open>The sequence of operations a process sees, its restarts and the landing of a late write
  included.\<close>

datatype store_event =
    Get string
  | Record write_outcome string string string
  | RecordIf write_outcome string int string string
  | RetireIf write_outcome string int
  | Restart
  | LateWriteLands

fun store_step :: "(json \<Rightarrow> string) \<Rightarrow> string \<Rightarrow> store_event \<Rightarrow> expectation_store \<Rightarrow> expectation_store" where
  "store_step repr chan (Get c) s = fst (get_expectation repr chan c s)"
| "store_step repr chan (Record w c k t) s = fst (record_expectation repr chan w c k t s)"
| "store_step repr chan (RecordIf w c v k t) s = fst (record_if repr chan w c v k t s)"
| "store_step repr chan (RetireIf w c v) s = fst (retire_if repr chan w c v s)"
| "store_step repr chan Restart s = s\<lparr>loaded_from := None, records := []\<rparr>"
| "store_step repr chan LateWriteLands s = (case late s of [] \<Rightarrow> s
     | (path, p) # rest \<Rightarrow> s\<lparr>disk := (disk s)(path := Holds p), late := rest\<rparr>)"

text \<open>What a \<^verbatim>\<open>get\<close> would answer now, for every conversation.\<close>

definition view :: "(json \<Rightarrow> string) \<Rightarrow> string \<Rightarrow> expectation_store \<Rightarrow> store_error + expectations" where
  "view repr chan s = (case synced repr chan s of Inl e \<Rightarrow> Inl e | Inr (_, s') \<Rightarrow> Inr (records s'))"

definition current_version :: "(json \<Rightarrow> string) \<Rightarrow> string \<Rightarrow> expectation_store \<Rightarrow> string \<Rightarrow> int option" where
  "current_version repr chan s c = (case view repr chan s of
     Inl _ \<Rightarrow> None | Inr rs \<Rightarrow> map_option exp_version (dict_get rs c))"


subsection \<open>Reading back what was written\<close>

definition rows_ok :: "expectations \<Rightarrow> bool" where
  "rows_ok rs = (dict_ok rs \<and> list_all (\<lambda>p. exp_key (snd p) \<noteq> []) rs)"

lemma rows_ok_Nil [simp]: "rows_ok []"
  by (simp add: rows_ok_def)

lemma rows_ok_set: "rows_ok rs \<Longrightarrow> exp_key r \<noteq> [] \<Longrightarrow> rows_ok (dict_set c r rs)"
  unfolding rows_ok_def list_all_iff using set_dict_set [of c r rs] by fastforce

lemma rows_ok_get: "rows_ok rs \<Longrightarrow> dict_get rs c = Some r \<Longrightarrow> exp_key r \<noteq> []"
  unfolding rows_ok_def list_all_iff by (auto dest: dict_get_in)

lemma read_row_payload:
  assumes "exp_key r \<noteq> []"
  shows "read_row repr c (JObj [(''key'', JStr (exp_key r)), (''title'', JStr (exp_title r)),
     (''version'', JInt (exp_version r)), (''retired'', JBool (exp_retired r))]) = Inr r"
  using assms by (cases r) (simp add: read_row_def str_or_empty_def py_str_def)

lemma read_rows_payload:
  assumes "rows_ok (acc @ rs)"
  shows "read_rows repr acc (map (\<lambda>(c, r). (c,
     JObj [(''key'', JStr (exp_key r)), (''title'', JStr (exp_title r)),
           (''version'', JInt (exp_version r)), (''retired'', JBool (exp_retired r))])) rs) = Inr (acc @ rs)"
  using assms
proof (induction rs arbitrary: acc)
  case (Cons p rs)
  obtain c r where p: "p = (c, r)" by (cases p)
  with Cons.prems have r: "exp_key r \<noteq> []" and c: "c \<notin> set (dict_keys acc)"
    by (auto simp: rows_ok_def)
  show ?case using Cons.IH [of "acc @ [(c, r)]"] Cons.prems c
    by (simp add: p read_row_payload [OF r])
qed simp

lemma read_store_payload: "rows_ok rs \<Longrightarrow> read_store repr (Holds (payload rs)) = Inr rs"
  using read_rows_payload [of "[]" rs repr] by (simp add: read_store_def payload_def)

lemma read_row_key: "read_row repr c v = Inr r \<Longrightarrow> exp_key r \<noteq> []"
  by (auto simp: read_row_def split: json.splits option.splits if_splits)

lemma read_rows_ok: "read_rows repr acc raw = Inr rs \<Longrightarrow> rows_ok acc \<Longrightarrow> rows_ok rs"
  by (induction repr acc raw rule: read_rows.induct)
    (auto split: sum.splits intro: rows_ok_set dest: read_row_key)

lemma read_store_ok: "read_store repr slot = Inr rs \<Longrightarrow> rows_ok rs"
  by (auto simp: read_store_def split: store_slot.splits json.splits intro: read_rows_ok)

subsection \<open>Memory and disk agree\<close>

definition sound :: "(json \<Rightarrow> string) \<Rightarrow> string \<Rightarrow> expectation_store \<Rightarrow> bool" where
  "sound repr chan s = (late s = [] \<and>
     (loaded_from s = Some (store_path (home s) chan) \<longrightarrow>
        read_store repr (disk s (store_path (home s) chan)) = Inr (records s)))"

definition on_disk :: "(json \<Rightarrow> string) \<Rightarrow> string \<Rightarrow> expectation_store \<Rightarrow> store_error + expectations" where
  "on_disk repr chan s = read_store repr (disk s (store_path (home s) chan))"

lemma view_on_disk: "sound repr chan s \<Longrightarrow> view repr chan s = on_disk repr chan s"
  by (auto simp: view_def on_disk_def synced_def sound_def Let_def split: sum.splits)

lemma synced_Inl: "synced repr chan s = Inl e \<Longrightarrow> view repr chan s = Inl e"
  by (simp add: view_def)

lemma synced_Inr:
  assumes "sound repr chan s" "synced repr chan s = Inr (path, s')"
  shows "path = store_path (home s) chan" "home s' = home s" "disk s' = disk s" "late s' = []"
    "loaded_from s' = Some (store_path (home s) chan)"
    "view repr chan s = Inr (records s')" "rows_ok (records s')" "sound repr chan s'"
    "synced repr chan s' = Inr (path, s')"
  using assms
  by (auto simp: synced_def sound_def view_def Let_def split: if_splits sum.splits intro: read_store_ok)

lemma publish_sound:
  assumes "sound repr chan s'" "loaded_from s' = Some (store_path (home s') chan)"
    "rows_ok candidate" "w \<noteq> WriteCancelled"
  shows "sound repr chan (fst (publish w (store_path (home s') chan) candidate s'))"
    "view repr chan (fst (publish w (store_path (home s') chan) candidate s')) =
       (if w = WriteOk then Inr candidate else Inr (records s'))"
  using assms by (auto simp: publish_def sound_def view_def synced_def read_store_payload Let_def
      split: write_outcome.splits)

subsection \<open>The register the settlement code sees\<close>

text \<open>One conversation-to-expectation table, with compare and swap on the version; a restart
  does nothing to it.\<close>

definition successor :: "expectations \<Rightarrow> string \<Rightarrow> string \<Rightarrow> string \<Rightarrow> expectation" where
  "successor rs c key title = \<lparr>exp_key = key, exp_title = title,
     exp_version = (case dict_get rs c of Some r \<Rightarrow> exp_version r + 1 | None \<Rightarrow> 1), exp_retired = False\<rparr>"

definition holds_version :: "expectations \<Rightarrow> string \<Rightarrow> int \<Rightarrow> bool" where
  "holds_version rs c v = (map_option exp_version (dict_get rs c) = Some v)"

fun register_step :: "store_event \<Rightarrow> expectations \<Rightarrow> expectations" where
  "register_step (Record WriteOk c k t) rs = dict_set c (successor rs c k t) rs"
| "register_step (RecordIf WriteOk c v k t) rs =
     (if holds_version rs c v then dict_set c (successor rs c k t) rs else rs)"
| "register_step (RetireIf WriteOk c v) rs =
     (case dict_get rs c of
         Some r \<Rightarrow> if exp_version r = v
                   then dict_set c (r\<lparr>exp_version := v + 1, exp_retired := True\<rparr>) rs else rs
       | None \<Rightarrow> rs)"
| "register_step _ rs = rs"

text \<open>The events without a cancelled write; a session key is never empty.\<close>

fun calm :: "store_event \<Rightarrow> bool" where
  "calm (Record w c k t) = (w \<noteq> WriteCancelled \<and> k \<noteq> [])"
| "calm (RecordIf w c v k t) = (w \<noteq> WriteCancelled \<and> k \<noteq> [])"
| "calm (RetireIf w c v) = (w \<noteq> WriteCancelled)"
| "calm _ = True"

lemma register_idle [simp]: "register_step Restart = id" "register_step LateWriteLands = id"
  "register_step (Get c) = id"
  by (auto intro!: ext)

lemma record_refines:
  assumes "sound repr chan s" "w \<noteq> WriteCancelled" "k \<noteq> []"
  shows "sound repr chan (fst (record_expectation repr chan w c k t s))"
    "view repr chan (fst (record_expectation repr chan w c k t s)) =
       map_sum id (register_step (Record w c k t)) (view repr chan s)"
proof -
  have "sound repr chan (fst (record_expectation repr chan w c k t s)) \<and>
    view repr chan (fst (record_expectation repr chan w c k t s)) =
       map_sum id (register_step (Record w c k t)) (view repr chan s)"
  proof (cases "synced repr chan s")
    case (Inl e)
    then show ?thesis using assms(1) by (simp add: record_expectation_def synced_Inl)
  next
    case (Inr r)
    then obtain path s' where sy: "synced repr chan s = Inr (path, s')" by (cases r) auto
    note S = synced_Inr [OF assms(1) sy]
    have "rows_ok (dict_set c (successor (records s') c k t) (records s'))"
      using S(7) assms(3) by (intro rows_ok_set) (simp_all add: successor_def)
    note P = publish_sound [OF S(8) _ this assms(2)]
    show ?thesis using P S assms(2) unfolding record_expectation_def sy
      by (cases w) (simp_all add: Let_def successor_def)
  qed
  then show "sound repr chan (fst (record_expectation repr chan w c k t s))"
    "view repr chan (fst (record_expectation repr chan w c k t s)) =
       map_sum id (register_step (Record w c k t)) (view repr chan s)" by auto
qed

lemma record_if_refines:
  assumes "sound repr chan s" "w \<noteq> WriteCancelled" "k \<noteq> []"
  shows "sound repr chan (fst (record_if repr chan w c v k t s)) \<and>
    view repr chan (fst (record_if repr chan w c v k t s)) =
       map_sum id (register_step (RecordIf w c v k t)) (view repr chan s)"
proof (cases "synced repr chan s")
  case (Inl e)
  then show ?thesis using assms(1) by (simp add: record_if_def synced_Inl)
next
  case (Inr r)
  then obtain path s' where sy: "synced repr chan s = Inr (path, s')" by (cases r) auto
  note S = synced_Inr [OF assms(1) sy]
  note R = record_refines [OF S(8) assms(2,3), of c t]
  have v': "view repr chan s' = Inr (records s')" using S(9) by (simp add: view_def)
  have hit: "fst (record_if repr chan w c v k t s) = fst (record_expectation repr chan w c k t s')"
    if "holds_version (records s') c v"
    using that unfolding record_if_def sy
    by (auto simp: holds_version_def split: prod.splits sum.splits)
  have miss: "fst (record_if repr chan w c v k t s) = s'" if "\<not> holds_version (records s') c v"
    using that unfolding record_if_def sy
    by (auto simp: holds_version_def split: option.splits)
  show ?thesis
  proof (cases "holds_version (records s') c v")
    case True
    then show ?thesis using R S v' assms(2) hit by (cases w) auto
  next
    case False
    then show ?thesis using S v' miss assms(2) by (cases w) auto
  qed
qed

lemma retire_if_refines:
  assumes "sound repr chan s" "w \<noteq> WriteCancelled"
  shows "sound repr chan (fst (retire_if repr chan w c v s)) \<and>
    view repr chan (fst (retire_if repr chan w c v s)) =
       map_sum id (register_step (RetireIf w c v)) (view repr chan s)"
proof (cases "synced repr chan s")
  case (Inl e)
  then show ?thesis using assms(1) by (simp add: retire_if_def synced_Inl)
next
  case (Inr r)
  then obtain path s' where sy: "synced repr chan s = Inr (path, s')" by (cases r) auto
  note S = synced_Inr [OF assms(1) sy]
  have v': "view repr chan s' = Inr (records s')" using S(9) by (simp add: view_def)
  show ?thesis
  proof (cases "\<exists>r. dict_get (records s') c = Some r \<and> exp_version r = v")
    case True
    then obtain r where r: "dict_get (records s') c = Some r" "exp_version r = v" by blast
    let ?r = "r\<lparr>exp_version := v + 1, exp_retired := True\<rparr>"
    have "rows_ok (dict_set c ?r (records s'))"
      using rows_ok_set [OF S(7), of ?r] rows_ok_get [OF S(7) r(1)] by simp
    note P = publish_sound [OF S(8) _ this assms(2)]
    show ?thesis using P S r assms(2) unfolding retire_if_def sy
      by (cases w) (simp_all add: Let_def)
  next
    case False
    then have "fst (retire_if repr chan w c v s) = s'"
      unfolding retire_if_def sy by (auto split: option.splits)
    then show ?thesis using False S v' assms(2) by (cases w) (auto split: option.splits)
  qed
qed

lemma store_step_refines:
  assumes "sound repr chan s" "calm e"
  shows "sound repr chan (store_step repr chan e s) \<and>
    view repr chan (store_step repr chan e s) = map_sum id (register_step e) (view repr chan s)"
proof (cases e)
  case (Get c)
  show ?thesis
  proof (cases "synced repr chan s")
    case (Inl e')
    then show ?thesis using assms(1) \<open>e = Get c\<close> by (simp add: get_expectation_def view_def)
  next
    case (Inr r)
    then obtain path s' where sy: "synced repr chan s = Inr (path, s')" by (cases r) auto
    from synced_Inr [OF assms(1) sy] show ?thesis
      by (simp add: \<open>e = Get c\<close> get_expectation_def sy view_def)
  qed
next
  case (Record w c k t)
  then show ?thesis using assms record_refines [OF assms(1)] by simp
next
  case (RecordIf w c v k t)
  then show ?thesis using assms record_if_refines [OF assms(1)] by simp
next
  case (RetireIf w c v)
  then show ?thesis using assms retire_if_refines [OF assms(1)] by simp
next
  case Restart
  then have so: "sound repr chan (store_step repr chan e s)" using assms(1) by (simp add: sound_def)
  then show ?thesis using Restart view_on_disk [OF so] view_on_disk [OF assms(1)]
    by (simp add: on_disk_def sum.map_id0 sum.map_ident)
next
  case LateWriteLands
  then show ?thesis using assms(1) by (simp add: sound_def sum.map_id0 sum.map_ident)
qed

lemma store_run_refines:
  assumes "sound repr chan s" "list_all calm es"
  shows "sound repr chan (fold (store_step repr chan) es s) \<and>
    view repr chan (fold (store_step repr chan) es s) = map_sum id (fold register_step es) (view repr chan s)"
  using assms
proof (induction es arbitrary: s)
  case Nil
  then show ?case by (simp add: sum.map_id0 sum.map_ident)
next
  case (Cons e es)
  then have e: "sound repr chan (store_step repr chan e s)"
    "view repr chan (store_step repr chan e s) = map_sum id (register_step e) (view repr chan s)"
    using store_step_refines [of repr chan s e] by auto
  show ?case using Cons.IH [OF e(1)] Cons.prems e(2) by (cases "view repr chan s") auto
qed

subsection \<open>A version never goes back\<close>

locale versioned_register =
  fixes step :: "'e \<Rightarrow> 's \<Rightarrow> 's"
    and ver :: "'s \<Rightarrow> 'k \<Rightarrow> int option"
    and good :: "'s \<Rightarrow> bool"
    and ok :: "'e \<Rightarrow> bool"
  assumes step_good: "good s \<Longrightarrow> ok e \<Longrightarrow> good (step e s)"
    and ver_step: "good s \<Longrightarrow> ok e \<Longrightarrow> ver s k = Some v \<Longrightarrow> \<exists>v'. ver (step e s) k = Some v' \<and> v \<le> v'"
begin

lemma run_good: "good s \<Longrightarrow> list_all ok es \<Longrightarrow> good (fold step es s)"
  by (induction es arbitrary: s) (auto intro: step_good)

lemma ver_run:
  "good s \<Longrightarrow> list_all ok es \<Longrightarrow> ver s k = Some v \<Longrightarrow> \<exists>v'. ver (fold step es s) k = Some v' \<and> v \<le> v'"
proof (induction es arbitrary: s v)
  case (Cons e es)
  from ver_step [of s e k v] Cons.prems obtain w where w: "ver (step e s) k = Some w" "v \<le> w" by auto
  have g: "good (step e s)" using step_good Cons.prems by simp
  from Cons.IH [OF g _ w(1)] Cons.prems w(2) show ?case by fastforce
qed simp

lemma stale_stays_stale:
  "good s \<Longrightarrow> list_all ok es \<Longrightarrow> ver s k = Some v' \<Longrightarrow> v < v' \<Longrightarrow> ver (fold step es s) k \<noteq> Some v"
  using ver_run by fastforce

end

lemma register_step_version:
  assumes "dict_get rs c = Some r"
  shows "\<exists>r'. dict_get (register_step e rs) c = Some r' \<and> exp_version r \<le> exp_version r'"
  using assms
  by (cases "(e, rs)" rule: register_step.cases)
    (auto simp: dict_simps successor_def split: option.splits)

lemma current_version_step:
  assumes "sound repr chan s" "calm e" "current_version repr chan s c = Some v"
  shows "\<exists>v'. current_version repr chan (store_step repr chan e s) c = Some v' \<and> v \<le> v'"
proof -
  from assms(3) obtain rs r where rs: "view repr chan s = Inr rs" "dict_get rs c = Some r" "exp_version r = v"
    by (auto simp: current_version_def split: sum.splits)
  from register_step_version [OF rs(2)] obtain r' where
    "dict_get (register_step e rs) c = Some r'" "exp_version r \<le> exp_version r'" by blast
  with rs store_step_refines [OF assms(1,2)] show ?thesis by (simp add: current_version_def)
qed

interpretation expectation_register: versioned_register "store_step repr chan"
  "current_version repr chan" "sound repr chan" calm for repr chan
  by unfold_locales (auto simp: store_step_refines intro: current_version_step)

lemma stale_record_if:
  assumes "sound repr chan s" "view repr chan s = Inr rs" "\<not> holds_version rs c v"
  shows "disk (fst (record_if repr chan w c v k t s)) = disk s"
    "view repr chan (fst (record_if repr chan w c v k t s)) = Inr rs"
    "snd (record_if repr chan w c v k t s) = Inr (Some ())"
proof -
  from assms(2) obtain path s' where sy: "synced repr chan s = Inr (path, s')" "rs = records s'"
    by (auto simp: view_def split: sum.splits)
  note S = synced_Inr [OF assms(1) sy(1)]
  have "record_if repr chan w c v k t s = (s', Inr (Some ()))"
    using assms(3) unfolding record_if_def sy
    by (auto simp: holds_version_def split: option.splits)
  with S sy(2) show "disk (fst (record_if repr chan w c v k t s)) = disk s"
    "view repr chan (fst (record_if repr chan w c v k t s)) = Inr rs"
    "snd (record_if repr chan w c v k t s) = Inr (Some ())"
    by (auto simp: view_def)
qed

lemma stale_retire_if:
  assumes "sound repr chan s" "view repr chan s = Inr rs" "\<not> holds_version rs c v"
  shows "disk (fst (retire_if repr chan w c v s)) = disk s"
    "view repr chan (fst (retire_if repr chan w c v s)) = Inr rs"
    "snd (retire_if repr chan w c v s) = Inr (Some False)"
proof -
  from assms(2) obtain path s' where sy: "synced repr chan s = Inr (path, s')" "rs = records s'"
    by (auto simp: view_def split: sum.splits)
  note S = synced_Inr [OF assms(1) sy(1)]
  have "retire_if repr chan w c v s = (s', Inr (Some False))"
    using assms(3) unfolding retire_if_def sy
    by (auto simp: holds_version_def split: option.splits)
  with S sy(2) show "disk (fst (retire_if repr chan w c v s)) = disk s"
    "view repr chan (fst (retire_if repr chan w c v s)) = Inr rs"
    "snd (retire_if repr chan w c v s) = Inr (Some False)"
    by (auto simp: view_def)
qed

lemma current_version_view:
  "view repr chan s = Inr rs \<Longrightarrow> current_version repr chan s c \<noteq> Some v \<Longrightarrow> \<not> holds_version rs c v"
  by (simp add: current_version_def holds_version_def)

subsection \<open>The properties\<close>

text \<open>C17. The store is a table with compare and swap. Whatever operations a process performs with keys that are not empty, in
  whatever order, with writes that fail and with restarts in between (but no write that is cancelled under way), the
  table every later \<^verbatim>\<open>get\<close> reads is the one the plain register would hold: a failed
  write changes nothing, a successful one is seen by this process and by the next, and a restart
  loses nothing and revives nothing.\<close>

theorem store_is_a_register:
  assumes "sound repr chan s" "list_all calm es"
  shows "view repr chan (fold (store_step repr chan) es s) =
     map_sum id (fold register_step es) (view repr chan s)"
  using store_run_refines [OF assms] by (rule conjunct2)

definition fresh_store :: "(string \<Rightarrow> store_slot) \<Rightarrow> string \<Rightarrow> expectation_store" where
  "fresh_store d data_home = \<lparr>loaded_from = None, records = [], disk = d, home = data_home, late = []\<rparr>"

lemma sound_fresh [simp]: "sound repr chan (fresh_store d h)"
  by (simp add: sound_def fresh_store_def)

lemma view_fresh_absent [simp]: "view repr chan (fresh_store (\<lambda>_. Absent) h) = Inr []"
  by (simp add: view_on_disk on_disk_def) (simp add: fresh_store_def read_store_def)

theorem store_is_a_register_witness:
  "view (\<lambda>_. ''?'') ''discord'' (fold (store_step (\<lambda>_. ''?'') ''discord'')
      [Record WriteOk ''c1'' ''k1'' ''first'', Record WriteFails ''c1'' ''k2'' ''lost'', Restart,
       RetireIf WriteOk ''c1'' 1, RecordIf WriteOk ''c1'' 1 ''k3'' ''stale'', Restart]
      (fresh_store (\<lambda>_. Absent) ''/home'')) =
   Inr [(''c1'', \<lparr>exp_key = ''k1'', exp_title = ''first'', exp_version = 2, exp_retired = True\<rparr>)]"
  by (subst store_is_a_register) (simp_all add: successor_def holds_version_def)

text \<open>A settlement that has lost stays lost. Once the version of a conversation has moved past
  the one a settlement read, no later sequence of operations and restarts makes that version
  current again: \<^verbatim>\<open>record_if\<close> and \<^verbatim>\<open>retire_if\<close> with it leave the disk and the
  table as they were, whatever the write would have done, and \<^verbatim>\<open>retire_if\<close> answers
  \<^verbatim>\<open>False\<close>.\<close>

theorem stale_settlement_stays_lost:
  assumes "sound repr chan s" "list_all calm es"
    "current_version repr chan s c = Some v'" "v < v'"
  shows "let s' = fold (store_step repr chan) es s in
     disk (fst (record_if repr chan w c v k t s')) = disk s' \<and>
     view repr chan (fst (record_if repr chan w c v k t s')) = view repr chan s' \<and>
     disk (fst (retire_if repr chan w c v s')) = disk s' \<and>
     view repr chan (fst (retire_if repr chan w c v s')) = view repr chan s' \<and>
     snd (retire_if repr chan w c v s') = Inr (Some False)"
proof -
  let ?s' = "fold (store_step repr chan) es s"
  have so: "sound repr chan ?s'" by (rule expectation_register.run_good [OF assms(1,2)])
  from expectation_register.ver_run [OF assms(1,2,3)]
  obtain rs where rs: "view repr chan ?s' = Inr rs" by (auto simp: current_version_def split: sum.splits)
  have "\<not> holds_version rs c v"
    using current_version_view [OF rs] expectation_register.stale_stays_stale [OF assms] by blast
  from stale_record_if [OF so rs this] stale_retire_if [OF so rs this] rs
  show ?thesis by (simp add: Let_def)
qed

theorem stale_settlement_stays_lost_witness:
  "snd (retire_if (\<lambda>_. ''?'') ''discord'' WriteOk ''c1'' 1
      (fold (store_step (\<lambda>_. ''?'') ''discord'') [Restart, Record WriteOk ''c1'' ''k2'' ''b'']
        (fold (store_step (\<lambda>_. ''?'') ''discord'')
          [Record WriteOk ''c1'' ''k1'' ''a'', Record WriteOk ''c1'' ''k1'' ''a'']
          (fresh_store (\<lambda>_. Absent) ''/home'')))) = Inr (Some False)"
proof -
  let ?s = "fold (store_step (\<lambda>_. ''?'') ''discord'')
     [Record WriteOk ''c1'' ''k1'' ''a'', Record WriteOk ''c1'' ''k1'' ''a''] (fresh_store (\<lambda>_. Absent) ''/home'')"
  have r: "sound (\<lambda>_. ''?'') ''discord'' ?s \<and> view (\<lambda>_. ''?'') ''discord'' ?s =
     map_sum id (fold register_step [Record WriteOk ''c1'' ''k1'' ''a'', Record WriteOk ''c1'' ''k1'' ''a'']) (Inr [])"
    using store_run_refines [of "\<lambda>_. ''?''" "''discord''" "fresh_store (\<lambda>_. Absent) ''/home''"
      "[Record WriteOk ''c1'' ''k1'' ''a'', Record WriteOk ''c1'' ''k1'' ''a'']"] by simp
  then have "current_version (\<lambda>_. ''?'') ''discord'' ?s ''c1'' = Some 2"
    by (simp add: current_version_def successor_def)
  moreover have "list_all calm [Restart, Record WriteOk ''c1'' ''k2'' ''b'']" by simp
  ultimately show ?thesis
    using stale_settlement_stays_lost [OF conjunct1 [OF r], of _ "''c1''" 2 1 WriteOk "''k''" "''t''"]
    by (simp only: Let_def one_less_numeral_iff semiring_norm simp_thms)
qed

text \<open>A cancelled write is not inert: it lands after a later record was persisted and published,
  and the next process reads the older, never acknowledged, one.\<close>

lemma late_write_overwrites:
  "let s = fold (store_step (\<lambda>_. ''?'') ''discord'')
      [Record WriteCancelled ''c1'' ''k1'' ''cancelled'', Record WriteOk ''c1'' ''k2'' ''bound'', LateWriteLands]
      (fresh_store (\<lambda>_. Absent) ''/home'')
   in map_option exp_key (dict_get (records s) ''c1'') = Some ''k2'' \<and>
      view (\<lambda>_. ''?'') ''discord'' (store_step (\<lambda>_. ''?'') ''discord'' Restart s) =
        Inr [(''c1'', \<lparr>exp_key = ''k1'', exp_title = ''cancelled'', exp_version = 1, exp_retired = False\<rparr>)]"
  by (simp add: fresh_store_def record_expectation_def synced_def read_store_def publish_def view_def
      payload_def read_row_def str_or_empty_def py_str_def Let_def)

end
