(* ===== verification/Worker_Pool.thy ===== *)
theory Worker_Pool imports Junction_Prelude begin

section \<open>The bounded worker pool (\<^verbatim>\<open>acp/worker_pool.py\<close>)\<close>

text \<open>
  Callers of \<^verbatim>\<open>send\<close> and \<^verbatim>\<open>shutdown\<close> run concurrently on one event loop. No
  critical section of the pool's lock awaits anything, so the code between two \<^verbatim>\<open>await\<close>s is
  one atomic segment and the lock is never contended: a state is the pool's fields and, for each
  call, the \<^verbatim>\<open>await\<close> it is suspended at (\<open>phase\<close>); an event completes one of these
  awaits, or cancels the call there. Which workers are alive, which one the factory returns, what
  \<^verbatim>\<open>pid()\<close> reports and whether a start, a reset or a task succeeds is carried by the event.
  A waiter of a semaphore may be woken in any order, which allows more than asyncio's first-in
  first-out. \<open>shield\<close> is the set \<^verbatim>\<open>_PROTECTED_PIDS\<close> of \<^verbatim>\<open>session_pid.py\<close>.
\<close>

type_synonym worker = nat

datatype phase =
    Waiting bool
  | Reaping "worker list" "worker option" bool
  | StartWait
  | Launching worker
  | Using worker bool
  | Retiring worker
  | Draining "worker list"
  | Finished

record pool =
  max_workers :: nat
  max_starting :: nat
  permits :: nat
  start_permits :: nat
  idle :: "worker list"
  created :: int
  closing :: bool
  protected :: "(worker, int) dict"
  shield :: "int set"
  calls :: "phase list"

datatype pool_event =
    Acquire bool
  | Grant nat "worker \<Rightarrow> bool"
  | ShutdownReturns nat
  | StartGrant nat worker
  | Started nat "int option"
  | StartFails nat
  | ResetDone nat "int option"
  | TaskEnds nat bool bool
  | Cancel nat
  | Shutdown

definition new_pool :: "int \<Rightarrow> int \<Rightarrow> int set \<Rightarrow> pool" where
  "new_pool max_w max_s foreign =
     \<lparr>max_workers = nat (max 1 max_w), max_starting = nat (max 1 max_s),
      permits = nat (max 1 max_w), start_permits = nat (max 1 max_s),
      idle = [], created = 0, closing = False, protected = [], shield = foreign, calls = []\<rparr>"

text \<open>\<^verbatim>\<open>_worker_pid\<close>: what \<^verbatim>\<open>pid()\<close> reports, \<open>None\<close> when there is no such method, it
  raises, or the value is no \<^verbatim>\<open>int\<close>.\<close>

definition worker_pid :: "int option \<Rightarrow> int option" where
  "worker_pid reported = (case reported of Some p \<Rightarrow> if 0 < p then Some p else None | None \<Rightarrow> None)"

definition unregister_pid :: "int \<Rightarrow> pool \<Rightarrow> pool" where
  "unregister_pid p s = s\<lparr>shield := shield s - {p}\<rparr>"

definition register_pid :: "int \<Rightarrow> pool \<Rightarrow> pool" where
  "register_pid p s = (if 0 < p then s\<lparr>shield := insert p (shield s)\<rparr> else s)"

definition sync_protection :: "worker \<Rightarrow> int option \<Rightarrow> pool \<Rightarrow> pool" where
  "sync_protection w reported s =
     (let new = worker_pid reported; old = dict_get (protected s) w
      in if old = new then s
         else let s1 = (case old of
                  Some p \<Rightarrow> (unregister_pid p s)\<lparr>protected := dict_pop w (protected s)\<rparr>
                | None \<Rightarrow> s)
              in (case new of
                  Some p \<Rightarrow> (register_pid p s1)\<lparr>protected := dict_set w p (protected s1)\<rparr>
                | None \<Rightarrow> s1))"

definition release_protection :: "worker \<Rightarrow> pool \<Rightarrow> pool" where
  "release_protection w s = (case dict_get (protected s) w of
       Some p \<Rightarrow> unregister_pid p (s\<lparr>protected := dict_pop w (protected s)\<rparr>)
     | None \<Rightarrow> s)"

text \<open>The loop of \<^verbatim>\<open>_get_or_create\<close> over the idle set, last first: what stays idle, the dead
  workers to reap, and the live one found.\<close>

fun pop_idle :: "(worker \<Rightarrow> bool) \<Rightarrow> worker list \<Rightarrow> worker list \<times> worker list \<times> worker option" where
  "pop_idle alive [] = ([], [], None)"
| "pop_idle alive (cand # rest) =
     (if alive cand then (rest, [], Some cand)
      else (case pop_idle alive rest of (rest', reap, w) \<Rightarrow> (rest', cand # reap, w)))"

definition take_idle :: "(worker \<Rightarrow> bool) \<Rightarrow> pool \<Rightarrow> pool \<times> worker list \<times> worker option" where
  "take_idle alive s = (case pop_idle alive (rev (idle s)) of (rest, reap, w) \<Rightarrow>
     (s\<lparr>idle := rev rest,
        created := created s - int (length reap) + (if w = None then 1 else 0)\<rparr>, reap, w))"

text \<open>Suspending at an \<^verbatim>\<open>await\<close>; a retirement drops the shield before it awaits the
  worker's shutdown.\<close>

definition enter_phase :: "nat \<Rightarrow> phase \<Rightarrow> pool \<Rightarrow> pool" where
  "enter_phase i p s =
     (let s' = (case p of
          Reaping (d # _) _ _ \<Rightarrow> release_protection d s
        | Retiring w \<Rightarrow> release_protection w s
        | Draining (d # _) \<Rightarrow> release_protection d s
        | _ \<Rightarrow> s)
      in s'\<lparr>calls := (calls s')[i := p]\<rparr>)"

definition after_reap :: "worker list \<Rightarrow> worker option \<Rightarrow> bool \<Rightarrow> phase" where
  "after_reap reap w reset = (case reap of
       d # ds \<Rightarrow> Reaping reap w reset
     | [] \<Rightarrow> (case w of Some v \<Rightarrow> Using v reset | None \<Rightarrow> StartWait))"

definition after_drain :: "worker list \<Rightarrow> phase" where
  "after_drain ws = (if ws = [] then Finished else Draining ws)"

definition release_worker :: "nat \<Rightarrow> worker \<Rightarrow> bool \<Rightarrow> bool \<Rightarrow> pool \<Rightarrow> pool" where
  "release_worker i w healthy alive s =
     (if healthy \<and> \<not> closing s \<and> alive
      then enter_phase i Finished (s\<lparr>idle := idle s @ [w], permits := Suc (permits s)\<rparr>)
      else enter_phase i (Retiring w) (s\<lparr>created := created s - 1\<rparr>))"

definition start_fails :: "nat \<Rightarrow> pool \<Rightarrow> pool" where
  "start_fails i s = enter_phase i Finished
     (s\<lparr>created := created s - 1, permits := Suc (permits s)\<rparr>)"

definition shutdown_pool :: "pool \<Rightarrow> pool" where
  "shutdown_pool s =
     (let ws = idle s;
          s' = s\<lparr>closing := True, idle := [], created := created s - int (length ws),
                 calls := calls s @ [Finished]\<rparr>
      in enter_phase (length (calls s)) (after_drain ws) s')"

definition phase_at :: "nat \<Rightarrow> pool \<Rightarrow> phase" where
  "phase_at i s = (if i < length (calls s) then calls s ! i else Finished)"

definition cancel_call :: "nat \<Rightarrow> pool \<Rightarrow> pool option" where
  "cancel_call i s = (case phase_at i s of
       Waiting _ \<Rightarrow> Some (enter_phase i Finished s)
     | Reaping _ _ _ \<Rightarrow> Some (enter_phase i Finished (s\<lparr>permits := Suc (permits s)\<rparr>))
     | StartWait \<Rightarrow> Some (start_fails i s)
     | Launching w \<Rightarrow> Some (start_fails i (s\<lparr>start_permits := Suc (start_permits s)\<rparr>))
     | Using w _ \<Rightarrow> Some (release_worker i w False False s)
     | Retiring w \<Rightarrow> Some (enter_phase i Finished (s\<lparr>permits := Suc (permits s)\<rparr>))
     | Draining _ \<Rightarrow> Some (enter_phase i Finished s)
     | Finished \<Rightarrow> None)"

text \<open>One event; \<open>None\<close> when it cannot happen in this state. The flag of \<open>Acquire\<close>,
  \<open>Waiting\<close>, \<open>Reaping\<close> is the \<^verbatim>\<open>reset\<close> argument; that of \<open>Using\<close> says
  that the reset of a reused worker is still to be done, before which no task runs.\<close>

fun pool_step :: "pool_event \<Rightarrow> pool \<Rightarrow> pool option" where
  "pool_step (Acquire reset) s =
     (if closing s then Some s else Some (s\<lparr>calls := calls s @ [Waiting reset]\<rparr>))"
| "pool_step (Grant i alive) s = (case phase_at i s of
       Waiting reset \<Rightarrow>
         if permits s = 0 then None
         else (case take_idle alive (s\<lparr>permits := permits s - 1\<rparr>) of (s', reap, w) \<Rightarrow>
                 Some (enter_phase i (after_reap reap w reset) s'))
     | _ \<Rightarrow> None)"
| "pool_step (ShutdownReturns i) s = (case phase_at i s of
       Reaping (d # ds) w reset \<Rightarrow> Some (enter_phase i (after_reap ds w reset) s)
     | Retiring w \<Rightarrow> Some (enter_phase i Finished (s\<lparr>permits := Suc (permits s)\<rparr>))
     | Draining (d # ds) \<Rightarrow> Some (enter_phase i (after_drain ds) s)
     | _ \<Rightarrow> None)"
| "pool_step (StartGrant i w) s = (case phase_at i s of
       StartWait \<Rightarrow>
         if start_permits s = 0 then None
         else Some (enter_phase i (Launching w) (s\<lparr>start_permits := start_permits s - 1\<rparr>))
     | _ \<Rightarrow> None)"
| "pool_step (Started i reported) s = (case phase_at i s of
       Launching w \<Rightarrow> Some (enter_phase i (Using w False)
         (sync_protection w reported (s\<lparr>start_permits := Suc (start_permits s)\<rparr>)))
     | _ \<Rightarrow> None)"
| "pool_step (StartFails i) s = (case phase_at i s of
       Launching w \<Rightarrow> Some (start_fails i (s\<lparr>start_permits := Suc (start_permits s)\<rparr>))
     | _ \<Rightarrow> None)"
| "pool_step (ResetDone i reported) s = (case phase_at i s of
       Using w True \<Rightarrow> Some (enter_phase i (Using w False) (sync_protection w reported s))
     | _ \<Rightarrow> None)"
| "pool_step (TaskEnds i healthy alive) s = (case phase_at i s of
       Using w reset_due \<Rightarrow>
         if healthy \<and> reset_due then None else Some (release_worker i w healthy alive s)
     | _ \<Rightarrow> None)"
| "pool_step (Cancel i) s = cancel_call i s"
| "pool_step Shutdown s = Some (shutdown_pool s)"

primrec pool_run :: "pool_event list \<Rightarrow> pool \<Rightarrow> pool option" where
  "pool_run [] s = Some s"
| "pool_run (e # es) s = (case pool_step e s of None \<Rightarrow> None | Some s' \<Rightarrow> pool_run es s')"

definition pool_stats :: "pool \<Rightarrow> int \<times> nat \<times> int \<times> nat \<times> nat" where
  "pool_stats s = (created s, length (idle s), max 0 (created s - int (length (idle s))),
     max_workers s, max_starting s)"

subsection \<open>Accounts\<close>

text \<open>What a suspended call holds: a slot of the worker count, a permit of the task semaphore, a
  permit of the start semaphore.\<close>

fun slot :: "phase \<Rightarrow> nat" where
  "slot (Reaping _ _ _) = 1"
| "slot StartWait = 1"
| "slot (Launching _) = 1"
| "slot (Using _ _) = 1"
| "slot _ = 0"

fun permit :: "phase \<Rightarrow> nat" where
  "permit (Retiring _) = 1"
| "permit p = slot p"

fun starting :: "phase \<Rightarrow> nat" where
  "starting (Launching _) = 1"
| "starting _ = 0"

definition held :: "(phase \<Rightarrow> nat) \<Rightarrow> pool \<Rightarrow> nat" where
  "held f s = sum_list (map f (calls s))"

lemma held_append [simp]: "held f (s\<lparr>calls := calls s @ [p]\<rparr>) = held f s + f p"
  by (simp add: held_def)

lemma sum_list_map_update:
  fixes f :: "'a \<Rightarrow> nat"
  shows "i < length xs \<Longrightarrow> sum_list (map f (xs[i := q])) + f (xs ! i) = sum_list (map f xs) + f q"
proof (induction xs arbitrary: i)
  case (Cons x xs)
  then show ?case by (cases i) (auto simp: algebra_simps)
qed simp

lemma phase_at_active:
  "phase_at i s = p \<Longrightarrow> p \<noteq> Finished \<Longrightarrow> i < length (calls s) \<and> calls s ! i = p"
  by (auto simp: phase_at_def split: if_splits)

lemma release_protection_fields [simp]:
  "max_workers (release_protection w s) = max_workers s" "max_starting (release_protection w s) = max_starting s"
  "permits (release_protection w s) = permits s" "start_permits (release_protection w s) = start_permits s"
  "idle (release_protection w s) = idle s" "created (release_protection w s) = created s"
  "closing (release_protection w s) = closing s" "calls (release_protection w s) = calls s"
  by (auto simp: release_protection_def unregister_pid_def split: option.splits)

lemma sync_protection_fields [simp]:
  "max_workers (sync_protection w r s) = max_workers s" "max_starting (sync_protection w r s) = max_starting s"
  "permits (sync_protection w r s) = permits s" "start_permits (sync_protection w r s) = start_permits s"
  "idle (sync_protection w r s) = idle s" "created (sync_protection w r s) = created s"
  "closing (sync_protection w r s) = closing s" "calls (sync_protection w r s) = calls s"
  by (auto simp: sync_protection_def unregister_pid_def register_pid_def Let_def split: option.splits)

lemma enter_phase_fields [simp]:
  "max_workers (enter_phase i p s) = max_workers s" "max_starting (enter_phase i p s) = max_starting s"
  "permits (enter_phase i p s) = permits s" "start_permits (enter_phase i p s) = start_permits s"
  "idle (enter_phase i p s) = idle s" "created (enter_phase i p s) = created s"
  "closing (enter_phase i p s) = closing s" "calls (enter_phase i p s) = (calls s)[i := p]"
  by (auto simp: enter_phase_def Let_def split: phase.splits list.splits)

lemma pop_idle_lengths:
  "pop_idle alive ws = (rest, reap, w) \<Longrightarrow>
     length ws = length rest + length reap + (if w = None then 0 else 1) \<and> (w = None \<longrightarrow> rest = [])"
  by (induction alive ws arbitrary: rest reap w rule: pop_idle.induct) (auto split: if_splits prod.splits)

lemma take_idle_fields:
  assumes "take_idle alive s = (s', reap, w)"
  shows "max_workers s' = max_workers s" "max_starting s' = max_starting s" "permits s' = permits s"
    "start_permits s' = start_permits s" "closing s' = closing s" "calls s' = calls s"
    "protected s' = protected s" "shield s' = shield s"
    "created s' - int (length (idle s')) = created s - int (length (idle s)) + 1"
    "created s' \<le> (if w = None then 1 + created s - int (length (idle s)) else created s)"
    "closing s \<longrightarrow> idle s = [] \<Longrightarrow> closing s \<longrightarrow> idle s' = []"
  using assms pop_idle_lengths [of alive "rev (idle s)"]
  by (auto simp: take_idle_def split: prod.splits)

lemma slot_permit: "slot p \<le> permit p"
  by (cases p) auto

lemma after_reap_weights [simp]:
  "slot (after_reap reap w r) = 1" "permit (after_reap reap w r) = 1" "starting (after_reap reap w r) = 0"
  by (auto simp: after_reap_def split: list.splits option.splits)

lemma after_drain_weights [simp]:
  "slot (after_drain ws) = 0" "permit (after_drain ws) = 0" "starting (after_drain ws) = 0"
  by (auto simp: after_drain_def)

text \<open>A call that is cancelled while it reaps the dead workers it found leaves its slot counted: one more slot is lost.\<close>

definition leak :: "pool_event \<Rightarrow> pool \<Rightarrow> nat" where
  "leak e s = (case e of Cancel i \<Rightarrow> (case phase_at i s of Reaping _ _ _ \<Rightarrow> 1 | _ \<Rightarrow> 0) | _ \<Rightarrow> 0)"

text \<open>All that can happen, with the number of slots lost on the way.\<close>

inductive pool_reaches :: "pool \<Rightarrow> nat \<Rightarrow> pool \<Rightarrow> bool" for s0 where
  start: "pool_reaches s0 0 s0"
| step: "pool_reaches s0 n s \<Longrightarrow> pool_step e s = Some s' \<Longrightarrow> pool_reaches s0 (n + leak e s) s'"

text \<open>The histories in which no call is cancelled while it retires workers that are not its own.\<close>

definition orderly :: "pool_event \<Rightarrow> pool \<Rightarrow> bool" where
  "orderly e s = (case e of
       Cancel i \<Rightarrow> (case phase_at i s of Reaping _ _ _ \<Rightarrow> False | Draining _ \<Rightarrow> False | _ \<Rightarrow> True)
     | _ \<Rightarrow> True)"

inductive pool_orderly :: "pool \<Rightarrow> pool \<Rightarrow> bool" for s0 where
  here: "pool_orderly s0 s0"
| more: "pool_orderly s0 s \<Longrightarrow> orderly e s \<Longrightarrow> pool_step e s = Some s' \<Longrightarrow> pool_orderly s0 s'"

lemma orderly_leak: "orderly e s \<Longrightarrow> leak e s = 0"
  by (auto simp: orderly_def leak_def split: pool_event.splits phase.splits)

lemma orderly_reaches: "pool_orderly s0 s \<Longrightarrow> pool_reaches s0 0 s"
proof (induction rule: pool_orderly.induct)
  case (more s e s')
  show ?case using pool_reaches.step [OF more(4,3)] orderly_leak [OF more(2)] by simp
qed (rule pool_reaches.start)

lemma held_enter:
  assumes "phase_at i s = p" "p \<noteq> Finished" "calls s' = calls s"
  shows "held f (enter_phase i q s') + f p = held f s + f q"
  using sum_list_map_update [of i "calls s" f q] phase_at_active [OF assms(1,2)] assms(3)
  by (simp add: held_def)

text \<open>The three balances, each the free part plus what the calls hold.\<close>

definition balances :: "pool \<Rightarrow> nat \<times> nat \<times> int" where
  "balances s = (permits s + held permit s, start_permits s + held starting s,
     created s - int (length (idle s)) - int (held slot s))"

lemma balances_enter:
  assumes "phase_at i s = p" "p \<noteq> Finished" "calls s' = calls s"
    "permits s' + permit q = permits s + permit p"
    "start_permits s' + starting q = start_permits s + starting p"
    "created s' - int (length (idle s')) - int (slot q) = created s - int (length (idle s)) - int (slot p)"
  shows "balances (enter_phase i q s') = balances s"
  using assms(4-) held_enter [OF assms(1-3), of permit q] held_enter [OF assms(1-3), of starting q]
    held_enter [OF assms(1-3), of slot q]
  by (simp add: balances_def)

lemma release_balances:
  "phase_at i s = Using w r \<Longrightarrow> balances (release_worker i w healthy alive s) = balances s"
  unfolding release_worker_def by (auto intro!: balances_enter)

lemma start_fails_balances:
  "phase_at i s = StartWait \<Longrightarrow> balances (start_fails i s) = balances s"
  "phase_at i s = Launching w \<Longrightarrow>
     balances (start_fails i (s\<lparr>start_permits := Suc (start_permits s)\<rparr>)) = balances s"
  unfolding start_fails_def by (auto intro!: balances_enter)

lemma shutdown_balances: "balances (shutdown_pool s) = balances s"
proof -
  have "held f (shutdown_pool s) = held f s + f (after_drain (idle s))" for f
    by (simp add: shutdown_pool_def Let_def held_def)
  then show ?thesis by (simp add: balances_def) (simp add: shutdown_pool_def Let_def)
qed

lemma cancel_reap_balances:
  assumes "phase_at i s = Reaping ws w r"
  shows "balances (enter_phase i Finished (s\<lparr>permits := Suc (permits s)\<rparr>)) = apsnd (apsnd ((+) 1)) (balances s)"
  using held_enter [of i s "Reaping ws w r" "s\<lparr>permits := Suc (permits s)\<rparr>" permit Finished]
    held_enter [of i s "Reaping ws w r" "s\<lparr>permits := Suc (permits s)\<rparr>" starting Finished]
    held_enter [of i s "Reaping ws w r" "s\<lparr>permits := Suc (permits s)\<rparr>" slot Finished] assms
  by (simp add: balances_def)

lemma apsnd_zero [simp]: "apsnd (apsnd ((+) (0::int))) x = x"
  by (cases x) simp

lemma step_balances:
  assumes "pool_step e s = Some s'"
  shows "balances s' = apsnd (apsnd ((+) (int (leak e s)))) (balances s)"
proof (cases e)
  case (Acquire r)
  with assms(1) show ?thesis by (auto simp: leak_def balances_def split: if_splits)
next
  case (Grant i alive)
  with assms(1) obtain r where p: "phase_at i s = Waiting r" "0 < permits s"
    by (auto split: phase.splits if_splits)
  obtain s1 reap w where t: "take_idle alive (s\<lparr>permits := permits s - 1\<rparr>) = (s1, reap, w)"
    by (metis prod_cases3)
  from Grant assms(1) p t have "s' = enter_phase i (after_reap reap w r) s1" by simp
  then show ?thesis using take_idle_fields [OF t] p Grant by (auto simp: leak_def intro!: balances_enter [OF p(1)])
next
  case (ShutdownReturns i)
  then show ?thesis using assms(1)
    by (auto simp: leak_def split: phase.splits list.splits intro!: balances_enter)
next
  case (StartGrant i w)
  then show ?thesis using assms(1)
    by (auto simp: leak_def split: phase.splits if_splits intro!: balances_enter)
next
  case (Started i r)
  then show ?thesis using assms(1) by (auto simp: leak_def split: phase.splits intro!: balances_enter)
next
  case (StartFails i)
  then show ?thesis using assms(1) by (auto split: phase.splits simp: leak_def start_fails_balances)
next
  case (ResetDone i r)
  then show ?thesis using assms(1)
    by (auto simp: leak_def split: phase.splits bool.splits intro!: balances_enter)
next
  case (TaskEnds i h a)
  then show ?thesis using assms(1)
    by (auto split: phase.splits if_splits simp: leak_def release_balances)
next
  case (Cancel i)
  then show ?thesis using assms
    by (auto simp: cancel_call_def leak_def release_balances start_fails_balances cancel_reap_balances
        split: phase.splits intro!: balances_enter)
next
  case Shutdown
  then show ?thesis using assms(1) by (auto simp: leak_def shutdown_balances)
qed

text \<open>What both semaphores promise: what is free and what is held add up, so no more is held than
  there is.\<close>

locale semaphore_account =
  fixes avail :: "pool \<Rightarrow> nat"
    and cost :: "phase \<Rightarrow> nat"
    and cap :: "pool \<Rightarrow> nat"
  assumes step_conserves: "pool_step e s = Some s' \<Longrightarrow> avail s' + held cost s' = avail s + held cost s"
    and step_cap: "pool_step e s = Some s' \<Longrightarrow> cap s' = cap s"
begin

lemma account:
  "pool_reaches s0 n s \<Longrightarrow> avail s0 + held cost s0 = cap s0 \<Longrightarrow> avail s + held cost s = cap s \<and> cap s = cap s0"
  by (induction rule: pool_reaches.induct) (auto simp: step_conserves step_cap)

lemma held_le_cap:
  "pool_reaches s0 n s \<Longrightarrow> avail s0 + held cost s0 = cap s0 \<Longrightarrow> held cost s \<le> cap s0"
  using account by fastforce

end

lemma take_idle_caps:
  "take_idle alive s = (s', x) \<Longrightarrow> max_workers s' = max_workers s \<and> max_starting s' = max_starting s"
  by (cases x) (auto dest: take_idle_fields)

lemma step_caps:
  "pool_step e s = Some s' \<Longrightarrow> max_workers s' = max_workers s \<and> max_starting s' = max_starting s"
  by (cases e)
    (auto simp: cancel_call_def start_fails_def release_worker_def shutdown_pool_def Let_def
      split: phase.splits if_splits prod.splits list.splits bool.splits dest!: take_idle_caps)

interpretation task_sema: semaphore_account permits permit max_workers
  by unfold_locales (use step_balances in \<open>force simp: balances_def\<close>, use step_caps in blast)

interpretation start_sema: semaphore_account start_permits starting max_starting
  by unfold_locales (use step_balances in \<open>force simp: balances_def\<close>, use step_caps in blast)

subsection \<open>Which processes are shielded\<close>

fun shielded_by :: "phase \<Rightarrow> worker list" where
  "shielded_by (Reaping ws w _) = tl ws @ (case w of Some v \<Rightarrow> [v] | None \<Rightarrow> [])"
| "shielded_by (Using w _) = [w]"
| "shielded_by (Draining ws) = tl ws"
| "shielded_by _ = []"

text \<open>The worker a call unshields when it suspends in this phase.\<close>

fun dropped :: "phase \<Rightarrow> worker set" where
  "dropped (Reaping (d # _) _ _) = {d}"
| "dropped (Retiring w) = {w}"
| "dropped (Draining (d # _)) = {d}"
| "dropped _ = {}"

definition covered :: "pool \<Rightarrow> bool" where
  "covered s = (\<forall>k \<in> fst ` set (protected s).
     k \<in> set (idle s) \<or> (\<exists>p \<in> set (calls s). k \<in> set (shielded_by p)))"

definition shield_ok :: "int set \<Rightarrow> pool \<Rightarrow> bool" where
  "shield_ok foreign s = (dict_ok (protected s) \<and> shield s \<subseteq> foreign \<union> snd ` set (protected s))"

lemma fst_dict_pop: "fst ` set (dict_pop k d) = fst ` set d - {k}"
  by (auto simp: AList.delete_eq)

lemma fst_dict_set: "fst ` set (dict_set k v d) = insert k (fst ` set d)"
  by (induction d) auto

lemma snd_dict_pop:
  assumes "dict_ok d" "dict_get d k = Some v"
  shows "snd ` set d \<subseteq> insert v (snd ` set (dict_pop k d))"
proof
  fix x
  assume "x \<in> snd ` set d"
  then obtain a where a: "(a, x) \<in> set d" by auto
  show "x \<in> insert v (snd ` set (dict_pop k d))"
  proof (cases "a = k")
    case True
    with a assms show ?thesis by (simp add: map_of_is_SomeI)
  next
    case False
    with a have "(a, x) \<in> set (dict_pop k d)" by (auto simp: AList.delete_eq)
    then show ?thesis by (auto intro: rev_image_eqI)
  qed
qed

lemma release_protection_keys:
  "fst ` set (protected (release_protection w s)) = fst ` set (protected s) - {w}"
proof (cases "dict_get (protected s) w")
  case None
  then have "w \<notin> fst ` set (protected s)" by (simp add: map_of_eq_None_iff)
  with None show ?thesis by (simp add: release_protection_def)
next
  case (Some p)
  then show ?thesis by (simp add: release_protection_def unregister_pid_def fst_dict_pop)
qed

lemma release_protection_ok: "shield_ok foreign s \<Longrightarrow> shield_ok foreign (release_protection w s)"
proof (cases "dict_get (protected s) w")
  case (Some p)
  assume "shield_ok foreign s"
  with snd_dict_pop [OF _ Some] have "shield s - {p} \<subseteq> foreign \<union> snd ` set (dict_pop w (protected s))"
    unfolding shield_ok_def by blast
  with \<open>shield_ok foreign s\<close> Some show ?thesis
    by (simp add: shield_ok_def release_protection_def unregister_pid_def)
qed (simp add: release_protection_def)

lemma sync_protection_keys:
  "fst ` set (protected (sync_protection w r s)) \<subseteq> insert w (fst ` set (protected s))"
  by (cases "dict_get (protected s) w"; cases "worker_pid r")
    (auto simp: sync_protection_def unregister_pid_def register_pid_def fst_dict_pop fst_dict_set Let_def
      simp del: dict_set_new)

lemma sync_protection_ok: "shield_ok foreign s \<Longrightarrow> shield_ok foreign (sync_protection w r s)"
proof -
  assume ok: "shield_ok foreign s"
  have new: "shield_ok foreign ((register_pid p s1)\<lparr>protected := dict_set w p (protected s1)\<rparr>)"
    if "shield_ok foreign s1" "w \<notin> set (dict_keys (protected s1))" for p s1
    using that by (auto simp: shield_ok_def register_pid_def)
  have s1: "shield_ok foreign ((unregister_pid p s)\<lparr>protected := dict_pop w (protected s)\<rparr>)"
    if "dict_get (protected s) w = Some p" for p
    using release_protection_ok [OF ok, of w] that
    by (simp add: release_protection_def unregister_pid_def shield_ok_def)
  show ?thesis
  proof (cases "dict_get (protected s) w")
    case None
    then have "w \<notin> set (dict_keys (protected s))" by (simp add: map_of_eq_None_iff)
    then show ?thesis using new [OF ok] ok None
      by (simp add: sync_protection_def Let_def split: option.splits)
  next
    case (Some p)
    have "w \<notin> set (dict_keys (protected ((unregister_pid p s)\<lparr>protected := dict_pop w (protected s)\<rparr>)))"
      by (simp add: fst_dict_pop)
    from new [OF s1 [OF Some] this] ok s1 [OF Some] Some show ?thesis
      by (simp add: sync_protection_def Let_def split: option.splits)
  qed
qed

lemma enter_phase_keys:
  "fst ` set (protected (enter_phase i p s)) = fst ` set (protected s) - dropped p"
  by (cases p) (auto simp: enter_phase_def release_protection_keys split: list.splits)

lemma enter_phase_ok: "shield_ok foreign s \<Longrightarrow> shield_ok foreign (enter_phase i p s)"
proof -
  assume s: "shield_ok foreign s"
  have c: "shield_ok foreign (t\<lparr>calls := xs\<rparr>) = shield_ok foreign t" for t xs
    by (simp add: shield_ok_def)
  show ?thesis using s release_protection_ok [OF s]
    by (cases p) (auto simp: enter_phase_def c split: list.splits)
qed

lemma set_update_other: "r \<in> set xs \<Longrightarrow> r \<noteq> xs ! i \<Longrightarrow> r \<in> set (xs[i := q])"
  by (auto simp: in_set_conv_nth nth_list_update) (metis nth_list_update_neq)

lemma covered_enter:
  assumes "phase_at i s = p" "p \<noteq> Finished" "calls s' = calls s" "covered s"
    "fst ` set (protected s') \<subseteq> fst ` set (protected s) \<union> set (shielded_by q)"
    "set (idle s) \<union> set (shielded_by p) \<subseteq> set (idle s') \<union> set (shielded_by q) \<union> dropped q"
  shows "covered (enter_phase i q s')"
  unfolding covered_def enter_phase_fields
proof
  fix k
  assume "k \<in> fst ` set (protected (enter_phase i q s'))"
  then have k: "k \<in> fst ` set (protected s) \<union> set (shielded_by q)" "k \<notin> dropped q"
    using assms(5) by (auto simp: enter_phase_keys)
  have i: "i < length (calls s)" "calls s ! i = p" using phase_at_active [OF assms(1,2)] by auto
  then have q: "q \<in> set ((calls s')[i := q])" by (simp add: assms(3) set_update_memI)
  show "k \<in> set (idle s') \<or> (\<exists>p \<in> set ((calls s')[i := q]). k \<in> set (shielded_by p))"
  proof (cases "k \<in> set (shielded_by q)")
    case True
    with q show ?thesis by blast
  next
    case False
    with k(1) assms(4) consider "k \<in> set (idle s)"
      | r where "r \<in> set (calls s)" "k \<in> set (shielded_by r)"
      by (auto simp: covered_def)
    then show ?thesis
    proof cases
      case 1
      with assms(6) k(2) False show ?thesis by blast
    next
      case 2
      show ?thesis
      proof (cases "r = p")
        case True
        with 2 assms(6) k(2) False show ?thesis by blast
      next
        case False
        with 2 i have "r \<in> set ((calls s')[i := q])" by (simp add: assms(3) set_update_other)
        with 2 show ?thesis by blast
      qed
    qed
  qed
qed

lemma pop_idle_set:
  "pop_idle alive ws = (rest, reap, w) \<Longrightarrow> x \<in> set ws \<longleftrightarrow> x \<in> set rest \<or> x \<in> set reap \<or> w = Some x"
proof (induction ws arbitrary: rest reap w)
  case (Cons cand ws)
  obtain rest' reap' w' where r: "pop_idle alive ws = (rest', reap', w')" by (metis prod_cases3)
  show ?case using Cons.prems Cons.IH [OF r] by (auto simp: r split: if_splits)
qed simp

lemma take_idle_set:
  assumes "take_idle alive s = (s', reap, w)"
  shows "set (idle s) = set (idle s') \<union> (set reap \<union> set_option w)"
proof -
  obtain rest reap' w' where r: "pop_idle alive (rev (idle s)) = (rest, reap', w')" by (metis prod_cases3)
  with assms have "idle s' = rev rest" "reap' = reap" "w' = w" by (auto simp: take_idle_def)
  with pop_idle_set [OF r] show ?thesis by auto
qed

lemma after_reap_owns:
  "set reap \<union> set_option w = set (shielded_by (after_reap reap w r)) \<union> dropped (after_reap reap w r)"
  by (cases reap; cases w) (simp_all add: after_reap_def Un_commute insert_commute)

lemma after_drain_owns: "set ws = set (shielded_by (after_drain ws)) \<union> dropped (after_drain ws)"
  by (cases ws) (simp_all add: after_drain_def)

text \<open>The worker count, the closed pool's idle set and the cover, one event at a time.\<close>

definition pool_rest :: "int set \<Rightarrow> pool \<Rightarrow> bool" where
  "pool_rest foreign s = (created s \<le> int (max_workers s) \<and> (closing s \<longrightarrow> idle s = []) \<and>
     covered s \<and> shield_ok foreign s)"

lemma pool_rest_enter:
  assumes "pool_rest foreign s" "phase_at i s = p" "p \<noteq> Finished" "calls s' = calls s"
    "max_workers s' = max_workers s" "created s' \<le> int (max_workers s)" "closing s' \<longrightarrow> idle s' = []"
    "fst ` set (protected s') \<subseteq> fst ` set (protected s) \<union> set (shielded_by q)"
    "set (idle s) \<union> set (shielded_by p) \<subseteq> set (idle s') \<union> set (shielded_by q) \<union> dropped q"
    "shield_ok foreign s'"
  shows "pool_rest foreign (enter_phase i q s')"
  using assms covered_enter [OF assms(2-4) _ assms(8,9)] enter_phase_ok [OF assms(10)]
  by (simp add: pool_rest_def)

lemma shield_ok_fields [simp]:
  "shield_ok f (s\<lparr>permits := a\<rparr>) = shield_ok f s" "shield_ok f (s\<lparr>start_permits := a\<rparr>) = shield_ok f s"
  "shield_ok f (s\<lparr>idle := ws\<rparr>) = shield_ok f s" "shield_ok f (s\<lparr>created := c\<rparr>) = shield_ok f s"
  "shield_ok f (s\<lparr>closing := b\<rparr>) = shield_ok f s" "shield_ok f (s\<lparr>calls := cs\<rparr>) = shield_ok f s"
  by (simp_all add: shield_ok_def)

lemma pool_rest_release:
  assumes "pool_rest foreign s" "phase_at i s = Using w r"
  shows "pool_rest foreign (release_worker i w healthy alive s)"
  using assms(1) unfolding release_worker_def
  by (auto simp: pool_rest_def [of _ s] intro!: pool_rest_enter [OF assms])

lemma pool_rest_start_fails:
  assumes "pool_rest foreign s"
  shows "phase_at i s = StartWait \<Longrightarrow> pool_rest foreign (start_fails i s)"
    "phase_at i s = Launching w \<Longrightarrow>
       pool_rest foreign (start_fails i (s\<lparr>start_permits := Suc (start_permits s)\<rparr>))"
  using assms unfolding start_fails_def
  by (auto simp: pool_rest_def [of _ s] intro!: pool_rest_enter [OF assms])

lemma pool_rest_shutdown:
  assumes "pool_rest foreign s"
  shows "pool_rest foreign (shutdown_pool s)"
proof -
  let ?s1 = "s\<lparr>calls := calls s @ [Waiting False]\<rparr>"
  let ?s2 = "s\<lparr>closing := True, idle := [], created := created s - int (length (idle s)),
     calls := calls s @ [Waiting False]\<rparr>"
  have r1: "pool_rest foreign ?s1" using assms by (auto simp: pool_rest_def covered_def)
  have p1: "phase_at (length (calls s)) ?s1 = Waiting False" by (simp add: phase_at_def)
  have "pool_rest foreign (enter_phase (length (calls s)) (after_drain (idle s)) ?s2)"
    by (rule pool_rest_enter [OF r1 p1])
      (use assms after_drain_owns [of "idle s"] in \<open>auto simp: pool_rest_def\<close>)
  moreover have "enter_phase (length (calls s)) (after_drain (idle s)) ?s2 = shutdown_pool s"
    by (auto simp: shutdown_pool_def Let_def enter_phase_def release_protection_def unregister_pid_def
        split: phase.splits list.splits option.splits)
  ultimately show ?thesis by simp
qed

lemma pool_rest_grant:
  assumes "pool_rest foreign s" "balances s = (max_workers s, max_starting s, 0)"
    "phase_at i s = Waiting r" "0 < permits s"
    "take_idle alive (s\<lparr>permits := permits s - 1\<rparr>) = (s1, reap, w)"
  shows "pool_rest foreign (enter_phase i (after_reap reap w r) s1)"
proof -
  note F = take_idle_fields [OF assms(5)]
  have "held slot s \<le> held permit s" unfolding held_def by (rule sum_list_mono) (rule slot_permit)
  then have c: "created s1 \<le> int (max_workers s)"
    using F(10) assms(1,2,4) by (auto simp: balances_def pool_rest_def split: if_splits)
  show ?thesis
    by (rule pool_rest_enter [OF assms(1,3)])
      (use F c assms(1) take_idle_set [OF assms(5)] after_reap_owns [of reap w r] in
        \<open>auto simp: pool_rest_def shield_ok_def\<close>)
qed

lemma pool_rest_step:
  assumes "pool_rest foreign s" "balances s = (max_workers s, max_starting s, 0)"
    "pool_step e s = Some s'" "orderly e s"
  shows "pool_rest foreign s'"
proof (cases e)
  case (Acquire r)
  have "pool_rest foreign (s\<lparr>calls := calls s @ [Waiting r]\<rparr>)"
    using assms(1) by (fastforce simp: pool_rest_def covered_def)
  with Acquire assms show ?thesis by (auto split: if_splits)
next
  case (Grant i alive)
  with assms(3) obtain r where p: "phase_at i s = Waiting r" "0 < permits s"
    by (auto split: phase.splits if_splits)
  obtain s1 reap w where t: "take_idle alive (s\<lparr>permits := permits s - 1\<rparr>) = (s1, reap, w)"
    by (metis prod_cases3)
  from pool_rest_grant [OF assms(1,2) p t] show ?thesis using Grant assms(3) p t by simp
next
  case (ShutdownReturns i)
  with assms(3) consider d ds w r where "phase_at i s = Reaping (d # ds) w r" "s' = enter_phase i (after_reap ds w r) s"
    | w where "phase_at i s = Retiring w" "s' = enter_phase i Finished (s\<lparr>permits := Suc (permits s)\<rparr>)"
    | d ds where "phase_at i s = Draining (d # ds)" "s' = enter_phase i (after_drain ds) s"
    by (auto split: phase.splits list.splits)
  then show ?thesis
  proof cases
    case (1 d ds w r)
    have "set (shielded_by (Reaping (d # ds) w r)) = set ds \<union> set_option w" by (cases w) auto
    with after_reap_owns [of ds w r] show ?thesis unfolding 1(2)
      by (intro pool_rest_enter [OF assms(1) 1(1)]) (use assms(1) in \<open>auto simp: pool_rest_def\<close>)
  next
    case (2 w)
    show ?thesis unfolding 2(2)
      by (rule pool_rest_enter [OF assms(1) 2(1)]) (use assms(1) in \<open>auto simp: pool_rest_def\<close>)
  next
    case (3 d ds)
    show ?thesis unfolding 3(2)
      by (rule pool_rest_enter [OF assms(1) 3(1)])
        (use assms(1) after_drain_owns [of ds] in \<open>auto simp: pool_rest_def\<close>)
  qed
next
  case (StartGrant i w)
  with assms(1,3) show ?thesis
    by (auto simp: pool_rest_def [of _ s] split: phase.splits if_splits intro!: pool_rest_enter [OF assms(1)])
next
  case (Started i r)
  with assms(3) obtain w where w: "phase_at i s = Launching w"
    "s' = enter_phase i (Using w False) (sync_protection w r (s\<lparr>start_permits := Suc (start_permits s)\<rparr>))"
    by (auto split: phase.splits)
  show ?thesis unfolding w(2)
    by (rule pool_rest_enter [OF assms(1) w(1)])
      (use assms(1) sync_protection_keys [of w r "s\<lparr>start_permits := Suc (start_permits s)\<rparr>"] in
        \<open>auto simp: pool_rest_def sync_protection_ok\<close>)
next
  case (StartFails i)
  with assms(1,3) show ?thesis by (auto split: phase.splits simp: pool_rest_start_fails)
next
  case (ResetDone i r)
  with assms(3) obtain w where w: "phase_at i s = Using w True"
    "s' = enter_phase i (Using w False) (sync_protection w r s)"
    by (auto split: phase.splits bool.splits)
  show ?thesis unfolding w(2)
    by (rule pool_rest_enter [OF assms(1) w(1)])
      (use assms(1) sync_protection_keys [of w r s] in \<open>auto simp: pool_rest_def sync_protection_ok\<close>)
next
  case (TaskEnds i h a)
  with assms(1,3) show ?thesis by (auto split: phase.splits if_splits simp: pool_rest_release)
next
  case (Cancel i)
  with assms(3,4) consider r where "phase_at i s = Waiting r" "s' = enter_phase i Finished s"
    | "phase_at i s = StartWait" "s' = start_fails i s"
    | w where "phase_at i s = Launching w" "s' = start_fails i (s\<lparr>start_permits := Suc (start_permits s)\<rparr>)"
    | w r where "phase_at i s = Using w r" "s' = release_worker i w False False s"
    | w where "phase_at i s = Retiring w" "s' = enter_phase i Finished (s\<lparr>permits := Suc (permits s)\<rparr>)"
    by (auto simp: cancel_call_def orderly_def split: phase.splits)
  then show ?thesis
  proof cases
    case (1 r)
    then show ?thesis
      using assms(1) by (auto simp: pool_rest_def [of _ s] intro!: pool_rest_enter [OF assms(1) 1(1)])
  next
    case (5 w)
    then show ?thesis
      using assms(1) by (auto simp: pool_rest_def [of _ s] intro!: pool_rest_enter [OF assms(1) 5(1)])
  qed (use assms(1) in \<open>auto simp: pool_rest_start_fails pool_rest_release\<close>)
next
  case Shutdown
  with assms(1,3) show ?thesis by (auto simp: pool_rest_shutdown)
qed

text \<open>Over all histories: the balances, and the worker count up to the slots lost.\<close>

lemma step_count:
  assumes "pool_step e s = Some s'" "balances s = (max_workers s, max_starting s, int n)" "created s \<le> int (max_workers s) + int n"
  shows "created s' \<le> int (max_workers s) + int n"
proof (cases "\<exists>i alive. e = Grant i alive")
  case True
  then obtain i alive r s1 reap w where p: "0 < permits s"
      and t: "take_idle alive (s\<lparr>permits := permits s - 1\<rparr>) = (s1, reap, w)" "s' = enter_phase i (after_reap reap w r) s1"
    using assms(1) by (auto split: phase.splits if_splits prod.splits)
  have "held slot s \<le> held permit s" unfolding held_def by (rule sum_list_mono) (rule slot_permit)
  then show ?thesis using take_idle_fields(10) [OF t(1)] t(2) p assms(2,3) by (auto simp: balances_def split: if_splits)
next
  case False
  then have "created s' \<le> created s" using assms(1)
    by (cases e) (auto simp: cancel_call_def start_fails_def release_worker_def shutdown_pool_def Let_def
      split: phase.splits if_splits list.splits bool.splits)
  then show ?thesis using assms(3) by linarith
qed

lemma new_pool_counts:
  assumes "pool_reaches (new_pool mw ms foreign) n s"
  shows "balances s = (max_workers s, max_starting s, int n) \<and> created s \<le> int (max_workers s) + int n \<and>
    max_workers s = nat (max 1 mw) \<and> max_starting s = nat (max 1 ms)"
  using assms
proof (induction rule: pool_reaches.induct)
  case start
  then show ?case by (simp add: new_pool_def balances_def held_def)
next
  case (step n s e s')
  then show ?case using step_balances [of e s s'] step_caps [of e s s'] step_count [of e s s' n] by auto
qed

lemma new_pool_orderly:
  assumes "pool_orderly (new_pool mw ms foreign) s"
  shows "balances s = (max_workers s, max_starting s, 0)" "pool_rest foreign s"
    "max_workers s = nat (max 1 mw)" "max_starting s = nat (max 1 ms)"
proof -
  from assms have "balances s = (max_workers s, max_starting s, 0) \<and> pool_rest foreign s \<and>
    max_workers s = nat (max 1 mw) \<and> max_starting s = nat (max 1 ms)"
  proof (induction rule: pool_orderly.induct)
    case here
    then show ?case
      by (simp add: new_pool_def balances_def held_def pool_rest_def covered_def shield_ok_def)
  next
    case (more s e s')
    then show ?case
      using step_balances [of e s s'] orderly_leak [of e s] step_caps [of e s s'] pool_rest_step [of foreign s e s'] by simp
  qed
  then show "balances s = (max_workers s, max_starting s, 0)" "pool_rest foreign s"
    "max_workers s = nat (max 1 mw)" "max_starting s = nat (max 1 ms)" by auto
qed

subsection \<open>Every call comes to an end\<close>

fun rank :: "phase \<Rightarrow> nat" where
  "rank (Waiting _) = 7"
| "rank (Reaping ws _ _) = 5 + length ws"
| "rank StartWait = 5"
| "rank (Launching _) = 4"
| "rank (Using _ r) = (if r then 3 else 2)"
| "rank (Retiring _) = 1"
| "rank (Draining ws) = length ws"
| "rank Finished = 0"

definition work :: "pool \<Rightarrow> nat" where
  "work s = length (idle s) + held rank s"

text \<open>The events that complete an await of a call; new calls and cancellations come from
  outside.\<close>

fun progress :: "pool_event \<Rightarrow> bool" where
  "progress (Acquire _) = False"
| "progress Shutdown = False"
| "progress (Cancel _) = False"
| "progress _ = True"

definition phases_wf :: "pool \<Rightarrow> bool" where
  "phases_wf s = (\<forall>p \<in> set (calls s). case p of Reaping ws _ _ \<Rightarrow> ws \<noteq> [] | Draining ws \<Rightarrow> ws \<noteq> [] | _ \<Rightarrow> True)"

lemma phases_wf_enter:
  assumes "phases_wf s" "calls s' = calls s" "\<forall>w r. q \<noteq> Reaping [] w r" "q \<noteq> Draining []"
  shows "phases_wf (enter_phase i q s')"
proof -
  have "case p of Reaping ws _ _ \<Rightarrow> ws \<noteq> [] | Draining ws \<Rightarrow> ws \<noteq> [] | _ \<Rightarrow> True"
    if "p \<in> set ((calls s)[i := q])" for p
    using set_update_subset_insert [of "calls s" i q] that assms
    by (cases "p = q") (auto simp: phases_wf_def split: phase.splits)
  then show ?thesis using assms(2) by (simp add: phases_wf_def)
qed

lemma after_wf [simp]: "after_reap ds w r \<noteq> Reaping [] v q" "after_drain ws \<noteq> Draining []"
  "after_reap ds w r \<noteq> Draining xs"
  by (auto simp: after_reap_def after_drain_def split: list.splits option.splits)

lemma after_drain_Reaping [simp]: "after_drain ws \<noteq> Reaping xs v q"
  by (simp add: after_drain_def)

lemma phases_wf_step:
  assumes "phases_wf s" "pool_step e s = Some s'"
  shows "phases_wf s'"
proof (cases e)
  case (Acquire r)
  with assms show ?thesis by (auto simp: phases_wf_def split: if_splits)
next
  case (Grant i alive)
  obtain s1 reap w where t: "take_idle alive (s\<lparr>permits := permits s - 1\<rparr>) = (s1, reap, w)"
    by (metis prod_cases3)
  with Grant assms take_idle_fields(6) [OF t] show ?thesis
    by (auto split: phase.splits if_splits intro!: phases_wf_enter [OF assms(1)])
next
  case Shutdown
  have "phases_wf (s\<lparr>calls := calls s @ [Finished]\<rparr>)" using assms(1) by (auto simp: phases_wf_def)
  then have "phases_wf (enter_phase i (after_drain ws) (s\<lparr>closing := c, idle := [], created := k,
     calls := calls s @ [Finished]\<rparr>))" for i ws c k
    by (rule phases_wf_enter) simp_all
  with Shutdown assms(2) show ?thesis by (auto simp: shutdown_pool_def Let_def)
qed (use assms in \<open>auto simp: cancel_call_def start_fails_def release_worker_def
       split: phase.splits if_splits list.splits bool.splits intro!: phases_wf_enter [OF assms(1)]\<close>)

lemma work_enter:
  assumes "phase_at i s = p" "p \<noteq> Finished" "calls s' = calls s"
    "length (idle s') + rank q < length (idle s) + rank p"
  shows "work (enter_phase i q s') < work s"
  using assms(4) held_enter [OF assms(1-3), of rank q] by (simp add: work_def)

lemma take_idle_length:
  "take_idle alive s = (s', reap, w) \<Longrightarrow>
     length (idle s) = length (idle s') + length reap + (if w = None then 0 else 1)"
  using pop_idle_lengths [of alive "rev (idle s)"] by (auto simp: take_idle_def split: prod.splits)

lemma rank_after_reap: "rank (after_reap ds w r) \<le> 5 + length ds"
  by (auto simp: after_reap_def split: list.splits option.splits)

lemma rank_after_drain: "rank (after_drain ws) = length ws"
  by (simp add: after_drain_def)

lemma progress_step:
  assumes "progress e" "pool_step e s = Some s'"
  shows "work s' < work s"
proof (cases e)
  case (Grant i alive)
  with assms(2) obtain r where p: "phase_at i s = Waiting r" by (auto split: phase.splits)
  obtain s1 reap w where t: "take_idle alive (s\<lparr>permits := permits s - 1\<rparr>) = (s1, reap, w)"
    by (metis prod_cases3)
  show ?thesis
    using Grant assms(2) p t take_idle_fields(6) [OF t] take_idle_length [OF t] rank_after_reap [of reap w r]
    by (auto split: if_splits intro!: work_enter [OF p])
next
  case (ShutdownReturns i)
  with assms(2) consider d ds w r where "phase_at i s = Reaping (d # ds) w r" "s' = enter_phase i (after_reap ds w r) s"
    | w where "phase_at i s = Retiring w" "s' = enter_phase i Finished (s\<lparr>permits := Suc (permits s)\<rparr>)"
    | d ds where "phase_at i s = Draining (d # ds)" "s' = enter_phase i (after_drain ds) s"
    by (auto split: phase.splits list.splits)
  then show ?thesis
  proof cases
    case (1 d ds w r)
    with rank_after_reap [of ds w r] show ?thesis by (auto intro!: work_enter [OF 1(1)])
  next
    case (2 w)
    then show ?thesis by (auto intro!: work_enter [OF 2(1)])
  next
    case (3 d ds)
    then show ?thesis by (auto simp: rank_after_drain intro!: work_enter [OF 3(1)])
  qed
qed (use assms in \<open>auto simp: start_fails_def release_worker_def
       split: phase.splits if_splits bool.splits intro!: work_enter\<close>)

lemma held_pos:
  assumes "0 < held f s"
  shows "\<exists>i < length (calls s). 0 < f (calls s ! i)"
proof (rule ccontr)
  assume "\<not> ?thesis"
  then have "\<forall>n \<in> set (map f (calls s)). n = 0" by (auto simp: in_set_conv_nth)
  then have "held f s = 0" by (simp add: held_def)
  with assms show False by simp
qed

definition unfinished :: "pool \<Rightarrow> bool" where
  "unfinished s = list_ex (\<lambda>p. p \<noteq> Finished) (calls s)"

lemma unfinished_nth: "unfinished s \<longleftrightarrow> (\<exists>i < length (calls s). calls s ! i \<noteq> Finished)"
  by (simp add: unfinished_def list_ex_length)

text \<open>A call that is not waiting for a permit can be moved on.\<close>

lemma moves_on:
  assumes "phases_wf s" "i < length (calls s)" "calls s ! i \<noteq> Finished"
    "\<forall>r. calls s ! i \<noteq> Waiting r" "calls s ! i = StartWait \<Longrightarrow> 0 < start_permits s"
  shows "\<exists>e. progress e \<and> pool_step e s \<noteq> None"
proof -
  have wf: "case calls s ! i of Reaping ws _ _ \<Rightarrow> ws \<noteq> [] | Draining ws \<Rightarrow> ws \<noteq> [] | _ \<Rightarrow> True"
    using assms(1,2) by (simp add: phases_wf_def)
  have p: "phase_at i s = calls s ! i" using assms(2) by (simp add: phase_at_def)
  consider ws w r where "calls s ! i = Reaping ws w r" | "calls s ! i = StartWait"
    | w where "calls s ! i = Launching w" | w r where "calls s ! i = Using w r"
    | w where "calls s ! i = Retiring w" | ws where "calls s ! i = Draining ws"
    using assms(3,4) by (cases "calls s ! i") auto
  then show ?thesis
  proof cases
    case (1 ws w r)
    with wf p show ?thesis by (intro exI [of _ "ShutdownReturns i"]) (cases ws; simp)
  next
    case 2
    with assms(5) p show ?thesis by (intro exI [of _ "StartGrant i 0"]) simp
  next
    case (3 w)
    with p show ?thesis by (intro exI [of _ "StartFails i"]) simp
  next
    case (4 w r)
    with p show ?thesis by (intro exI [of _ "TaskEnds i False False"]) simp
  next
    case (5 w)
    with p show ?thesis by (intro exI [of _ "ShutdownReturns i"]) simp
  next
    case (6 ws)
    with wf p show ?thesis by (intro exI [of _ "ShutdownReturns i"]) (cases ws; simp)
  qed
qed

lemma not_stuck:
  assumes "phases_wf s" "balances s = (max_workers s, max_starting s, k)"
    "0 < max_workers s" "0 < max_starting s" "unfinished s"
  shows "\<exists>e. progress e \<and> pool_step e s \<noteq> None"
proof (cases "\<exists>i < length (calls s). calls s ! i \<noteq> Finished \<and> (\<forall>r. calls s ! i \<noteq> Waiting r)")
  case True
  then obtain i where i: "i < length (calls s)" "calls s ! i \<noteq> Finished" "\<forall>r. calls s ! i \<noteq> Waiting r" by blast
  show ?thesis
  proof (cases "calls s ! i = StartWait \<and> start_permits s = 0")
    case False
    with moves_on [OF assms(1) i] show ?thesis by auto
  next
    case True
    with assms(2,4) have "0 < held starting s" by (simp add: balances_def)
    from held_pos [OF this] obtain j where j: "j < length (calls s)" "0 < starting (calls s ! j)" by blast
    then obtain w where "calls s ! j = Launching w" by (cases "calls s ! j") auto
    with moves_on [OF assms(1) j(1)] show ?thesis by simp
  qed
next
  case False
  with assms(5) obtain i r where i: "i < length (calls s)" "calls s ! i = Waiting r"
    by (auto simp: unfinished_nth)
  have "\<not> (\<exists>i < length (calls s). 0 < permit (calls s ! i))"
    using False by (metis less_irrefl permit.simps(5,8) slot.simps(5,8) permit.simps slot.simps)
  with held_pos [of permit s] have "held permit s = 0" by blast
  with assms(2,3) have "0 < permits s" by (simp add: balances_def)
  obtain s1 reap w where "take_idle (\<lambda>_. True) (s\<lparr>permits := permits s - 1\<rparr>) = (s1, reap, w)"
    by (metis prod_cases3)
  with i \<open>0 < permits s\<close> have "pool_step (Grant i (\<lambda>_. True)) s \<noteq> None" by (simp add: phase_at_def)
  then show ?thesis by (intro exI [of _ "Grant i (\<lambda>_. True)"]) simp
qed

lemma reaches_wf: "pool_reaches (new_pool mw ms foreign) n s \<Longrightarrow> phases_wf s"
proof (induction rule: pool_reaches.induct)
  case start
  then show ?case by (simp add: new_pool_def phases_wf_def)
qed (blast intro: phases_wf_step)

text \<open>A concrete history, for the witnesses: the events of a run, each orderly in its state.\<close>

primrec orderly_run :: "pool_event list \<Rightarrow> pool \<Rightarrow> pool option" where
  "orderly_run [] s = Some s"
| "orderly_run (e # es) s = (if orderly e s then
     (case pool_step e s of None \<Rightarrow> None | Some s' \<Rightarrow> orderly_run es s') else None)"

lemma orderly_run_reaches_from:
  "orderly_run es s = Some s' \<Longrightarrow> pool_orderly s0 s \<Longrightarrow> pool_orderly s0 s'"
  by (induction es arbitrary: s) (auto split: if_splits option.splits intro: pool_orderly.more)

lemma orderly_run_reaches: "orderly_run es s = Some s' \<Longrightarrow> pool_orderly s s'"
  using orderly_run_reaches_from pool_orderly.here by blast

text \<open>Any history, with its lost slots.\<close>

primrec leaking_run :: "pool_event list \<Rightarrow> nat \<times> pool \<Rightarrow> (nat \<times> pool) option" where
  "leaking_run [] x = Some x"
| "leaking_run (e # es) x = (case pool_step e (snd x) of None \<Rightarrow> None | Some s' \<Rightarrow> leaking_run es (fst x + leak e (snd x), s'))"

lemma leaking_run_reaches_from:
  "leaking_run es x = Some y \<Longrightarrow> pool_reaches s0 (fst x) (snd x) \<Longrightarrow> pool_reaches s0 (fst y) (snd y)"
proof (induction es arbitrary: x)
  case (Cons e es)
  obtain s' where s': "pool_step e (snd x) = Some s'" "leaking_run es (fst x + leak e (snd x), s') = Some y"
    using Cons.prems(1) by (auto split: option.splits)
  show ?case by (rule Cons.IH [OF s'(2)]) (use pool_reaches.step [OF Cons.prems(2) s'(1)] in simp)
qed simp

lemma leaking_run_reaches: "leaking_run es (0, s) = Some (n, s') \<Longrightarrow> pool_reaches s n s'"
  using leaking_run_reaches_from [of es "(0, s)" "(n, s')" s] pool_reaches.start by simp

subsection \<open>The properties\<close>

fun is_using :: "phase \<Rightarrow> bool" where
  "is_using (Using _ _) = True"
| "is_using _ = False"

fun is_launching :: "phase \<Rightarrow> bool" where
  "is_launching (Launching _) = True"
| "is_launching _ = False"

lemma count_le_held:
  assumes "\<And>p. P p \<Longrightarrow> 1 \<le> f p"
  shows "length (filter P (calls s)) \<le> held f s"
proof -
  have "length (filter P ps) \<le> sum_list (map f ps)" for ps
    by (induction ps) (use assms in fastforce)+
  then show ?thesis by (simp add: held_def)
qed

text \<open>C15. The pool keeps its bounds. Whatever the interleaving of calls, cold starts, failures, resets, deaths,
  cancellations at any await and shutdowns, at most \<^verbatim>\<open>max_workers\<close> tasks run at once, at most
  \<^verbatim>\<open>max_starting\<close> workers are being launched, and the idle workers and the slots the calls hold are
  together at most \<^verbatim>\<open>max_workers\<close> (both limits at least one, whatever was asked for). The worker
  count is exactly these, plus one for each call that was cancelled while it reaped dead workers.\<close>

theorem pool_keeps_its_bounds:
  assumes "pool_reaches (new_pool mw ms foreign) n s"
  shows "int (length (filter is_using (calls s))) \<le> max 1 mw \<and>
    int (length (filter is_launching (calls s))) \<le> max 1 ms \<and>
    created s = int (length (idle s)) + int (held slot s) + int n \<and>
    int (length (idle s)) + int (held slot s) \<le> max 1 mw"
proof -
  note R = new_pool_counts [OF assms]
  have start: "permits (new_pool mw ms foreign) + held permit (new_pool mw ms foreign) = max_workers (new_pool mw ms foreign)"
    "start_permits (new_pool mw ms foreign) + held starting (new_pool mw ms foreign) = max_starting (new_pool mw ms foreign)"
    by (simp_all add: new_pool_def held_def)
  have "length (filter is_using (calls s)) \<le> held permit s"
    by (rule count_le_held) (auto elim: is_using.elims)
  moreover have "length (filter is_launching (calls s)) \<le> held starting s"
    by (rule count_le_held) (auto elim: is_launching.elims)
  moreover have "held permit s \<le> nat (max 1 mw)" "held starting s \<le> nat (max 1 ms)"
    using task_sema.held_le_cap [OF assms start(1)] start_sema.held_le_cap [OF assms start(2)]
    by (simp_all add: new_pool_def)
  moreover have "int (nat (max 1 mw)) = max 1 mw" "int (nat (max 1 ms)) = max 1 ms" by simp_all
  moreover have "created s = int (length (idle s)) + int (held slot s) + int n" "created s \<le> int (nat (max 1 mw)) + int n"
    using R by (auto simp: balances_def simp del: int_nat_eq)
  ultimately show ?thesis by linarith
qed

text \<open>A drained pool owns nothing. Once the pool is closed and every call has returned, no
  worker is left idle, the worker count is zero, every permit of both semaphores is back, no
  worker is recorded as shielded, and the shield holds no process id but those others put there.\<close>

theorem drained_pool_owns_nothing:
  assumes "pool_orderly (new_pool mw ms foreign) s" "closing s" "\<not> unfinished s"
  shows "idle s = [] \<and> created s = 0 \<and> permits s = max_workers s \<and> start_permits s = max_starting s \<and>
    protected s = [] \<and> shield s \<subseteq> foreign"
proof -
  note R = new_pool_orderly [OF assms(1)]
  have fin: "\<forall>p \<in> set (calls s). p = Finished" using assms(3) by (auto simp: unfinished_def list_ex_iff)
  then have z: "held f s = 0" if "f Finished = 0" for f :: "phase \<Rightarrow> nat"
    using that fin by (auto simp: held_def)
  have i: "idle s = []" using R(2) assms(2) by (simp add: pool_rest_def)
  have "protected s = []"
  proof (rule ccontr)
    assume "protected s \<noteq> []"
    then obtain k where "k \<in> fst ` set (protected s)" by (cases "protected s") auto
    with R(2) i obtain p where "p \<in> set (calls s)" "k \<in> set (shielded_by p)"
      unfolding pool_rest_def covered_def by auto
    with fin show False by auto
  qed
  with R i z show ?thesis by (simp add: balances_def pool_rest_def shield_ok_def)
qed

definition pool_history :: "pool_event list" where
  "pool_history = [Acquire True, Acquire True, Grant 0 (\<lambda>_. True), StartGrant 0 7, Started 0 (Some 41),
     TaskEnds 0 True True, Grant 1 (\<lambda>_. True), ResetDone 1 (Some 42), Shutdown, TaskEnds 1 True True,
     ShutdownReturns 1]"

lemma pool_history_runs:
  "orderly_run pool_history (new_pool 1 0 {9}) = Some
     \<lparr>max_workers = 1, max_starting = 1, permits = 1, start_permits = 1, idle = [], created = 0,
      closing = True, protected = [], shield = {9}, calls = [Finished, Finished, Finished]\<rparr>"
  by (simp add: pool_history_def new_pool_def orderly_def phase_at_def take_idle_def enter_phase_def
      after_reap_def sync_protection_def worker_pid_def register_pid_def unregister_pid_def
      release_worker_def release_protection_def shutdown_pool_def after_drain_def Let_def insert_Diff_if)

theorem drained_pool_owns_nothing_witness:
  "\<exists>s. orderly_run pool_history (new_pool 1 0 {9}) = Some s \<and> created s = 0 \<and> protected s = [] \<and> shield s \<subseteq> {9}"
  using drained_pool_owns_nothing [OF orderly_run_reaches [OF pool_history_runs]] pool_history_runs
  by (simp add: unfinished_def)

lemma pool_prefix_runs:
  "orderly_run (take 5 pool_history) (new_pool 1 0 {9}) = Some
     \<lparr>max_workers = 1, max_starting = 1, permits = 0, start_permits = 1, idle = [], created = 1,
      closing = False, protected = [(7, 41)], shield = {41, 9}, calls = [Using 7 False, Waiting True]\<rparr>"
  by (simp add: pool_history_def new_pool_def orderly_def phase_at_def take_idle_def enter_phase_def
      after_reap_def sync_protection_def worker_pid_def register_pid_def Let_def)

text \<open>Two workers are started and go idle; the next call finds the first dead and is cancelled while it reaps it. The slot of the live
  one it had picked stays counted, and the worker is neither idle nor ever retired.\<close>

definition leaking_history :: "pool_event list" where
  "leaking_history = [Acquire True, Acquire True, Grant 0 (\<lambda>_. True), StartGrant 0 1, Started 0 (Some 41),
     Grant 1 (\<lambda>_. True), StartGrant 1 2, Started 1 (Some 42), TaskEnds 0 True True, TaskEnds 1 True True,
     Acquire True, Grant 2 (\<lambda>w. w = 1), Cancel 2]"

lemma leaking_history_runs:
  "leaking_run leaking_history (0, new_pool 2 2 {}) = Some (1,
     \<lparr>max_workers = 2, max_starting = 2, permits = 2, start_permits = 2, idle = [], created = 1,
      closing = False, protected = [(1, 41)], shield = {41}, calls = [Finished, Finished, Finished]\<rparr>)"
  by (simp add: leaking_history_def new_pool_def phase_at_def take_idle_def enter_phase_def cancel_call_def leak_def
      after_reap_def sync_protection_def worker_pid_def register_pid_def unregister_pid_def
      release_worker_def release_protection_def Let_def insert_Diff_if)

theorem pool_keeps_its_bounds_witness:
  "\<exists>s. leaking_run leaking_history (0, new_pool 2 2 {}) = Some (1, s) \<and>
     created s = int (length (idle s)) + int (held slot s) + 1 \<and> int (length (idle s)) + int (held slot s) \<le> 2"
  using pool_keeps_its_bounds [OF leaking_run_reaches [OF leaking_history_runs]] leaking_history_runs by simp

text \<open>C21. No call hangs in the pool. In every state that any history of calls, failures, deaths, cancellations and shutdowns
  reaches and that has an unfinished call, some await can complete without a cancellation, and every completed await
  strictly lowers the remaining work: from any state there are only finitely many of them before all calls have
  returned, however semaphores, cold starts and retirements interleave.\<close>

theorem pool_makes_progress:
  assumes "pool_reaches (new_pool mw ms foreign) n s" "unfinished s"
  shows "(\<exists>e. progress e \<and> pool_step e s \<noteq> None) \<and>
    \<not> (\<exists>e s'. progress e \<and> pool_step e s = Some s' \<and> work s \<le> work s')"
  using not_stuck [OF reaches_wf [OF assms(1)] conjunct1 [OF new_pool_counts [OF assms(1)]] _ _ assms(2)]
    new_pool_counts [OF assms(1)] progress_step by fastforce

theorem pool_makes_progress_witness:
  "\<exists>s. orderly_run (take 5 pool_history) (new_pool 1 0 {9}) = Some s \<and>
     (\<exists>e. progress e \<and> pool_step e s \<noteq> None)"
  using pool_makes_progress [OF orderly_reaches [OF orderly_run_reaches [OF pool_prefix_runs]]] pool_prefix_runs
  by (auto simp: unfinished_def)

end
