(* ===== verification/Tool_Approval.thy ===== *)
theory Tool_Approval imports Junction_Prelude begin

section \<open>The tool permission ladder (\<^verbatim>\<open>messaging/driver.py\<close>) and the contract of a decider\<close>

text \<open>
  How \<^verbatim>\<open>TurnDriver\<close> answers a permission request of the agent: \<open>permission_request\<close> is the
  branch of its event loop for one \<^verbatim>\<open>EVENT_PERMISSION_REQUEST\<close>. What the channel injects (the
  gate over hooks and governance, the two auto-approve predicates) is carried as the answer it
  gives for this request, \<open>None\<close> where nothing was injected. The outcome is the verdict sent to
  the provider, the reason logged, and whether the renderer was told to show a prompt.

  The locale \<open>consent\<close> is what the ladder relies on from a decider: a wait for an answer ends in
  approval only when an event answered that very wait with consent while it was open. Both
  registries of pending approvals interpret it.
\<close>

definition APPROVAL_AUTO :: string where "APPROVAL_AUTO = ''auto''"
definition APPROVAL_TRUST :: string where "APPROVAL_TRUST = ''trust''"
definition APPROVAL_TRUST_READS :: string where "APPROVAL_TRUST_READS = ''trust-reads''"
definition APPROVAL_INTERACTIVE :: string where "APPROVAL_INTERACTIVE = ''interactive''"

lemmas approval_modes = APPROVAL_AUTO_def APPROVAL_TRUST_def APPROVAL_TRUST_READS_def APPROVAL_INTERACTIVE_def

datatype tool_gate_verdict = GateDeny | GateAutoApprove | GatePass

datatype permission_reason =
    UntrustedSender | HookDeny | HookApprove | HookAutoApprove | SessionTrust | Ladder

record ladder =
  deny_all_tools :: bool
  approval_mode :: string
  has_decider :: bool

record permission_event =
  pe_gate :: "tool_gate_verdict option"
  pe_auto_tool :: "bool option"
  pe_auto_session :: "bool option"
  pe_is_read :: bool

record permission_outcome =
  po_approved :: bool
  po_reason :: permission_reason
  po_prompted :: bool

text \<open>\<^verbatim>\<open>_approve\<close>: the ladder proper. \<open>answer\<close> is what the decider returns.\<close>

definition approve_ladder :: "ladder \<Rightarrow> permission_event \<Rightarrow> bool \<Rightarrow> bool" where
  "approve_ladder l e answer =
     (if approval_mode l = APPROVAL_AUTO \<or> approval_mode l = APPROVAL_TRUST then True
      else if approval_mode l = APPROVAL_TRUST_READS then pe_is_read e
      else if has_decider l then answer
      else False)"

definition auto_reason :: "permission_event \<Rightarrow> permission_reason option" where
  "auto_reason e =
     (if pe_auto_tool e = Some True then Some HookAutoApprove
      else if pe_auto_session e = Some True then Some SessionTrust
      else None)"

definition permission_request :: "ladder \<Rightarrow> permission_event \<Rightarrow> bool \<Rightarrow> permission_outcome" where
  "permission_request l e answer =
     (if deny_all_tools l
      then \<lparr>po_approved = False, po_reason = UntrustedSender, po_prompted = False\<rparr>
      else if pe_gate e = Some GateDeny
      then \<lparr>po_approved = False, po_reason = HookDeny, po_prompted = False\<rparr>
      else if pe_gate e = Some GateAutoApprove
      then \<lparr>po_approved = True, po_reason = HookApprove, po_prompted = False\<rparr>
      else (case auto_reason e of
          Some r \<Rightarrow> \<lparr>po_approved = True, po_reason = r, po_prompted = False\<rparr>
        | None \<Rightarrow> \<lparr>po_approved = approve_ladder l e answer, po_reason = Ladder,
                   po_prompted = (approval_mode l = APPROVAL_INTERACTIVE \<and> has_decider l)\<rparr>))"

text \<open>The answer of the decider is asked for: the turn waits for a human.\<close>

definition asks_decider :: "ladder \<Rightarrow> permission_event \<Rightarrow> bool" where
  "asks_decider l e =
     (\<not> deny_all_tools l \<and> pe_gate e \<noteq> Some GateDeny \<and> pe_gate e \<noteq> Some GateAutoApprove \<and>
      auto_reason e = None \<and>
      approval_mode l \<noteq> APPROVAL_AUTO \<and> approval_mode l \<noteq> APPROVAL_TRUST \<and> approval_mode l \<noteq> APPROVAL_TRUST_READS \<and>
      has_decider l)"

lemma permission_asked:
  "asks_decider l e \<Longrightarrow> po_approved (permission_request l e a) = a"
  by (simp add: asks_decider_def permission_request_def approve_ladder_def)

lemma permission_unasked:
  "\<not> asks_decider l e \<Longrightarrow> permission_request l e a = permission_request l e b"
  by (auto simp: asks_decider_def permission_request_def approve_ladder_def split: option.splits if_splits)

text \<open>A tool runs only by an authority that was given. A permission request is approved exactly
  when the sender is trusted, the gate did not deny, and one of these holds: the gate or one of the
  injected predicates approved it, the mode approves it (\<^verbatim>\<open>auto\<close>, \<^verbatim>\<open>trust\<close>, or
  \<^verbatim>\<open>trust-reads\<close> for a read), or a decider was asked and answered yes. A prompt is shown
  exactly when a decider is asked in the interactive mode.\<close>

theorem tool_runs_by_authority:
  "(po_approved (permission_request l e answer) \<longleftrightarrow>
     \<not> deny_all_tools l \<and> pe_gate e \<noteq> Some GateDeny \<and>
     (pe_gate e = Some GateAutoApprove \<or> pe_auto_tool e = Some True \<or> pe_auto_session e = Some True \<or>
      approval_mode l = APPROVAL_AUTO \<or> approval_mode l = APPROVAL_TRUST \<or>
      (approval_mode l = APPROVAL_TRUST_READS \<and> pe_is_read e) \<or>
      (asks_decider l e \<and> answer))) \<and>
   (po_prompted (permission_request l e answer) \<longleftrightarrow>
      asks_decider l e \<and> approval_mode l = APPROVAL_INTERACTIVE)"
  by (auto simp: permission_request_def auto_reason_def approve_ladder_def asks_decider_def approval_modes
      split: if_splits)

subsection \<open>What a registry of pending approvals promises\<close>

text \<open>
  \<open>yes s f\<close>: the question \<open>f\<close> has been answered with consent; \<open>allowed s f\<close>: a wait on it ended
  in approval; \<open>consents e s f\<close>: the event \<open>e\<close>, in state \<open>s\<close>, is such an answer.
\<close>

locale consent =
  fixes step :: "'e \<Rightarrow> 's \<Rightarrow> 's"
    and good :: "'s \<Rightarrow> bool"
    and yes :: "'s \<Rightarrow> 'f \<Rightarrow> bool"
    and allowed :: "'s \<Rightarrow> 'f \<Rightarrow> bool"
    and consents :: "'e \<Rightarrow> 's \<Rightarrow> 'f \<Rightarrow> bool"
  assumes good_step: "good s \<Longrightarrow> good (step e s)"
    and yes_step: "good s \<Longrightarrow> yes (step e s) f \<Longrightarrow> yes s f \<or> consents e s f"
    and allowed_step: "good s \<Longrightarrow> allowed (step e s) f \<Longrightarrow> allowed s f \<or> yes s f"
begin

definition answered_in :: "'e list \<Rightarrow> 's \<Rightarrow> 'f \<Rightarrow> bool" where
  "answered_in es s f = (\<exists>pre e post. es = pre @ e # post \<and> consents e (fold step pre s) f)"

lemma good_run: "good s \<Longrightarrow> good (fold step es s)"
  by (induction es arbitrary: s) (auto intro: good_step)

lemma answered_here: "consents e s f \<Longrightarrow> answered_in (e # es) s f"
  unfolding answered_in_def by (metis append_Nil fold_simps(1))

lemma answered_later: "answered_in es (step e s) f \<Longrightarrow> answered_in (e # es) s f"
  unfolding answered_in_def by (metis append_Cons fold_simps(2))

lemma allowed_run:
  "good s \<Longrightarrow> yes (fold step es s) f \<or> allowed (fold step es s) f \<Longrightarrow> allowed s f \<or> yes s f \<or> answered_in es s f"
proof (induction es arbitrary: s)
  case (Cons e es)
  then have "allowed (step e s) f \<or> yes (step e s) f \<or> answered_in es (step e s) f"
    using good_step by simp
  then show ?case
    using Cons.prems(1) yes_step [of s e f] allowed_step [of s e f] answered_here answered_later by blast
qed auto

text \<open>From a state with nothing answered, an approval was consented to.\<close>

lemma allowed_only_by_consent:
  "\<lbrakk>good s; allowed (fold step es s) f; \<not> yes s f; \<not> allowed s f\<rbrakk> \<Longrightarrow> answered_in es s f"
  using allowed_run by blast

end

end
