(* ===== verification/Text_Approval.thy ===== *)
theory Text_Approval imports Tool_Approval begin

section \<open>Approval by typed reply (\<^verbatim>\<open>messaging/approval.py\<close>)\<close>

text \<open>
  The process-wide registry \<^verbatim>\<open>_PENDING\<close> holds references to \<^verbatim>\<open>PendingApproval\<close> objects that a
  waiting decider keeps after the registry has forgotten them: \<open>objects\<close> is the list of all such
  objects (an index is the reference), \<open>pending\<close> the registry, \<open>waits\<close> the calls of
  \<^verbatim>\<open>TextReplyApprovalDecider\<close> and where each is suspended, and \<open>policy\<close> the approval policies
  of the session manager. An event is one atomic segment of the event loop. A timeout posts its
  notice (\<open>pa_announces\<close>) before the entry is forgotten, and that post suspends: \<open>Announcing\<close>.
  \<open>screen\<close> stands for the redaction of text shown to the channel.
\<close>

definition APPROVE :: string where "APPROVE = ''approve''"
definition DENY :: string where "DENY = ''deny''"
definition TRUST :: string where "TRUST = ''trust''"

definition RECEIPT_APPROVED :: string where "RECEIPT_APPROVED = ''Approved.''"
definition RECEIPT_DENIED :: string where "RECEIPT_DENIED = ''Denied.''"
definition RECEIPT_TRUSTED :: string where
  "RECEIPT_TRUSTED = ''Trusted for this session; later tools run without asking.''"
definition RECEIPT_EXPIRED :: string where
  "RECEIPT_EXPIRED = ''That approval request already timed out. Ask again if you still want it.''"

lemmas verdict_defs = APPROVE_def DENY_def TRUST_def
lemmas receipt_defs = RECEIPT_APPROVED_def RECEIPT_DENIED_def RECEIPT_TRUSTED_def RECEIPT_EXPIRED_def

definition APPROVAL_ORDINALS :: "(string, string) dict" where
  "APPROVAL_ORDINALS = [(''1'', APPROVE), (''2'', DENY), (''3'', TRUST)]"

definition APPROVAL_WORDS :: "(string, string) dict" where
  "APPROVAL_WORDS =
     [(''approve'', APPROVE), (''allow'', APPROVE), (''yes'', APPROVE), (''y'', APPROVE), (''ok'', APPROVE),
      (''deny'', DENY), (''no'', DENY), (''n'', DENY), (''reject'', DENY), (''cancel'', DENY),
      (''trust'', TRUST), (''always'', TRUST)]"

datatype future = Unresolved | ResolvedTo string | FutureCancelled

record pending_approval =
  pa_session :: string
  pa_request :: string
  pa_future :: future
  pa_conversation :: string
  pa_title :: string
  pa_announces :: bool

datatype wait_phase = Awaiting | Announcing | Returned bool | TornDown

record text_wait =
  tw_object :: "nat option"
  tw_phase :: wait_phase

record text_registry =
  objects :: "pending_approval list"
  pending :: "(string, nat) dict"
  waits :: "text_wait list"
  policy :: "(string, string) dict"

definition empty_registry :: text_registry where
  "empty_registry = \<lparr>objects = [], pending = [], waits = [], policy = []\<rparr>"

definition registry_key :: "string \<Rightarrow> string \<Rightarrow> string" where
  "registry_key session_key request_id = session_key @ [CHR 0x0A] @ request_id"

definition forget_approval :: "string \<Rightarrow> string \<Rightarrow> text_registry \<Rightarrow> text_registry" where
  "forget_approval session_key request_id s =
     s\<lparr>pending := dict_pop (registry_key session_key request_id) (pending s)\<rparr>"

definition open_approval :: "string \<Rightarrow> string \<Rightarrow> string \<Rightarrow> string \<Rightarrow> bool \<Rightarrow> text_registry \<Rightarrow> text_registry" where
  "open_approval session_key request_id title conv announces s =
     (let key = registry_key session_key request_id
      in case dict_get (pending s) key of
          None \<Rightarrow> s\<lparr>objects := objects s @ [\<lparr>pa_session = session_key, pa_request = request_id,
                      pa_future = Unresolved, pa_conversation = conv, pa_title = title,
                      pa_announces = announces\<rparr>],
                    pending := dict_set key (length (objects s)) (pending s)\<rparr>
        | Some i \<Rightarrow> if title \<noteq> [] \<and> pa_title (objects s ! i) = []
                    then s\<lparr>objects := (objects s)[i := (objects s ! i)\<lparr>pa_title := title\<rparr>]\<rparr> else s)"

definition claim_approval :: "string \<Rightarrow> string \<Rightarrow> text_registry \<Rightarrow> nat option" where
  "claim_approval session_key request_id s = dict_get (pending s) (registry_key session_key request_id)"

text \<open>The loop of \<^verbatim>\<open>pending_for\<close>, in the order of insertion.\<close>

definition answers_here :: "string \<Rightarrow> string \<Rightarrow> pending_approval \<Rightarrow> bool" where
  "answers_here session_key conv p =
     (pa_session p = session_key \<and> pa_future p = Unresolved \<and>
      \<not> (conv \<noteq> [] \<and> pa_conversation p \<noteq> [] \<and> pa_conversation p \<noteq> conv))"

definition pending_for :: "string \<Rightarrow> string \<Rightarrow> text_registry \<Rightarrow> nat option" where
  "pending_for session_key conv s =
     find (\<lambda>i. answers_here session_key conv (objects s ! i)) (map snd (pending s))"

text \<open>\<^verbatim>\<open>s.rstrip(".!")\<close>, and the verdict of a typed reply.\<close>

definition rstrip_marks :: "string \<Rightarrow> string" where
  "rstrip_marks s = rev (dropWhile (\<lambda>c. c = CHR ''.'' \<or> c = CHR ''!'') (rev s))"

definition parse_approval_reply :: "string \<Rightarrow> string" where
  "parse_approval_reply txt =
     (let token = rstrip_marks (py_lower (py_strip txt))
      in if token = [] then []
         else (case dict_get APPROVAL_ORDINALS token of
             Some v \<Rightarrow> v
           | None \<Rightarrow> (case dict_get APPROVAL_WORDS token of Some v \<Rightarrow> v | None \<Rightarrow> [])))"

definition set_future :: "nat \<Rightarrow> future \<Rightarrow> text_registry \<Rightarrow> text_registry" where
  "set_future i f s = s\<lparr>objects := (objects s)[i := (objects s ! i)\<lparr>pa_future := f\<rparr>]\<rparr>"

definition receipt_for :: "string \<Rightarrow> string" where
  "receipt_for verdict =
     (if verdict = APPROVE then RECEIPT_APPROVED
      else if verdict = TRUST then RECEIPT_TRUSTED else RECEIPT_DENIED)"

definition deliver_verdict :: "string \<Rightarrow> string \<Rightarrow> string \<Rightarrow> text_registry \<Rightarrow> string \<times> text_registry" where
  "deliver_verdict session_key verdict conv s =
     (case pending_for session_key conv s of
         None \<Rightarrow> (RECEIPT_EXPIRED, s)
       | Some i \<Rightarrow> (receipt_for verdict,
           forget_approval (pa_session (objects s ! i)) (pa_request (objects s ! i))
             (set_future i (ResolvedTo verdict) s)))"

definition abandon_approval :: "string \<Rightarrow> string \<Rightarrow> text_registry \<Rightarrow> text_registry" where
  "abandon_approval = forget_approval"

text \<open>\<^verbatim>\<open>TextReplyApprovalDecider.__call__\<close>, up to its wait.\<close>

definition ask_decider :: "string \<Rightarrow> string \<Rightarrow> text_registry \<Rightarrow> text_registry" where
  "ask_decider session_key request_id s =
     (case claim_approval session_key request_id s of
         None \<Rightarrow> s\<lparr>waits := waits s @ [\<lparr>tw_object = None, tw_phase = Returned False\<rparr>]\<rparr>
       | Some i \<Rightarrow> s\<lparr>waits := waits s @ [\<lparr>tw_object = Some i, tw_phase = Awaiting\<rparr>]\<rparr>)"

definition grant_session_trust :: "bool \<Rightarrow> string \<Rightarrow> text_registry \<Rightarrow> text_registry" where
  "grant_session_trust manager_ok session_key s =
     (if manager_ok then s\<lparr>policy := dict_set session_key ''auto'' (policy s)\<rparr> else s)"

definition trusted :: "string \<Rightarrow> text_registry \<Rightarrow> bool" where
  "trusted session_key s = (dict_get (policy s) session_key = Some ''auto'')"

text \<open>The end of \<^verbatim>\<open>wait\<close>: whatever it returns or raises, the entry is forgotten.\<close>

definition end_wait :: "nat \<Rightarrow> wait_phase \<Rightarrow> text_registry \<Rightarrow> text_registry" where
  "end_wait k ph s =
     (case tw_object (waits s ! k) of
         None \<Rightarrow> s
       | Some i \<Rightarrow> forget_approval (pa_session (objects s ! i)) (pa_request (objects s ! i))
           (s\<lparr>waits := (waits s)[k := (waits s ! k)\<lparr>tw_phase := ph\<rparr>]\<rparr>))"

datatype text_event =
    OpenPrompt string string string string bool
  | AskDecider string string
  | WaitWakes nat bool
  | WaitTimesOut nat
  | NoticePosted nat
  | TurnTornDown nat
  | RequestCancelled nat
  | DeliverVerdict string string string
  | AbandonPrompt string string

text \<open>The object a wait is suspended on, in the given phase.\<close>

definition suspended :: "wait_phase \<Rightarrow> nat \<Rightarrow> text_registry \<Rightarrow> nat option" where
  "suspended ph k s = (if k < length (waits s) \<and> tw_phase (waits s ! k) = ph then tw_object (waits s ! k) else None)"

definition wait_wakes :: "nat \<Rightarrow> bool \<Rightarrow> text_registry \<Rightarrow> text_registry" where
  "wait_wakes k manager_ok s = (case suspended Awaiting k s of
       None \<Rightarrow> s
     | Some i \<Rightarrow> (case pa_future (objects s ! i) of
           Unresolved \<Rightarrow> s
         | FutureCancelled \<Rightarrow> end_wait k (Returned False) s
         | ResolvedTo v \<Rightarrow>
             if v = TRUST
             then grant_session_trust manager_ok (pa_session (objects s ! i)) (end_wait k (Returned True) s)
             else end_wait k (Returned (v = APPROVE)) s))"

definition wait_times_out :: "nat \<Rightarrow> text_registry \<Rightarrow> text_registry" where
  "wait_times_out k s = (case suspended Awaiting k s of
       None \<Rightarrow> s
     | Some i \<Rightarrow>
         if pa_future (objects s ! i) \<noteq> Unresolved then s
         else if pa_announces (objects s ! i)
         then s\<lparr>waits := (waits s)[k := (waits s ! k)\<lparr>tw_phase := Announcing\<rparr>]\<rparr>
         else end_wait k (Returned False) s)"

fun text_step :: "text_event \<Rightarrow> text_registry \<Rightarrow> text_registry" where
  "text_step (OpenPrompt se rq title conv ann) s = open_approval se rq title conv ann s"
| "text_step (AskDecider se rq) s = ask_decider se rq s"
| "text_step (WaitWakes k ok) s = wait_wakes k ok s"
| "text_step (WaitTimesOut k) s = wait_times_out k s"
| "text_step (NoticePosted k) s = (if suspended Announcing k s = None then s else end_wait k (Returned False) s)"
| "text_step (TurnTornDown k) s =
     (if suspended Awaiting k s = None \<and> suspended Announcing k s = None then s else end_wait k TornDown s)"
| "text_step (RequestCancelled i) s =
     (if i < length (objects s) \<and> pa_future (objects s ! i) = Unresolved then set_future i FutureCancelled s else s)"
| "text_step (DeliverVerdict se v conv) s = snd (deliver_verdict se v conv s)"
| "text_step (AbandonPrompt se rq) s = abandon_approval se rq s"

definition build_approval_prompt :: "(string \<Rightarrow> string) \<Rightarrow> string \<Rightarrow> string \<Rightarrow> string list" where
  "build_approval_prompt screen tool_title tool_purpose =
     [''Tool approval needed'', []] @
     [''Tool: '' @ (if screen tool_title = [] then ''unknown'' else screen tool_title)] @
     (if tool_purpose = [] then [] else [''Purpose: '' @ screen tool_purpose]) @
     [[], ''1. Approve once'', ''2. Deny'', ''3. Trust this session'', [],
      ''Reply 1, 2 or 3. No reply within 5 minutes denies.'']"

subsection \<open>References stay valid\<close>

text \<open>What never changes about an object, and what the registry knows of the objects it lists.\<close>

definition same_request :: "pending_approval \<Rightarrow> pending_approval \<Rightarrow> bool" where
  "same_request p q = (pa_session p = pa_session q \<and> pa_request p = pa_request q \<and>
     pa_conversation p = pa_conversation q \<and> pa_announces p = pa_announces q)"

definition key_of :: "pending_approval \<Rightarrow> string" where
  "key_of p = registry_key (pa_session p) (pa_request p)"

definition reg_ok :: "text_registry \<Rightarrow> bool" where
  "reg_ok s = (dict_ok (pending s) \<and>
     (\<forall>(k, i) \<in> set (pending s). i < length (objects s) \<and> k = key_of (objects s ! i)) \<and>
     (\<forall>w \<in> set (waits s). \<forall>i. tw_object w = Some i \<longrightarrow> i < length (objects s)))"

definition extends :: "text_registry \<Rightarrow> text_registry \<Rightarrow> bool" where
  "extends s' s = (length (objects s) \<le> length (objects s') \<and>
     (\<forall>i < length (objects s). same_request (objects s' ! i) (objects s ! i)))"

lemma extends_refl [simp]: "extends s s"
  by (simp add: extends_def same_request_def)

lemma extends_trans: "extends s2 s1 \<Longrightarrow> extends s1 s \<Longrightarrow> extends s2 s"
  unfolding extends_def same_request_def by (metis order_less_le_trans order_trans)

lemma reg_okD:
  "reg_ok s \<Longrightarrow> (k, i) \<in> set (pending s) \<Longrightarrow> i < length (objects s) \<and> k = key_of (objects s ! i)"
  by (auto simp: reg_ok_def)

lemma reg_ok_objects:
  assumes "reg_ok s" "length (objects s') = length (objects s)"
    "\<And>i. i < length (objects s) \<Longrightarrow> same_request (objects s' ! i) (objects s ! i)"
    "set (pending s') \<subseteq> set (pending s)" "dict_ok (pending s')"
    "\<And>w i. w \<in> set (waits s') \<Longrightarrow> tw_object w = Some i \<Longrightarrow> i < length (objects s)"
  shows "reg_ok s'" "extends s' s"
proof -
  have "key_of (objects s' ! i) = key_of (objects s ! i)" if "i < length (objects s)" for i
    using assms(3) [OF that] by (simp add: key_of_def same_request_def)
  then have "i < length (objects s') \<and> k = key_of (objects s' ! i)" if "(k, i) \<in> set (pending s')" for k i
    using that assms(1,2,4) by (auto dest: reg_okD)
  then show "reg_ok s'" unfolding reg_ok_def using assms(2,5,6) by auto
  show "extends s' s" using assms(2,3) by (simp add: extends_def)
qed

lemma forget_fields [simp]:
  "objects (forget_approval se rq s) = objects s" "waits (forget_approval se rq s) = waits s"
  "policy (forget_approval se rq s) = policy s"
  "pending (forget_approval se rq s) = dict_pop (registry_key se rq) (pending s)"
  by (simp_all add: forget_approval_def)

lemma same_update:
  "same_request x (xs ! i) \<Longrightarrow> j < length xs \<Longrightarrow> same_request (xs[i := x] ! j) (xs ! j)"
  by (cases "i = j") (auto simp: same_request_def)

lemma same_refl [simp]: "same_request p p"
  by (simp add: same_request_def)

lemma reg_ok_waits: "reg_ok s \<Longrightarrow> w \<in> set (waits s) \<Longrightarrow> tw_object w = Some i \<Longrightarrow> i < length (objects s)"
  by (auto simp: reg_ok_def)

lemma reg_ok_dict: "reg_ok s \<Longrightarrow> dict_ok (pending s)"
  by (simp add: reg_ok_def)

lemma forget_ok:
  assumes "reg_ok s"
  shows "reg_ok (forget_approval se rq s)" "extends (forget_approval se rq s) s"
  by (rule reg_ok_objects [OF assms];
      auto simp: reg_ok_dict assms set_dict_pop dest: set_dict_pop [THEN subsetD] reg_ok_waits [OF assms])+

lemma extends_forget [simp]: "extends (forget_approval se rq s) t = extends s t"
  by (simp add: extends_def)

lemma set_future_ok:
  assumes "reg_ok s"
  shows "reg_ok (set_future i f s)" "extends (set_future i f s) s"
proof -
  have "same_request ((objects s ! i)\<lparr>pa_future := f\<rparr>) (objects s ! i)" by (simp add: same_request_def)
  note u = same_update [OF this]
  show "reg_ok (set_future i f s)" "extends (set_future i f s) s"
    by (rule reg_ok_objects [OF assms];
        auto simp: set_future_def u reg_ok_dict assms dest: reg_ok_waits [OF assms])+
qed

lemma in_set_update: "x \<in> set (xs[i := y]) \<Longrightarrow> x \<in> set xs \<or> (x = y \<and> i < length xs)"
  using set_update_subset_insert [of xs i y] by (cases "i < length xs") (auto simp: list_update_beyond)

lemma set_phase_ok:
  assumes "reg_ok s"
  shows "reg_ok (s\<lparr>waits := (waits s)[k := (waits s ! k)\<lparr>tw_phase := ph\<rparr>]\<rparr>)"
    "extends (s\<lparr>waits := (waits s)[k := (waits s ! k)\<lparr>tw_phase := ph\<rparr>]\<rparr>) s"
proof -
  have "i < length (objects s)"
    if w: "w \<in> set ((waits s)[k := (waits s ! k)\<lparr>tw_phase := ph\<rparr>])" "tw_object w = Some i" for w i
  proof (cases "w \<in> set (waits s)")
    case True
    then show ?thesis using w(2) by (rule reg_ok_waits [OF assms])
  next
    case False
    with in_set_update [OF w(1)] have "w = (waits s ! k)\<lparr>tw_phase := ph\<rparr>" "k < length (waits s)" by auto
    with w(2) show ?thesis using reg_ok_waits [OF assms nth_mem] by simp
  qed
  then show "reg_ok (s\<lparr>waits := (waits s)[k := (waits s ! k)\<lparr>tw_phase := ph\<rparr>]\<rparr>)"
    "extends (s\<lparr>waits := (waits s)[k := (waits s ! k)\<lparr>tw_phase := ph\<rparr>]\<rparr>) s"
    using assms by (auto intro!: reg_ok_objects [of s] simp: reg_ok_dict)
qed

lemma end_wait_ok:
  assumes "reg_ok s"
  shows "reg_ok (end_wait k ph s)" "extends (end_wait k ph s) s"
  using forget_ok(1) [OF set_phase_ok(1) [OF assms]] set_phase_ok(2) [OF assms] assms
  by (auto simp: end_wait_def split: option.splits)

lemma policy_ok: "reg_ok (s\<lparr>policy := p\<rparr>) = reg_ok s" "extends (s\<lparr>policy := p\<rparr>) t = extends s t"
  by (simp_all add: reg_ok_def extends_def)

lemma grant_ok:
  "reg_ok (grant_session_trust ok se s) = reg_ok s" "extends (grant_session_trust ok se s) t = extends s t"
  by (simp_all add: grant_session_trust_def policy_ok)

lemma open_approval_ok:
  assumes "reg_ok s"
  shows "reg_ok (open_approval se rq title conv ann s)" "extends (open_approval se rq title conv ann s) s"
proof -
  have "reg_ok (open_approval se rq title conv ann s) \<and> extends (open_approval se rq title conv ann s) s"
  proof (cases "dict_get (pending s) (registry_key se rq)")
    case (Some i)
    have "same_request ((objects s ! i)\<lparr>pa_title := title\<rparr>) (objects s ! i)" by (simp add: same_request_def)
    note u = same_update [OF this]
    have "reg_ok (s\<lparr>objects := (objects s)[i := (objects s ! i)\<lparr>pa_title := title\<rparr>]\<rparr>)"
      "extends (s\<lparr>objects := (objects s)[i := (objects s ! i)\<lparr>pa_title := title\<rparr>]\<rparr>) s"
      by (rule reg_ok_objects [OF assms];
          auto simp: u reg_ok_dict assms dest: reg_ok_waits [OF assms])+
    then show ?thesis using assms Some by (simp add: open_approval_def)
  next
    case None
    then have "registry_key se rq \<notin> set (dict_keys (pending s))" by (simp add: map_of_eq_None_iff)
    with None assms show ?thesis
      by (auto simp: open_approval_def reg_ok_def extends_def same_request_def nth_append key_of_def Let_def)
  qed
  then show "reg_ok (open_approval se rq title conv ann s)" "extends (open_approval se rq title conv ann s) s"
    by auto
qed

lemma ask_decider_ok:
  assumes "reg_ok s"
  shows "reg_ok (ask_decider se rq s)" "extends (ask_decider se rq s) s"
  using assms dict_get_in [of "pending s" "registry_key se rq"]
  by (auto simp: ask_decider_def claim_approval_def reg_ok_def extends_def same_request_def split: option.splits)

lemma text_step_ok:
  assumes "reg_ok s"
  shows "reg_ok (text_step e s) \<and> extends (text_step e s) s"
proof (cases e)
  case (OpenPrompt se rq title conv ann)
  then show ?thesis using open_approval_ok [OF assms] by simp
next
  case (AskDecider se rq)
  then show ?thesis using ask_decider_ok [OF assms] by simp
next
  case (WaitWakes k ok)
  then show ?thesis using end_wait_ok [OF assms] assms
    by (auto simp: wait_wakes_def grant_ok split: option.splits future.splits)
next
  case (WaitTimesOut k)
  then show ?thesis using end_wait_ok [OF assms] set_phase_ok [OF assms] assms
    by (auto simp: wait_times_out_def split: option.splits)
next
  case (DeliverVerdict se v conv)
  then show ?thesis
    using set_future_ok [OF assms] forget_ok(1) [OF set_future_ok(1) [OF assms]] assms
    by (simp add: deliver_verdict_def split: option.splits)
next
  case (AbandonPrompt se rq)
  then show ?thesis using forget_ok [OF assms] by (simp add: abandon_approval_def)
next
  case (NoticePosted k)
  then show ?thesis using assms end_wait_ok [OF assms] by simp
next
  case (TurnTornDown k)
  then show ?thesis using assms end_wait_ok [OF assms] by simp
next
  case (RequestCancelled i)
  then show ?thesis using assms set_future_ok [OF assms] by simp
qed

subsection \<open>Consent\<close>

definition said_yes :: "text_registry \<Rightarrow> nat \<Rightarrow> bool" where
  "said_yes s i = (i < length (objects s) \<and>
     (pa_future (objects s ! i) = ResolvedTo APPROVE \<or> pa_future (objects s ! i) = ResolvedTo TRUST))"

definition tool_allowed :: "text_registry \<Rightarrow> nat \<Rightarrow> bool" where
  "tool_allowed s i = list_ex (\<lambda>w. tw_object w = Some i \<and> tw_phase w = Returned True) (waits s)"

definition text_consents :: "text_event \<Rightarrow> text_registry \<Rightarrow> nat \<Rightarrow> bool" where
  "text_consents e s i = (case e of
       DeliverVerdict se v conv \<Rightarrow> pending_for se conv s = Some i \<and> (v = APPROVE \<or> v = TRUST)
     | _ \<Rightarrow> False)"

lemma find_Some_in: "find P xs = Some x \<Longrightarrow> x \<in> set xs \<and> P x"
  by (induction xs) (auto split: if_splits)

lemma pending_for_Some:
  assumes "reg_ok s" "pending_for se conv s = Some i"
  shows "i < length (objects s)" "answers_here se conv (objects s ! i)"
    "(key_of (objects s ! i), i) \<in> set (pending s)"
proof -
  from find_Some_in [OF assms(2) [unfolded pending_for_def]]
  obtain k where k: "(k, i) \<in> set (pending s)" "answers_here se conv (objects s ! i)" by auto
  with reg_okD [OF assms(1) k(1)] show "i < length (objects s)" "answers_here se conv (objects s ! i)"
    "(key_of (objects s ! i), i) \<in> set (pending s)" by auto
qed

lemma end_wait_objects [simp]: "objects (end_wait k ph s) = objects s"
  by (simp add: end_wait_def split: option.splits)

lemma grant_objects [simp]: "objects (grant_session_trust ok se s) = objects s"
  "waits (grant_session_trust ok se s) = waits s" "pending (grant_session_trust ok se s) = pending s"
  by (simp_all add: grant_session_trust_def)

lemma future_set:
  "i < length (objects s) \<Longrightarrow>
     pa_future (objects (set_future i f s) ! j) = (if j = i then f else pa_future (objects s ! j))"
  by (simp add: set_future_def nth_list_update)

lemma length_set_future [simp]: "length (objects (set_future i f s)) = length (objects s)"
  "waits (set_future i f s) = waits s" "pending (set_future i f s) = pending s"
  by (simp_all add: set_future_def)

text \<open>The only changes to a future: a new one is unresolved, an answer or a cancellation sets one
  that is.\<close>

lemma future_step:
  assumes "reg_ok s" "i < length (objects (text_step e s))"
    "pa_future (objects (text_step e s) ! i) \<noteq> Unresolved"
  shows "(i < length (objects s) \<and> pa_future (objects (text_step e s) ! i) = pa_future (objects s ! i)) \<or>
    pa_future (objects (text_step e s) ! i) = FutureCancelled \<or>
    (\<exists>se v conv. e = DeliverVerdict se v conv \<and> pending_for se conv s = Some i \<and>
       pa_future (objects (text_step e s) ! i) = ResolvedTo v)"
proof (cases e)
  case (OpenPrompt se rq title conv ann)
  show ?thesis
  proof (cases "dict_get (pending s) (registry_key se rq)")
    case None
    then show ?thesis using assms OpenPrompt
      by (auto simp: open_approval_def nth_append split: if_splits)
  next
    case (Some j)
    then have "j < length (objects s)" using assms(1) by (auto dest: dict_get_in reg_okD)
    then show ?thesis using assms OpenPrompt Some
      by (auto simp: open_approval_def nth_list_update split: if_splits)
  qed
next
  case (DeliverVerdict se v conv)
  show ?thesis
  proof (cases "pending_for se conv s")
    case None
    then show ?thesis using assms DeliverVerdict by (simp add: deliver_verdict_def)
  next
    case (Some j)
    from pending_for_Some(1) [OF assms(1) Some] show ?thesis using assms DeliverVerdict Some
      by (auto simp: deliver_verdict_def future_set split: if_splits)
  qed
next
  case (WaitWakes k ok)
  then show ?thesis using assms by (auto simp: wait_wakes_def split: option.splits future.splits if_splits)
next
  case (WaitTimesOut k)
  then show ?thesis using assms by (auto simp: wait_times_out_def split: option.splits if_splits)
next
  case (RequestCancelled j)
  then show ?thesis using assms by (auto simp: future_set split: if_splits)
qed (use assms in \<open>auto simp: ask_decider_def abandon_approval_def split: option.splits if_splits\<close>)

lemma said_yes_step:
  assumes "reg_ok s" "said_yes (text_step e s) i"
  shows "said_yes s i \<or> text_consents e s i"
proof -
  have "i < length (objects (text_step e s))" "pa_future (objects (text_step e s) ! i) \<noteq> Unresolved"
    using assms(2) by (auto simp: said_yes_def)
  from future_step [OF assms(1) this] assms(2) show ?thesis
    by (auto simp: said_yes_def text_consents_def)
qed

lemma in_set_phase:
  "w \<in> set ((waits s)[k := (waits s ! k)\<lparr>tw_phase := ph\<rparr>]) \<Longrightarrow> w \<in> set (waits s) \<or>
     (tw_object w = tw_object (waits s ! k) \<and> tw_phase w = ph)"
  using in_set_update [of w "waits s" k "(waits s ! k)\<lparr>tw_phase := ph\<rparr>"] by auto

lemma waits_end_wait:
  "w \<in> set (waits (end_wait k ph s)) \<Longrightarrow> w \<in> set (waits s) \<or>
     (tw_object w = tw_object (waits s ! k) \<and> tw_phase w = ph)"
  by (auto simp: end_wait_def split: option.splits dest: in_set_phase)

lemma suspendedD: "suspended ph k s = Some i \<Longrightarrow>
  k < length (waits s) \<and> tw_phase (waits s ! k) = ph \<and> tw_object (waits s ! k) = Some i"
  by (auto simp: suspended_def split: if_splits)

text \<open>How a wait comes to return.\<close>

lemma returned_step:
  assumes "reg_ok s" "w \<in> set (waits (text_step e s))" "w \<notin> set (waits s)"
    "tw_phase w = Returned b" "tw_object w = Some i"
  shows "if b then said_yes s i else i < length (objects s) \<and> (\<exists>k ph. suspended ph k s = Some i \<and>
      (ph = Announcing \<or> \<not> said_yes s i) \<and> pending (text_step e s) =
        dict_pop (key_of (objects s ! i)) (pending s))"
proof (cases e)
  case (WaitWakes k ok)
  with assms(2,3) obtain j where j: "suspended Awaiting k s = Some j"
    by (cases "suspended Awaiting k s") (auto simp: wait_wakes_def)
  have jl: "j < length (objects s)"
    using suspendedD [OF j] reg_ok_waits [OF assms(1) nth_mem] by blast
  have "\<exists>f. pa_future (objects s ! j) = f \<and> f \<noteq> Unresolved"
    using WaitWakes assms(2,3) j by (auto simp: wait_wakes_def)
  then have W: "w \<in> set (waits (end_wait k (Returned (\<exists>v. pa_future (objects s ! j) = ResolvedTo v \<and> (v = TRUST \<or> v = APPROVE))) s))"
    using WaitWakes assms(2) j by (auto simp: wait_wakes_def split: future.splits if_splits)
  with waits_end_wait [OF W] assms(3,4,5) suspendedD [OF j]
  have ij: "i = j" "b = (\<exists>v. pa_future (objects s ! j) = ResolvedTo v \<and> (v = TRUST \<or> v = APPROVE))" by auto
  have "pending (text_step e s) = dict_pop (key_of (objects s ! i)) (pending s)"
    using WaitWakes j suspendedD [OF j] ij(1) assms(2,3)
    by (auto simp: wait_wakes_def end_wait_def key_of_def split: future.splits)
  with ij jl j show ?thesis by (auto simp: said_yes_def)
next
  case (WaitTimesOut k)
  with assms(2,3) obtain j where j: "suspended Awaiting k s = Some j"
    by (cases "suspended Awaiting k s") (auto simp: wait_times_out_def)
  have jl: "j < length (objects s)"
    using suspendedD [OF j] reg_ok_waits [OF assms(1) nth_mem] by blast
  show ?thesis
  proof (cases "pa_future (objects s ! j) = Unresolved \<and> \<not> pa_announces (objects s ! j)")
    case True
    then have st: "text_step e s = end_wait k (Returned False) s"
      using WaitTimesOut j by (simp add: wait_times_out_def)
    with waits_end_wait [of w k "Returned False" s] assms suspendedD [OF j] have "i = j" "\<not> b" by auto
    moreover have "\<not> said_yes s j" using True by (simp add: said_yes_def)
    moreover have "pending (text_step e s) = dict_pop (key_of (objects s ! i)) (pending s)"
      using st suspendedD [OF j] \<open>i = j\<close> by (simp add: end_wait_def key_of_def)
    ultimately show ?thesis using jl j by auto
  next
    case False
    then show ?thesis using WaitTimesOut j assms
      by (auto simp: wait_times_out_def split: if_splits dest: in_set_phase)
  qed
next
  case (NoticePosted k)
  with assms(2,3) obtain j where j: "suspended Announcing k s = Some j"
    by (cases "suspended Announcing k s") auto
  have jl: "j < length (objects s)"
    using suspendedD [OF j] reg_ok_waits [OF assms(1) nth_mem] by blast
  have st: "text_step e s = end_wait k (Returned False) s" using NoticePosted j by simp
  with waits_end_wait [of w k "Returned False" s] assms suspendedD [OF j] have "i = j" "\<not> b" by auto
  moreover have "pending (text_step e s) = dict_pop (key_of (objects s ! i)) (pending s)"
    using st suspendedD [OF j] \<open>i = j\<close> by (simp add: end_wait_def key_of_def)
  ultimately show ?thesis using jl j by auto
next
  case (TurnTornDown k)
  then show ?thesis using assms waits_end_wait [of w k TornDown s] by (auto split: if_splits)
next
  case (AskDecider se rq)
  then show ?thesis using assms by (auto simp: ask_decider_def split: option.splits)
next
  case (OpenPrompt se rq title conv ann)
  then show ?thesis using assms by (auto simp: open_approval_def Let_def split: option.splits if_splits)
next
  case (DeliverVerdict se v conv)
  then show ?thesis using assms by (auto simp: deliver_verdict_def split: option.splits)
qed (use assms in \<open>auto simp: abandon_approval_def split: if_splits\<close>)

lemma tool_allowed_step:
  assumes "reg_ok s" "tool_allowed (text_step e s) i"
  shows "tool_allowed s i \<or> said_yes s i"
proof -
  from assms(2) obtain w where w: "w \<in> set (waits (text_step e s))" "tw_object w = Some i" "tw_phase w = Returned True"
    by (auto simp: tool_allowed_def list_ex_iff)
  show ?thesis
  proof (cases "w \<in> set (waits s)")
    case True
    with w show ?thesis by (auto simp: tool_allowed_def list_ex_iff)
  next
    case False
    from returned_step [OF assms(1) w(1) False w(3,2)] show ?thesis by simp
  qed
qed

interpretation typed: consent text_step reg_ok said_yes tool_allowed text_consents
  by unfold_locales (use text_step_ok said_yes_step tool_allowed_step in blast)+

lemma extends_run: "reg_ok s \<Longrightarrow> extends (fold text_step es s) s"
proof (induction es arbitrary: s)
  case (Cons e es)
  with text_step_ok [OF Cons.prems, of e] Cons.IH [of "text_step e s"] show ?case
    by (auto intro: extends_trans)
qed simp

lemma reg_ok_empty [simp]: "reg_ok empty_registry"
  by (simp add: reg_ok_def empty_registry_def)

lemma empty_nothing: "\<not> said_yes empty_registry i" "\<not> tool_allowed empty_registry i"
  by (simp_all add: said_yes_def tool_allowed_def empty_registry_def)

text \<open>The receipts are honest as long as no wait is announcing its timeout: a wait that returned a
  denial was not answered yes and cannot be any more.\<close>

definition settled :: "text_registry \<Rightarrow> bool" where
  "settled s = (reg_ok s \<and>
     (\<forall>w \<in> set (waits s). tw_phase w \<noteq> Announcing \<and>
        (tw_phase w = Returned False \<longrightarrow> (\<forall>i. tw_object w = Some i \<longrightarrow>
           \<not> said_yes s i \<and> i \<notin> snd ` set (pending s)))) \<and>
     (\<forall>p \<in> set (objects s). \<not> pa_announces p))"

fun quiet_event :: "text_event \<Rightarrow> bool" where
  "quiet_event (OpenPrompt _ _ _ _ ann) = (\<not> ann)"
| "quiet_event _ = True"

lemma end_wait_pending: "set (pending (end_wait k ph s)) \<subseteq> set (pending s)"
  using set_dict_pop by (fastforce simp: end_wait_def split: option.splits)

lemma forget_pending: "set (pending (forget_approval se rq s)) \<subseteq> set (pending s)"
  using set_dict_pop by fastforce

lemma pending_shrinks:
  "set (pending (text_step e s)) \<subseteq> set (pending s) \<union> {(k, length (objects s)) | k. True}"
proof (cases e)
  case (OpenPrompt se rq title conv ann)
  then show ?thesis using set_dict_set [of "registry_key se rq" "length (objects s)" "pending s"]
    by (auto simp: open_approval_def Let_def split: option.splits)
next
  case (WaitWakes k ok)
  then show ?thesis using end_wait_pending [of k _ s]
    by (auto simp: wait_wakes_def split: option.splits future.splits dest: end_wait_pending [THEN subsetD])
next
  case (WaitTimesOut k)
  then show ?thesis
    by (auto simp: wait_times_out_def split: option.splits dest: end_wait_pending [THEN subsetD])
next
  case (DeliverVerdict se v conv)
  then show ?thesis
    by (auto simp: deliver_verdict_def split: option.splits dest: set_dict_pop [THEN subsetD])
next
  case (AbandonPrompt se rq)
  then show ?thesis by (auto simp: abandon_approval_def dest: set_dict_pop [THEN subsetD])
qed (auto simp: ask_decider_def split: option.splits dest: end_wait_pending [THEN subsetD])

lemma pending_step:
  assumes "i < length (objects s)" "i \<notin> snd ` set (pending s)"
  shows "i \<notin> snd ` set (pending (text_step e s))"
proof
  assume "i \<in> snd ` set (pending (text_step e s))"
  then obtain k where "(k, i) \<in> set (pending (text_step e s))" by auto
  with pending_shrinks [of e s] assms(1) have "(k, i) \<in> set (pending s)" by auto
  with assms(2) show False by (auto intro: rev_image_eqI)
qed

lemma no_announcing_step:
  assumes "settled s" "quiet_event e" "w \<in> set (waits (text_step e s))"
  shows "tw_phase w \<noteq> Announcing"
proof (cases e)
  case (WaitTimesOut k)
  have "\<not> pa_announces (objects s ! i)" if i: "suspended Awaiting k s = Some i" for i
  proof -
    have "i < length (objects s)"
      using suspendedD [OF i] assms(1) by (auto simp: settled_def intro: reg_ok_waits [of s "waits s ! k"])
    with assms(1) show ?thesis by (simp add: settled_def)
  qed
  with WaitTimesOut assms show ?thesis
    by (auto simp: wait_times_out_def settled_def split: option.splits if_splits dest!: waits_end_wait)
qed (use assms in \<open>auto simp: settled_def open_approval_def ask_decider_def wait_wakes_def Let_def
      deliver_verdict_def abandon_approval_def
      split: option.splits future.splits if_splits dest!: waits_end_wait\<close>)

lemma objects_quiet_step:
  assumes "settled s" "quiet_event e" "p \<in> set (objects (text_step e s))"
  shows "\<not> pa_announces p"
proof -
  from assms(3) obtain i where i: "i < length (objects (text_step e s))" "p = objects (text_step e s) ! i"
    by (auto simp: in_set_conv_nth)
  show ?thesis
  proof (cases "i < length (objects s)")
    case True
    with text_step_ok [of s e] assms(1) i have "same_request p (objects s ! i)"
      by (auto simp: settled_def extends_def)
    with True assms(1) show ?thesis by (auto simp: settled_def same_request_def)
  next
    case False
    with i assms(2) show ?thesis
      by (cases e) (auto simp: open_approval_def ask_decider_def wait_wakes_def wait_times_out_def
          deliver_verdict_def abandon_approval_def nth_append Let_def
          split: option.splits future.splits if_splits)
  qed
qed

lemma settled_step:
  assumes "settled s" "quiet_event e"
  shows "settled (text_step e s)"
proof -
  have ok: "reg_ok s" using assms(1) by (simp add: settled_def)
  have "\<not> said_yes (text_step e s) i \<and> i \<notin> snd ` set (pending (text_step e s))"
    if w: "w \<in> set (waits (text_step e s))" "tw_phase w = Returned False" "tw_object w = Some i" for w i
  proof (cases "w \<in> set (waits s)")
    case True
    with assms(1) w have no: "\<not> said_yes s i" "i \<notin> snd ` set (pending s)" by (auto simp: settled_def)
    have "i < length (objects s)" using True w(3) by (rule reg_ok_waits [OF ok])
    moreover have "\<not> text_consents e s i"
    proof
      assume "text_consents e s i"
      then obtain se conv where "pending_for se conv s = Some i"
        by (auto simp: text_consents_def split: text_event.splits)
      from pending_for_Some(3) [OF ok this] no(2) show False by (auto intro: rev_image_eqI)
    qed
    ultimately show ?thesis using no said_yes_step [OF ok] pending_step by blast
  next
    case False
    from returned_step [OF ok w(1) False w(2,3)] obtain k ph where k: "suspended ph k s = Some i"
      "ph = Announcing \<or> \<not> said_yes s i"
      "pending (text_step e s) = dict_pop (key_of (objects s ! i)) (pending s)" by auto
    have "ph \<noteq> Announcing"
      using suspendedD [OF k(1)] assms(1) nth_mem [of k "waits s"] by (auto simp: settled_def)
    moreover have "i \<notin> snd ` set (pending (text_step e s))"
      unfolding k(3) using reg_okD [OF ok] by (auto simp: AList.delete_eq)
    moreover have "\<not> text_consents e s i"
    proof
      assume "text_consents e s i"
      then obtain se v conv where "e = DeliverVerdict se v conv" by (auto simp: text_consents_def split: text_event.splits)
      with w(1) False show False by (auto simp: deliver_verdict_def split: option.splits)
    qed
    ultimately show ?thesis using k(2) said_yes_step [OF ok] by blast
  qed
  then show ?thesis using text_step_ok [OF ok] no_announcing_step [OF assms] objects_quiet_step [OF assms]
    by (auto simp: settled_def)
qed

lemma objectless_step:
  assumes "\<forall>w \<in> set (waits s). tw_object w = None \<longrightarrow> tw_phase w = Returned False"
  shows "\<forall>w \<in> set (waits (text_step e s)). tw_object w = None \<longrightarrow> tw_phase w = Returned False"
proof -
  have E: "\<forall>w \<in> set (waits (end_wait k ph s)). tw_object w = None \<longrightarrow> tw_phase w = Returned False" for k ph
    using assms in_set_phase by (fastforce simp: end_wait_def split: option.splits)
  have P: "\<forall>w \<in> set ((waits s)[k := (waits s ! k)\<lparr>tw_phase := ph\<rparr>]). tw_object w = None \<longrightarrow> tw_phase w = Returned False"
    if "suspended q k s = Some i" for k ph q i
    using suspendedD [OF that] assms in_set_phase by fastforce
  show ?thesis
    by (cases e) (use assms E P in \<open>auto simp: open_approval_def ask_decider_def wait_wakes_def wait_times_out_def
        deliver_verdict_def abandon_approval_def Let_def split: option.splits future.splits\<close>)
qed

lemma objectless_run:
  "w \<in> set (waits (fold text_step es empty_registry)) \<Longrightarrow> tw_object w = None \<Longrightarrow> tw_phase w = Returned False"
proof -
  have "\<forall>w \<in> set (waits (fold text_step es s)). tw_object w = None \<longrightarrow> tw_phase w = Returned False"
    if "\<forall>w \<in> set (waits s). tw_object w = None \<longrightarrow> tw_phase w = Returned False" for s
    using that by (induction es arbitrary: s) (auto intro!: objectless_step simp del: text_step.simps)
  from this [of empty_registry]
  show "w \<in> set (waits (fold text_step es empty_registry)) \<Longrightarrow> tw_object w = None \<Longrightarrow> tw_phase w = Returned False"
    by (simp add: empty_registry_def)
qed

lemma said_yes_stable:
  assumes "reg_ok s" "said_yes s i"
  shows "said_yes (text_step e s) i"
proof -
  have ext: "i < length (objects (text_step e s))"
    using text_step_ok [OF assms(1), of e] assms(2) by (auto simp: extends_def said_yes_def)
  have "pa_future (objects (text_step e s) ! i) = pa_future (objects s ! i)"
  proof (cases e)
    case (OpenPrompt se rq title conv ann)
    have "j < length (objects s)" if "dict_get (pending s) (registry_key se rq) = Some j" for j
      using that assms(1) by (auto dest: dict_get_in reg_okD)
    with OpenPrompt show ?thesis using assms(2)
      by (auto simp: open_approval_def said_yes_def nth_append nth_list_update Let_def split: option.splits)
  next
    case (DeliverVerdict se v conv)
    show ?thesis
    proof (cases "pending_for se conv s")
      case (Some j)
      with pending_for_Some [OF assms(1) Some] assms(2) have "i \<noteq> j"
        by (auto simp: answers_here_def said_yes_def)
      with DeliverVerdict Some show ?thesis by (simp add: deliver_verdict_def set_future_def)
    qed (simp add: DeliverVerdict deliver_verdict_def)
  next
    case (RequestCancelled j)
    then show ?thesis using assms(2) by (auto simp: said_yes_def future_set)
  qed (auto simp: ask_decider_def wait_wakes_def wait_times_out_def abandon_approval_def
      split: option.splits future.splits)
  with assms(2) ext show ?thesis by (simp add: said_yes_def)
qed

lemma said_yes_run: "reg_ok s \<Longrightarrow> said_yes s i \<Longrightarrow> said_yes (fold text_step es s) i"
proof (induction es arbitrary: s)
  case (Cons e es)
  have "said_yes (fold text_step es (text_step e s)) i"
    by (rule Cons.IH) (use Cons.prems text_step_ok said_yes_stable in blast)+
  then show ?case by simp
qed simp

lemma settled_run: "settled s \<Longrightarrow> list_all quiet_event es \<Longrightarrow> settled (fold text_step es s)"
  by (induction es arbitrary: s) (auto intro: settled_step simp del: text_step.simps)

lemma settled_empty [simp]: "settled empty_registry"
  by (simp add: settled_def) (simp add: empty_registry_def)

subsection \<open>Answers in the history\<close>

text \<open>A verdict was delivered in session \<open>se\<close> to object \<open>i\<close>, then its oldest open request.\<close>

definition delivered :: "text_event list \<Rightarrow> string \<Rightarrow> string \<Rightarrow> nat \<Rightarrow> bool" where
  "delivered es se v i = (\<exists>pre conv post. es = pre @ DeliverVerdict se v conv # post \<and>
     pending_for se conv (fold text_step pre empty_registry) = Some i)"

lemma delivered_snoc: "delivered es se v i \<Longrightarrow> delivered (es @ [e]) se v i"
  unfolding delivered_def by (metis append_Cons append_assoc)

lemma delivered_now:
  "pending_for se conv (fold text_step es empty_registry) = Some i \<Longrightarrow> delivered (es @ [DeliverVerdict se v conv]) se v i"
  unfolding delivered_def by blast

lemma run_ok: "reg_ok (fold text_step es empty_registry)"
  by (rule typed.good_run) simp

lemma resolved_delivered:
  "i < length (objects (fold text_step es empty_registry)) \<Longrightarrow>
   pa_future (objects (fold text_step es empty_registry) ! i) = ResolvedTo v \<Longrightarrow>
     delivered es (pa_session (objects (fold text_step es empty_registry) ! i)) v i"
proof (induction es rule: rev_induct)
  case Nil
  then show ?case by (simp add: empty_registry_def)
next
  case (snoc e es)
  let ?s = "fold text_step es empty_registry"
  have st: "fold text_step (es @ [e]) empty_registry = text_step e ?s" by simp
  have ext: "extends (text_step e ?s) ?s" using text_step_ok [OF run_ok] by blast
  have f: "i < length (objects (text_step e ?s))" "pa_future (objects (text_step e ?s) ! i) = ResolvedTo v"
    using snoc.prems by simp_all
  then have "pa_future (objects (text_step e ?s) ! i) \<noteq> Unresolved" by simp
  from future_step [OF run_ok f(1) this] f(2)
  consider "i < length (objects ?s)" "pa_future (objects ?s ! i) = ResolvedTo v"
    | se conv where "e = DeliverVerdict se v conv" "pending_for se conv ?s = Some i" by auto
  then show ?case
  proof cases
    case 1
    then have "pa_session (objects (text_step e ?s) ! i) = pa_session (objects ?s ! i)"
      using ext by (simp add: extends_def same_request_def)
    with delivered_snoc [OF snoc.IH [OF 1], of e] show ?thesis by (simp add: st)
  next
    case 2
    from pending_for_Some [OF run_ok 2(2)] ext
    have "pa_session (objects (text_step e ?s) ! i) = se" by (simp add: extends_def same_request_def answers_here_def)
    with delivered_now [OF 2(2), of v] 2(1) show ?thesis by (simp add: st)
  qed
qed

lemma policy_step:
  "policy (text_step e s) = policy s \<or> (\<exists>k i. suspended Awaiting k s = Some i \<and>
     pa_future (objects s ! i) = ResolvedTo TRUST \<and>
     policy (text_step e s) = dict_set (pa_session (objects s ! i)) ''auto'' (policy s))"
proof (cases e)
  case (WaitWakes k ok)
  then show ?thesis
    by (cases "suspended Awaiting k s")
      (auto simp: wait_wakes_def grant_session_trust_def end_wait_def forget_approval_def
        split: future.splits option.splits)
qed (auto simp: open_approval_def ask_decider_def deliver_verdict_def abandon_approval_def wait_times_out_def
    end_wait_def forget_approval_def set_future_def Let_def split: option.splits)

lemma trusted_delivered:
  "trusted se (fold text_step es empty_registry) \<Longrightarrow> \<exists>i. delivered es se TRUST i"
proof (induction es rule: rev_induct)
  case Nil
  then show ?case by (simp add: trusted_def empty_registry_def)
next
  case (snoc e es)
  let ?s = "fold text_step es empty_registry"
  show ?case
  proof (cases "trusted se ?s")
    case True
    with snoc.IH delivered_snoc show ?thesis by blast
  next
    case False
    with snoc.prems policy_step [of e ?s] obtain k i where i: "suspended Awaiting k ?s = Some i"
      "pa_future (objects ?s ! i) = ResolvedTo TRUST" "pa_session (objects ?s ! i) = se"
      by (auto simp: trusted_def dict_simps split: if_splits)
    have "i < length (objects ?s)" using suspendedD [OF i(1)] reg_ok_waits [OF run_ok nth_mem] by blast
    from delivered_snoc [OF resolved_delivered [OF this i(2)]] i(3) show ?thesis by blast
  qed
qed

lemma allowed_delivered:
  assumes "w \<in> set (waits (fold text_step es empty_registry))" "tw_phase w = Returned True"
  shows "\<exists>i v. tw_object w = Some i \<and> (v = APPROVE \<or> v = TRUST) \<and>
    delivered es (pa_session (objects (fold text_step es empty_registry) ! i)) v i"
proof -
  from objectless_run [OF assms(1)] assms(2) obtain i where i: "tw_object w = Some i"
    by (cases "tw_object w") auto
  with assms have a: "tool_allowed (fold text_step es empty_registry) i"
    by (auto simp: tool_allowed_def list_ex_iff)
  from typed.allowed_only_by_consent [OF reg_ok_empty a empty_nothing]
  obtain pre e post where e: "es = pre @ e # post" "text_consents e (fold text_step pre empty_registry) i"
    by (auto simp: typed.answered_in_def)
  then obtain se v conv where d: "e = DeliverVerdict se v conv"
    "pending_for se conv (fold text_step pre empty_registry) = Some i" "v = APPROVE \<or> v = TRUST"
    by (cases e) (auto simp: text_consents_def)
  have "extends (fold text_step es empty_registry) (fold text_step pre empty_registry)"
    using extends_run [OF run_ok, of "e # post"] by (simp add: e(1))
  with pending_for_Some [OF run_ok d(2)]
  have "pa_session (objects (fold text_step es empty_registry) ! i) = se"
    by (simp add: extends_def same_request_def answers_here_def)
  moreover have "delivered es se v i" unfolding delivered_def using e(1) d(1,2) by blast
  ultimately show ?thesis using i d(3) by blast
qed

subsection \<open>The properties\<close>

text \<open>C4. No tool is approved but by an answer to its own prompt. Whatever prompts, answers,
  timeouts and cancellations interleave, a decider that returned approval was answered: a verdict
  of approve or trust was delivered, in the session of its own request, and from the conversation
  its prompt was posted in when both are known, while that request was the oldest open one there.\<close>

theorem tool_approved_by_answer:
  assumes "w \<in> set (waits (fold text_step es empty_registry))" "tw_phase w = Returned True"
  shows "\<exists>pre se v conv post i. es = pre @ DeliverVerdict se v conv # post \<and> (v = APPROVE \<or> v = TRUST) \<and>
     tw_object w = Some i \<and> pending_for se conv (fold text_step pre empty_registry) = Some i \<and>
     (let p = objects (fold text_step es empty_registry) ! i in
        pa_session p = se \<and> (conv = [] \<or> pa_conversation p = [] \<or> pa_conversation p = conv))"
proof -
  from objectless_run [OF assms(1)] assms(2) obtain i where i: "tw_object w = Some i"
    by (cases "tw_object w") auto
  with assms have "tool_allowed (fold text_step es empty_registry) i"
    by (auto simp: tool_allowed_def list_ex_iff)
  from typed.allowed_only_by_consent [OF reg_ok_empty this empty_nothing]
  obtain pre e post where e': "es = pre @ e # post" "text_consents e (fold text_step pre empty_registry) i"
    by (auto simp: typed.answered_in_def)
  then obtain se v conv where e: "es = pre @ DeliverVerdict se v conv # post"
    "pending_for se conv (fold text_step pre empty_registry) = Some i" "v = APPROVE \<or> v = TRUST"
    by (cases e) (auto simp: text_consents_def)
  have ok: "reg_ok (fold text_step pre empty_registry)" by (rule typed.good_run) simp
  have "extends (fold text_step es empty_registry) (fold text_step pre empty_registry)"
    using extends_run [OF ok, of "DeliverVerdict se v conv # post"] by (simp add: e(1))
  with pending_for_Some [OF ok e(2)] e i show ?thesis
    by (intro exI [of _ pre] exI [of _ se] exI [of _ v] exI [of _ conv] exI [of _ post] exI [of _ i])
      (auto simp: extends_def same_request_def answers_here_def Let_def)
qed

definition typed_history :: "text_event list" where
  "typed_history = [OpenPrompt ''s1'' ''1'' ''bash'' ''c1'' False, AskDecider ''s1'' ''1'',
     DeliverVerdict ''s2'' APPROVE ''c1'', DeliverVerdict ''s1'' TRUST ''c1'', WaitWakes 0 True]"

lemma typed_history_runs:
  "fold text_step typed_history empty_registry =
     \<lparr>objects = [\<lparr>pa_session = ''s1'', pa_request = ''1'', pa_future = ResolvedTo TRUST,
        pa_conversation = ''c1'', pa_title = ''bash'', pa_announces = False\<rparr>], pending = [],
      waits = [\<lparr>tw_object = Some 0, tw_phase = Returned True\<rparr>], policy = [(''s1'', ''auto'')]\<rparr>"
  by (simp add: typed_history_def empty_registry_def open_approval_def ask_decider_def claim_approval_def
      deliver_verdict_def pending_for_def answers_here_def set_future_def wait_wakes_def suspended_def
      end_wait_def forget_approval_def grant_session_trust_def registry_key_def verdict_defs Let_def)

theorem tool_approved_by_answer_witness:
  "\<exists>pre se v conv post. typed_history = pre @ DeliverVerdict se v conv # post \<and> se = ''s1'' \<and> conv = ''c1'' \<and>
     (v = APPROVE \<or> v = TRUST)"
proof -
  from tool_approved_by_answer [of "\<lparr>tw_object = Some 0, tw_phase = Returned True\<rparr>" typed_history]
  obtain pre se v conv post where h: "typed_history = pre @ DeliverVerdict se v conv # post" "v = APPROVE \<or> v = TRUST"
    "se = ''s1''" "conv = [] \<or> conv = ''c1''"
    by (auto simp: typed_history_runs Let_def)
  then have "DeliverVerdict ''s1'' v conv \<in> set typed_history" by (metis in_set_conv_decomp)
  then have "conv = ''c1''" by (auto simp: typed_history_def)
  with h show ?thesis by blast
qed

text \<open>A receipt is honest. When no renderer suspends to announce a timeout, a typed answer that
  was acknowledged as approved or trusted resolved an open request, and no decider waiting on that
  request ever returns a denial: an operator is told "approved" only of a tool that can still run.\<close>

theorem receipt_is_honest:
  assumes "list_all quiet_event es" "es = pre @ DeliverVerdict se v conv # post"
    "fst (deliver_verdict se v conv (fold text_step pre empty_registry)) \<in> {RECEIPT_APPROVED, RECEIPT_TRUSTED}"
    "w \<in> set (waits (fold text_step es empty_registry))"
    "tw_object w = pending_for se conv (fold text_step pre empty_registry)"
  shows "tw_phase w \<noteq> Returned False"
proof -
  let ?s = "fold text_step pre empty_registry"
  have ok: "reg_ok ?s" by (rule typed.good_run) simp
  from assms(3) obtain i where i: "pending_for se conv ?s = Some i" "v = APPROVE \<or> v = TRUST"
    by (auto simp: deliver_verdict_def receipt_for_def receipt_defs verdict_defs split: option.splits if_splits)
  have "said_yes (text_step (DeliverVerdict se v conv) ?s) i"
    using i pending_for_Some(1) [OF ok i(1)] by (auto simp: said_yes_def deliver_verdict_def future_set)
  from said_yes_run [OF conjunct1 [OF text_step_ok [OF ok]] this, of post]
  have "said_yes (fold text_step es empty_registry) i" by (simp add: assms(2))
  moreover have "settled (fold text_step es empty_registry)" by (rule settled_run) (simp_all add: assms(1))
  ultimately show ?thesis using assms(4,5) i(1) by (auto simp: settled_def)
qed

theorem receipt_is_honest_witness:
  "tw_phase (waits (fold text_step typed_history empty_registry) ! 0) \<noteq> Returned False"
proof -
  let ?pre = "take 3 typed_history"
  have pre: "pending_for ''s1'' ''c1'' (fold text_step ?pre empty_registry) = Some 0"
    by (simp add: typed_history_def empty_registry_def open_approval_def ask_decider_def claim_approval_def
        deliver_verdict_def pending_for_def answers_here_def registry_key_def Let_def)
  have "typed_history = ?pre @ DeliverVerdict ''s1'' TRUST ''c1'' # drop 4 typed_history"
    by (simp add: typed_history_def)
  moreover have "list_all quiet_event typed_history" by (simp add: typed_history_def)
  moreover have "fst (deliver_verdict ''s1'' TRUST ''c1'' (fold text_step ?pre empty_registry)) \<in> {RECEIPT_APPROVED, RECEIPT_TRUSTED}"
    using pre by (simp add: deliver_verdict_def receipt_for_def verdict_defs)
  ultimately show ?thesis
    using receipt_is_honest [of typed_history ?pre "''s1''" TRUST "''c1''" "drop 4 typed_history"
      "waits (fold text_step typed_history empty_registry) ! 0"] pre
    by (simp add: typed_history_runs)
qed

text \<open>A receipt can lie while a timeout is being announced. When the renderer posts a notice on
  timeout, an answer typed during the post is acknowledged as approved although the decider then
  returns the denial: the operator is told the tool was approved and it is refused.\<close>

theorem announced_timeout_receipt:
  "\<exists>s. s = fold text_step [OpenPrompt ''s1'' ''1'' ''bash'' ''c1'' True, AskDecider ''s1'' ''1'', WaitTimesOut 0] empty_registry \<and>
     fst (deliver_verdict ''s1'' APPROVE ''c1'' s) = RECEIPT_APPROVED \<and>
     waits (fold text_step [DeliverVerdict ''s1'' APPROVE ''c1'', NoticePosted 0] s) =
       [\<lparr>tw_object = Some 0, tw_phase = Returned False\<rparr>]"
  by (simp add: empty_registry_def open_approval_def ask_decider_def claim_approval_def wait_times_out_def
      deliver_verdict_def pending_for_def answers_here_def set_future_def suspended_def receipt_for_def
      end_wait_def forget_approval_def registry_key_def Let_def)

lemma approval_tokens:
  "dict_get APPROVAL_ORDINALS t = Some v \<or> dict_get APPROVAL_WORDS t = Some v \<Longrightarrow>
     (v = APPROVE \<or> v = DENY \<or> v = TRUST) \<and> CHR '' '' \<notin> set t"
  by (auto simp: APPROVAL_ORDINALS_def APPROVAL_WORDS_def split: if_splits)

lemma rstrip_marks_blank: "CHR '' '' \<in> set s \<Longrightarrow> CHR '' '' \<in> set (rstrip_marks s)"
proof -
  have "CHR '' '' \<in> set (dropWhile (\<lambda>c. c = CHR ''.'' \<or> c = CHR ''!'') xs)" if "CHR '' '' \<in> set xs" for xs
    using that by (induction xs) auto
  then show "CHR '' '' \<in> set s \<Longrightarrow> CHR '' '' \<in> set (rstrip_marks s)" by (simp add: rstrip_marks_def)
qed

text \<open>What a typed reply can mean. A reply parses to approve, deny, trust or nothing; one that
  carries anything beside the single answer word, its surrounding blanks and closing marks, parses
  to nothing and so reaches the model as a message.\<close>

theorem typed_reply_means:
  "parse_approval_reply txt \<in> {APPROVE, DENY, TRUST, []} \<and>
   \<not> (CHR '' '' \<in> set (py_strip txt) \<and> parse_approval_reply txt \<noteq> [])"
proof -
  have low: "CHR '' '' \<in> set (py_lower t)" if "CHR '' '' \<in> set t" for t
    using that by (auto simp: py_lower_def py_lower_char_def intro!: rev_image_eqI)
  show ?thesis
    using approval_tokens [of "rstrip_marks (py_lower (py_strip txt))"]
      rstrip_marks_blank [OF low, of "py_strip txt"]
    by (auto simp: parse_approval_reply_def Let_def split: option.splits)
qed

end
