(* ===== verification/Widget_Approval.thy ===== *)
theory Widget_Approval imports Tool_Approval begin

section \<open>Approval by widget press (\<^verbatim>\<open>PendingApprovals\<close> of \<^verbatim>\<open>messaging/approval.py\<close>)\<close>

text \<open>
  One \<^verbatim>\<open>PendingApprovals\<close> registry and the calls of \<^verbatim>\<open>decide\<close> suspended on it. A future is
  an index into \<open>cells\<close>; \<open>cell_key\<close> records for which prompt it was created and is read by no
  operation. The nonce a \<^verbatim>\<open>reserve\<close> would mint is an argument of the event, and request ids
  are texts. A timed-out wait cancels its future.
\<close>

datatype press = NotPressed | Pressed bool | PressCancelled

record press_cell =
  cell_key :: string
  cell_press :: press

datatype press_wait_phase = PressAwaited | Decided bool | Unwound

record press_wait =
  pw_key :: string
  pw_cell :: nat
  pw_phase :: press_wait_phase

record press_registry =
  cells :: "press_cell list"
  prompts :: "(string, nat) dict"
  nonces :: "(string, string) dict"
  press_waits :: "press_wait list"

definition empty_presses :: press_registry where
  "empty_presses = \<lparr>cells = [], prompts = [], nonces = [], press_waits = []\<rparr>"

definition prompt_key :: "string \<Rightarrow> string \<Rightarrow> string" where
  "prompt_key session_key request_id = session_key @ '':'' @ request_id"

definition unpressed :: "press_registry \<Rightarrow> nat \<Rightarrow> bool" where
  "unpressed s i = (cell_press (cells s ! i) = NotPressed)"

definition first_pending :: "string \<Rightarrow> string option \<Rightarrow> press_registry \<Rightarrow> (string \<times> nat) option" where
  "first_pending session_key request_id s =
     (case request_id of
         Some r \<Rightarrow>
           (case dict_get (prompts s) (prompt_key session_key r) of
               Some i \<Rightarrow> if unpressed s i then Some (prompt_key session_key r, i) else None
             | None \<Rightarrow> None)
       | None \<Rightarrow> find (\<lambda>(k, i). starts_with k (session_key @ '':'') \<and> unpressed s i) (prompts s))"

definition has_pending :: "string \<Rightarrow> press_registry \<Rightarrow> bool" where
  "has_pending session_key s = (first_pending session_key None s \<noteq> None)"

definition press_cell_set :: "nat \<Rightarrow> press \<Rightarrow> press_registry \<Rightarrow> press_registry" where
  "press_cell_set i p s = s\<lparr>cells := (cells s)[i := (cells s ! i)\<lparr>cell_press := p\<rparr>]\<rparr>"

definition nonce_ok :: "string \<Rightarrow> string \<Rightarrow> press_registry \<Rightarrow> bool" where
  "nonce_ok key expected s =
     (expected = [] \<or> (let minted = (case dict_get (nonces s) key of Some n \<Rightarrow> n | None \<Rightarrow> [])
                       in minted \<noteq> [] \<and> expected = minted))"

definition resolve_press :: "string \<Rightarrow> bool \<Rightarrow> string option \<Rightarrow> string \<Rightarrow> press_registry \<Rightarrow> bool \<times> press_registry" where
  "resolve_press session_key approved request_id expected s =
     (case first_pending session_key request_id s of
         None \<Rightarrow> (False, s)
       | Some (key, i) \<Rightarrow>
           if \<not> nonce_ok key expected s then (False, s)
           else (True, press_cell_set i (Pressed approved) s))"

definition new_cell :: "string \<Rightarrow> press_registry \<Rightarrow> press_registry" where
  "new_cell k s = s\<lparr>cells := cells s @ [\<lparr>cell_key = k, cell_press = NotPressed\<rparr>],
                   prompts := dict_set k (length (cells s)) (prompts s)\<rparr>"

definition reserve_prompt :: "string \<Rightarrow> string \<Rightarrow> string \<Rightarrow> press_registry \<Rightarrow> string \<times> press_registry" where
  "reserve_prompt session_key request_id fresh s =
     (let k = prompt_key session_key request_id;
          s1 = (case dict_get (prompts s) k of
                  None \<Rightarrow> new_cell k s
                | Some i \<Rightarrow> if unpressed s i then s else new_cell k s);
          nonce = (case dict_get (nonces s) k of Some n \<Rightarrow> if n = [] then fresh else n | None \<Rightarrow> fresh)
      in (nonce, s1\<lparr>nonces := dict_set k nonce (nonces s1)\<rparr>))"

definition retire_prompt :: "string \<Rightarrow> press_registry \<Rightarrow> press_registry" where
  "retire_prompt k s = s\<lparr>prompts := dict_pop k (prompts s), nonces := dict_pop k (nonces s)\<rparr>"

definition discard_reservations :: "string \<Rightarrow> press_registry \<Rightarrow> press_registry" where
  "discard_reservations session_key s =
     fold (\<lambda>(k, i). if unpressed s i then retire_prompt k else id)
       (filter (\<lambda>(k, i). starts_with k (session_key @ '':'')) (prompts s)) s"

definition add_wait :: "string \<Rightarrow> nat \<Rightarrow> press_wait_phase \<Rightarrow> press_registry \<Rightarrow> press_registry" where
  "add_wait k i ph s = s\<lparr>press_waits := press_waits s @ [\<lparr>pw_key = k, pw_cell = i, pw_phase = ph\<rparr>]\<rparr>"

text \<open>\<^verbatim>\<open>decide\<close> up to its wait; a reservation already resolved is the answer.\<close>

definition decide_press :: "string \<Rightarrow> string \<Rightarrow> press_registry \<Rightarrow> press_registry" where
  "decide_press session_key request_id s =
     (let k = prompt_key session_key request_id in
      case dict_get (prompts s) k of
         Some i \<Rightarrow>
          (case cell_press (cells s ! i) of
              Pressed b \<Rightarrow> retire_prompt k (add_wait k i (Decided b) s)
            | PressCancelled \<Rightarrow> retire_prompt k (add_wait k i Unwound s)
            | NotPressed \<Rightarrow> add_wait k i PressAwaited s)
       | None \<Rightarrow> (let s1 = new_cell k s in add_wait k (length (cells s)) PressAwaited s1))"

definition end_press_wait :: "nat \<Rightarrow> press_wait_phase \<Rightarrow> press_registry \<Rightarrow> press_registry" where
  "end_press_wait n ph s = retire_prompt (pw_key (press_waits s ! n))
     (s\<lparr>press_waits := (press_waits s)[n := (press_waits s ! n)\<lparr>pw_phase := ph\<rparr>]\<rparr>)"

definition awaited :: "nat \<Rightarrow> press_registry \<Rightarrow> nat option" where
  "awaited n s = (if n < length (press_waits s) \<and> pw_phase (press_waits s ! n) = PressAwaited
                  then Some (pw_cell (press_waits s ! n)) else None)"

datatype press_event =
    Reserve string string string
  | Press string bool "string option" string
  | Discard string
  | Decide string string
  | PressWakes nat
  | PressTimesOut nat
  | PressTurnEnds nat

definition press_ends :: "nat \<Rightarrow> press_wait_phase \<Rightarrow> press_registry \<Rightarrow> press_registry" where
  "press_ends n ph s = (case awaited n s of
       None \<Rightarrow> s
     | Some i \<Rightarrow> if unpressed s i then end_press_wait n ph (press_cell_set i PressCancelled s)
                 else if ph = Unwound then end_press_wait n ph s else s)"

fun press_step :: "press_event \<Rightarrow> press_registry \<Rightarrow> press_registry" where
  "press_step (Reserve se rq fresh) s = snd (reserve_prompt se rq fresh s)"
| "press_step (Press se ok rq nonce) s = snd (resolve_press se ok rq nonce s)"
| "press_step (Discard se) s = discard_reservations se s"
| "press_step (Decide se rq) s = decide_press se rq s"
| "press_step (PressWakes n) s = (case awaited n s of
       None \<Rightarrow> s
     | Some i \<Rightarrow> (case cell_press (cells s ! i) of
           Pressed b \<Rightarrow> end_press_wait n (Decided b) s
         | PressCancelled \<Rightarrow> end_press_wait n Unwound s
         | NotPressed \<Rightarrow> s))"
| "press_step (PressTimesOut n) s = press_ends n (Decided False) s"
| "press_step (PressTurnEnds n) s = press_ends n Unwound s"

subsection \<open>References stay valid\<close>

definition cells_ok :: "press_registry \<Rightarrow> bool" where
  "cells_ok s = (dict_ok (prompts s) \<and>
     (\<forall>(k, i) \<in> set (prompts s). i < length (cells s) \<and> cell_key (cells s ! i) = k) \<and>
     (\<forall>w \<in> set (press_waits s). pw_cell w < length (cells s) \<and> cell_key (cells s ! pw_cell w) = pw_key w))"

definition cells_extend :: "press_registry \<Rightarrow> press_registry \<Rightarrow> bool" where
  "cells_extend s' s = (length (cells s) \<le> length (cells s') \<and>
     (\<forall>i < length (cells s). cell_key (cells s' ! i) = cell_key (cells s ! i)))"

lemma cells_extend_refl [simp]: "cells_extend s s"
  by (simp add: cells_extend_def)

lemma cells_extend_trans: "cells_extend s2 s1 \<Longrightarrow> cells_extend s1 s \<Longrightarrow> cells_extend s2 s"
  unfolding cells_extend_def by (metis order_less_le_trans order_trans)

lemma cells_okD: "cells_ok s \<Longrightarrow> (k, i) \<in> set (prompts s) \<Longrightarrow> i < length (cells s) \<and> cell_key (cells s ! i) = k"
  by (auto simp: cells_ok_def)

lemma cells_ok_get: "cells_ok s \<Longrightarrow> dict_get (prompts s) k = Some i \<Longrightarrow> i < length (cells s) \<and> cell_key (cells s ! i) = k"
  using cells_okD dict_get_in by fast

lemma cells_ok_wait: "cells_ok s \<Longrightarrow> w \<in> set (press_waits s) \<Longrightarrow>
  pw_cell w < length (cells s) \<and> cell_key (cells s ! pw_cell w) = pw_key w"
  by (auto simp: cells_ok_def)

lemma retire_ok: "cells_ok s \<Longrightarrow> cells_ok (retire_prompt k s) \<and> cells_extend (retire_prompt k s) s"
  using set_dict_pop [of k "prompts s"] by (auto simp: cells_ok_def retire_prompt_def cells_extend_def)

lemma press_set_ok: "cells_ok s \<Longrightarrow> cells_ok (press_cell_set i p s) \<and> cells_extend (press_cell_set i p s) s"
proof -
  have "cell_key ((cells s)[i := (cells s ! i)\<lparr>cell_press := p\<rparr>] ! j) = cell_key (cells s ! j)"
    if "j < length (cells s)" for j
    using that by (cases "i = j") auto
  then show "cells_ok s \<Longrightarrow> cells_ok (press_cell_set i p s) \<and> cells_extend (press_cell_set i p s) s"
    by (auto simp: cells_ok_def press_cell_set_def cells_extend_def)
qed

lemma nonces_ok: "cells_ok (s\<lparr>nonces := ns\<rparr>) = cells_ok s" "cells_extend (s\<lparr>nonces := ns\<rparr>) t = cells_extend s t"
  by (simp_all add: cells_ok_def cells_extend_def)

lemma new_cell_ok:
  assumes "cells_ok s"
  shows "cells_ok (new_cell k s)" "cells_extend (new_cell k s) s"
proof -
  have "i < length (cells (new_cell k s)) \<and> cell_key (cells (new_cell k s) ! i) = k'"
    if "(k', i) \<in> set (prompts (new_cell k s))" for k' i
    using that set_dict_set [of k "length (cells s)" "prompts s"] cells_okD [OF assms]
    by (fastforce simp: new_cell_def nth_append)
  moreover have "dict_ok (prompts (new_cell k s))" using assms by (simp add: new_cell_def cells_ok_def)
  moreover have "pw_cell w < length (cells (new_cell k s)) \<and> cell_key (cells (new_cell k s) ! pw_cell w) = pw_key w"
    if "w \<in> set (press_waits s)" for w
    using cells_ok_wait [OF assms that] by (simp add: new_cell_def nth_append)
  ultimately show "cells_ok (new_cell k s)" by (auto simp: cells_ok_def) (auto simp: new_cell_def)
  show "cells_extend (new_cell k s) s" by (simp add: cells_extend_def new_cell_def nth_append)
qed

lemma add_wait_ok:
  "cells_ok s \<Longrightarrow> i < length (cells s) \<Longrightarrow> cell_key (cells s ! i) = k \<Longrightarrow>
     cells_ok (add_wait k i ph s) \<and> cells_extend (add_wait k i ph s) t = cells_extend s t"
  by (auto simp: cells_ok_def add_wait_def cells_extend_def)

lemma discard_ok:
  "cells_ok s \<Longrightarrow> cells_ok (fold (\<lambda>(k, i). if P s0 i then retire_prompt k else id) kis s) \<and>
     cells_extend (fold (\<lambda>(k, i). if P s0 i then retire_prompt k else id) kis s) s"
proof (induction kis arbitrary: s)
  case (Cons ki kis)
  obtain k i where ki: "ki = (k, i)" by (cases ki)
  show ?case
  proof (cases "P s0 i")
    case True
    from retire_ok [OF Cons.prems, of k] Cons.IH [of "retire_prompt k s"] show ?thesis
      by (auto simp: ki True intro: cells_extend_trans)
  next
    case False
    with Cons show ?thesis by (simp add: ki)
  qed
qed simp

lemma press_waits_set [simp]: "press_waits (press_cell_set i p s) = press_waits s"
  "prompts (press_cell_set i p s) = prompts s" "nonces (press_cell_set i p s) = nonces s"
  by (simp_all add: press_cell_set_def)

lemma in_set_list_update: "x \<in> set (xs[i := y]) \<Longrightarrow> x \<in> set xs \<or> (x = y \<and> i < length xs)"
  using set_update_subset_insert [of xs i y] by (cases "i < length xs") (auto simp: list_update_beyond)

lemma end_press_wait_ok:
  assumes "cells_ok s"
  shows "cells_ok (end_press_wait n ph s)" "cells_extend (end_press_wait n ph s) s"
proof -
  let ?s = "s\<lparr>press_waits := (press_waits s)[n := (press_waits s ! n)\<lparr>pw_phase := ph\<rparr>]\<rparr>"
  have "pw_cell w < length (cells s) \<and> cell_key (cells s ! pw_cell w) = pw_key w"
    if "w \<in> set (press_waits ?s)" for w
    using that cells_ok_wait [OF assms] nth_mem [of n "press_waits s"]
      in_set_list_update [of w "press_waits s" n "(press_waits s ! n)\<lparr>pw_phase := ph\<rparr>"] by auto
  then have "cells_ok ?s" using assms by (auto simp: cells_ok_def)
  from retire_ok [OF this] show "cells_ok (end_press_wait n ph s)" "cells_extend (end_press_wait n ph s) s"
    by (auto simp: end_press_wait_def cells_extend_def)
qed

lemma press_ends_ok:
  assumes "cells_ok s"
  shows "cells_ok (press_ends n ph s) \<and> cells_extend (press_ends n ph s) s"
proof -
  note P = press_set_ok [OF assms]
  have "cells_ok (end_press_wait n ph (press_cell_set i PressCancelled s)) \<and>
    cells_extend (end_press_wait n ph (press_cell_set i PressCancelled s)) s" for i
    using end_press_wait_ok [OF conjunct1 [OF P]] P cells_extend_trans by blast
  then show ?thesis using assms end_press_wait_ok [OF assms]
    by (cases "awaited n s") (simp_all add: press_ends_def)
qed

lemma press_step_ok:
  assumes "cells_ok s"
  shows "cells_ok (press_step e s) \<and> cells_extend (press_step e s) s"
proof (cases e)
  case (Reserve se rq fresh)
  then show ?thesis using new_cell_ok [OF assms] assms
    by (auto simp: reserve_prompt_def Let_def nonces_ok split: option.splits)
next
  case (Press se ok rq nonce)
  then show ?thesis using press_set_ok [OF assms] assms
    by (auto simp: resolve_press_def split: option.splits prod.splits)
next
  case (Discard se)
  then show ?thesis using discard_ok [OF assms, of unpressed s] by (simp add: discard_reservations_def)
next
  case (Decide se rq)
  show ?thesis
  proof (cases "dict_get (prompts s) (prompt_key se rq)")
    case None
    have "length (cells s) < length (cells (new_cell (prompt_key se rq) s))"
      "cell_key (cells (new_cell (prompt_key se rq) s) ! length (cells s)) = prompt_key se rq"
      by (simp_all add: new_cell_def)
    from add_wait_ok [OF new_cell_ok(1) [OF assms] this] new_cell_ok(2) [OF assms] None Decide
    show ?thesis by (simp add: decide_press_def Let_def)
  next
    case (Some i)
    with cells_ok_get [OF assms Some]
    have A: "cells_ok (add_wait (prompt_key se rq) i ph s) \<and> cells_extend (add_wait (prompt_key se rq) i ph s) s" for ph
      using add_wait_ok [OF assms, of i "prompt_key se rq" ph s] by simp
    have "cells_ok (retire_prompt (prompt_key se rq) (add_wait (prompt_key se rq) i ph s)) \<and>
      cells_extend (retire_prompt (prompt_key se rq) (add_wait (prompt_key se rq) i ph s)) s" for ph
      using retire_ok [OF conjunct1 [OF A]] A cells_extend_trans by blast
    with A Some Decide show ?thesis by (simp add: decide_press_def Let_def split: press.splits)
  qed
next
  case (PressWakes n)
  then show ?thesis using end_press_wait_ok [OF assms] assms
    by (auto split: option.splits press.splits)
next
  case (PressTimesOut n)
  then show ?thesis using press_ends_ok [OF assms] by simp
next
  case (PressTurnEnds n)
  then show ?thesis using press_ends_ok [OF assms] by simp
qed

subsection \<open>Consent\<close>

definition pressed_yes :: "press_registry \<Rightarrow> nat \<Rightarrow> bool" where
  "pressed_yes s i = (i < length (cells s) \<and> cell_press (cells s ! i) = Pressed True)"

definition press_allowed :: "press_registry \<Rightarrow> nat \<Rightarrow> bool" where
  "press_allowed s i = list_ex (\<lambda>w. pw_cell w = i \<and> pw_phase w = Decided True) (press_waits s)"

definition press_consents :: "press_event \<Rightarrow> press_registry \<Rightarrow> nat \<Rightarrow> bool" where
  "press_consents e s i = (case e of
       Press se ok rq nonce \<Rightarrow> ok \<and> (\<exists>k. first_pending se rq s = Some (k, i) \<and> nonce_ok k nonce s)
     | _ \<Rightarrow> False)"

lemma first_pending_Some:
  assumes "cells_ok s" "first_pending se rq s = Some (k, i)"
  shows "i < length (cells s)" "cell_key (cells s ! i) = k" "unpressed s i"
    "starts_with k (se @ '':'')" "(k, i) \<in> set (prompts s)"
    "rq \<noteq> None \<longrightarrow> k = prompt_key se (the rq)"
proof -
  have F: "find P xs = Some x \<Longrightarrow> x \<in> set xs \<and> P x" for P :: "'a \<Rightarrow> bool" and xs x
    by (induction xs) (auto split: if_splits)
  have *: "(k, i) \<in> set (prompts s) \<and> unpressed s i \<and> starts_with k (se @ '':'') \<and>
     (rq \<noteq> None \<longrightarrow> k = prompt_key se (the rq))"
  proof (cases rq)
    case None
    with assms(2) F [of "\<lambda>(k, i). starts_with k (se @ '':'') \<and> unpressed s i" "prompts s" "(k, i)"]
    show ?thesis by (simp add: first_pending_def)
  next
    case (Some r)
    with assms(2) show ?thesis
      by (auto simp: first_pending_def prompt_key_def starts_with_iff split: option.splits if_splits dest: dict_get_in)
  qed
  with cells_okD [OF assms(1)] show "i < length (cells s)" "cell_key (cells s ! i) = k" "unpressed s i"
    "starts_with k (se @ '':'')" "(k, i) \<in> set (prompts s)" "rq \<noteq> None \<longrightarrow> k = prompt_key se (the rq)" by auto
qed

lemma cells_retire [simp]: "cells (retire_prompt k s) = cells s" "press_waits (retire_prompt k s) = press_waits s"
  by (simp_all add: retire_prompt_def)

lemma cells_discard [simp]: "cells (discard_reservations se s) = cells s"
  "press_waits (discard_reservations se s) = press_waits s"
proof -
  have "cells (fold (\<lambda>(k, i). if unpressed s0 i then retire_prompt k else id) kis s) = cells s \<and>
    press_waits (fold (\<lambda>(k, i). if unpressed s0 i then retire_prompt k else id) kis s) = press_waits s" for kis s0
    by (induction kis arbitrary: s) auto
  then show "cells (discard_reservations se s) = cells s"
    "press_waits (discard_reservations se s) = press_waits s" by (simp_all add: discard_reservations_def)
qed

lemma cells_end [simp]: "cells (end_press_wait n ph s) = cells s"
  by (simp add: end_press_wait_def)

lemma cells_add_wait [simp]: "cells (add_wait k i ph s) = cells s"
  by (simp add: add_wait_def)

lemma pressed_set:
  "i < length (cells s) \<Longrightarrow> cell_press (cells (press_cell_set i p s) ! j) = (if j = i then p else cell_press (cells s ! j))"
  by (simp add: press_cell_set_def nth_list_update)

lemma length_press_set [simp]: "length (cells (press_cell_set i p s)) = length (cells s)"
  by (simp add: press_cell_set_def)

lemma pressed_new: "pressed_yes (new_cell k s) i \<Longrightarrow> pressed_yes s i"
  by (auto simp: pressed_yes_def new_cell_def nth_append split: if_splits)

lemma pressed_yes_cells: "cells s = cells t \<Longrightarrow> pressed_yes s i = pressed_yes t i"
  by (simp add: pressed_yes_def)

lemma pressed_cancel: "pressed_yes (press_cell_set j PressCancelled s) i \<Longrightarrow> pressed_yes s i"
  by (cases "j = i") (auto simp: pressed_yes_def press_cell_set_def)

lemma pressed_yes_step:
  assumes "cells_ok s" "pressed_yes (press_step e s) i"
  shows "pressed_yes s i \<or> press_consents e s i"
proof (cases e)
  case (Reserve se rq fresh)
  have "pressed_yes (s\<lparr>nonces := ns\<rparr>) i = pressed_yes s i" for ns s by (simp add: pressed_yes_def)
  with Reserve assms(2) show ?thesis
    by (auto simp: reserve_prompt_def Let_def split: option.splits if_splits dest: pressed_new)
next
  case (Press se ok rq nonce)
  show ?thesis
  proof (cases "first_pending se rq s")
    case None
    with Press assms(2) show ?thesis by (simp add: resolve_press_def)
  next
    case (Some ki)
    obtain k j where ki: "ki = (k, j)" by (cases ki)
    from first_pending_Some(1) [OF assms(1) Some [unfolded ki]] Press assms(2) Some ki
    show ?thesis by (auto simp: resolve_press_def press_consents_def pressed_yes_def pressed_set split: if_splits)
  qed
next
  case (Discard se)
  with assms(2) show ?thesis by (simp add: pressed_yes_def)
next
  case (Decide se rq)
  have "pressed_yes (add_wait k j ph s) i = pressed_yes s i" "pressed_yes (retire_prompt k s) i = pressed_yes s i"
    for k j ph s by (simp_all add: pressed_yes_def)
  with Decide assms(2) show ?thesis
    by (auto simp: decide_press_def Let_def split: option.splits press.splits dest: pressed_new)
next
  case (PressWakes n)
  with assms(2) show ?thesis by (auto simp: pressed_yes_def split: option.splits press.splits)
next
  case (PressTimesOut n)
  with assms(2) pressed_yes_cells [OF cells_end] show ?thesis
    by (auto simp: press_ends_def split: option.splits if_splits dest: pressed_cancel)
next
  case (PressTurnEnds n)
  with assms(2) pressed_yes_cells [OF cells_end] show ?thesis
    by (auto simp: press_ends_def split: option.splits if_splits dest: pressed_cancel)
qed

lemma decided_step:
  assumes "cells_ok s" "w \<in> set (press_waits (press_step e s))" "w \<notin> set (press_waits s)"
    "pw_phase w = Decided True"
  shows "pressed_yes s (pw_cell w)"
proof -
  have E: "w \<in> set (press_waits (end_press_wait n ph t)) \<Longrightarrow> w \<in> set (press_waits t) \<or>
      (n < length (press_waits t) \<and> pw_cell w = pw_cell (press_waits t ! n) \<and> pw_phase w = ph)" for n ph t
    using in_set_list_update [of w "press_waits t" n "(press_waits t ! n)\<lparr>pw_phase := ph\<rparr>"]
    by (auto simp: end_press_wait_def)
  have A: "w \<in> set (press_waits (add_wait k i ph t)) \<Longrightarrow> w \<in> set (press_waits t) \<or> (pw_cell w = i \<and> pw_phase w = ph)"
    for k i ph t by (auto simp: add_wait_def)
  have N: "press_waits (new_cell k s) = press_waits s" for k by (simp add: new_cell_def)
  show ?thesis
  proof (cases e)
    case (Decide se rq)
    show ?thesis
    proof (cases "dict_get (prompts s) (prompt_key se rq)")
      case None
      with Decide assms(2-4) show ?thesis by (auto simp: decide_press_def Let_def N dest!: A)
    next
      case (Some i)
      with cells_ok_get [OF assms(1) Some] Decide assms(2-4) show ?thesis
        by (auto simp: decide_press_def Let_def pressed_yes_def split: press.splits dest!: A)
    qed
  next
    case (PressWakes n)
    then obtain i where i: "awaited n s = Some i" using assms(2,3) by (cases "awaited n s") auto
    then have "n < length (press_waits s)" "pw_cell (press_waits s ! n) = i"
      by (auto simp: awaited_def split: if_splits)
    with PressWakes i assms(2-4) cells_ok_wait [OF assms(1), of "press_waits s ! n"] show ?thesis
      by (auto simp: pressed_yes_def split: press.splits dest!: E)
  next
    case (Reserve se rq fresh)
    then show ?thesis using assms(2,3) by (auto simp: reserve_prompt_def Let_def N split: option.splits if_splits)
  next
    case (PressTimesOut n)
    then show ?thesis using assms(2-4) by (auto simp: press_ends_def split: option.splits if_splits dest!: E)
  next
    case (PressTurnEnds n)
    then show ?thesis using assms(2-4) by (auto simp: press_ends_def split: option.splits if_splits dest!: E)
  qed (use assms in \<open>auto simp: resolve_press_def split: option.splits if_splits\<close>)
qed

lemma press_allowed_step:
  assumes "cells_ok s" "press_allowed (press_step e s) i"
  shows "press_allowed s i \<or> pressed_yes s i"
proof -
  from assms(2) obtain w where w: "w \<in> set (press_waits (press_step e s))" "pw_cell w = i" "pw_phase w = Decided True"
    by (auto simp: press_allowed_def list_ex_iff)
  show ?thesis
  proof (cases "w \<in> set (press_waits s)")
    case True
    with w show ?thesis by (auto simp: press_allowed_def list_ex_iff)
  next
    case False
    from decided_step [OF assms(1) w(1) False w(3)] w(2) show ?thesis by simp
  qed
qed

interpretation pressed: consent press_step cells_ok pressed_yes press_allowed press_consents
  by unfold_locales (use press_step_ok pressed_yes_step press_allowed_step in blast)+

lemma cells_extend_run: "cells_ok s \<Longrightarrow> cells_extend (fold press_step es s) s"
proof (induction es arbitrary: s)
  case (Cons e es)
  with press_step_ok [OF Cons.prems, of e] Cons.IH [of "press_step e s"] show ?case
    by (auto intro: cells_extend_trans)
qed simp

lemma empty_presses_ok [simp]: "cells_ok empty_presses" "\<not> pressed_yes empty_presses i"
  "\<not> press_allowed empty_presses i"
  by (simp_all add: cells_ok_def empty_presses_def pressed_yes_def press_allowed_def)

subsection \<open>The properties\<close>

text \<open>C19. No widget approval but by a press on its own prompt. A \<^verbatim>\<open>decide\<close> that returned
  approval was answered by an approving press made while its prompt was open: one in a session
  whose prefix the prompt's address carries, naming the very prompt when it names a request, and,
  when it carried a nonce, the nonce minted for that prompt and not yet retired.\<close>

theorem widget_approved_by_press:
  assumes "w \<in> set (press_waits (fold press_step es empty_presses))" "pw_phase w = Decided True"
  shows "\<exists>pre se rq nonce post. es = pre @ Press se True rq nonce # post \<and>
     (let s = fold press_step pre empty_presses in
        first_pending se rq s = Some (pw_key w, pw_cell w) \<and>
        (nonce = [] \<or> dict_get (nonces s) (pw_key w) = Some nonce) \<and>
        starts_with (pw_key w) (se @ '':'') \<and> (rq = None \<or> pw_key w = prompt_key se (the rq)))"
proof -
  from assms have "press_allowed (fold press_step es empty_presses) (pw_cell w)"
    by (auto simp: press_allowed_def list_ex_iff)
  from pressed.allowed_only_by_consent [OF empty_presses_ok(1) this empty_presses_ok(2,3)]
  obtain pre e post where e: "es = pre @ e # post" "press_consents e (fold press_step pre empty_presses) (pw_cell w)"
    by (auto simp: pressed.answered_in_def)
  let ?s = "fold press_step pre empty_presses"
  from e(2) obtain se rq nonce k where p: "e = Press se True rq nonce"
    "first_pending se rq ?s = Some (k, pw_cell w)" "nonce_ok k nonce ?s"
    by (cases e) (auto simp: press_consents_def)
  have ok: "cells_ok ?s" by (rule pressed.good_run) simp
  note F = first_pending_Some [OF ok p(2)]
  have "cells_extend (fold press_step es empty_presses) ?s"
    using cells_extend_run [OF ok, of "e # post"] by (simp add: e(1))
  moreover have "cells_ok (fold press_step es empty_presses)" by (rule pressed.good_run) simp
  ultimately have k: "k = pw_key w"
    using F(1,2) cells_ok_wait [OF _ assms(1)] by (auto simp: cells_extend_def)
  have "nonce = [] \<or> dict_get (nonces ?s) k = Some nonce"
    using p(3) by (auto simp: nonce_ok_def Let_def split: option.splits)
  with k p(1,2) F e(1) show ?thesis
    by (intro exI [of _ pre] exI [of _ se] exI [of _ rq] exI [of _ nonce] exI [of _ post]) (auto simp: Let_def)
qed

definition press_history :: "press_event list" where
  "press_history = [Reserve ''webex:a'' ''1'' ''n1'', Decide ''webex:a'' ''1'',
     Press ''webex:a'' True (Some ''1'') ''stale'', Press ''webex:a'' True (Some ''1'') ''n1'', PressWakes 0]"

lemma press_history_runs:
  "press_waits (fold press_step press_history empty_presses) =
     [\<lparr>pw_key = ''webex:a:1'', pw_cell = 0, pw_phase = Decided True\<rparr>]"
  by (simp add: press_history_def empty_presses_def reserve_prompt_def new_cell_def unpressed_def decide_press_def
      add_wait_def resolve_press_def first_pending_def nonce_ok_def press_cell_set_def awaited_def
      end_press_wait_def retire_prompt_def prompt_key_def Let_def)

theorem widget_approved_by_press_witness:
  "\<exists>pre se rq nonce post. press_history = pre @ Press se True rq nonce # post \<and>
     starts_with ''webex:a:1'' (se @ '':'')"
proof -
  have "\<lparr>pw_key = ''webex:a:1'', pw_cell = 0, pw_phase = Decided True\<rparr> \<in>
      set (press_waits (fold press_step press_history empty_presses))"
    unfolding press_history_runs by simp
  from widget_approved_by_press [OF this] show ?thesis by (simp add: Let_def) blast
qed

text \<open>A press stays in its session. A press made in one session, typed or on a widget, fresh or
  stale, changes no prompt of another session, as long as that session's key does not extend the
  first one's by a colon and its request ids hold none.\<close>

theorem press_stays_in_session:
  assumes "cells_ok s" "dict_get (prompts s) (prompt_key b r) = Some i" "CHR '':'' \<notin> set r"
    "b \<noteq> a" "\<not> starts_with b (a @ '':'')"
  shows "cells (snd (resolve_press a ok rq nonce s)) ! i = cells s ! i \<and>
    prompts (snd (resolve_press a ok rq nonce s)) = prompts s"
proof (cases "first_pending a rq s")
  case None
  then show ?thesis by (simp add: resolve_press_def)
next
  case (Some kj)
  obtain k j where kj: "kj = (k, j)" by (cases kj)
  note F = first_pending_Some [OF assms(1) Some [unfolded kj]]
  have "i \<noteq> j"
  proof
    assume "i = j"
    with F(2) cells_ok_get [OF assms(1,2)] have "k = prompt_key b r" by simp
    with F(4) obtain t where t: "b @ '':'' @ r = a @ '':'' @ t" by (auto simp: prompt_key_def starts_with_iff)
    then consider u where "b @ u = a" "CHR '':'' # r = u @ CHR '':'' # t"
      | u where "b = a @ u" "u @ CHR '':'' # r = CHR '':'' # t"
      by (auto simp: append_eq_append_conv2)
    then show False
    proof cases
      case (1 u)
      then show False using assms(3,4) by (cases u) auto
    next
      case (2 u)
      then show False using assms(4,5) by (cases u) (auto simp: starts_with_iff)
    qed
  qed
  with Some kj show ?thesis by (simp add: resolve_press_def press_cell_set_def)
qed

theorem press_stays_in_session_witness:
  "cells (snd (resolve_press ''webex:a'' True None [] (fold press_step [Reserve ''webex:ab'' ''1'' ''n''] empty_presses))) ! 0 =
     \<lparr>cell_key = ''webex:ab:1'', cell_press = NotPressed\<rparr>"
proof -
  let ?s = "fold press_step [Reserve ''webex:ab'' ''1'' ''n''] empty_presses"
  have "cells_ok ?s" by (rule pressed.good_run) simp
  moreover have "dict_get (prompts ?s) (prompt_key ''webex:ab'' ''1'') = Some 0"
    "cells ?s = [\<lparr>cell_key = ''webex:ab:1'', cell_press = NotPressed\<rparr>]"
    by (simp_all add: empty_presses_def reserve_prompt_def new_cell_def prompt_key_def Let_def)
  ultimately show ?thesis
    using press_stays_in_session [of ?s "''webex:ab''" "''1''" 0 "''webex:a''" True None "[]"]
    by (simp add: starts_with_def)
qed

end
