(* ===== verification/Session_Trust.thy ===== *)
theory Session_Trust imports Junction_Prelude begin

section \<open>Trust of a whole session (\<^verbatim>\<open>messaging/session_trust.py\<close>)\<close>

text \<open>
  The process-wide mapping \<^verbatim>\<open>_trusted_sessions\<close> from session key to the session manager a grant
  went through (a number; \<open>None\<close> when the caller gave none), and the approval policies those managers
  hold, which a spawned sub-agent reads. Whether a manager's write succeeds is an argument:
  \<open>ok\<close> for a grant, the list \<open>failing\<close> of session keys for a revocation.
\<close>

record trust_state =
  granted :: "(string, nat option) dict"
  policies :: "(nat \<times> string, string) dict"

definition no_trust :: trust_state where
  "no_trust = \<lparr>granted = [], policies = []\<rparr>"

definition is_session_trusted :: "string \<Rightarrow> trust_state \<Rightarrow> bool" where
  "is_session_trusted session_key s = (session_key \<noteq> [] \<and> dict_get (granted s) session_key \<noteq> None)"

definition set_approval_policy :: "bool \<Rightarrow> nat \<Rightarrow> string \<Rightarrow> string \<Rightarrow> trust_state \<Rightarrow> trust_state" where
  "set_approval_policy ok m session_key v s =
     (if ok then s\<lparr>policies := dict_set (m, session_key) v (policies s)\<rparr> else s)"

definition add_trusted_session :: "string \<Rightarrow> nat option \<Rightarrow> bool \<Rightarrow> trust_state \<Rightarrow> trust_state" where
  "add_trusted_session session_key sessions ok s =
     (if session_key = [] then s
      else (let s1 = s\<lparr>granted := dict_set session_key sessions (granted s)\<rparr>
            in case sessions of None \<Rightarrow> s1 | Some m \<Rightarrow> set_approval_policy ok m session_key ''auto'' s1))"

definition revoke_one :: "string list \<Rightarrow> string list \<Rightarrow> string \<times> nat option \<Rightarrow> trust_state \<Rightarrow> trust_state" where
  "revoke_one keep failing g s =
     (case snd g of
         None \<Rightarrow> s
       | Some m \<Rightarrow> if fst g \<in> set keep then s
                   else set_approval_policy (fst g \<notin> set failing) m (fst g) [] s)"

definition clear_trusted_sessions :: "string list \<Rightarrow> string list \<Rightarrow> trust_state \<Rightarrow> trust_state" where
  "clear_trusted_sessions keep failing s = fold (revoke_one keep failing) (granted s) (s\<lparr>granted := []\<rparr>)"

datatype trust_event = Grant string "nat option" bool | Revoke "string list" "string list"

fun trust_step :: "trust_event \<Rightarrow> trust_state \<Rightarrow> trust_state" where
  "trust_step (Grant k m ok) s = add_trusted_session k m ok s"
| "trust_step (Revoke keep failing) s = clear_trusted_sessions keep failing s"

text \<open>What a sub-agent of the session would be told.\<close>

definition inherits_trust :: "nat \<Rightarrow> string \<Rightarrow> trust_state \<Rightarrow> bool" where
  "inherits_trust m session_key s = (dict_get (policies s) (m, session_key) = Some ''auto'')"

subsection \<open>A grant and its policy go together\<close>

lemma set_policy_granted [simp]: "granted (set_approval_policy ok m k v s) = granted s"
  by (simp add: set_approval_policy_def)

lemma set_policy_get:
  "dict_get (policies (set_approval_policy ok m k v s)) (m', k') =
     (if ok \<and> m' = m \<and> k' = k then Some v else dict_get (policies s) (m', k'))"
  by (simp add: set_approval_policy_def dict_simps)

lemma revoke_granted: "granted (fold (revoke_one keep failing) gs s) = granted s"
proof (induction gs arbitrary: s)
  case (Cons g gs)
  have "granted (revoke_one keep failing g s) = granted s" by (simp add: revoke_one_def split: option.splits)
  with Cons show ?case by simp
qed simp

lemma revoke_quiet:
  "\<not> inherits_trust m k s \<Longrightarrow> \<not> inherits_trust m k (fold (revoke_one keep failing) gs s)"
proof (induction gs arbitrary: s)
  case (Cons g gs)
  then have "\<not> inherits_trust m k (revoke_one keep failing g s)"
    by (auto simp: revoke_one_def inherits_trust_def set_policy_get split: option.splits)
  with Cons.IH show ?case by simp
qed simp

lemma revoke_reaches:
  "(k, Some m) \<in> set gs \<Longrightarrow> k \<notin> set keep \<Longrightarrow> k \<notin> set failing \<Longrightarrow>
     \<not> inherits_trust m k (fold (revoke_one keep failing) gs s)"
proof (induction gs arbitrary: s)
  case (Cons g gs)
  show ?case
  proof (cases "g = (k, Some m)")
    case True
    then have "\<not> inherits_trust m k (revoke_one keep failing g s)"
      using Cons.prems by (simp add: revoke_one_def inherits_trust_def set_policy_get)
    from revoke_quiet [OF this] show ?thesis by simp
  next
    case False
    with Cons show ?thesis by simp
  qed
qed simp

text \<open>Each session is granted through one manager, and no revocation spares it or fails to reach it.\<close>

fun owned_grants :: "(string \<Rightarrow> nat) \<Rightarrow> string \<Rightarrow> trust_event \<Rightarrow> bool" where
  "owned_grants owner k (Grant k' m ok) = (k' \<noteq> k \<or> m = Some (owner k))"
| "owned_grants owner k (Revoke keep failing) = (k \<notin> set keep \<and> k \<notin> set failing)"

definition trust_ok :: "(string \<Rightarrow> nat) \<Rightarrow> string \<Rightarrow> trust_state \<Rightarrow> bool" where
  "trust_ok owner k s =
     ((\<forall>m. dict_get (granted s) k = Some m \<longrightarrow> m = Some (owner k)) \<and>
      (inherits_trust (owner k) k s \<longrightarrow> is_session_trusted k s))"

lemma trust_ok_step:
  assumes "trust_ok owner k s" "owned_grants owner k e"
  shows "trust_ok owner k (trust_step e s)"
proof (cases e)
  case (Grant k' m ok)
  show ?thesis
  proof (cases "k' = k \<and> k \<noteq> []")
    case True
    then have m: "m = Some (owner k)" and e: "e = Grant k m ok" and ne: "k \<noteq> []" using assms(2) Grant by simp_all
    then have g: "dict_get (granted (trust_step e s)) k = Some m"
      by (simp add: add_trusted_session_def dict_simps)
    then show ?thesis using m ne by (simp add: trust_ok_def is_session_trusted_def)
  next
    case False
    from False have n: "k' = [] \<or> k \<noteq> k'" by blast
    then have "dict_get (granted (trust_step e s)) k = dict_get (granted s) k"
      by (rule disjE) (cases m; simp add: Grant add_trusted_session_def dict_simps)+
    moreover from n have "inherits_trust (owner k) k (trust_step e s) = inherits_trust (owner k) k s"
      by (rule disjE) (cases m; simp add: Grant add_trusted_session_def inherits_trust_def set_policy_get)+
    ultimately show ?thesis using assms(1) by (simp add: trust_ok_def is_session_trusted_def)
  qed
next
  case (Revoke keep failing)
  have "\<not> inherits_trust (owner k) k (fold (revoke_one keep failing) (granted s) (s\<lparr>granted := []\<rparr>))"
  proof (cases "inherits_trust (owner k) k s")
    case True
    with assms(1) have "dict_get (granted s) k = Some (Some (owner k))"
      unfolding trust_ok_def is_session_trusted_def by blast
    then have "(k, Some (owner k)) \<in> set (granted s)" by (rule dict_get_in)
    then show ?thesis using assms(2) Revoke by (intro revoke_reaches) simp_all
  next
    case False
    then show ?thesis by (intro revoke_quiet) (simp add: inherits_trust_def)
  qed
  then show ?thesis using Revoke
    by (simp add: trust_ok_def clear_trusted_sessions_def revoke_granted)
qed

lemma trust_ok_run:
  "trust_ok owner k s \<Longrightarrow> list_all (owned_grants owner k) es \<Longrightarrow> trust_ok owner k (fold trust_step es s)"
  by (induction es arbitrary: s) (simp_all add: trust_ok_step)

text \<open>Revoked trust is revoked for sub-agents too. Over any grants and revocations, failed policy writes of grants
  included, a session whose grants all go through its own manager, and which no revocation spares or fails to
  reach, has the inheritable policy only while the session itself is trusted.\<close>

theorem inherited_trust_is_granted:
  assumes "list_all (owned_grants owner k) es" "inherits_trust (owner k) k (fold trust_step es no_trust)"
  shows "is_session_trusted k (fold trust_step es no_trust)"
proof -
  have "trust_ok owner k no_trust" by (simp add: trust_ok_def no_trust_def inherits_trust_def)
  from trust_ok_run [OF this assms(1)] assms(2) show ?thesis by (simp add: trust_ok_def)
qed

lemmas trust_run_defs = no_trust_def add_trusted_session_def set_approval_policy_def clear_trusted_sessions_def
  revoke_one_def inherits_trust_def is_session_trusted_def

theorem inherited_trust_is_granted_witness:
  "is_session_trusted ''s1'' (fold trust_step
     [Grant ''s1'' (Some 0) True, Grant ''s2'' (Some 0) True, Revoke [''s2''] [], Grant ''s1'' (Some 0) True] no_trust)"
  by (rule inherited_trust_is_granted [where owner = "\<lambda>_. 0"]) (simp_all add: trust_run_defs)

text \<open>A grant repeated without a manager makes the mapping forget the manager of the first grant, so the
  revocation drops the grant and leaves the policy standing: the session is not trusted any more and
  its sub-agents still are.\<close>

lemma regrant_escapes_revocation:
  "let s = fold trust_step [Grant ''s1'' (Some 0) True, Grant ''s1'' None True, Revoke [] []] no_trust
   in \<not> is_session_trusted ''s1'' s \<and> inherits_trust 0 ''s1'' s"
  by (simp add: trust_run_defs Let_def)

end
