(* ===== verification/Subagent_Events.thy ===== *)
theory Subagent_Events imports Json_Value begin

section \<open>Coalescing of sub-agent events (\<^verbatim>\<open>subagent_scale.py\<close>)\<close>

text \<open>
  \<^verbatim>\<open>SubagentEventCoalescer\<close> sits between the sub-agents and the dashboard sockets. An event is
  its type, the agent's id, the text of a chunk as code points, and the other fields of its
  payload; the active-agent count is an argument of each call (\<open>None\<close>: the callback raised or gave
  no number). The output is the sequence of frames the sockets see, in order: what the coalescer
  broadcasts, and the event itself where the caller forwards it because it was not absorbed.
\<close>

record sub_event =
  ev_type :: string
  ev_id :: string
  ev_text :: codepoints
  ev_fields :: "(string, json) dict"

record chunk_buf =
  cb_slot :: json
  cb_text :: codepoints

datatype frame =
    BatchUpdate "(string \<times> (string, json) dict) list"
  | BatchChunks "(string \<times> chunk_buf) list"
  | Forwarded sub_event

record coalescer =
  co_threshold :: int
  co_updates :: "(string, (string, json) dict) dict"
  co_chunks :: "(string, chunk_buf) dict"
  co_ticking :: bool
  co_closed :: bool

definition CHUNK_BUF_CAP :: nat where "CHUNK_BUF_CAP = 16000"

definition COALESCABLE :: "string list" where
  "COALESCABLE = [''subagent_tool'', ''subagent_stalled'', ''subagent_retrying'']"

definition truncated_mark :: codepoints where
  "truncated_mark = 8230 # map of_char (''(truncated)'' @ [CHR 0x0A])"

definition new_coalescer :: "int \<Rightarrow> coalescer" where
  "new_coalescer threshold = \<lparr>co_threshold = max 1 threshold, co_updates = [], co_chunks = [],
     co_ticking = False, co_closed = False\<rparr>"

definition active_agents :: "int option \<Rightarrow> int" where
  "active_agents n = (case n of Some k \<Rightarrow> k | None \<Rightarrow> 0)"

text \<open>\<^verbatim>\<open>_flush_if_pending\<close>; a broadcast that raises is swallowed after the buffer was cleared.\<close>

definition flush_if_pending :: "coalescer \<Rightarrow> frame list \<times> coalescer" where
  "flush_if_pending c =
     (let chunks = filter (\<lambda>p. cb_text (snd p) \<noteq> []) (co_chunks c)
      in ((if co_updates c \<noteq> [] then [BatchUpdate (co_updates c)] else []) @
          (if chunks \<noteq> [] then [BatchChunks chunks] else []),
          c\<lparr>co_updates := [], co_chunks := []\<rparr>))"

definition slot_of :: "sub_event \<Rightarrow> json" where
  "slot_of e = (case dict_get (ev_fields e) ''slot'' of Some j \<Rightarrow> j | None \<Rightarrow> JStr [])"

definition cap_text :: "codepoints \<Rightarrow> codepoints" where
  "cap_text t = (if CHUNK_BUF_CAP < length t
     then truncated_mark @ drop (length t - (CHUNK_BUF_CAP - 100)) t else t)"

definition buffer_chunk :: "sub_event \<Rightarrow> coalescer \<Rightarrow> coalescer" where
  "buffer_chunk e c =
     (let buf = (case dict_get (co_chunks c) (ev_id e) of
            Some b \<Rightarrow> b | None \<Rightarrow> \<lparr>cb_slot = slot_of e, cb_text = []\<rparr>)
      in c\<lparr>co_chunks := dict_set (ev_id e) (buf\<lparr>cb_text := cap_text (cb_text buf @ ev_text e)\<rparr>) (co_chunks c),
           co_ticking := True\<rparr>)"

definition merge_fields :: "(string, json) dict \<Rightarrow> (string, json) dict \<Rightarrow> (string, json) dict" where
  "merge_fields new old = fold (\<lambda>(k, v). dict_set k v) new old"

definition buffer_update :: "sub_event \<Rightarrow> coalescer \<Rightarrow> coalescer" where
  "buffer_update e c =
     (let entry = (case dict_get (co_updates c) (ev_id e) of
            Some d \<Rightarrow> d | None \<Rightarrow> [(''slot'', slot_of e)]);
          entry = (if ev_type e = ''subagent_tool'' then dict_pop ''attempt'' entry else entry)
      in c\<lparr>co_updates := dict_set (ev_id e) (merge_fields (ev_fields e) entry) (co_updates c),
           co_ticking := True\<rparr>)"

text \<open>\<^verbatim>\<open>handle\<close>: the frames it broadcast, whether the event was absorbed, and the state.\<close>

definition handle :: "int option \<Rightarrow> sub_event \<Rightarrow> coalescer \<Rightarrow> frame list \<times> bool \<times> coalescer" where
  "handle n e c =
     (if co_closed c then ([], False, c)
      else if ev_type e = ''subagent_chunk'' then
        (if active_agents n \<le> co_threshold c
         then (case flush_if_pending c of (fs, c') \<Rightarrow> (fs, False, c'))
         else ([], True, buffer_chunk e c))
      else if ev_type e \<in> set COALESCABLE then
        (if active_agents n \<le> co_threshold c
         then (case flush_if_pending c of (fs, c') \<Rightarrow> (fs, False, c'))
         else ([], True, buffer_update e c))
      else if ev_type e \<in> {''subagent_done'', ''subagent_spawn''}
        then (case flush_if_pending c of (fs, c') \<Rightarrow> (fs, False, c'))
      else ([], False, c))"

definition tick_fires :: "coalescer \<Rightarrow> frame list \<times> coalescer" where
  "tick_fires c = (if co_ticking c
     then (case flush_if_pending c of (fs, c') \<Rightarrow> (fs, c'\<lparr>co_ticking := False\<rparr>)) else ([], c))"

definition close_coalescer :: "coalescer \<Rightarrow> frame list \<times> coalescer" where
  "close_coalescer c = (case flush_if_pending (c\<lparr>co_closed := True\<rparr>) of
     (fs, c') \<Rightarrow> (fs, c'\<lparr>co_ticking := False\<rparr>))"

datatype coalescer_input = Event "int option" sub_event | Tick | Close

fun feed :: "coalescer_input \<Rightarrow> frame list \<times> coalescer \<Rightarrow> frame list \<times> coalescer" where
  "feed (Event n e) (out, c) = (case handle n e c of (fs, absorbed, c') \<Rightarrow>
      (out @ fs @ (if absorbed then [] else [Forwarded e]), c'))"
| "feed Tick (out, c) = (case tick_fires c of (fs, c') \<Rightarrow> (out @ fs, c'))"
| "feed Close (out, c) = (case close_coalescer c of (fs, c') \<Rightarrow> (out @ fs, c'))"

subsection \<open>What an agent said and what the sockets saw\<close>

definition said :: "string \<Rightarrow> coalescer_input \<Rightarrow> codepoints" where
  "said a i = (case i of
      Event _ e \<Rightarrow> if ev_type e = ''subagent_chunk'' \<and> ev_id e = a then ev_text e else []
    | _ \<Rightarrow> [])"

definition said_all :: "string \<Rightarrow> coalescer_input list \<Rightarrow> codepoints" where
  "said_all a is = concat (map (said a) is)"

definition seen :: "string \<Rightarrow> frame \<Rightarrow> codepoints" where
  "seen a f = (case f of
      BatchChunks bs \<Rightarrow> concat (map (\<lambda>(i, b). if i = a then cb_text b else []) bs)
    | Forwarded e \<Rightarrow> if ev_type e = ''subagent_chunk'' \<and> ev_id e = a then ev_text e else []
    | BatchUpdate _ \<Rightarrow> [])"

definition seen_all :: "string \<Rightarrow> frame list \<Rightarrow> codepoints" where
  "seen_all a fs = concat (map (seen a) fs)"

definition held_text :: "string \<Rightarrow> coalescer \<Rightarrow> codepoints" where
  "held_text a c = (case dict_get (co_chunks c) a of Some b \<Rightarrow> cb_text b | None \<Rightarrow> [])"

lemma seen_all_append [simp]: "seen_all a (fs @ gs) = seen_all a fs @ seen_all a gs"
  by (simp add: seen_all_def)

lemma seen_all_Nil [simp]: "seen_all a [] = []"
  by (simp add: seen_all_def)

lemma chunks_text:
  "dict_ok d \<Longrightarrow> concat (map (\<lambda>(i, b). if i = a then cb_text b else []) (filter (\<lambda>p. cb_text (snd p) \<noteq> []) d)) =
     (case dict_get d a of Some b \<Rightarrow> cb_text b | None \<Rightarrow> [])"
proof (induction d)
  case (Cons p d)
  obtain i b where p: "p = (i, b)" by (cases p)
  show ?case
  proof (cases "i = a")
    case True
    with Cons.prems p have "dict_get d a = None" by (auto simp: map_of_eq_None_iff)
    with Cons True p show ?thesis by (simp split: option.splits)
  next
    case False
    with Cons p show ?thesis by simp
  qed
qed simp

lemma flush_seen:
  "dict_ok (co_chunks c) \<Longrightarrow> seen_all a (fst (flush_if_pending c)) = held_text a c"
  using chunks_text [of "co_chunks c" a]
  by (auto simp: flush_if_pending_def seen_all_def seen_def held_text_def Let_def)

lemma flush_state [simp]: "co_chunks (snd (flush_if_pending c)) = []"
  "co_updates (snd (flush_if_pending c)) = []" "co_closed (snd (flush_if_pending c)) = co_closed c"
  "co_threshold (snd (flush_if_pending c)) = co_threshold c"
  by (simp_all add: flush_if_pending_def Let_def)

lemma cap_text_length: "length (cap_text t) \<le> CHUNK_BUF_CAP"
  by (simp add: cap_text_def CHUNK_BUF_CAP_def truncated_mark_def)

lemma cap_text_short: "length t \<le> CHUNK_BUF_CAP \<Longrightarrow> cap_text t = t"
  by (simp add: cap_text_def)

lemma buffer_chunk_text:
  "held_text a (buffer_chunk e c) =
     (if ev_id e = a then cap_text (held_text a c @ ev_text e) else held_text a c)"
  by (auto simp: buffer_chunk_def held_text_def dict_simps Let_def split: option.splits)

lemma buffer_update_text [simp]: "held_text a (buffer_update e c) = held_text a c"
  "co_chunks (buffer_update e c) = co_chunks c"
  by (simp_all add: buffer_update_def held_text_def Let_def)

lemma dict_ok_buffer [simp]: "dict_ok (co_chunks c) \<Longrightarrow> dict_ok (co_chunks (buffer_chunk e c))"
  by (simp add: buffer_chunk_def Let_def)

lemma held_Nil [simp]: "co_chunks c = [] \<Longrightarrow> held_text a c = []"
  by (simp add: held_text_def)

text \<open>One input: what the sockets have seen and what is held make up what was said, and a closed
  coalescer holds nothing.\<close>

definition feed_ok :: "coalescer \<Rightarrow> bool" where
  "feed_ok c = (dict_ok (co_chunks c) \<and> (co_closed c \<longrightarrow> co_chunks c = []))"

lemma handle_text:
  assumes "feed_ok c" "handle n e c = (fs, absorbed, c')"
    "length (held_text a c @ said a (Event n e)) \<le> CHUNK_BUF_CAP"
  shows "feed_ok c'"
    "seen_all a (fs @ (if absorbed then [] else [Forwarded e])) @ held_text a c' = held_text a c @ said a (Event n e)"
proof -
  have f: "seen_all a [Forwarded e] = said a (Event n e)" by (simp add: seen_all_def seen_def said_def)
  have fl: "seen_all a (fst (flush_if_pending c)) = held_text a c"
    using assms(1) by (intro flush_seen) (simp add: feed_ok_def)
  obtain fs0 c0 where fc: "flush_if_pending c = (fs0, c0)" by (cases "flush_if_pending c")
  with flush_state [of c] fl have c0: "co_chunks c0 = []" "co_closed c0 = co_closed c" "seen_all a fs0 = held_text a c" by simp_all
  consider "co_closed c" "fs = []" "\<not> absorbed" "c' = c"
    | "\<not> co_closed c" "fs = fs0" "\<not> absorbed" "c' = c0"
    | "\<not> co_closed c" "ev_type e = ''subagent_chunk''" "fs = []" "absorbed" "c' = buffer_chunk e c"
    | "\<not> co_closed c" "ev_type e \<noteq> ''subagent_chunk''" "fs = []" "absorbed" "c' = buffer_update e c"
    | "\<not> co_closed c" "ev_type e \<noteq> ''subagent_chunk''" "fs = []" "\<not> absorbed" "c' = c"
    using assms(2) by (auto simp: handle_def fc COALESCABLE_def split: if_splits)
  then have "feed_ok c' \<and>
    seen_all a (fs @ (if absorbed then [] else [Forwarded e])) @ held_text a c' = held_text a c @ said a (Event n e)"
  proof cases
    case 1
    with assms(1) f show ?thesis by (simp add: feed_ok_def)
  next
    case 2
    with c0 f show ?thesis by (simp add: feed_ok_def)
  next
    case 3
    have "cap_text (held_text a c @ ev_text e) = held_text a c @ ev_text e" if "ev_id e = a"
      using that assms(3) 3 by (intro cap_text_short) (simp add: said_def)
    moreover have "feed_ok c'"
      using 3 assms(1) by (simp add: feed_ok_def) (simp add: buffer_chunk_def Let_def)
    ultimately show ?thesis using 3 by (auto simp: buffer_chunk_text said_def)
  next
    case 4
    with assms(1) show ?thesis by (simp add: feed_ok_def said_def) (simp add: buffer_update_def Let_def)
  next
    case 5
    with assms(1) f show ?thesis by (simp add: said_def)
  qed
  then show "feed_ok c'"
    "seen_all a (fs @ (if absorbed then [] else [Forwarded e])) @ held_text a c' = held_text a c @ said a (Event n e)"
    by auto
qed

lemma feed_text:
  assumes "feed_ok c" "length (held_text a c @ said a i) \<le> CHUNK_BUF_CAP" "feed i (out, c) = (out', c')"
  shows "feed_ok c' \<and> seen_all a out' @ held_text a c' = seen_all a out @ held_text a c @ said a i"
proof -
  have fl: "seen_all a (fst (flush_if_pending d)) = held_text a d" if "co_chunks d = co_chunks c" for d
    using assms(1) that by (intro flush_seen) (simp add: feed_ok_def)
  show ?thesis
  proof (cases i)
    case (Event n e)
    obtain fs ab c1 where h: "handle n e c = (fs, ab, c1)" by (cases "handle n e c")
    from assms(3) Event h have "out' = out @ fs @ (if ab then [] else [Forwarded e])" "c' = c1" by simp_all
    with handle_text [OF assms(1) h, of a] assms(2) Event show ?thesis by simp
  next
    case Tick
    then show ?thesis using assms(1,3) fl [of c] flush_state [of c]
      by (auto simp: tick_fires_def said_def feed_ok_def held_text_def case_prod_beta split: if_splits)
  next
    case Close
    have "held_text a (c\<lparr>co_closed := True\<rparr>) = held_text a c" by (simp add: held_text_def)
    then show ?thesis using Close assms(3) fl [of "c\<lparr>co_closed := True\<rparr>"] flush_state [of "c\<lparr>co_closed := True\<rparr>"]
      by (auto simp: close_coalescer_def said_def feed_ok_def held_text_def case_prod_beta)
  qed
qed

lemma feed_extends: "feed i (out, c) = (out', c') \<Longrightarrow> \<exists>gs. out' = out @ gs"
  by (cases i) (auto split: prod.splits)

lemma feed_run_text:
  assumes "feed_ok c" "length (held_text a c @ said_all a is) \<le> CHUNK_BUF_CAP"
    "fold feed is (out, c) = (out', c')"
  shows "feed_ok c' \<and> seen_all a out' @ held_text a c' = seen_all a out @ held_text a c @ said_all a is"
  using assms
proof (induction "is" arbitrary: out c)
  case (Cons i "is")
  obtain out1 c1 where f: "feed i (out, c) = (out1, c1)" by (cases "feed i (out, c)")
  have "length (held_text a c @ said a i) \<le> CHUNK_BUF_CAP" using Cons.prems(2) by (simp add: said_all_def)
  from feed_text [OF Cons.prems(1) this f]
  have 1: "feed_ok c1" "seen_all a out1 @ held_text a c1 = seen_all a out @ held_text a c @ said a i" by auto
  from feed_extends [OF f] obtain gs where "out1 = out @ gs" by blast
  with 1(2) have "seen_all a gs @ held_text a c1 = held_text a c @ said a i" by simp
  from arg_cong [OF this, of length] Cons.prems(2)
  have "length (held_text a c1 @ said_all a is) \<le> CHUNK_BUF_CAP" by (simp add: said_all_def)
  from Cons.IH [OF 1(1) this, of out1] Cons.prems(3) f 1(2) show ?case by (simp add: said_all_def)
qed (simp add: said_all_def)

lemma feed_ok_new [simp]: "feed_ok (new_coalescer th)" "held_text a (new_coalescer th) = []"
  by (simp_all add: feed_ok_def new_coalescer_def held_text_def)

definition settles :: "coalescer_input \<Rightarrow> bool" where
  "settles i = (case i of Event _ e \<Rightarrow> ev_type e = ''subagent_done'' \<or> ev_type e = ''subagent_spawn''
     | Tick \<Rightarrow> False | Close \<Rightarrow> True)"

lemma settles_holds_nothing:
  assumes "feed_ok c" "settles i" "feed i (out, c) = (out', c')"
  shows "held_text a c' = []"
  using assms flush_state [of c] flush_state [of "c\<lparr>co_closed := True\<rparr>"]
  by (cases i) (auto simp: settles_def handle_def COALESCABLE_def close_coalescer_def feed_ok_def held_text_def
      case_prod_beta split: if_splits)

subsection \<open>The properties\<close>

text \<open>C38. Coalescing loses and reorders nothing of an agent that streams at most 16000 characters, the cap of its
  buffer, past which the code truncates. Over any events of any agents, ticks
  and changes of the number of active agents, when such an agent is reported done or the coalescer is
  closed, the chunk text the sockets have seen of it, batched or forwarded, is exactly what it streamed, in order.\<close>

theorem coalescing_keeps_text:
  assumes "length (said_all a is) \<le> CHUNK_BUF_CAP" "settles i"
  shows "seen_all a (fst (fold feed (is @ [i]) ([], new_coalescer th))) = said_all a is"
proof -
  obtain out c where r: "fold feed is ([], new_coalescer th) = (out, c)" by (cases "fold feed is ([], new_coalescer th)")
  obtain out' c' where f: "feed i (out, c) = (out', c')" by (cases "feed i (out, c)")
  have s: "said a i = []" using assms(2) by (auto simp: said_def settles_def split: coalescer_input.splits)
  from feed_run_text [OF feed_ok_new(1) _ r, of a] assms(1)
  have 1: "feed_ok c" "seen_all a out @ held_text a c = said_all a is" by simp_all
  from arg_cong [OF 1(2), of length] assms(1) have "length (held_text a c @ said a i) \<le> CHUNK_BUF_CAP" by (simp add: s)
  from feed_text [OF 1(1) this f] settles_holds_nothing [OF 1(1) assms(2) f, of a] 1(2) s r f
  show ?thesis by simp
qed

definition chunk_of :: "string \<Rightarrow> codepoints \<Rightarrow> sub_event" where
  "chunk_of a t = \<lparr>ev_type = ''subagent_chunk'', ev_id = a, ev_text = t, ev_fields = []\<rparr>"

definition done_of :: "string \<Rightarrow> sub_event" where
  "done_of a = \<lparr>ev_type = ''subagent_done'', ev_id = a, ev_text = [], ev_fields = []\<rparr>"

theorem coalescing_keeps_text_witness:
  "seen_all ''a'' (fst (fold feed [Event (Some 9) (chunk_of ''a'' [1, 2]), Event (Some 9) (chunk_of ''b'' [7]),
      Tick, Event (Some 9) (chunk_of ''a'' [3]), Event (Some 2) (chunk_of ''a'' [4]),
      Event (Some 9) (chunk_of ''a'' [5]), Event (Some 9) (done_of ''a'')] ([], new_coalescer 8))) = [1, 2, 3, 4, 5]"
  using coalescing_keeps_text [of "''a''" "[Event (Some 9) (chunk_of ''a'' [1, 2]), Event (Some 9) (chunk_of ''b'' [7]),
      Tick, Event (Some 9) (chunk_of ''a'' [3]), Event (Some 2) (chunk_of ''a'' [4]),
      Event (Some 9) (chunk_of ''a'' [5])]" "Event (Some 9) (done_of ''a'')" 8]
  by (simp add: said_all_def said_def chunk_of_def settles_def done_of_def CHUNK_BUF_CAP_def del: feed.simps fold_simps(2))

lemma feed_bounded:
  assumes "list_all (\<lambda>p. length (cb_text (snd p)) \<le> CHUNK_BUF_CAP) (co_chunks c)"
    "list_all (\<lambda>f. case f of BatchChunks bs \<Rightarrow> list_all (\<lambda>p. length (cb_text (snd p)) \<le> CHUNK_BUF_CAP) bs | _ \<Rightarrow> True) out"
  shows "case feed i (out, c) of (out', c') \<Rightarrow>
     list_all (\<lambda>p. length (cb_text (snd p)) \<le> CHUNK_BUF_CAP) (co_chunks c') \<and>
     list_all (\<lambda>f. case f of BatchChunks bs \<Rightarrow> list_all (\<lambda>p. length (cb_text (snd p)) \<le> CHUNK_BUF_CAP) bs | _ \<Rightarrow> True) out'"
proof -
  have fl: "list_all (\<lambda>f. case f of BatchChunks bs \<Rightarrow> list_all (\<lambda>p. length (cb_text (snd p)) \<le> CHUNK_BUF_CAP) bs | _ \<Rightarrow> True)
      (fst (flush_if_pending d))" if "co_chunks d = co_chunks c" for d
    using assms(1) that by (auto simp: flush_if_pending_def Let_def list_all_iff)
  have bc: "list_all (\<lambda>p. length (cb_text (snd p)) \<le> CHUNK_BUF_CAP) (co_chunks (buffer_chunk e c))" for e
    using assms(1) cap_text_length set_dict_set
    by (fastforce simp: buffer_chunk_def Let_def list_all_iff)
  show ?thesis
  proof (cases i)
    case (Event n e)
    then show ?thesis using assms fl [of c] bc [of e] flush_state [of c]
      by (auto simp: handle_def case_prod_beta)
  next
    case Tick
    then show ?thesis using assms fl [of c] flush_state [of c] by (auto simp: tick_fires_def case_prod_beta)
  next
    case Close
    then show ?thesis using assms fl [of "c\<lparr>co_closed := True\<rparr>"] flush_state [of "c\<lparr>co_closed := True\<rparr>"]
      by (auto simp: close_coalescer_def case_prod_beta)
  qed
qed

end
