(* ===== verification/Trust_Patterns.thy ===== *)
theory Trust_Patterns imports Json_Value begin

section \<open>Command-scoped trust (\<^verbatim>\<open>trust_patterns.py\<close>)\<close>

text \<open>
  Which commands a trust grant covers. \<open>glob_match\<close> is \<^verbatim>\<open>fnmatch.fnmatch\<close> on POSIX, with the
  character classes of CPython (a range with crossed ends is empty, a class without a closing
  bracket is a literal bracket). The placeholders that \<^verbatim>\<open>split_command_segments\<close> writes for a quoted separator
  and for a redirection are tokens of their own (\<open>Sep\<close>, \<open>Redir\<close>): the code delimits them by NUL
  and refuses a command that holds one. A set of patterns is listed in some order, and
  \<^verbatim>\<open>json.loads\<close> is the parameter \<open>loads\<close>.
\<close>

definition extract_bash_command :: "(string \<Rightarrow> json option) \<Rightarrow> string \<Rightarrow> string" where
  "extract_bash_command loads tool_input =
     (case loads tool_input of
         Some (JObj d) \<Rightarrow> (case dict_get d ''command'' of Some (JStr c) \<Rightarrow> c | _ \<Rightarrow> [])
       | _ \<Rightarrow> tool_input)"

definition canonical_non_shell_tool :: "string \<Rightarrow> string \<Rightarrow> string" where
  "canonical_non_shell_tool server tool =
     (if server = [] \<or> tool = [] then [] else ''mcp__'' @ server @ ''__'' @ tool)"

text \<open>UTF-8 of a code point below 256, and lower-case hexadecimal.\<close>

definition utf8_char :: "char \<Rightarrow> nat list" where
  "utf8_char c = (let n = (of_char c :: nat) in if n < 128 then [n] else [192 + n div 64, 128 + n mod 64])"

definition hex_digit :: "nat \<Rightarrow> char" where
  "hex_digit n = (if n < 10 then char_of (48 + n) else char_of (87 + n))"

definition hex_byte :: "nat \<Rightarrow> string" where
  "hex_byte b = [hex_digit (b div 16), hex_digit (b mod 16)]"

definition trust_identity_component :: "string \<Rightarrow> string" where
  "trust_identity_component value = concat (map hex_byte (concat (map utf8_char (py_lower value))))"

definition canonical_non_shell_trust_key :: "string \<Rightarrow> string \<Rightarrow> string" where
  "canonical_non_shell_trust_key server tool =
     (if server = [] \<or> tool = [] then []
      else ''mcp-trust:v1:'' @ trust_identity_component server @ '':'' @ trust_identity_component tool)"

definition approval_command :: "(string \<Rightarrow> json option) \<Rightarrow> string \<Rightarrow> bool \<Rightarrow> string \<Rightarrow> string \<Rightarrow> bool \<Rightarrow> string" where
  "approval_command loads tool_input is_shell tool_name server has_params =
     (if is_shell then (if tool_input \<noteq> [] then extract_bash_command loads tool_input else [])
      else if tool_input = [] \<and> \<not> has_params then canonical_non_shell_trust_key server tool_name
      else [])"

definition approval_display_command :: "(string \<Rightarrow> json option) \<Rightarrow> string \<Rightarrow> bool \<Rightarrow> string \<Rightarrow> string \<Rightarrow> bool \<Rightarrow> string" where
  "approval_display_command loads tool_input is_shell tool_name server has_params =
     (let trust_key = approval_command loads tool_input is_shell tool_name server has_params
      in if trust_key = [] then []
         else if is_shell then trust_key
         else canonical_non_shell_tool server tool_name)"

subsection \<open>Patterns\<close>

fun class_has :: "string \<Rightarrow> char \<Rightarrow> bool" where
  "class_has (a # d # b # rest) c =
     (if d = CHR ''-''
      then ((of_char a :: nat) \<le> of_char c \<and> (of_char c :: nat) \<le> of_char b) \<or> class_has rest c
      else a = c \<or> class_has (d # b # rest) c)"
| "class_has (a # rest) c = (a = c \<or> class_has rest c)"
| "class_has [] c = False"

text \<open>What follows an opening bracket: the class and the rest of the pattern, \<open>None\<close> when it is
  never closed.\<close>

fun close_class :: "string \<Rightarrow> string \<Rightarrow> (string \<times> string) option" where
  "close_class acc [] = None"
| "close_class acc (c # p) = (if c = CHR '']'' then Some (rev acc, p) else close_class (c # acc) p)"

fun open_class :: "string \<Rightarrow> (string \<times> string) option" where
  "open_class (c1 # c2 # p) =
     (if c1 = CHR ''!'' then (if c2 = CHR '']'' then close_class [CHR '']'', CHR ''!''] p else close_class [CHR ''!''] (c2 # p))
      else if c1 = CHR '']'' then close_class [CHR '']''] (c2 # p)
      else close_class [] (c1 # c2 # p))"
| "open_class p = None"

definition in_class :: "string \<Rightarrow> char \<Rightarrow> bool" where
  "in_class cls c = (case cls of
       d # rest \<Rightarrow> if d = CHR ''!'' then \<not> class_has rest c else class_has cls c
     | [] \<Rightarrow> False)"

lemma close_class_length: "close_class acc p = Some (cls, q) \<Longrightarrow> length q < length p"
  by (induction acc p rule: close_class.induct) (auto split: if_splits)

lemma open_class_length: "open_class p = Some (cls, q) \<Longrightarrow> length q < length p"
  by (cases p rule: open_class.cases) (auto split: if_splits dest!: close_class_length)

function glob_match :: "string \<Rightarrow> string \<Rightarrow> bool" where
  "glob_match [] s = (s = [])"
| "glob_match (d # p) s =
     (if d = CHR ''*''
      then glob_match p s \<or> (case s of [] \<Rightarrow> False | c # t \<Rightarrow> glob_match (d # p) t)
      else (case s of
          [] \<Rightarrow> False
        | c # t \<Rightarrow>
            if d = CHR ''?'' then glob_match p t
            else if d = CHR ''['' then
              (case open_class p of
                  Some (cls, q) \<Rightarrow> in_class cls c \<and> glob_match q t
                | None \<Rightarrow> c = d \<and> glob_match p t)
            else c = d \<and> glob_match p t))"
  by pat_completeness auto

termination
  by (relation "measure (\<lambda>(p, s). length p + length s)")
    (auto dest!: open_class_length)

declare glob_match.simps [simp del]

definition tool_matches :: "string \<Rightarrow> string \<Rightarrow> bool" where
  "tool_matches pattern tool_name =
     (if pattern = ''*'' then True else glob_match (py_lower pattern) (py_lower tool_name))"

definition glob_escape :: "string \<Rightarrow> string" where
  "glob_escape s = concat (map (\<lambda>c. if c \<in> {CHR ''*'', CHR ''?'', CHR ''[''}
     then [CHR ''['', c, CHR '']''] else [c]) s)"

subsection \<open>Segments of a command\<close>

datatype tok = Ch char | Sep char | Redir string

definition is_sep_char :: "char \<Rightarrow> bool" where
  "is_sep_char c = (c \<in> set ''|&;'' \<or> c = CHR 0x0A)"

text \<open>\<^verbatim>\<open>_mask_quoted_separators\<close>: the open quote and whether the last character escapes.\<close>

fun mask_quoted :: "bool \<Rightarrow> char option \<Rightarrow> bool \<Rightarrow> string \<Rightarrow> tok list" where
  "mask_quoted mask_escaped quote escaped [] = []"
| "mask_quoted mask_escaped quote escaped (ch # s) =
     (if escaped then
        (if mask_escaped \<and> is_sep_char ch then Sep ch else Ch ch) # mask_quoted mask_escaped quote False s
      else if ch = CHR 0x5C \<and> quote \<noteq> Some CHR 0x27 then Ch ch # mask_quoted mask_escaped quote True s
      else (case quote of
          Some q \<Rightarrow>
            if ch = q then Ch ch # mask_quoted mask_escaped None False s
            else if is_sep_char ch then Sep ch # mask_quoted mask_escaped quote False s
            else Ch ch # mask_quoted mask_escaped quote False s
        | None \<Rightarrow>
            if ch = CHR 0x27 \<or> ch = CHR 0x22 then Ch ch # mask_quoted mask_escaped (Some ch) False s
            else Ch ch # mask_quoted mask_escaped None False s))"

definition is_digit_tok :: "tok \<Rightarrow> bool" where
  "is_digit_tok t = (case t of Ch c \<Rightarrow> c \<in> set ''0123456789'' | _ \<Rightarrow> False)"

definition is_space_tok :: "tok \<Rightarrow> bool" where
  "is_space_tok t = (case t of Ch c \<Rightarrow> py_isspace c | _ \<Rightarrow> False)"

fun tok_text :: "tok \<Rightarrow> string" where
  "tok_text (Ch c) = [c]"
| "tok_text (Sep c) = [c]"
| "tok_text (Redir s) = s"

definition toks_text :: "tok list \<Rightarrow> string" where
  "toks_text ts = concat (map tok_text ts)"

text \<open>The redirections \<^verbatim>\<open>[0-9]*>&[0-9]*\<close> and \<^verbatim>\<open>&>>?\<close>, leftmost first: the tokens matched here.\<close>

definition redirect_here :: "tok list \<Rightarrow> nat option" where
  "redirect_here ts =
     (let ds = takeWhile is_digit_tok ts; rest = drop (length ds) ts
      in if starts_with rest [Ch CHR ''>'', Ch CHR ''&'']
         then Some (length ds + 2 + length (takeWhile is_digit_tok (drop 2 rest)))
         else if starts_with ts [Ch CHR ''&'', Ch CHR ''>'', Ch CHR ''>''] then Some 3
         else if starts_with ts [Ch CHR ''&'', Ch CHR ''>''] then Some 2
         else None)"

function mask_redirects :: "tok list \<Rightarrow> tok list" where
  "mask_redirects [] = []"
| "mask_redirects (t # ts) =
     (case redirect_here (t # ts) of
         Some n \<Rightarrow> Redir (toks_text (take (max 1 n) (t # ts))) # mask_redirects (drop (max 1 n) (t # ts))
       | None \<Rightarrow> t # mask_redirects ts)"
  by pat_completeness auto

termination by (relation "measure length") auto

declare mask_redirects.simps [simp del]

text \<open>The separators \<^verbatim>\<open>|| && ; & newline |\<close> of \<^verbatim>\<open>_COMMAND_SPLIT_RE\<close>, without \<^verbatim>\<open>&\<close> and newline for
  \<^verbatim>\<open>_GRANT_SPLIT_RE\<close>: the length of the operator at the head.\<close>

definition operator_here :: "bool \<Rightarrow> tok list \<Rightarrow> nat" where
  "operator_here grant ts =
     (if starts_with ts [Ch CHR ''|'', Ch CHR ''|''] \<or> starts_with ts [Ch CHR ''&'', Ch CHR ''&''] then 2
      else if starts_with ts [Ch CHR '';''] \<or> starts_with ts [Ch CHR ''|''] then 1
      else if \<not> grant \<and> (starts_with ts [Ch CHR ''&''] \<or> starts_with ts [Ch CHR 0x0A]) then 1
      else 0)"

text \<open>A match of \<^verbatim>\<open>\s*(operator)\s*\<close> at the head: the tokens it takes, 0 for none. White space that
  holds a newline is itself a match when newlines separate.\<close>

definition split_here :: "bool \<Rightarrow> tok list \<Rightarrow> nat" where
  "split_here grant ts =
     (let ws = takeWhile is_space_tok ts; rest = drop (length ws) ts; k = operator_here grant rest
      in if k \<noteq> 0 then length ws + k + length (takeWhile is_space_tok (drop k rest))
         else if \<not> grant \<and> Ch CHR 0x0A \<in> set ws then length ws
         else 0)"

function split_ops :: "bool \<Rightarrow> tok list \<Rightarrow> tok list \<Rightarrow> tok list list" where
  "split_ops grant acc [] = [rev acc]"
| "split_ops grant acc (t # ts) =
     (let k = split_here grant (t # ts)
      in if k = 0 then split_ops grant (t # acc) ts
         else rev acc # split_ops grant [] (drop k (t # ts)))"
  by pat_completeness auto

termination by (relation "measure (\<lambda>(g, acc, ts). length ts)") auto

declare split_ops.simps [simp del]

definition has_substitution :: "string \<Rightarrow> bool" where
  "has_substitution s = (contains_sub s ''$('' \<or> contains_sub s [CHR 0x60] \<or>
     contains_sub s ''<('' \<or> contains_sub s ''>('')"

definition split_command_segments :: "bool \<Rightarrow> bool \<Rightarrow> string \<Rightarrow> string list option" where
  "split_command_segments grant mask_escaped command =
     (if has_substitution command \<or> CHR 0x00 \<in> set command then None
      else Some (map toks_text (filter (\<lambda>part. \<not> list_all is_space_tok part)
             (split_ops grant [] (mask_redirects (mask_quoted mask_escaped None False command))))))"

definition matches_trusted_pattern :: "string \<Rightarrow> string list \<Rightarrow> string option" where
  "matches_trusted_pattern command patterns =
     (case split_command_segments False False command of
         None \<Rightarrow> None
       | Some segments \<Rightarrow>
           if 1 < length segments
           then (if list_all (\<lambda>seg. list_ex (\<lambda>p. tool_matches p seg) patterns) segments
                 then Some (join_with '','' (map (\<lambda>seg. the (find (\<lambda>p. tool_matches p seg) patterns)) segments))
                 else None)
           else find (\<lambda>p. tool_matches p command) patterns)"

subsection \<open>Grants\<close>

definition env_assignment :: "string \<Rightarrow> bool" where
  "env_assignment s =
     (let name = takeWhile (\<lambda>c. py_isalnum c \<and> (of_char c :: nat) < 128 \<or> c = CHR ''_'') s
      in name \<noteq> [] \<and> \<not> (hd name \<in> set ''0123456789'') \<and> starts_with (drop (length name) s) ''='')"

definition unsafe_base :: "string \<Rightarrow> bool" where
  "unsafe_base base =
     (list_ex (\<lambda>c. c \<in> set (CHR 0x27 # CHR 0x22 # CHR 0x5C # CHR 0x60 # '',$*?[]{}()<>!'')) base \<or>
      starts_with base ''~'' \<or> starts_with base ''#'')"

definition first_word :: "string \<Rightarrow> string" where
  "first_word s = takeWhile (\<lambda>c. \<not> py_isspace c) (py_lstrip s)"

definition segment_base :: "string \<Rightarrow> string option" where
  "segment_base segment =
     (let base = first_word (py_strip segment)
      in if base = [] \<or> env_assignment base \<or> unsafe_base base then None else Some base)"

fun dedup :: "string list \<Rightarrow> string list \<Rightarrow> string list" where
  "dedup acc [] = rev acc"
| "dedup acc (x # xs) = (if x \<in> set acc then dedup acc xs else dedup (x # acc) xs)"

definition extract_base_command :: "string \<Rightarrow> string" where
  "extract_base_command command =
     (case split_command_segments True True command of
         None \<Rightarrow> []
       | Some segments \<Rightarrow>
           if list_ex (\<lambda>seg. segment_base seg = None) segments then []
           else if segments = [] then command
           else join_with '','' (dedup [] (List.map_filter segment_base segments)))"

definition extract_full_command :: "string \<Rightarrow> string" where
  "extract_full_command command = command"

definition base_consent_pattern :: "string \<Rightarrow> string" where
  "base_consent_pattern base_command = join_with '',''
     (map (\<lambda>b. py_strip b @ '' *'') (filter (\<lambda>b. py_strip b \<noteq> []) (split_on CHR '','' base_command)))"

definition exact_trust_pattern :: "string \<Rightarrow> string" where
  "exact_trust_pattern command = glob_escape command"

definition base_trust_patterns :: "string \<Rightarrow> string list" where
  "base_trust_patterns base_command =
     concat (map (\<lambda>b. [glob_escape b, glob_escape b @ '' *''])
       (filter (\<lambda>b. b \<noteq> [] \<and> \<not> env_assignment b) (map py_strip (split_on CHR '','' base_command))))"

subsection \<open>Escaped patterns match literally\<close>

lemma close_class_one: "close_class [] (c # CHR '']'' # p) = Some ([c], p)" if "c \<noteq> CHR '']''"
  using that by simp

lemma glob_match_literal:
  "d \<notin> {CHR ''*'', CHR ''?'', CHR ''[''} \<Longrightarrow>
     glob_match (d # p) s = (\<exists>t. s = d # t \<and> glob_match p t)"
  by (subst glob_match.simps) (auto split: list.splits)

lemma glob_match_class_one:
  assumes "d \<in> {CHR ''*'', CHR ''?'', CHR ''[''}"
  shows "glob_match (CHR ''['' # d # CHR '']'' # p) s = (\<exists>t. s = d # t \<and> glob_match p t)"
proof -
  have "open_class (d # CHR '']'' # p) = Some ([d], p)" using assms by auto
  moreover have "in_class [d] c = (c = d)" for c using assms by (auto simp: in_class_def)
  ultimately show ?thesis by (subst glob_match.simps) (auto split: list.splits)
qed

lemma glob_escape_Cons:
  "glob_escape (c # s) = (if c \<in> {CHR ''*'', CHR ''?'', CHR ''[''} then [CHR ''['', c, CHR '']''] else [c]) @ glob_escape s"
  by (simp add: glob_escape_def)

lemma glob_escape_Nil [simp]: "glob_escape [] = []"
  by (simp add: glob_escape_def)

lemma glob_match_escape:
  "glob_match (glob_escape p @ q) s = (\<exists>t. s = p @ t \<and> glob_match q t)"
proof (induction p arbitrary: s)
  case (Cons c p)
  show ?case
  proof (cases "c \<in> {CHR ''*'', CHR ''?'', CHR ''[''}")
    case True
    then have "glob_match (glob_escape (c # p) @ q) s = (\<exists>t. s = c # t \<and> glob_match (glob_escape p @ q) t)"
      using glob_match_class_one [OF True, of "glob_escape p @ q" s] by (simp add: glob_escape_Cons)
    then show ?thesis by (auto simp: Cons.IH)
  next
    case False
    then have "glob_match (glob_escape (c # p) @ q) s = (\<exists>t. s = c # t \<and> glob_match (glob_escape p @ q) t)"
      using glob_match_literal [OF False, of "glob_escape p @ q" s] by (simp add: glob_escape_Cons)
    then show ?thesis by (auto simp: Cons.IH)
  qed
qed simp

lemma glob_match_Nil [simp]: "glob_match [] s = (s = [])"
  by (simp add: glob_match.simps)

lemma glob_match_star [simp]: "glob_match [CHR ''*''] s"
proof (induction s)
  case Nil
  then show ?case by (subst glob_match.simps) simp
next
  case (Cons c s)
  then show ?case by (subst glob_match.simps) simp
qed

lemma lower_char_special:
  assumes "x \<in> {CHR ''*'', CHR ''?'', CHR ''['', CHR '']'', CHR '' ''}"
  shows "py_lower_char c = x \<longleftrightarrow> c = x"
proof -
  have "(of_char (py_lower_char c) :: nat) = (let n = of_char c in
      if (65 \<le> n \<and> n \<le> 90) \<or> (192 \<le> n \<and> n \<le> 222 \<and> n \<noteq> 215) then n + 32 else n)"
    by (auto simp: py_lower_char_def Let_def)
  moreover have "(of_char x :: nat) \<in> {42, 63, 91, 93, 32}" using assms by auto
  moreover have "a = b \<longleftrightarrow> (of_char a :: nat) = of_char b" for a b :: char by simp
  ultimately show ?thesis by (auto simp: Let_def split: if_splits)
qed

lemma py_lower_escape: "py_lower (glob_escape s) = glob_escape (py_lower s)"
proof (induction s)
  case (Cons c s)
  have l: "py_lower_char CHR ''['' = CHR ''[''" "py_lower_char CHR '']'' = CHR '']''"
    using lower_char_special [of "CHR ''[''" "CHR ''[''"] lower_char_special [of "CHR '']''" "CHR '']''"] by auto
  have sp: "py_lower_char c \<in> {CHR ''*'', CHR ''?'', CHR ''[''} \<longleftrightarrow> c \<in> {CHR ''*'', CHR ''?'', CHR ''[''}"
    using lower_char_special [of _ c] by auto
  show ?case
  proof (cases "c \<in> {CHR ''*'', CHR ''?'', CHR ''[''}")
    case True
    with sp Cons l show ?thesis by (simp add: glob_escape_Cons py_lower_def)
  next
    case False
    with sp Cons show ?thesis by (simp add: glob_escape_Cons py_lower_def)
  qed
qed (simp add: py_lower_def)

lemma py_lower_append: "py_lower (a @ b) = py_lower a @ py_lower b"
  by (simp add: py_lower_def)

lemma glob_escape_not_star: "glob_escape s \<noteq> ''*''"
  by (cases s) (auto simp: glob_escape_Cons split: if_splits)

lemma glob_escape_base_not_star: "glob_escape s @ '' *'' \<noteq> ''*''"
  by (cases s) (auto simp: glob_escape_Cons)

text \<open>An exact grant covers that text and, case apart, no other; a base grant covers the bare word
  and the word followed by a blank.\<close>

lemma exact_pattern_matches: "tool_matches (exact_trust_pattern c) d = (py_lower d = py_lower c)"
  using glob_match_escape [of "py_lower c" "[]" "py_lower d"]
  by (simp add: tool_matches_def exact_trust_pattern_def glob_escape_not_star py_lower_escape)

lemma py_lower_star: "py_lower '' *'' = '' *''"
  using lower_char_special [of "CHR ''*''" "CHR ''*''"] lower_char_special [of "CHR '' ''" "CHR '' ''"]
  by (simp add: py_lower_def)

lemma base_pattern_matches:
  "tool_matches (glob_escape b @ '' *'') s = (\<exists>t. py_lower s = py_lower b @ '' '' @ t)"
proof -
  have "glob_match ('' *'') t = (\<exists>u. t = '' '' @ u)" for t
    using glob_match_literal [of "CHR '' ''" "''*''" t] by auto
  then show ?thesis
    using glob_match_escape [of "py_lower b" "'' *''" "py_lower s"]
    by (auto simp: tool_matches_def glob_escape_base_not_star py_lower_append py_lower_escape py_lower_star)
qed

subsection \<open>Trust keys are injective\<close>

lemma of_char_hex: "n < 16 \<Longrightarrow> (of_char (hex_digit n) :: nat) = (if n < 10 then 48 + n else 87 + n)"
  by (simp add: hex_digit_def)

lemma hex_digit_inj: "m < 16 \<Longrightarrow> n < 16 \<Longrightarrow> hex_digit m = hex_digit n \<longleftrightarrow> m = n"
proof -
  assume b: "m < 16" "n < 16"
  have "m = n" if "hex_digit m = hex_digit n"
    using arg_cong [OF that, of "of_char :: char \<Rightarrow> nat"] b by (simp add: of_char_hex split: if_splits)
  then show ?thesis by blast
qed

lemma hex_digit_chars: "n < 16 \<Longrightarrow> hex_digit n \<noteq> CHR '':''"
  using of_char_hex [of n] by (auto split: if_splits dest: arg_cong [of _ _ "of_char :: char \<Rightarrow> nat"])

lemma hex_bytes_inj:
  "\<lbrakk>concat (map hex_byte bs) = concat (map hex_byte cs); list_all (\<lambda>b. b < 256) bs; list_all (\<lambda>b. b < 256) cs\<rbrakk>
     \<Longrightarrow> bs = cs"
proof (induction bs arbitrary: cs)
  case Nil
  then show ?case by (cases cs) (simp_all add: hex_byte_def)
next
  case (Cons b bs)
  then obtain c cs' where cs: "cs = c # cs'" by (cases cs) (auto simp: hex_byte_def)
  have "b div 16 = c div 16" "b mod 16 = c mod 16"
    using Cons.prems cs by (auto simp: hex_byte_def hex_digit_inj less_mult_imp_div_less)
  then have bc: "b = c" by (metis div_mult_mod_eq)
  have "concat (map hex_byte bs) = concat (map hex_byte cs')"
    using Cons.prems(1) cs by (simp add: hex_byte_def [abs_def])
  then have "bs = cs'" using Cons.prems(2,3) cs by (intro Cons.IH) simp_all
  with bc cs show ?case by simp
qed

lemma of_char_less: "(of_char c :: nat) < 256"
  using of_char_mod_256 [of c, where ?'a = nat] by (metis mod_less_divisor zero_less_numeral)

lemma utf8_bytes: "list_all (\<lambda>b. b < 256) (concat (map utf8_char s))"
proof (induction s)
  case (Cons c s)
  have "(of_char c :: nat) div 64 < 4" using of_char_less [of c] by (intro less_mult_imp_div_less) simp
  moreover have "(of_char c :: nat) mod 64 < 128" by (rule less_trans [of _ 64]) simp_all
  ultimately have "list_all (\<lambda>b. b < 256) (utf8_char c)" by (simp add: utf8_char_def Let_def)
  with Cons show ?case by simp
qed simp

lemma utf8_char_shape:
  obtains n where "(of_char c :: nat) = n" "n < 128" "utf8_char c = [n]"
    | n where "(of_char c :: nat) = n" "128 \<le> n" "utf8_char c = [192 + n div 64, 128 + n mod 64]"
  by (cases "(of_char c :: nat) < 128") (auto simp: utf8_char_def Let_def)

lemma utf8_inj: "concat (map utf8_char s) = concat (map utf8_char t) \<Longrightarrow> s = t"
proof (induction s arbitrary: t)
  case Nil
  then show ?case by (cases t) (auto simp: utf8_char_def Let_def split: if_splits)
next
  case (Cons c s)
  then obtain d t' where t: "t = d # t'" by (cases t) (auto simp: utf8_char_def Let_def split: if_splits)
  have eq: "utf8_char c @ concat (map utf8_char s) = utf8_char d @ concat (map utf8_char t')"
    using Cons.prems t by simp
  have "(of_char c :: nat) = of_char d \<and> concat (map utf8_char s) = concat (map utf8_char t')"
  proof (cases rule: utf8_char_shape [of c])
    case (1 n)
    then show ?thesis using eq by (cases rule: utf8_char_shape [of d]) auto
  next
    case (2 n)
    note c = this
    show ?thesis
    proof (cases rule: utf8_char_shape [of d])
      case (1 m)
      then show ?thesis using eq c by auto
    next
      case (2 m)
      then have "n div 64 = m div 64" "n mod 64 = m mod 64" "concat (map utf8_char s) = concat (map utf8_char t')"
        using eq c by auto
      then show ?thesis using c 2 by (metis div_mult_mod_eq)
    qed
  qed
  then show ?case using Cons.IH t by simp
qed

lemma trust_component_inj:
  "trust_identity_component a = trust_identity_component b \<Longrightarrow> py_lower a = py_lower b"
  unfolding trust_identity_component_def using hex_bytes_inj utf8_bytes utf8_inj by blast

lemma trust_component_chars: "CHR '':'' \<notin> set (trust_identity_component a)"
proof -
  have "CHR '':'' \<notin> set (concat (map hex_byte bs))" if "list_all (\<lambda>b. b < 256) bs" for bs
    using that
  proof (induction bs)
    case (Cons b bs)
    then have "b div 16 < 16" "b mod 16 < 16" by (simp_all add: less_mult_imp_div_less)
    from hex_digit_chars [OF this(1)] hex_digit_chars [OF this(2)] Cons show ?case
      by (simp add: hex_byte_def eq_commute [of "CHR '':''"])
  qed simp
  from this [OF utf8_bytes] show ?thesis unfolding trust_identity_component_def .
qed

lemma colon_split:
  "a @ CHR '':'' # b = c @ CHR '':'' # d \<Longrightarrow> CHR '':'' \<notin> set a \<Longrightarrow> CHR '':'' \<notin> set c \<Longrightarrow> a = c \<and> b = d"
proof (induction a arbitrary: c)
  case Nil
  then show ?case by (cases c) auto
next
  case (Cons x a)
  then show ?case by (cases c) auto
qed

lemma trust_key_inj:
  assumes "canonical_non_shell_trust_key s t = canonical_non_shell_trust_key s' t'" "s \<noteq> []" "t \<noteq> []" "s' \<noteq> []" "t' \<noteq> []"
  shows "py_lower s = py_lower s' \<and> py_lower t = py_lower t'"
  using assms colon_split [of "trust_identity_component s" "trust_identity_component t"] trust_component_chars
  by (auto simp: canonical_non_shell_trust_key_def intro: trust_component_inj)

subsection \<open>Segments of plain commands\<close>

definition plain_char :: "char \<Rightarrow> bool" where
  "plain_char c = (\<not> is_sep_char c \<and> c \<notin> {CHR 0x27, CHR 0x22, CHR 0x5C, CHR 0x60, CHR ''>'', CHR ''<'', CHR ''$'', CHR 0x00})"

definition chain_operators :: "string list" where
  "chain_operators = [''||'', ''&&'', '';'', ''&'', [CHR 0x0A], ''|'']"

lemma contains_sub_set: "contains_sub s p \<Longrightarrow> set p \<subseteq> set s"
proof (induction s)
  case (Cons a s)
  show ?case
  proof (cases "starts_with (a # s) p")
    case True
    then obtain t where "a # s = p @ t" by (auto simp: starts_with_iff)
    then have "set (a # s) = set p \<union> set t" by (metis set_append)
    then show ?thesis by blast
  next
    case False
    with Cons show ?thesis by auto
  qed
qed (auto simp: starts_with_iff)

lemma no_substitution:
  "CHR ''$'' \<notin> set s \<Longrightarrow> CHR 0x60 \<notin> set s \<Longrightarrow> CHR ''<'' \<notin> set s \<Longrightarrow> CHR ''>'' \<notin> set s \<Longrightarrow> \<not> has_substitution s"
  by (auto simp: has_substitution_def dest!: contains_sub_set)

lemma mask_plain:
  "CHR 0x27 \<notin> set s \<Longrightarrow> CHR 0x22 \<notin> set s \<Longrightarrow> CHR 0x5C \<notin> set s \<Longrightarrow> mask_quoted m None False s = map Ch s"
  by (induction s) auto

lemma starts_with_Cons: "starts_with (x # s) (y # p) = (x = y \<and> starts_with s p)"
  by (auto simp: starts_with_def)

lemma starts_with_Nil_Cons [simp]: "\<not> starts_with [] (y # p)"
  by (simp add: starts_with_def)

lemma redirect_needs: "redirect_here ts = Some n \<Longrightarrow> Ch CHR ''>'' \<in> set ts"
proof -
  have "Ch CHR ''>'' \<in> set ts" if "starts_with (drop k ts) p" "Ch CHR ''>'' \<in> set p" for k p
    using that set_drop_subset [of k ts] by (auto simp: starts_with_iff)
  from this [of _ "[Ch CHR ''>'', Ch CHR ''&'']"] this [of 0 "[Ch CHR ''&'', Ch CHR ''>'', Ch CHR ''>'']"]
    this [of 0 "[Ch CHR ''&'', Ch CHR ''>'']"]
  show "redirect_here ts = Some n \<Longrightarrow> Ch CHR ''>'' \<in> set ts"
    by (auto simp: redirect_here_def Let_def split: if_splits)
qed

lemma redirects_plain: "Ch CHR ''>'' \<notin> set ts \<Longrightarrow> mask_redirects ts = ts"
proof (induction ts)
  case (Cons t ts)
  then have "redirect_here (t # ts) = None" using redirect_needs by (cases "redirect_here (t # ts)") blast+
  with Cons show ?case by (simp add: mask_redirects.simps)
qed (simp add: mask_redirects.simps)

lemma toks_text_Ch [simp]: "toks_text (map Ch s) = s"
  by (induction s) (simp_all add: toks_text_def)

lemma takeWhile_Ch: "takeWhile is_space_tok (map Ch s) = map Ch (takeWhile py_isspace s)"
  by (induction s) (simp_all add: is_space_tok_def)

lemma operator_Nil [simp]: "operator_here g [] = 0"
  by (simp add: operator_here_def)

lemma operator_plain: "plain_char c \<Longrightarrow> operator_here g (Ch c # ts) = 0"
  by (auto simp: operator_here_def starts_with_Cons plain_char_def is_sep_char_def)

text \<open>Plain text that holds a visible character is never cut before that character.\<close>

lemma split_here_plain:
  assumes "list_all plain_char w" "list_all py_isspace w" "plain_char c" "\<not> py_isspace c"
  shows "split_here g (map Ch w @ Ch c # ts) = 0"
proof -
  have "takeWhile is_space_tok (map Ch w @ Ch c # ts) = map Ch w"
    using assms(2,4) by (subst takeWhile_append2) (auto simp: is_space_tok_def list_all_iff)
  moreover have "CHR 0x0A \<notin> set w" using assms(1) by (auto simp: list_all_iff plain_char_def is_sep_char_def)
  ultimately show ?thesis using operator_plain [OF assms(3)] by (auto simp: split_here_def Let_def)
qed

lemma split_here_blank:
  assumes "list_all plain_char w" "list_all py_isspace w"
  shows "split_here g (map Ch w) = 0"
proof -
  have "takeWhile is_space_tok (map Ch w) = map Ch w"
    using assms(2) by (subst takeWhile_eq_all_conv) (auto simp: is_space_tok_def list_all_iff)
  moreover have "Ch CHR 0x0A \<notin> set (map Ch w)"
    using assms(1) by (auto simp: list_all_iff plain_char_def is_sep_char_def)
  ultimately show ?thesis by (simp only: split_here_def Let_def) simp
qed

lemma blank_prefix:
  "\<not> list_all py_isspace a \<Longrightarrow> list_all plain_char a \<Longrightarrow>
     \<exists>w c r. a = w @ c # r \<and> list_all plain_char w \<and> list_all py_isspace w \<and> plain_char c \<and> \<not> py_isspace c"
proof (induction a)
  case (Cons c a)
  show ?case
  proof (cases "py_isspace c")
    case True
    with Cons obtain w d r where "a = w @ d # r" "list_all plain_char w" "list_all py_isspace w" "plain_char d" "\<not> py_isspace d"
      by auto
    with True Cons.prems show ?thesis by (intro exI [of _ "c # w"]) auto
  next
    case False
    with Cons.prems show ?thesis by (intro exI [of _ "[]"]) auto
  qed
qed simp

lemma split_ops_plain:
  "list_all plain_char a \<Longrightarrow> split_ops g acc (map Ch a) = [rev acc @ map Ch a]"
proof (induction a arbitrary: acc)
  case (Cons c a)
  have "split_here g (map Ch (c # a)) = 0"
  proof (cases "list_all py_isspace (c # a)")
    case True
    then show ?thesis using split_here_blank Cons.prems by blast
  next
    case False
    from blank_prefix [OF False Cons.prems] obtain w d r where "c # a = w @ d # r" "list_all plain_char w"
      "list_all py_isspace w" "plain_char d" "\<not> py_isspace d" by blast
    with split_here_plain show ?thesis by simp
  qed
  with Cons show ?case by (simp add: split_ops.simps)
qed (simp add: split_ops.simps)

text \<open>Up to the operator: the visible part of the left command, then the cut.\<close>

lemma split_ops_upto:
  assumes "list_all plain_char a" "list_all plain_char w" "list_all py_isspace w"
    "a = [] \<or> \<not> py_isspace (last a)" "0 < k" "split_here g (map Ch w @ ts) = k" "map Ch w @ ts \<noteq> []"
  shows "split_ops g acc (map Ch a @ map Ch w @ ts) = (rev acc @ map Ch a) # split_ops g [] (drop k (map Ch w @ ts))"
  using assms(1,4)
proof (induction a arbitrary: acc)
  case Nil
  obtain t ts' where t: "map Ch w @ ts = t # ts'" using assms(7) by (cases "map Ch w @ ts") auto
  with assms(5,6) show ?case by (simp add: split_ops.simps)
next
  case (Cons c a)
  have "\<not> py_isspace (last (c # a))" using Cons.prems(2) by simp
  moreover have "last (c # a) \<in> set (c # a)" by (rule last_in_set) simp
  ultimately have "\<not> list_all py_isspace (c # a)" unfolding list_all_iff by blast
  from blank_prefix [OF this Cons.prems(1)] obtain v d r where v: "c # a = v @ d # r" "list_all plain_char v"
    "list_all py_isspace v" "plain_char d" "\<not> py_isspace d" by blast
  have "split_here g (map Ch v @ Ch d # (map Ch r @ map Ch w @ ts)) = 0"
    by (rule split_here_plain) (use v in auto)
  moreover have "map Ch v @ Ch d # (map Ch r @ map Ch w @ ts) = Ch c # (map Ch a @ map Ch w @ ts)"
    using arg_cong [OF v(1), of "map Ch"] by simp
  ultimately have "split_here g (Ch c # (map Ch a @ map Ch w @ ts)) = 0" by simp
  moreover have "a = [] \<or> \<not> py_isspace (last a)" using Cons.prems(2) by (cases a) auto
  ultimately show ?case using Cons by (simp add: split_ops.simps)
qed

lemma takeWhile_blank:
  assumes "list_all py_isspace w" "b \<noteq> []" "\<not> py_isspace (hd b)"
  shows "takeWhile is_space_tok (map Ch w @ map Ch b @ ts) = map Ch w"
proof -
  obtain c b' where "b = c # b'" using assms(2) by (cases b) auto
  then show ?thesis using assms(1,3)
    by (subst takeWhile_append2) (auto simp: is_space_tok_def list_all_iff)
qed

lemma plain_charD:
  "plain_char c \<Longrightarrow> c \<noteq> CHR ''|'' \<and> c \<noteq> CHR ''&'' \<and> c \<noteq> CHR '';'' \<and> c \<noteq> CHR 0x0A"
  by (simp add: plain_char_def is_sep_char_def)

lemma operator_chain:
  assumes "op \<in> set chain_operators" "op \<noteq> [CHR 0x0A]" "list_all plain_char (c # s)"
  shows "operator_here False (map Ch op @ map Ch (c # s)) = length op"
proof -
  have c: "c \<noteq> CHR ''|'' \<and> c \<noteq> CHR ''&'' \<and> c \<noteq> CHR '';'' \<and> c \<noteq> CHR 0x0A"
    using plain_charD assms(3) by simp
  consider "op = ''||''" | "op = ''&&''" | "op = '';''" | "op = ''&''" | "op = ''|''"
    using assms(1,2) unfolding chain_operators_def by auto
  then show ?thesis
    by cases (simp_all add: operator_here_def starts_with_Cons c)
qed

lemma chain_operator_visible:
  "op \<in> set chain_operators \<Longrightarrow> op \<noteq> [CHR 0x0A] \<Longrightarrow> op \<noteq> [] \<and> \<not> py_isspace (hd op)"
  by (auto simp: chain_operators_def py_isspace_def)

text \<open>An operator with blanks around it is one cut.\<close>

lemma split_here_chain:
  assumes op: "op \<in> set chain_operators"
    and w: "list_all py_isspace w" "list_all py_isspace v" "list_all plain_char v"
    and b: "b \<noteq> []" "\<not> py_isspace (hd b)" "list_all plain_char b"
  shows "split_here False (map Ch w @ map Ch op @ map Ch v @ map Ch b) = length w + length op + length v"
proof -
  obtain c s where vb: "v @ b = c # s" using b(1) by (cases "v @ b") auto
  have pl: "list_all plain_char (c # s)" using w(3) b(3) by (simp flip: vb)
  have tb: "map Ch v @ map Ch b = map Ch (c # s)" by (simp flip: vb)
  have vs: "takeWhile is_space_tok (map Ch v @ map Ch b) = map Ch v"
    using takeWhile_blank [OF w(2) b(1,2), of "[]"] by simp
  show ?thesis
  proof (cases "op = [CHR 0x0A]")
    case False
    from chain_operator_visible [OF op False] have "op \<noteq> []" "\<not> py_isspace (hd op)" by auto
    then have ws: "takeWhile is_space_tok (map Ch w @ map Ch op @ map Ch v @ map Ch b) = map Ch w"
      using takeWhile_blank [OF w(1)] by blast
    have k: "operator_here False (map Ch op @ map Ch v @ map Ch b) = length op"
      using operator_chain [OF op False pl] by (simp only: tb)
    have "drop (length op) (map Ch op @ map Ch v @ map Ch b) = map Ch v @ map Ch b" by simp
    with \<open>op \<noteq> []\<close> show ?thesis unfolding split_here_def ws Let_def length_map
      by (simp only: drop_append k drop_map vs) (simp add: k vs)
  next
    case True
    have "list_all py_isspace (w @ op @ v)" using w True by (simp add: py_isspace_def)
    from takeWhile_blank [OF this b(1,2), of "[]"]
    have ws: "takeWhile is_space_tok (map Ch w @ map Ch op @ map Ch v @ map Ch b) = map Ch (w @ op @ v)" by simp
    obtain d b' where "b = d # b'" using b(1) by (cases b) auto
    then have "operator_here False (map Ch b) = 0" using operator_plain [of d False "map Ch b'"] b(3) by simp
    then show ?thesis unfolding split_here_def ws Let_def
      by (simp add: True)
  qed
qed

lemma plain_masks:
  assumes "list_all (\<lambda>c. plain_char c \<or> is_sep_char c) s"
  shows "\<not> has_substitution s" "CHR 0x00 \<notin> set s"
    "mask_redirects (mask_quoted m None False s) = map Ch s"
proof -
  have x: "x \<notin> set s" if "x \<in> {CHR 0x27, CHR 0x22, CHR 0x5C, CHR 0x60, CHR ''>'', CHR ''<'', CHR ''$'', CHR 0x00}" for x
  proof
    assume "x \<in> set s"
    with assms have "plain_char x \<or> is_sep_char x" by (simp add: list_all_iff)
    moreover have "\<not> is_sep_char x" using that unfolding is_sep_char_def by auto
    ultimately show False using that unfolding plain_char_def by blast
  qed
  show "\<not> has_substitution s" by (rule no_substitution) (rule x, simp)+
  show "CHR 0x00 \<notin> set s" by (rule x) simp
  have "mask_quoted m None False s = map Ch s" by (rule mask_plain) (rule x, simp)+
  moreover have "Ch CHR ''>'' \<notin> set (map Ch s)" using x [of "CHR ''>''"] by (simp add: image_iff)
  ultimately show "mask_redirects (mask_quoted m None False s) = map Ch s" by (metis redirects_plain)
qed

lemma blank_toks: "list_all is_space_tok (map Ch s) = list_all py_isspace s"
  by (simp add: list_all_iff is_space_tok_def)

lemma segments_plain:
  assumes "list_all plain_char a" "\<not> list_all py_isspace a"
  shows "split_command_segments False False a = Some [a]"
proof -
  have "list_all (\<lambda>c. plain_char c \<or> is_sep_char c) a" using assms(1) by (auto simp: list_all_iff)
  note m = plain_masks [OF this]
  show ?thesis
    using assms(2) by (simp add: split_command_segments_def m split_ops_plain [OF assms(1)] blank_toks)
qed

lemma visible_edge: "b \<noteq> [] \<Longrightarrow> \<not> py_isspace (hd b) \<Longrightarrow> \<not> list_all py_isspace b"
  "b \<noteq> [] \<Longrightarrow> \<not> py_isspace (last b) \<Longrightarrow> \<not> list_all py_isspace b"
  by (auto simp: list_all_iff)

lemma segments_chain:
  assumes op: "op \<in> set chain_operators"
    and a: "list_all plain_char a" "a \<noteq> []" "\<not> py_isspace (last a)"
    and w: "list_all plain_char w" "list_all py_isspace w" "list_all plain_char v" "list_all py_isspace v"
    and b: "list_all plain_char b" "b \<noteq> []" "\<not> py_isspace (hd b)"
  shows "split_command_segments False False (a @ w @ op @ v @ b) = Some [a, b]"
proof -
  have "list_all is_sep_char op" using op by (auto simp: chain_operators_def is_sep_char_def)
  then have "list_all (\<lambda>c. plain_char c \<or> is_sep_char c) (a @ w @ op @ v @ b)"
    using a(1) w(1,3) b(1) by (auto simp: list_all_iff)
  note m = plain_masks [OF this]
  let ?k = "length w + length op + length v"
  have k: "split_here False (map Ch w @ (map Ch op @ map Ch v @ map Ch b)) = ?k"
    by (rule split_here_chain [OF op w(2,4,3) b(2,3,1)])
  have "op \<noteq> []" using op by (auto simp: chain_operators_def)
  then have pos: "0 < ?k" by simp
  have "split_ops False [] (map Ch a @ map Ch w @ (map Ch op @ map Ch v @ map Ch b)) =
      (rev [] @ map Ch a) # split_ops False [] (drop ?k (map Ch w @ (map Ch op @ map Ch v @ map Ch b)))"
    by (rule split_ops_upto [OF a(1) w(1,2) _ pos k]) (use a b in auto)
  also have "drop ?k (map Ch w @ (map Ch op @ map Ch v @ map Ch b)) = map Ch b" by simp
  finally have "split_ops False [] (map Ch (a @ w @ op @ v @ b)) = [map Ch a, map Ch b]"
    by (simp add: split_ops_plain [OF b(1)])
  then show ?thesis
    using visible_edge(2) [OF a(2,3)] visible_edge(1) [OF b(2,3)] m(1,2)
    by (simp only: split_command_segments_def m(3)) (simp add: blank_toks)
qed

subsection \<open>What a grant covers\<close>

lemma find_some: "(find P xs \<noteq> None) = list_ex P xs"
  by (induction xs) auto

lemma matches_cases:
  "(matches_trusted_pattern d ps \<noteq> None) = (case split_command_segments False False d of
       None \<Rightarrow> False
     | Some segs \<Rightarrow> if 1 < length segs then list_all (\<lambda>seg. list_ex (\<lambda>p. tool_matches p seg) ps) segs
                     else list_ex (\<lambda>p. tool_matches p d) ps)"
  unfolding matches_trusted_pattern_def by (auto split: option.splits simp: find_some [symmetric])

lemma matches_plain:
  "list_all plain_char a \<Longrightarrow> \<not> list_all py_isspace a \<Longrightarrow>
     (matches_trusted_pattern a ps \<noteq> None) = list_ex (\<lambda>p. tool_matches p a) ps"
  unfolding matches_cases by (simp add: segments_plain)

text \<open>Exact grants cover their own commands and nothing else: a command passes under the
  patterns stored for the commands \<open>cs\<close> just when every segment it is cut into is, case apart,
  one of them, whatever glob characters they hold; a command with a substitution or a forged
  placeholder passes under none.\<close>

theorem exact_grants_cover_themselves:
  "(matches_trusted_pattern d (map exact_trust_pattern cs) \<noteq> None) =
     (case split_command_segments False False d of
         None \<Rightarrow> False
       | Some segs \<Rightarrow> list_all (\<lambda>seg. list_ex (\<lambda>c. py_lower seg = py_lower c) cs)
           (if 1 < length segs then segs else [d]))"
  unfolding matches_cases
  by (simp add: list_ex_iff list_all_iff exact_pattern_matches split: option.splits)

text \<open>C6. Chaining needs a grant for each part: when two commands without quotes, redirections,
  expansions or separators of their own are joined by any of the operators, with blanks
  around it or not, the line passes just when both commands pass alone, so no pattern, however
  wide its \<^verbatim>\<open>*\<close>, reaches across an operator.\<close>

theorem chain_needs_each_grant:
  assumes "op \<in> set chain_operators"
    and "list_all plain_char a" "a \<noteq> []" "\<not> py_isspace (last a)"
    and "list_all plain_char w" "list_all py_isspace w" "list_all plain_char v" "list_all py_isspace v"
    and "list_all plain_char b" "b \<noteq> []" "\<not> py_isspace (hd b)"
  shows "(matches_trusted_pattern (a @ w @ op @ v @ b) ps \<noteq> None) =
     (matches_trusted_pattern a ps \<noteq> None \<and> matches_trusted_pattern b ps \<noteq> None)"
proof -
  have "(matches_trusted_pattern (a @ w @ op @ v @ b) ps \<noteq> None) =
      (list_ex (\<lambda>p. tool_matches p a) ps \<and> list_ex (\<lambda>p. tool_matches p b) ps)"
    unfolding matches_cases [of "a @ w @ op @ v @ b"] by (simp add: segments_chain assms)
  then show ?thesis
    using matches_plain [OF assms(2) visible_edge(2) [OF assms(3,4)]]
      matches_plain [OF assms(9) visible_edge(1) [OF assms(10,11)]] by simp
qed

theorem chain_needs_each_grant_witness:
  "(matches_trusted_pattern ''ls -l && rm x'' [''ls *''] \<noteq> None) =
     (matches_trusted_pattern ''ls -l'' [''ls *''] \<noteq> None \<and> matches_trusted_pattern ''rm x'' [''ls *''] \<noteq> None)"
  using chain_needs_each_grant [of "''&&''" "''ls -l''" "'' ''" "'' ''" "''rm x''" "[''ls *'']"]
  by (simp add: chain_operators_def plain_char_def is_sep_char_def py_isspace_def)

lemma trust_key_lower: "py_lower (canonical_non_shell_trust_key s t) = canonical_non_shell_trust_key s t"
proof -
  have d: "py_lower_char (hex_digit n) = hex_digit n" if "n < 16" for n
    using of_char_hex [OF that] that by (auto simp: py_lower_char_def Let_def split: if_splits)
  have "py_lower (concat (map hex_byte bs)) = concat (map hex_byte bs)" if "list_all (\<lambda>b. b < 256) bs" for bs
    using that
    by (induction bs) (simp_all add: py_lower_def hex_byte_def d less_mult_imp_div_less)
  then have c: "py_lower (trust_identity_component x) = trust_identity_component x" for x
    unfolding trust_identity_component_def using utf8_bytes by blast
  have "py_lower ''mcp-trust:v1:'' = ''mcp-trust:v1:''" "py_lower '':'' = '':''"
    by (simp_all add: py_lower_def py_lower_char_def)
  then show ?thesis
    using c py_lower_append [of "'':''"] by (simp add: canonical_non_shell_trust_key_def py_lower_append py_lower_def)
qed

lemma hex_digit_plain: "n < 16 \<Longrightarrow> plain_char (hex_digit n)"
proof -
  assume "n < 16"
  then have "(48 \<le> (of_char (hex_digit n) :: nat) \<and> (of_char (hex_digit n) :: nat) \<le> 57) \<or>
      97 \<le> (of_char (hex_digit n) :: nat) \<and> (of_char (hex_digit n) :: nat) \<le> 102"
    by (auto simp: of_char_hex)
  then show ?thesis unfolding plain_char_def is_sep_char_def
    by (cases "hex_digit n = CHR '';''") auto
qed

lemma trust_key_plain: "list_all plain_char (canonical_non_shell_trust_key s t)"
proof -
  have "list_all plain_char (concat (map hex_byte bs))" if "list_all (\<lambda>b. b < 256) bs" for bs
    using that by (induction bs) (simp_all add: hex_byte_def hex_digit_plain less_mult_imp_div_less)
  from this [OF utf8_bytes] show ?thesis
    by (simp add: canonical_non_shell_trust_key_def trust_identity_component_def)
      (simp add: plain_char_def is_sep_char_def)
qed

text \<open>The key stored for a tool of a server is that tool's alone: a call of tool
  \<open>t'\<close> of server \<open>s'\<close> passes under the grant for \<open>t\<close> of \<open>s\<close> just when both names
  agree, case apart, even where the displayed names \<^verbatim>\<open>mcp__server__tool\<close> collide.\<close>

theorem trust_key_names_one_tool:
  assumes "s \<noteq> []" "t \<noteq> []" "s' \<noteq> []" "t' \<noteq> []"
  shows "(matches_trusted_pattern (canonical_non_shell_trust_key s' t')
       [exact_trust_pattern (canonical_non_shell_trust_key s t)] \<noteq> None) =
     (py_lower s' = py_lower s \<and> py_lower t' = py_lower t)"
proof -
  let ?k = "canonical_non_shell_trust_key s t" and ?k' = "canonical_non_shell_trust_key s' t'"
  have v: "\<not> list_all py_isspace ?k'"
    using assms by (simp add: canonical_non_shell_trust_key_def py_isspace_def)
  have "(matches_trusted_pattern ?k' [exact_trust_pattern ?k] \<noteq> None) = (py_lower ?k' = py_lower ?k)"
    unfolding matches_plain [OF trust_key_plain v] by (simp add: exact_pattern_matches)
  also have "\<dots> = (?k' = ?k)" by (simp only: trust_key_lower)
  also have "\<dots> = (py_lower s' = py_lower s \<and> py_lower t' = py_lower t)"
  proof
    show "?k' = ?k \<Longrightarrow> py_lower s' = py_lower s \<and> py_lower t' = py_lower t"
      using trust_key_inj assms by blast
  qed (use assms in \<open>simp add: canonical_non_shell_trust_key_def trust_identity_component_def\<close>)
  finally show ?thesis .
qed

theorem trust_key_names_one_tool_witness:
  "matches_trusted_pattern (canonical_non_shell_trust_key ''github__repo'' ''delete'')
     [exact_trust_pattern (canonical_non_shell_trust_key ''github'' ''repo__delete'')] = None \<and>
   canonical_non_shell_tool ''github__repo'' ''delete'' = canonical_non_shell_tool ''github'' ''repo__delete''"
proof
  show "matches_trusted_pattern (canonical_non_shell_trust_key ''github__repo'' ''delete'')
      [exact_trust_pattern (canonical_non_shell_trust_key ''github'' ''repo__delete'')] = None"
    using trust_key_names_one_tool [of "''github''" "''repo__delete''" "''github__repo''" "''delete''"]
    by (simp add: py_lower_def)
qed (simp add: canonical_non_shell_tool_def)

end
