(* ===== verification/Markdown_Split.thy ===== *)
theory Markdown_Split imports Junction_Prelude begin

section \<open>Fence-safe splitting of messages (\<^verbatim>\<open>messaging/split.py\<close>)\<close>

text \<open>
  Texts are lists of code points, so that characters and UTF-8 bytes are counted as the code
  counts them; a text holds no surrogates, which \<^verbatim>\<open>encode\<close> would refuse. The regular
  expressions are written out as scans. The loop of \<^verbatim>\<open>split_markdown_safe\<close> is a function of
  its variables: the fragments still to place, the fragments of the current chunk each with the
  fence state after it, the open fence, the reopener and the number of characters committed.
\<close>

definition NL :: nat where "NL = 10"
definition BACKTICK :: nat where "BACKTICK = 96"
definition TILDE :: nat where "TILDE = 126"

definition cp_isspace :: "nat \<Rightarrow> bool" where
  "cp_isspace n = ((9 \<le> n \<and> n \<le> 13) \<or> (28 \<le> n \<and> n \<le> 32) \<or> n = 133 \<or> n = 160 \<or> n = 5760 \<or>
     (8192 \<le> n \<and> n \<le> 8202) \<or> n = 8232 \<or> n = 8233 \<or> n = 8239 \<or> n = 8287 \<or> n = 12288)"

definition cp_rstrip :: "codepoints \<Rightarrow> codepoints" where
  "cp_rstrip s = rev (dropWhile cp_isspace (rev s))"

definition cp_strip :: "codepoints \<Rightarrow> codepoints" where
  "cp_strip s = cp_rstrip (dropWhile cp_isspace s)"

subsection \<open>Fences\<close>

record fence =
  fc_char :: nat
  fc_length :: nat
  fc_opener :: codepoints

definition closer :: "fence \<Rightarrow> codepoints" where
  "closer f = replicate (fc_length f) (fc_char f)"

definition fence_seal_cost :: "fence \<Rightarrow> nat" where
  "fence_seal_cost f = fc_length f + 1"

definition seal_cost :: "fence option \<Rightarrow> nat" where
  "seal_cost fo = (case fo of Some f \<Rightarrow> fence_seal_cost f | None \<Rightarrow> 0)"

text \<open>A run of at least three \<open>c\<close> behind at most three blanks: its length and what follows it.\<close>

definition fence_run :: "nat \<Rightarrow> codepoints \<Rightarrow> (nat \<times> codepoints) option" where
  "fence_run c body =
     (let blanks = takeWhile (\<lambda>x. x = 32) body;
          rest = drop (length blanks) body;
          run = takeWhile (\<lambda>x. x = c) rest
      in if length blanks \<le> 3 \<and> 3 \<le> length run then Some (length run, drop (length run) rest) else None)"

definition backtick_open :: "codepoints \<Rightarrow> nat option" where
  "backtick_open body = (case fence_run BACKTICK body of
      Some (n, after) \<Rightarrow> if BACKTICK \<in> set after then None else Some n | None \<Rightarrow> None)"

definition tilde_open :: "codepoints \<Rightarrow> nat option" where
  "tilde_open body = (case fence_run TILDE body of Some (n, after) \<Rightarrow> Some n | None \<Rightarrow> None)"

definition closes :: "fence \<Rightarrow> codepoints \<Rightarrow> bool" where
  "closes f body = (fc_char f \<in> {BACKTICK, TILDE} \<and> (case fence_run (fc_char f) body of
      Some (n, after) \<Rightarrow> list_all (\<lambda>x. x = 32 \<or> x = 9) after \<and> fc_length f \<le> n | None \<Rightarrow> False))"

definition line_body :: "codepoints \<Rightarrow> codepoints" where
  "line_body line =
     (let body = (if line \<noteq> [] \<and> last line = NL then butlast line else line)
      in if body \<noteq> [] \<and> last body = 13 then butlast body else body)"

definition advance :: "fence option \<Rightarrow> codepoints \<Rightarrow> fence option" where
  "advance fo line =
     (let body = line_body line in
      case fo of
         Some f \<Rightarrow> if closes f body then None else Some f
       | None \<Rightarrow>
          (case backtick_open body of
              Some n \<Rightarrow> Some \<lparr>fc_char = BACKTICK, fc_length = n, fc_opener = body\<rparr>
            | None \<Rightarrow> (case tilde_open body of
                Some n \<Rightarrow> Some \<lparr>fc_char = TILDE, fc_length = n, fc_opener = body\<rparr>
              | None \<Rightarrow> None)))"

text \<open>\<^verbatim>\<open>_lines\<close>: each line with its newline.\<close>

function md_lines :: "codepoints \<Rightarrow> codepoints list" where
  "md_lines text =
     (if text = [] then []
      else let body = takeWhile (\<lambda>x. x \<noteq> NL) text;
               line = take (length body + 1) text
           in line # md_lines (drop (length body + 1) text))"
  by pat_completeness auto

termination by (relation "measure length") auto

declare md_lines.simps [simp del]

definition open_fence_at_end :: "codepoints \<Rightarrow> (nat \<times> nat \<times> codepoints) option" where
  "open_fence_at_end text = (case fold (\<lambda>line fo. advance fo line) (md_lines text) None of
     Some f \<Rightarrow> Some (fc_char f, fc_length f, fc_opener f) | None \<Rightarrow> None)"

datatype fence_role = FENCE_OUTSIDE | FENCE_OPEN | FENCE_BODY | FENCE_CLOSE

fun fence_roles :: "fence option \<Rightarrow> codepoints list \<Rightarrow> (codepoints \<times> fence_role) list" where
  "fence_roles before [] = []"
| "fence_roles before (line # ls) =
     (let after = advance before line;
          role = (if before = None \<and> after \<noteq> None then FENCE_OPEN
                  else if before \<noteq> None \<and> after = None then FENCE_CLOSE
                  else if after \<noteq> None then FENCE_BODY else FENCE_OUTSIDE)
      in (line_body line, role) # fence_roles after ls)"

definition iter_fence_lines :: "codepoints \<Rightarrow> (codepoints \<times> fence_role) list" where
  "iter_fence_lines text = fence_roles None (md_lines text)"

fun fence_spans :: "fence option \<Rightarrow> nat \<Rightarrow> nat \<Rightarrow> codepoints list \<Rightarrow> (nat \<times> nat) list" where
  "fence_spans fo open_at pos [] = (if fo \<noteq> None then [(open_at, pos)] else [])"
| "fence_spans fo open_at pos (line # ls) =
     (let after = advance fo line; pos' = pos + length line
      in if fo = None \<and> after \<noteq> None then fence_spans after pos pos' ls
         else if fo \<noteq> None \<and> after = None then (open_at, pos') # fence_spans after open_at pos' ls
         else fence_spans after open_at pos' ls)"

definition iter_fence_spans :: "codepoints \<Rightarrow> (nat \<times> nat) list" where
  "iter_fence_spans text = fence_spans None 0 0 (md_lines text)"

subsection \<open>Cutting\<close>

type_synonym frag = "codepoints \<times> codepoints \<times> bool"

definition delim_lead :: "nat \<Rightarrow> bool" where
  "delim_lead c = (c \<in> {32, BACKTICK, TILDE})"

fun safe_cut_from :: "fence option \<Rightarrow> codepoints \<Rightarrow> nat \<Rightarrow> nat \<Rightarrow> nat" where
  "safe_cut_from fo fr widest 0 = widest"
| "safe_cut_from fo fr widest (Suc w) =
     (if advance fo (take (Suc w) fr) \<noteq> fo then safe_cut_from fo fr widest w
      else if \<not> delim_lead (fr ! Suc w) then Suc w
      else safe_cut_from fo fr (if widest = 0 then Suc w else widest) w)"

definition safe_cut :: "fence option \<Rightarrow> codepoints \<Rightarrow> nat \<Rightarrow> nat" where
  "safe_cut fo fr room = safe_cut_from fo fr 0 room"

definition frag_text :: "(frag \<times> fence option) list \<Rightarrow> codepoints" where
  "frag_text buf = concat (map (fst \<circ> fst) buf)"

definition seal :: "codepoints \<Rightarrow> (frag \<times> fence option) list \<Rightarrow> fence option \<Rightarrow> codepoints" where
  "seal reopen buf fo =
     (let body = reopen @ frag_text buf
      in case fo of
          None \<Rightarrow> cp_rstrip body
        | Some f \<Rightarrow> (if body \<noteq> [] \<and> last body = NL then body else body @ [NL]) @ closer f)"

definition is_table_separator :: "codepoints \<Rightarrow> bool" where
  "is_table_separator line =
     (let s = cp_strip line
      in s \<noteq> [] \<and> list_all (\<lambda>c. c \<in> {45, 58, 124, 32, 9}) s \<and> 45 \<in> set s \<and> 124 \<in> set s)"

fun boundary_para :: "nat \<Rightarrow> nat \<Rightarrow> nat \<Rightarrow> nat \<Rightarrow> (frag \<times> fence option) list \<Rightarrow> nat" where
  "boundary_para cap chars i para (e # e' # buf) =
     (let chars = chars + length (fst (fst e))
      in boundary_para cap chars (i + 1)
           (if cp_strip (fst (fst e)) = [] \<and> snd e = None \<and> cap div 2 \<le> chars then i + 1 else para) (e' # buf))"
| "boundary_para cap chars i para buf = para"

definition boundary :: "(frag \<times> fence option) list \<Rightarrow> nat \<Rightarrow> nat \<Rightarrow> nat" where
  "boundary buf cap base =
     (let para = boundary_para cap base 0 0 buf;
          last_frag = fst (fst (last buf))
      in if para \<noteq> 0 then para
         else if 1 < length buf \<and> 124 \<in> set last_frag \<and> \<not> is_table_separator last_frag \<and>
                 cap div 4 \<le> base + length (frag_text (butlast buf))
         then length buf - 1
         else length buf)"

lemma safe_cut_from_le: "widest \<le> n \<Longrightarrow> w \<le> n \<Longrightarrow> safe_cut_from fo fr widest w \<le> n"
  by (induction fo fr widest w rule: safe_cut_from.induct) auto

lemma safe_cut_le: "safe_cut fo fr room \<le> room"
  by (simp add: safe_cut_def safe_cut_from_le)

lemma boundary_para_bounds: "para \<le> i \<Longrightarrow> boundary_para cap chars i para buf \<le> i + length buf"
proof (induction cap chars i para buf rule: boundary_para.induct)
  case (1 cap chars i para e e' buf)
  then show ?case by (auto simp: Let_def)
qed auto

lemma boundary_pos: "buf \<noteq> [] \<Longrightarrow> 0 < boundary buf cap base"
  by (auto simp: boundary_def Let_def)

lemma boundary_le: "boundary buf cap base \<le> length buf"
  using boundary_para_bounds [of 0 0 cap base buf] by (simp add: boundary_def Let_def)

subsection \<open>The loop\<close>

text \<open>What the code decides for the fragment at the head: how much the chunk can take, the widest
  cut below it, that cut when it is clean on both sides, and whether the chunk is sealed first.\<close>

definition settled_frag :: "frag \<Rightarrow> bool" where
  "settled_frag fr = (snd (snd fr) \<and> fst (snd fr) \<noteq> [] \<and> last (fst (snd fr)) = NL)"

definition after_frag :: "fence option \<Rightarrow> frag \<Rightarrow> fence option" where
  "after_frag fo fr = (if settled_frag fr then advance fo (fst (snd fr)) else fo)"

definition hold_of :: "fence option \<Rightarrow> frag \<Rightarrow> nat" where
  "hold_of fo fr = (if settled_frag fr then seal_cost (after_frag fo fr) else 0)"

definition take_room :: "nat \<Rightarrow> nat \<Rightarrow> fence option \<Rightarrow> nat" where
  "take_room cap used fo = max 1 (cap - used - seal_cost fo)"

definition cut_width :: "nat \<Rightarrow> nat \<Rightarrow> fence option \<Rightarrow> codepoints \<Rightarrow> nat" where
  "cut_width cap used fo fr =
     (if length fr \<le> take_room cap used fo then 0 else safe_cut fo fr (take_room cap used fo))"

definition clean_width :: "nat \<Rightarrow> nat \<Rightarrow> fence option \<Rightarrow> codepoints \<Rightarrow> nat" where
  "clean_width cap used fo fr =
     (let width = cut_width cap used fo fr
      in if width \<noteq> 0 \<and> \<not> delim_lead (fr ! width) then width else 0)"

definition seals_first :: "nat \<Rightarrow> nat \<Rightarrow> fence option \<Rightarrow> (frag \<times> fence option) list \<Rightarrow> codepoints \<Rightarrow> bool" where
  "seals_first cap used fo buf fr =
     (buf \<noteq> [] \<and> (fo \<noteq> None \<or> cap div 4 \<le> used \<or> length fr \<le> take_room cap used fo \<or>
        clean_width cap used fo fr = 0))"

definition keep_of :: "nat \<Rightarrow> fence option \<Rightarrow> codepoints \<Rightarrow> (frag \<times> fence option) list \<Rightarrow> nat" where
  "keep_of cap fo reopen buf = (if fo \<noteq> None then length buf else boundary buf cap (length reopen))"

definition reopener :: "fence option \<Rightarrow> codepoints" where
  "reopener fo = (case fo of Some f \<Rightarrow> fc_opener f @ [NL] | None \<Rightarrow> [])"

definition ladder_cut :: "nat \<Rightarrow> nat \<Rightarrow> nat \<Rightarrow> fence option \<Rightarrow> frag \<Rightarrow> nat" where
  "ladder_cut limit cap used fo fr =
     (if length (fst (snd fr)) \<le> limit then clean_width cap used fo (fst fr) else cut_width cap used fo (fst fr))"

definition emit :: "codepoints \<Rightarrow> codepoints list \<Rightarrow> codepoints list" where
  "emit chunk rest = (if chunk = [] then rest else chunk # rest)"

text \<open>Placing a fragment or a cut piece shrinks what is left to place; sealing shrinks what is left
  and buffered together.\<close>

definition weight :: "frag list \<Rightarrow> nat" where
  "weight frs = sum_list (map (\<lambda>fr. max 1 (length (fst fr))) frs)"

lemma weight_simps [simp]:
  "weight [] = 0" "weight (fr # frs) = max 1 (length (fst fr)) + weight frs" "weight (a @ b) = weight a + weight b"
  by (simp_all add: weight_def)

lemma keep_of_bounds: "buf \<noteq> [] \<Longrightarrow> 0 < keep_of cap fo reopen buf \<and> keep_of cap fo reopen buf \<le> length buf"
  by (simp add: keep_of_def boundary_pos boundary_le)

lemma cut_width_less: "cut_width cap used fo fr \<noteq> 0 \<Longrightarrow> cut_width cap used fo fr < length fr"
  using safe_cut_le [of fo fr "take_room cap used fo"] by (auto simp: cut_width_def split: if_splits)

lemma ladder_cut_less: "ladder_cut limit cap used fo fr \<noteq> 0 \<Longrightarrow> ladder_cut limit cap used fo fr < length (fst fr)"
  using cut_width_less by (auto simp: ladder_cut_def clean_width_def Let_def split: if_splits)

lemma weight_sealed:
  assumes "buf \<noteq> []"
  shows "weight (map fst (drop (keep_of cap fo reopen buf) buf)) < weight (map fst buf)"
proof -
  let ?k = "keep_of cap fo reopen buf"
  have "take ?k buf \<noteq> []" using keep_of_bounds [OF assms] assms by simp
  then have "0 < weight (map fst (take ?k buf))" by (cases "take ?k buf") auto
  moreover have "weight (map fst buf) = weight (map fst (take ?k buf)) + weight (map fst (drop ?k buf))"
    by (metis append_take_drop_id map_append weight_simps(3))
  ultimately show ?thesis by simp
qed

function split_loop :: "nat \<Rightarrow> nat \<Rightarrow> frag list \<Rightarrow> (frag \<times> fence option) list \<Rightarrow> fence option \<Rightarrow> codepoints \<Rightarrow> nat
    \<Rightarrow> codepoints list" where
  "split_loop limit cap [] buf fo reopen used = emit (reopen @ frag_text buf) []"
| "split_loop limit cap (fr # work) buf fo reopen used =
     (if used + length (fst fr) + hold_of fo fr \<le> cap
      then split_loop limit cap work (buf @ [(fr, after_frag fo fr)]) (after_frag fo fr) reopen (used + length (fst fr))
      else if seals_first cap used fo buf (fst fr)
      then (let keep = keep_of cap fo reopen buf;
                fo' = snd (buf ! (keep - 1))
            in emit (seal reopen (take keep buf) fo')
                 (split_loop limit cap (map fst (drop keep buf) @ fr # work) [] fo' (reopener fo') (length (reopener fo'))))
      else (let cut = ladder_cut limit cap used fo fr
            in if cut = 0
               then split_loop limit cap work (buf @ [(fr, after_frag fo fr)]) (after_frag fo fr) reopen (used + length (fst fr))
               else split_loop limit cap ((drop cut (fst fr), snd fr) # work)
                      (buf @ [((take cut (fst fr), fst (snd fr), False), fo)]) fo reopen (used + cut)))"
  by pat_completeness auto

termination
proof (relation "measures [\<lambda>(limit, cap, work, buf, fo, reopen, used). weight work + weight (map fst buf),
    \<lambda>(limit, cap, work, buf, fo, reopen, used). weight work]", goal_cases)
  case (3 limit cap fr work buf fo reopen used keep fo')
  then show ?case using weight_sealed [of buf cap fo reopen] by (simp add: seals_first_def)
next
  case (5 limit cap fr work buf fo reopen used cut)
  then show ?case using ladder_cut_less [of limit cap used fo fr] by auto
qed auto

declare split_loop.simps [simp del]

definition split_markdown_safe :: "codepoints \<Rightarrow> int \<Rightarrow> int \<Rightarrow> codepoints list" where
  "split_markdown_safe text limit reserve =
     (let cap = limit - reserve
      in if text = [] then []
         else if limit \<le> 0 \<or> cap \<le> 0 \<or> int (length text) \<le> cap then [text]
         else split_loop (nat limit) (nat cap) (map (\<lambda>line. (line, line, True)) (md_lines text)) [] None [] 0)"

end
