(* ===== verification/Split_Streaming.thy ===== *)
theory Split_Streaming imports Markdown_Split begin

section \<open>Streaming a message that grows\<close>

text \<open>
  The streaming contract of \<^verbatim>\<open>split_markdown_safe\<close>: a longer text keeps the chunks already sealed.
  Two runs of the loop, on a text and on a longer one, are followed in step; what a seal defers
  to the next chunk fits it without a new cut, so the runs can only part at the last line of
  the shorter text.
\<close>

subsection \<open>What a chunk keeps ready\<close>

text \<open>Fragments that fit one after the other: they are placed again without a cut.\<close>

fun replays :: "nat \<Rightarrow> nat \<Rightarrow> fence option \<Rightarrow> frag list \<Rightarrow> bool" where
  "replays cap used fo [] = True"
| "replays cap used fo (fr # D) =
     (used + length (fst fr) + hold_of fo fr \<le> cap \<and> replays cap (used + length (fst fr)) (after_frag fo fr) D)"

fun follows :: "nat \<Rightarrow> nat \<Rightarrow> fence option \<Rightarrow> (frag \<times> fence option) list \<Rightarrow> bool" where
  "follows cap used fo [] = True"
| "follows cap used fo (e # es) =
     (snd e = after_frag fo (fst e) \<and> used + length (fst (fst e)) + hold_of fo (fst e) \<le> cap \<and>
      follows cap (used + length (fst (fst e))) (snd e) es)"

definition part_of_line :: "frag \<Rightarrow> bool" where
  "part_of_line fr = (set (fst fr) \<subseteq> set (fst (snd fr)))"

definition chunk_ok :: "nat \<Rightarrow> codepoints \<Rightarrow> (frag \<times> fence option) list \<Rightarrow> fence option \<Rightarrow> nat \<Rightarrow> bool" where
  "chunk_ok cap reopen buf fo used =
     (used = length reopen + length (frag_text buf) \<and> (buf \<noteq> [] \<longrightarrow> snd (last buf) = fo) \<and>
      list_all (part_of_line \<circ> fst) buf \<and>
      (case buf of [] \<Rightarrow> True | e # es \<Rightarrow> follows cap (length reopen + length (fst (fst e))) (snd e) es))"

lemma frag_text_simps [simp]:
  "frag_text [] = []" "frag_text (e # es) = fst (fst e) @ frag_text es" "frag_text (a @ b) = frag_text a @ frag_text b"
  by (simp_all add: frag_text_def)

lemma follows_append:
  "follows cap used fo (es @ [e]) = (follows cap used fo es \<and>
     (let fo' = (if es = [] then fo else snd (last es)); u = used + length (frag_text es)
      in snd e = after_frag fo' (fst e) \<and> u + length (fst (fst e)) + hold_of fo' (fst e) \<le> cap))"
  by (induction es arbitrary: used fo) (auto simp: Let_def add.assoc)

lemma follows_replays: "follows cap used fo es \<Longrightarrow> used' \<le> used \<Longrightarrow> replays cap used' fo (map fst es)"
  by (induction es arbitrary: used used' fo) auto

lemma follows_drop:
  "follows cap used fo es \<Longrightarrow> n \<le> length es \<Longrightarrow>
     follows cap (used + length (frag_text (take n es))) (if n = 0 then fo else snd (es ! (n - 1))) (drop n es)"
proof (induction es arbitrary: used fo n)
  case (Cons e es)
  show ?case
  proof (cases n)
    case (Suc m)
    with Cons.prems have "follows cap (used + length (fst (fst e)) + length (frag_text (take m es)))
        (if m = 0 then snd e else snd (es ! (m - 1))) (drop m es)"
      by (intro Cons.IH) auto
    then show ?thesis using Suc by (cases m) (simp_all add: add.assoc)
  qed (use Cons.prems in auto)
qed simp

lemma chunk_ok_Nil: "chunk_ok cap (reopener fo) [] fo (length (reopener fo))"
  by (simp add: chunk_ok_def)

lemma chunk_ok_snoc:
  assumes "chunk_ok cap reopen buf fo used" "part_of_line fr"
    "buf \<noteq> [] \<Longrightarrow> used + length (fst fr) + hold_of fo fr \<le> cap \<and> fo' = after_frag fo fr"
  shows "chunk_ok cap reopen (buf @ [(fr, fo')]) fo' (used + length (fst fr))"
proof (cases buf)
  case Nil
  then show ?thesis using assms(1,2) by (simp add: chunk_ok_def)
next
  case (Cons e es)
  with assms have "used + length (fst fr) + hold_of fo fr \<le> cap" "fo' = after_frag fo fr"
    "follows cap (length reopen + length (fst (fst e))) (snd e) es"
    "used = length reopen + length (fst (fst e)) + length (frag_text es)"
    "fo = (if es = [] then snd e else snd (last es))" "list_all (part_of_line \<circ> fst) buf"
    by (auto simp: chunk_ok_def)
  then show ?thesis using Cons assms(2)
    by (auto simp: chunk_ok_def follows_append Let_def)
qed

lemma piece_simps [simp]:
  "settled_frag (f, l, False) = False" "after_frag fo (f, l, False) = fo" "hold_of fo (f, l, False) = 0"
  by (simp_all add: settled_frag_def after_frag_def hold_of_def)

text \<open>A bar never stands in a closing line, so a chunk cut before its last fragment is cut outside
  every fence.\<close>

lemma fence_run_append:
  "fence_run c body = Some (n, after) \<Longrightarrow> body = takeWhile (\<lambda>x. x = 32) body @ replicate n c @ after"
proof -
  assume f: "fence_run c body = Some (n, after)"
  let ?b = "takeWhile (\<lambda>x. x = 32) body" and ?r = "dropWhile (\<lambda>x. x = 32) body"
  let ?run = "takeWhile (\<lambda>x. x = c) ?r"
  have r: "drop (length ?b) body = ?r" by (metis append_eq_conv_conj takeWhile_dropWhile_id)
  have n: "n = length ?run" "after = drop (length ?run) ?r"
    using f unfolding fence_run_def Let_def r by (auto split: if_splits)
  have "?run = replicate n c" unfolding n(1) by (rule replicate_eqI) (auto dest: set_takeWhileD)
  moreover have "?r = ?run @ after" unfolding n(2)
    by (metis append_eq_conv_conj takeWhile_dropWhile_id)
  ultimately show ?thesis by (metis takeWhile_dropWhile_id)
qed

lemma closes_chars: "closes f body \<Longrightarrow> x \<in> set body \<Longrightarrow> x \<in> {32, 9, BACKTICK, TILDE}"
proof -
  assume c: "closes f body" and x: "x \<in> set body"
  then obtain n after where n: "fence_run (fc_char f) body = Some (n, after)"
    "list_all (\<lambda>x. x = 32 \<or> x = 9) after" "fc_char f \<in> {BACKTICK, TILDE}"
    by (auto simp: closes_def split: option.splits)
  have "x \<in> set (takeWhile (\<lambda>x. x = 32) body) \<or> x \<in> set (replicate n (fc_char f)) \<or> x \<in> set after"
    using arg_cong [OF fence_run_append [OF n(1)], of set] x by auto
  then show ?thesis using n(2,3) by (auto simp: list_all_iff dest: set_takeWhileD split: if_splits)
qed

lemma line_body_set: "x \<in> set line \<Longrightarrow> x \<noteq> NL \<Longrightarrow> x \<noteq> 13 \<Longrightarrow> x \<in> set (line_body line)"
proof -
  assume x: "x \<in> set line" "x \<noteq> NL" "x \<noteq> 13"
  have b: "x \<in> set (butlast l)" if "x \<in> set l" "last l \<noteq> x" for l :: codepoints
  proof -
    from that(1) have "l = butlast l @ [last l]" by (cases l) simp_all
    then have "set l = insert (last l) (set (butlast l))" by (metis list.set(2) list.simps(15) rotate1.simps(2) set_rotate1)
    with that show ?thesis by auto
  qed
  have "x \<in> set (if line \<noteq> [] \<and> last line = NL then butlast line else line)"
    using b [of line] x by auto
  from b [OF this] this x show ?thesis unfolding line_body_def Let_def by auto
qed

lemma bar_outside:
  assumes "124 \<in> set (fst fr)" "part_of_line fr" "after_frag fo fr = None"
  shows "fo = None"
proof (cases fo)
  case (Some f)
  then have s: "settled_frag fr" "closes f (line_body (fst (snd fr)))"
    using assms(3) by (auto simp: after_frag_def advance_def Let_def split: if_splits)
  have "124 \<in> set (line_body (fst (snd fr)))"
    using assms(1,2) by (intro line_body_set) (auto simp: part_of_line_def NL_def)
  from closes_chars [OF s(2) this] show ?thesis by (simp add: BACKTICK_def TILDE_def)
qed

lemma boundary_para_state:
  "boundary_para cap chars i para buf = para \<or>
     (\<exists>j. boundary_para cap chars i para buf = i + j + 1 \<and> j < length buf \<and> snd (buf ! j) = None)"
proof (induction cap chars i para buf rule: boundary_para.induct)
  case (1 cap chars i para e e' buf)
  let ?c = "chars + length (fst (fst e))"
  let ?p = "if cp_strip (fst (fst e)) = [] \<and> snd e = None \<and> cap div 2 \<le> ?c then i + 1 else para"
  have IH: "boundary_para cap ?c (i + 1) ?p (e' # buf) = ?p \<or>
      (\<exists>j. boundary_para cap ?c (i + 1) ?p (e' # buf) = (i + 1) + j + 1 \<and> j < length (e' # buf) \<and> snd ((e' # buf) ! j) = None)"
    by (rule 1) simp
  have eq: "boundary_para cap chars i para (e # e' # buf) = boundary_para cap ?c (i + 1) ?p (e' # buf)"
    by (simp add: Let_def)
  from IH show ?case
  proof
    assume "boundary_para cap ?c (i + 1) ?p (e' # buf) = ?p"
    then show ?thesis unfolding eq by (cases "?p = para") (auto intro: exI [of _ 0] split: if_splits)
  next
    assume "\<exists>j. boundary_para cap ?c (i + 1) ?p (e' # buf) = (i + 1) + j + 1 \<and> j < length (e' # buf) \<and> snd ((e' # buf) ! j) = None"
    then obtain j where "boundary_para cap ?c (i + 1) ?p (e' # buf) = (i + 1) + j + 1"
      "j < length (e' # buf)" "snd ((e' # buf) ! j) = None" by blast
    then show ?thesis unfolding eq by (intro disjI2 exI [of _ "Suc j"]) simp
  qed
qed auto

text \<open>What a seal leaves for the next chunk fits it without a cut.\<close>

lemma keep_cut_outside:
  assumes ok: "chunk_ok cap reopen buf fo used" and b: "buf \<noteq> []"
    and k: "k = keep_of cap fo reopen buf" "k < length buf"
  shows "snd (buf ! (k - 1)) = None"
proof (cases "boundary_para cap (length reopen) 0 0 buf = 0")
  case False
  then have "k = boundary_para cap (length reopen) 0 0 buf"
    using k by (auto simp: keep_of_def boundary_def Let_def split: if_splits)
  with False boundary_para_state [of cap "length reopen" 0 0 buf] show ?thesis by auto
next
  case True
  let ?l = "fst (last buf)"
  from True k have k1: "k = length buf - 1" "1 < length buf" "124 \<in> set (fst ?l)" and fo: "fo = None"
    by (auto simp: keep_of_def boundary_def Let_def split: if_splits)
  obtain e es where es: "buf = e # es" using b by (cases buf) auto
  with k1(2) have ne: "es \<noteq> []" by auto
  then have es': "es = butlast es @ [last es]" by simp
  have f: "follows cap (length reopen + length (fst (fst e))) (snd e) (butlast es @ [last es])"
    using ok es es' by (simp add: chunk_ok_def)
  have p: "part_of_line ?l" using ok b by (auto simp: chunk_ok_def list_all_iff)
  have "snd (last buf) = None" using ok b fo by (simp add: chunk_ok_def)
  then have "after_frag (if butlast es = [] then snd e else snd (last (butlast es))) ?l = None"
    using f es ne unfolding follows_append by (simp add: Let_def)
  from bar_outside [OF k1(3) p this] have n: "(if butlast es = [] then snd e else snd (last (butlast es))) = None" .
  have bl: "butlast buf = e # butlast es" using es ne by simp
  have "butlast buf \<noteq> []" using bl by simp
  then have "last (butlast buf) = butlast buf ! (length buf - 1 - 1)"
    using last_conv_nth [of "butlast buf"] by simp
  also have "\<dots> = buf ! (k - 1)" unfolding k1(1) using k1(2) by (intro nth_butlast) simp
  finally have "buf ! (k - 1) = last (butlast buf)" by simp
  with n bl show ?thesis by (simp split: if_splits)
qed

lemma deferred_replays:
  assumes ok: "chunk_ok cap reopen buf fo used" and b: "buf \<noteq> []" and k: "k = keep_of cap fo reopen buf"
  shows "replays cap (length (reopener (snd (buf ! (k - 1))))) (snd (buf ! (k - 1))) (map fst (drop k buf))"
proof (cases "k < length buf")
  case True
  from keep_cut_outside [OF ok b k True] have n: "snd (buf ! (k - 1)) = None" .
  have kp: "0 < k" using keep_of_bounds [OF b] k by simp
  obtain e es where es: "buf = e # es" using b by (cases buf) auto
  have "follows cap (length reopen + length (fst (fst e)) + length (frag_text (take (k - 1) es)))
      (if k - 1 = 0 then snd e else snd (es ! (k - 1 - 1))) (drop (k - 1) es)"
    using ok es True by (intro follows_drop) (auto simp: chunk_ok_def)
  moreover have "(if k - 1 = 0 then snd e else snd (es ! (k - 1 - 1))) = None"
  proof -
    have "buf ! (k - 1) = (if k - 1 = 0 then e else es ! (k - 1 - 1))" unfolding es by (rule nth_Cons')
    with n show ?thesis by (auto split: if_splits)
  qed
  ultimately have "replays cap 0 None (map fst (drop (k - 1) es))" by (auto intro: follows_replays)
  moreover have "drop (k - 1) es = drop k buf" using es kp by (cases k) auto
  ultimately show ?thesis using n by (simp add: reopener_def)
qed simp

subsection \<open>Prefix stability\<close>

text \<open>Two runs that have placed the same texts with the same fence states; of a piece cut from the
  last line the two know different lines.\<close>

definition same_frag :: "frag \<Rightarrow> frag \<Rightarrow> bool" where
  "same_frag a b = (fst a = fst b \<and> snd (snd a) = snd (snd b) \<and> (snd (snd a) \<longrightarrow> a = b))"

definition same_entry :: "frag \<times> fence option \<Rightarrow> frag \<times> fence option \<Rightarrow> bool" where
  "same_entry a b = (same_frag (fst a) (fst b) \<and> snd a = snd b)"

text \<open>What is left of a text and of a longer one: the same, but for a last line still arriving.\<close>

inductive grows :: "frag list \<Rightarrow> frag list \<Rightarrow> bool" where
  grows_stop: "grows [] E"
| grows_last: "\<not> settled_frag (f, line, True) \<Longrightarrow> length line \<le> length line' \<Longrightarrow>
    grows [(f, line, True)] ((f @ x, line', True) # E)"
| grows_step: "grows U V \<Longrightarrow> grows (fr # U) (fr # V)"

inductive_cases grows_consE: "grows (fr # U) V"

definition stable :: "codepoints list \<Rightarrow> codepoints list \<Rightarrow> bool" where
  "stable xs ys = (\<exists>rest. ys = butlast xs @ rest)"

lemma stable_short: "length xs \<le> 1 \<Longrightarrow> stable xs ys"
  by (cases xs) (auto simp: stable_def)

lemma stable_emit: "stable xs ys \<Longrightarrow> stable (emit c xs) (emit c ys)"
  by (auto simp: stable_def emit_def)

lemma emit_Nil_short: "length (emit c []) \<le> 1"
  by (simp add: emit_def)

lemma split_loop_done: "length (split_loop limit cap [] buf fo reopen used) \<le> 1"
  unfolding split_loop.simps by (rule emit_Nil_short)

lemma same_frag_use:
  assumes "same_frag a b"
  shows "fst b = fst a" "settled_frag b = settled_frag a" "after_frag fo b = after_frag fo a" "hold_of fo b = hold_of fo a"
proof -
  have "a = b \<or> \<not> settled_frag a \<and> \<not> settled_frag b"
    using assms unfolding same_frag_def settled_frag_def by blast
  then show "settled_frag b = settled_frag a" "after_frag fo b = after_frag fo a" "hold_of fo b = hold_of fo a"
    unfolding after_frag_def hold_of_def by presburger+
qed (use assms in \<open>simp add: same_frag_def\<close>)

lemma same_buf_text: "list_all2 same_entry xs ys \<Longrightarrow> frag_text ys = frag_text xs"
  by (induction rule: list_all2_induct) (auto simp: same_entry_def same_frag_def)

lemma same_buf_boundary_para:
  "list_all2 same_entry xs ys \<Longrightarrow> boundary_para cap chars i para ys = boundary_para cap chars i para xs"
proof (induction cap chars i para xs arbitrary: ys rule: boundary_para.induct)
  case (1 cap chars i para e e' buf)
  from 1(2) obtain d d' b' where ys: "ys = d # d' # b'" "same_entry e d" "list_all2 same_entry (e' # buf) (d' # b')"
    by (auto simp: list_all2_Cons1)
  from ys(2) have "fst (fst d) = fst (fst e)" "snd d = snd e" by (simp_all add: same_entry_def same_frag_def)
  then show ?case using 1(1) [OF refl ys(3)] by (simp add: ys(1) Let_def)
qed (auto simp: list_all2_Cons1)

lemma same_buf_keep:
  assumes "list_all2 same_entry xs ys"
  shows "keep_of cap fo reopen ys = keep_of cap fo reopen xs"
proof -
  have l: "length ys = length xs" using assms by (simp add: list_all2_lengthD)
  have t: "fst (fst (last ys)) = fst (fst (last xs))" if "xs \<noteq> []"
  proof -
    have "ys \<noteq> []" using that l by auto
    have "same_entry (last xs) (last ys)"
      using assms that \<open>ys \<noteq> []\<close> l by (simp add: last_conv_nth list_all2_conv_all_nth)
    then show ?thesis by (simp add: same_entry_def same_frag_def)
  qed
  have "list_all2 same_entry (butlast xs) (butlast ys)"
    using assms by (auto simp: butlast_conv_take list_all2_lengthD intro: list_all2_takeI)
  from same_buf_text [OF this] have b: "frag_text (butlast ys) = frag_text (butlast xs)" .
  show ?thesis
    by (cases "xs = []") (use assms in \<open>auto simp: keep_of_def boundary_def Let_def same_buf_boundary_para [OF assms] l t b\<close>)
qed

lemma same_buf_seal:
  assumes "list_all2 same_entry xs ys"
  shows "seal reopen (take k ys) fo = seal reopen (take k xs) fo"
  using same_buf_text [OF list_all2_takeI [OF assms]] by (simp add: seal_def)

lemma same_buf_state:
  assumes "list_all2 same_entry xs ys" "k < length xs"
  shows "snd (ys ! k) = snd (xs ! k)"
  using list_all2_nthD [OF assms] by (simp add: same_entry_def)

lemma same_buf_rest:
  assumes "list_all2 same_entry xs ys"
  shows "list_all2 same_frag (map fst (drop k xs)) (map fst (drop k ys))"
proof -
  have "list_all2 same_entry (drop k xs) (drop k ys)" using assms by (rule list_all2_dropI)
  then have "list_all2 (\<lambda>x y. same_frag (fst x) (fst y)) (drop k xs) (drop k ys)"
    by (rule list_all2_mono) (simp add: same_entry_def)
  then show ?thesis by (simp only: list_all2_map1 list_all2_map2)
qed

lemma loop_place:
  "used + length (fst fr) + hold_of fo fr \<le> cap \<Longrightarrow>
     split_loop limit cap (fr # work) buf fo reopen used =
     split_loop limit cap work (buf @ [(fr, after_frag fo fr)]) (after_frag fo fr) reopen (used + length (fst fr))"
  by (simp add: split_loop.simps)

lemma loop_seal:
  "\<not> used + length (fst fr) + hold_of fo fr \<le> cap \<Longrightarrow> seals_first cap used fo buf (fst fr) \<Longrightarrow>
     k = keep_of cap fo reopen buf \<Longrightarrow> fo' = snd (buf ! (k - 1)) \<Longrightarrow>
     split_loop limit cap (fr # work) buf fo reopen used =
     emit (seal reopen (take k buf) fo')
       (split_loop limit cap (map fst (drop k buf) @ fr # work) [] fo' (reopener fo') (length (reopener fo')))"
  by (simp add: split_loop.simps Let_def)

lemma loop_whole:
  "\<not> used + length (fst fr) + hold_of fo fr \<le> cap \<Longrightarrow> \<not> seals_first cap used fo buf (fst fr) \<Longrightarrow>
     ladder_cut limit cap used fo fr = 0 \<Longrightarrow>
     split_loop limit cap (fr # work) buf fo reopen used =
     split_loop limit cap work (buf @ [(fr, after_frag fo fr)]) (after_frag fo fr) reopen (used + length (fst fr))"
  by (simp add: split_loop.simps)

lemma loop_cut:
  "\<not> used + length (fst fr) + hold_of fo fr \<le> cap \<Longrightarrow> \<not> seals_first cap used fo buf (fst fr) \<Longrightarrow>
     ladder_cut limit cap used fo fr = n \<Longrightarrow> n \<noteq> 0 \<Longrightarrow>
     split_loop limit cap (fr # work) buf fo reopen used =
     split_loop limit cap ((drop n (fst fr), snd fr) # work)
       (buf @ [((take n (fst fr), fst (snd fr), False), fo)]) fo reopen (used + n)"
  by (simp add: split_loop.simps)

text \<open>What the code reads of a fragment that does not fit is there before the rest arrives.\<close>

lemma safe_cut_from_append:
  "w < length f \<Longrightarrow> safe_cut_from fo (f @ x) widest w = safe_cut_from fo f widest w"
  by (induction fo f widest w rule: safe_cut_from.induct) (simp_all add: nth_append)

lemma cut_width_append:
  "take_room cap used fo < length f \<Longrightarrow> cut_width cap used fo (f @ x) = cut_width cap used fo f"
  by (simp add: cut_width_def safe_cut_def safe_cut_from_append)

lemma clean_width_append:
  assumes "take_room cap used fo < length f"
  shows "clean_width cap used fo (f @ x) = clean_width cap used fo f"
proof -
  have "cut_width cap used fo f \<noteq> 0 \<Longrightarrow> cut_width cap used fo f < length f" by (rule cut_width_less)
  then show ?thesis by (auto simp: clean_width_def cut_width_append [OF assms] Let_def nth_append)
qed

lemma clean_width_zero: "length f \<le> take_room cap used fo \<Longrightarrow> clean_width cap used fo f = 0"
  by (simp add: clean_width_def cut_width_def)

lemma seals_first_append:
  assumes "\<not> used + length f \<le> cap"
  shows "seals_first cap used fo buf (f @ x) = seals_first cap used fo buf f"
proof (cases "length f \<le> take_room cap used fo")
  case False
  then show ?thesis by (simp add: seals_first_def clean_width_append)
next
  case True
  have "fo \<noteq> None \<or> cap div 4 \<le> used"
  proof (rule disjCI)
    assume "\<not> cap div 4 \<le> used"
    then have "used < cap" by linarith
    moreover have "fo = None \<Longrightarrow> False"
      using True assms \<open>used < cap\<close> by (simp add: take_room_def seal_cost_def)
    ultimately show "fo \<noteq> None" by blast
  qed
  with True show ?thesis by (auto simp: seals_first_def)
qed

lemma same_seals: "list_all2 same_entry buf buf' \<Longrightarrow> seals_first cap used fo buf' f = seals_first cap used fo buf f"
  by (auto simp: seals_first_def)

lemma cut_bound:
  assumes "\<not> seals_first cap used fo buf (fst fr)" "buf \<noteq> []" "ladder_cut limit cap used fo fr = n"
  shows "used + n \<le> cap"
proof -
  have u: "fo = None" "used < cap div 4" using assms(1,2) by (auto simp: seals_first_def)
  then have "take_room cap used fo = cap - used" "used \<le> cap" by (simp_all add: take_room_def seal_cost_def)
  moreover have "n \<le> take_room cap used fo"
    using assms(3) safe_cut_le by (auto simp: ladder_cut_def clean_width_def cut_width_def Let_def split: if_splits)
  ultimately show ?thesis by linarith
qed

lemma part_of_line_cut:
  assumes "part_of_line fr"
  shows "part_of_line (take n (fst fr), fst (snd fr), False)" "part_of_line (drop n (fst fr), snd fr)"
  using assms set_take_subset [of n "fst fr"] set_drop_subset [of n "fst fr"] by (auto simp: part_of_line_def)

lemma chunk_ok_cut:
  assumes "chunk_ok cap reopen buf fo used" "part_of_line fr" "\<not> seals_first cap used fo buf (fst fr)"
    "ladder_cut limit cap used fo fr = n" "n \<noteq> 0"
  shows "chunk_ok cap reopen (buf @ [((take n (fst fr), fst (snd fr), False), fo)]) fo (used + n)"
proof -
  have "n < length (fst fr)" using ladder_cut_less assms(4,5) by blast
  then have l: "length (fst (take n (fst fr), fst (snd fr), False)) = n" by simp
  have "chunk_ok cap reopen (buf @ [((take n (fst fr), fst (snd fr), False), fo)]) fo
      (used + length (fst (take n (fst fr), fst (snd fr), False)))"
  proof (rule chunk_ok_snoc [OF assms(1) part_of_line_cut(1) [OF assms(2)]])
    assume "buf \<noteq> []"
    from cut_bound [OF assms(3) this assms(4)]
    show "used + length (fst (take n (fst fr), fst (snd fr), False)) + hold_of fo (take n (fst fr), fst (snd fr), False) \<le> cap \<and>
        fo = after_frag fo (take n (fst fr), fst (snd fr), False)"
      unfolding l by simp
  qed
  then show ?thesis unfolding l .
qed

lemma same_entry_refl [simp]: "same_entry e e"
  by (simp add: same_entry_def same_frag_def)

lemma same_snoc: "list_all2 same_entry buf buf' \<Longrightarrow> same_entry a b \<Longrightarrow> list_all2 same_entry (buf @ [a]) (buf' @ [b])"
  by (intro list_all2_appendI) simp_all

lemma whole_only_alone:
  "ladder_cut limit cap used fo fr = 0 \<Longrightarrow> \<not> seals_first cap used fo buf (fst fr) \<Longrightarrow> buf = []"
  by (auto simp: ladder_cut_def clean_width_def seals_first_def cut_width_def Let_def split: if_splits)

lemma loop_sealed_stable:
  assumes "\<not> used + length (fst fr) + hold_of fo fr \<le> cap" "\<not> used + length (fst fr') + hold_of fo fr' \<le> cap"
    and "seals_first cap used fo buf (fst fr)" "seals_first cap used fo buf' (fst fr')"
    and same: "list_all2 same_entry buf buf'" and k: "k = keep_of cap fo reopen buf" and s: "s = snd (buf ! (k - 1))"
    and "stable (split_loop limit cap (map fst (drop k buf) @ fr # work) [] s (reopener s) (length (reopener s)))
      (split_loop limit cap (map fst (drop k buf') @ fr' # V) [] s (reopener s) (length (reopener s)))"
  shows "stable (split_loop limit cap (fr # work) buf fo reopen used) (split_loop limit cap (fr' # V) buf' fo reopen used)"
proof -
  have b: "buf \<noteq> []" using assms(3) by (simp add: seals_first_def)
  have kb: "k - 1 < length buf" using keep_of_bounds [OF b, of cap fo reopen] k by linarith
  have k': "k = keep_of cap fo reopen buf'" using same_buf_keep [OF same] k by simp
  have s': "s = snd (buf' ! (k - 1))" using same_buf_state [OF same kb] s by simp
  show ?thesis
    unfolding loop_seal [OF assms(1,3) k s] loop_seal [OF assms(2,4) k' s'] same_buf_seal [OF same]
    by (rule stable_emit) (rule assms(8))
qed

lemma ladder_last:
  assumes c: "ladder_cut limit cap used fo (f, line, True) = n" "n \<noteq> 0" and l: "length line \<le> length line'"
  shows "ladder_cut limit cap used fo (f @ x, line', True) = n" "take n (f @ x) = take n f" "drop n (f @ x) = drop n f @ x"
proof -
  have room: "take_room cap used fo < length f"
    using c by (auto simp: ladder_cut_def clean_width_def cut_width_def Let_def split: if_splits)
  show "ladder_cut limit cap used fo (f @ x, line', True) = n"
    using c l cut_width_append [OF room, of x] clean_width_append [OF room, of x]
    by (auto simp: ladder_cut_def clean_width_def Let_def split: if_splits)
  have "n < length f" using ladder_cut_less [of limit cap used fo "(f, line, True)"] c by simp
  then show "take n (f @ x) = take n f" "drop n (f @ x) = drop n f @ x" by simp_all
qed

text \<open>Two runs in step, and that each move of the loop keeps them so.\<close>

definition in_step :: "nat \<Rightarrow> frag list \<Rightarrow> frag list \<Rightarrow> (frag \<times> fence option) list \<Rightarrow> (frag \<times> fence option) list
    \<Rightarrow> fence option \<Rightarrow> codepoints \<Rightarrow> nat \<Rightarrow> bool" where
  "in_step cap W W' buf buf' fo reopen used = (\<exists>D U D' V. W = D @ U \<and> W' = D' @ V \<and>
     list_all2 same_frag D D' \<and> grows U V \<and> replays cap used fo D \<and> list_all2 same_entry buf buf' \<and>
     chunk_ok cap reopen buf fo used \<and> list_all part_of_line W)"

lemma in_stepI:
  "list_all2 same_frag D D' \<Longrightarrow> grows U V \<Longrightarrow> replays cap used fo D \<Longrightarrow> list_all2 same_entry buf buf' \<Longrightarrow>
     chunk_ok cap reopen buf fo used \<Longrightarrow> list_all part_of_line (D @ U) \<Longrightarrow>
     in_step cap (D @ U) (D' @ V) buf buf' fo reopen used"
  unfolding in_step_def by blast

lemma in_step_plain:
  "grows U V \<Longrightarrow> list_all2 same_entry buf buf' \<Longrightarrow> chunk_ok cap reopen buf fo used \<Longrightarrow> list_all part_of_line U \<Longrightarrow>
     in_step cap U V buf buf' fo reopen used"
  using in_stepI [of "[]" "[]" U V] by simp

lemma in_step_place:
  assumes "grows work V" "list_all2 same_entry buf buf'" "chunk_ok cap reopen buf fo used" "list_all part_of_line (fr # work)"
    and "buf \<noteq> [] \<Longrightarrow> used + length (fst fr) + hold_of fo fr \<le> cap"
  shows "in_step cap work V (buf @ [(fr, after_frag fo fr)]) (buf' @ [(fr, after_frag fo fr)])
    (after_frag fo fr) reopen (used + length (fst fr))"
  by (rule in_step_plain [OF assms(1) same_snoc [OF assms(2) same_entry_refl] chunk_ok_snoc [OF assms(3)]])
    (use assms(4,5) in simp_all)

lemma in_step_seal:
  assumes "grows (fr # work) (fr' # V)" "list_all2 same_entry buf buf'" "chunk_ok cap reopen buf fo used"
    and "list_all part_of_line (fr # work)" "buf \<noteq> []" "k = keep_of cap fo reopen buf" "s = snd (buf ! (k - 1))"
  shows "in_step cap (map fst (drop k buf) @ fr # work) (map fst (drop k buf') @ fr' # V) [] [] s (reopener s) (length (reopener s))"
proof (rule in_stepI [OF same_buf_rest [OF assms(2)] assms(1) _ _ chunk_ok_Nil])
  show "replays cap (length (reopener s)) s (map fst (drop k buf))"
    unfolding assms(7) by (rule deferred_replays [OF assms(3,5,6)])
  have "list_all (part_of_line \<circ> fst) (drop k buf)"
    using assms(3) set_drop_subset [of k buf] unfolding chunk_ok_def list_all_iff by blast
  then show "list_all part_of_line (map fst (drop k buf) @ fr # work)"
    using assms(4) by (auto simp: list_all_iff)
qed simp

lemma in_step_cut:
  assumes "grows ((drop n (fst fr), snd fr) # work) V" "list_all2 same_entry buf buf'" "chunk_ok cap reopen buf fo used"
    and "list_all part_of_line (fr # work)" "\<not> seals_first cap used fo buf (fst fr)"
    and "ladder_cut limit cap used fo fr = n" "n \<noteq> 0" "same_frag (take n (fst fr), fst (snd fr), False) p"
  shows "in_step cap ((drop n (fst fr), snd fr) # work) V (buf @ [((take n (fst fr), fst (snd fr), False), fo)])
    (buf' @ [(p, fo)]) fo reopen (used + n)"
proof (rule in_step_plain [OF assms(1)])
  show "list_all2 same_entry (buf @ [((take n (fst fr), fst (snd fr), False), fo)]) (buf' @ [(p, fo)])"
    by (rule same_snoc [OF assms(2)]) (simp add: same_entry_def assms(8))
  show "chunk_ok cap reopen (buf @ [((take n (fst fr), fst (snd fr), False), fo)]) fo (used + n)"
    by (rule chunk_ok_cut [OF assms(3) _ assms(5,6,7)]) (use assms(4) in simp)
  show "list_all part_of_line ((drop n (fst fr), snd fr) # work)"
    using part_of_line_cut(2) [of fr n] assms(4) by simp
qed

text \<open>The three ways a step begins: a fragment deferred from the last chunk, a fragment common to
  both texts, the last line of the shorter one.\<close>

lemma in_step_cases:
  assumes "in_step cap (fr # work) W' buf buf' fo reopen used"
  obtains (deferred) d W'' where "W' = d # W''" "same_frag fr d" "used + length (fst fr) + hold_of fo fr \<le> cap"
      "in_step cap work W'' (buf @ [(fr, after_frag fo fr)]) (buf' @ [(d, after_frag fo fr)]) (after_frag fo fr) reopen (used + length (fst fr))"
    | (common) V where "W' = fr # V" "grows work V"
    | (arriving) f line x line' E where "fr = (f, line, True)" "work = []" "W' = (f @ x, line', True) # E"
        "\<not> settled_frag (f, line, True)" "length line \<le> length line'"
proof -
  from assms obtain D U D' V where h: "fr # work = D @ U" "W' = D' @ V" "list_all2 same_frag D D'" "grows U V"
    "replays cap used fo D" "list_all2 same_entry buf buf'" "chunk_ok cap reopen buf fo used" "list_all part_of_line (fr # work)"
    unfolding in_step_def by blast
  show thesis
  proof (cases D)
    case Nil
    then have "grows (fr # work) W'" using h(1,2,3,4) by simp
    then show thesis by (rule grows_consE) (use common arriving in blast)+
  next
    case (Cons d0 D0)
    with h obtain d D0' where d: "D' = d # D0'" "same_frag fr d" "list_all2 same_frag D0 D0'" "work = D0 @ U"
      by (auto simp: list_all2_Cons1)
    have A: "used + length (fst fr) + hold_of fo fr \<le> cap"
      and r: "replays cap (used + length (fst fr)) (after_frag fo fr) D0" using h(1,5) Cons by simp_all
    have "in_step cap work (D0' @ V) (buf @ [(fr, after_frag fo fr)]) (buf' @ [(d, after_frag fo fr)])
        (after_frag fo fr) reopen (used + length (fst fr))" unfolding d(4)
      by (rule in_stepI [OF d(3) h(4) r same_snoc [OF h(6)] chunk_ok_snoc [OF h(7)]])
        (use d h(8) A in \<open>simp_all add: same_entry_def\<close>)
    then show thesis using deferred d(1,2) h(2) A by simp
  qed
qed

lemma in_step_facts:
  "in_step cap W W' buf buf' fo reopen used \<Longrightarrow>
     list_all2 same_entry buf buf' \<and> chunk_ok cap reopen buf fo used \<and> list_all part_of_line W"
  unfolding in_step_def by blast

lemma loop_stable:
  "in_step cap W W' buf buf' fo reopen used \<Longrightarrow>
   stable (split_loop limit cap W buf fo reopen used) (split_loop limit cap W' buf' fo reopen used)"
proof (induction limit cap W buf fo reopen used arbitrary: W' buf' rule: split_loop.induct)
  case (1 limit cap buf fo reopen used)
  show ?case by (rule stable_short) (rule split_loop_done)
next
  case (2 limit cap fr work buf fo reopen used)
  note IH = 2(1-4)
  from in_step_facts [OF 2(5)] have same: "list_all2 same_entry buf buf'"
    and ok: "chunk_ok cap reopen buf fo used" and po: "list_all part_of_line (fr # work)" by simp_all
  have ended: "stable (split_loop limit cap [] b g r u) ys" for b g r u ys
    by (rule stable_short) (rule split_loop_done)
  have b: "buf \<noteq> []" if "seals_first cap used fo buf (fst fr)" using that by (simp add: seals_first_def)
  note sf = same_seals [OF same]
  from 2(5) show ?case
  proof (cases rule: in_step_cases)
    case (deferred d W'')
    note u = same_frag_use [OF deferred(2)]
    from deferred(3) have "used + length (fst d) + hold_of fo d \<le> cap" using u by simp
    from loop_place [OF this] loop_place [OF deferred(3)] IH(1) [OF deferred(3,4)]
    show ?thesis by (simp add: deferred(1) u)
  next
    case (common V)
    show ?thesis
    proof (cases "used + length (fst fr) + hold_of fo fr \<le> cap")
      case True
      from IH(1) [OF True in_step_place [OF common(2) same ok po True]]
      show ?thesis by (simp add: common(1) loop_place [OF True])
    next
      case nA: False
      show ?thesis
      proof (cases "seals_first cap used fo buf (fst fr)")
        case True
        note st = in_step_seal [OF grows_step [OF common(2), of fr] same ok po b [OF True] refl refl]
        show ?thesis unfolding common(1)
          by (rule loop_sealed_stable [OF nA nA True _ same refl refl IH(2) [OF nA True refl refl st]])
            (simp add: sf True)
      next
        case ns: False
        then have ns': "\<not> seals_first cap used fo buf' (fst fr)" by (simp add: sf)
        show ?thesis
        proof (cases "ladder_cut limit cap used fo fr = 0")
          case True
          have "in_step cap work V (buf @ [(fr, after_frag fo fr)]) (buf' @ [(fr, after_frag fo fr)])
              (after_frag fo fr) reopen (used + length (fst fr))"
            by (rule in_step_place [OF common(2) same ok po]) (use whole_only_alone [OF True ns] in simp)
          from IH(3) [OF nA ns refl True this]
          show ?thesis by (simp add: common(1) loop_whole [OF nA ns True] loop_whole [OF nA ns' True])
        next
          case c: False
          have "same_frag p p" for p by (simp add: same_frag_def)
          note st = in_step_cut [OF grows_step [OF common(2)] same ok po ns refl c this]
          from IH(4) [OF nA ns refl c st]
          show ?thesis by (simp add: common(1) loop_cut [OF nA ns refl c] loop_cut [OF nA ns' refl c])
        qed
      qed
    qed
  next
    case (arriving f line x line' E)
    let ?fr' = "(f @ x, line', True)"
    have h: "hold_of fo fr = 0" using arriving(1,4) by (simp add: hold_of_def)
    show ?thesis
    proof (cases "used + length f \<le> cap")
      case True
      then show ?thesis using loop_place [of used fr fo cap limit work] h ended by (simp add: arriving(1,2))
    next
      case False
      then have nA: "\<not> used + length (fst fr) + hold_of fo fr \<le> cap"
        and nA': "\<not> used + length (fst ?fr') + hold_of fo ?fr' \<le> cap" using h arriving(1) by simp_all
      have sf': "seals_first cap used fo buf' (fst ?fr') = seals_first cap used fo buf (fst fr)"
        using sf seals_first_append [OF False, of fo buf x] by (simp add: arriving(1))
      have g: "grows ((q, snd fr) # work) ((q @ x, line', True) # E)" for q
        using grows_last [of q line line' x E] arriving by (simp add: settled_frag_def)
      show ?thesis
      proof (cases "seals_first cap used fo buf (fst fr)")
        case True
        have "grows (fr # work) (?fr' # E)" using g [of f] arriving(1) by simp
        note st = in_step_seal [OF this same ok po b [OF True] refl refl]
        show ?thesis unfolding arriving(3)
          by (rule loop_sealed_stable [OF nA nA' True _ same refl refl IH(2) [OF nA True refl refl st]])
            (simp only: sf' True)
      next
        case ns: False
        show ?thesis
        proof (cases "ladder_cut limit cap used fo fr = 0")
          case True
          then show ?thesis using ended by (simp add: loop_whole [OF nA ns True] arriving(2))
        next
          case c: False
          let ?n = "ladder_cut limit cap used fo fr"
          have "ladder_cut limit cap used fo (f, line, True) = ?n" using arriving(1) by simp
          note l = ladder_last [OF this c arriving(5), of x]
          have gd: "grows ((drop ?n (fst fr), snd fr) # work) ((drop ?n (fst ?fr'), snd ?fr') # E)"
            using g [of "drop ?n f"] unfolding fst_conv snd_conv l(3) by (simp add: arriving(1))
          have sp: "same_frag (take ?n (fst fr), fst (snd fr), False) (take ?n (fst ?fr'), fst (snd ?fr'), False)"
            unfolding fst_conv snd_conv l(2) by (simp add: same_frag_def arriving(1))
          note st = in_step_cut [OF gd same ok po ns refl c sp]
          from IH(4) [OF nA ns refl c st] show ?thesis
            unfolding arriving(3) loop_cut [OF nA ns refl c]
            by (subst loop_cut [OF nA' _ l(1) c]) (use sf' ns in simp_all)
        qed
      qed
    qed
  qed
qed

lemma md_lines_step:
  "NL \<in> set text \<Longrightarrow> md_lines text =
     take (length (takeWhile (\<lambda>x. x \<noteq> NL) text) + 1) text # md_lines (drop (length (takeWhile (\<lambda>x. x \<noteq> NL) text) + 1) text)"
  by (subst md_lines.simps) (auto simp: Let_def)

lemma md_lines_last: "NL \<notin> set text \<Longrightarrow> text \<noteq> [] \<Longrightarrow> md_lines text = [text]"
proof -
  assume a: "NL \<notin> set text" "text \<noteq> []"
  then have "takeWhile (\<lambda>x. x \<noteq> NL) text = text" by (auto simp: takeWhile_eq_all_conv)
  from arg_cong [OF this, of length] have "length (takeWhile (\<lambda>x. x \<noteq> NL) text) = length text" .
  then show ?thesis using a by (subst md_lines.simps) (simp add: Let_def md_lines.simps [of "[]"])
qed

lemma takeWhile_line:
  assumes "NL \<in> set text"
  shows "takeWhile (\<lambda>x. x \<noteq> NL) (text @ later) = takeWhile (\<lambda>x. x \<noteq> NL) text"
    "length (takeWhile (\<lambda>x. x \<noteq> NL) text) < length text"
proof -
  from assms show "takeWhile (\<lambda>x. x \<noteq> NL) (text @ later) = takeWhile (\<lambda>x. x \<noteq> NL) text"
    by (intro takeWhile_append1) auto
  from assms show "length (takeWhile (\<lambda>x. x \<noteq> NL) text) < length text"
    by (induction "text") auto
qed

abbreviation whole_line :: "codepoints \<Rightarrow> frag" where
  "whole_line line \<equiv> (line, line, True)"

lemma md_lines_grow: "grows (map whole_line (md_lines text)) (map whole_line (md_lines (text @ later)))"
proof (induction "text" rule: md_lines.induct)
  case (1 tx)
  show ?case
  proof (cases "tx = []")
    case True
    then show ?thesis by (simp add: md_lines.simps [of "[]"] grows_stop)
  next
    case ne: False
    let ?n = "length (takeWhile (\<lambda>x. x \<noteq> NL) tx) + 1"
    show ?thesis
    proof (cases "NL \<in> set tx")
      case True
      note t = takeWhile_line [OF True]
      have "md_lines (tx @ later) = take ?n tx # md_lines (drop ?n tx @ later)"
        using True t(2) by (simp add: md_lines_step t(1))
      moreover have "md_lines tx = take ?n tx # md_lines (drop ?n tx)" by (rule md_lines_step [OF True])
      ultimately show ?thesis using 1 [OF ne refl refl] by (simp only: list.map) (rule grows_step)
    next
      case False
      from md_lines_last [OF this ne] have m: "md_lines tx = [tx]" .
      have s: "\<not> settled_frag (whole_line tx)" using False last_in_set [OF ne] unfolding settled_frag_def snd_conv fst_conv by metis
      have "takeWhile (\<lambda>x. x \<noteq> NL) (tx @ later) = tx @ takeWhile (\<lambda>x. x \<noteq> NL) later"
        using False by (intro takeWhile_append2) auto
      from arg_cong [OF this, of length] have "\<exists>x ls. md_lines (tx @ later) = (tx @ x) # ls"
        using ne by (subst md_lines.simps) (simp add: Let_def)
      then obtain x ls where "md_lines (tx @ later) = (tx @ x) # ls" by blast
      then show ?thesis using grows_last [OF s, of "tx @ x" x "map whole_line ls"] by (simp add: m)
    qed
  qed
qed

text \<open>C2. A message that grows keeps its sealed chunks: splitting a longer text reproduces every chunk
  of the shorter one but its last, character for character. A renderer that streams a reply may post each chunk
  when it is sealed and keep only the last one open.\<close>

theorem split_is_prefix_stable:
  "\<exists>rest. split_markdown_safe (text @ later) limit reserve =
     butlast (split_markdown_safe text limit reserve) @ rest"
proof (cases "text = [] \<or> limit \<le> 0 \<or> limit - reserve \<le> 0 \<or> int (length text) \<le> limit - reserve")
  case True
  then show ?thesis by (auto simp: split_markdown_safe_def Let_def)
next
  case False
  have "stable (split_loop (nat limit) (nat (limit - reserve)) (map whole_line (md_lines text)) [] None [] 0)
      (split_loop (nat limit) (nat (limit - reserve)) (map whole_line (md_lines (text @ later))) [] None [] 0)"
    by (rule loop_stable, rule in_step_plain) (simp_all add: md_lines_grow chunk_ok_def part_of_line_def list_all_iff)
  then show ?thesis using False by (auto simp: split_markdown_safe_def Let_def stable_def)
qed

end
