(* ===== verification/Split_Slices.thy ===== *)
theory Split_Slices imports Split_Streaming begin

section \<open>What the chunks of a message hold\<close>

text \<open>
  The chunks of \<^verbatim>\<open>split_markdown_safe\<close> are slices of the text, each presented with the fence
  that the text before it leaves open.
\<close>

subsection \<open>Nothing is lost\<close>

text \<open>The fence open after the complete lines of a text, and the line still arriving.\<close>

fun fence_scan :: "fence option \<Rightarrow> codepoints \<Rightarrow> codepoints \<Rightarrow> fence option" where
  "fence_scan fo q [] = fo"
| "fence_scan fo q (c # s) = (if c = NL then fence_scan (advance fo (q @ [c])) [] s else fence_scan fo (q @ [c]) s)"

definition fence_after :: "codepoints \<Rightarrow> fence option" where
  "fence_after P = fence_scan None [] P"

fun line_scan :: "codepoints \<Rightarrow> codepoints \<Rightarrow> codepoints" where
  "line_scan q [] = q"
| "line_scan q (c # s) = (if c = NL then line_scan [] s else line_scan (q @ [c]) s)"

definition partial_line :: "codepoints \<Rightarrow> codepoints" where
  "partial_line P = line_scan [] P"

definition finish :: "codepoints \<Rightarrow> fence option \<Rightarrow> codepoints" where
  "finish body fo = (case fo of
      None \<Rightarrow> cp_rstrip body
    | Some f \<Rightarrow> (if body \<noteq> [] \<and> last body = NL then body else body @ [NL]) @ closer f)"

text \<open>A text cut into slices, presented: each slice behind the opener of the fence open before it,
  and all but the last finished for the fence open after it.\<close>

fun presented :: "codepoints \<Rightarrow> codepoints list \<Rightarrow> codepoints list" where
  "presented P [] = []"
| "presented P [p] = emit (reopener (fence_after P) @ p) []"
| "presented P (p # q # ps) =
     emit (finish (reopener (fence_after P) @ p) (fence_after (P @ p))) (presented (P @ p) (q # ps))"

lemma seal_finish: "seal reopen buf fo = finish (reopen @ frag_text buf) fo"
  by (simp add: seal_def finish_def Let_def)

lemma line_scan_append: "line_scan q (s @ r) = line_scan (line_scan q s) r"
  by (induction q s rule: line_scan.induct) auto

lemma fence_scan_append: "fence_scan fo q (s @ r) = fence_scan (fence_scan fo q s) (line_scan q s) r"
  by (induction fo q s rule: fence_scan.induct) auto

lemma scan_plain: "NL \<notin> set s \<Longrightarrow> line_scan q s = q @ s \<and> fence_scan fo q s = fo"
  by (induction s arbitrary: q) auto

lemma partial_line_plain: "NL \<notin> set s \<Longrightarrow> partial_line (P @ s) = partial_line P @ s"
  by (simp add: partial_line_def line_scan_append scan_plain)

lemma fence_after_plain: "NL \<notin> set s \<Longrightarrow> fence_after (P @ s) = fence_after P"
  by (simp add: fence_after_def fence_scan_append scan_plain)

lemma fence_after_line:
  assumes "NL \<notin> set (butlast f)" "f \<noteq> []" "last f = NL"
  shows "fence_after (P @ f) = advance (fence_after P) (partial_line P @ f)"
proof -
  have f: "f = butlast f @ [NL]" using assms(2,3) by (metis append_butlast_last_id)
  have "fence_after (P @ butlast f @ [NL]) = advance (fence_after P) (partial_line P @ butlast f @ [NL])"
    using assms(1) by (simp add: fence_after_def partial_line_def fence_scan_append scan_plain line_scan_append)
  then show ?thesis using f by simp
qed

lemma partial_line_unended: "partial_line P \<noteq> [] \<Longrightarrow> last (partial_line P) \<noteq> NL"
proof -
  have "NL \<notin> set q \<Longrightarrow> NL \<notin> set (line_scan q s)" for q s
    by (induction q s rule: line_scan.induct) auto
  from this [of "[]" P] show "partial_line P \<noteq> [] \<Longrightarrow> last (partial_line P) \<noteq> NL"
    unfolding partial_line_def using last_in_set by fastforce
qed

text \<open>The fragments still to come continue the text placed so far.\<close>

definition continues :: "codepoints \<Rightarrow> frag \<Rightarrow> bool" where
  "continues P fr = (if snd (snd fr) then fst (snd fr) = partial_line P @ fst fr \<and> NL \<notin> set (butlast (fst fr))
                     else NL \<notin> set (fst fr))"

fun aligned :: "codepoints \<Rightarrow> frag list \<Rightarrow> bool" where
  "aligned P [] = True"
| "aligned P (fr # ws) = (continues P fr \<and> aligned (P @ fst fr) ws)"

fun states_ok :: "codepoints \<Rightarrow> (frag \<times> fence option) list \<Rightarrow> bool" where
  "states_ok P [] = True"
| "states_ok P (e # es) = (snd e = fence_after (P @ fst (fst e)) \<and> states_ok (P @ fst (fst e)) es)"

definition frags_text :: "frag list \<Rightarrow> codepoints" where
  "frags_text ws = concat (map fst ws)"

lemma frags_text_simps [simp]:
  "frags_text [] = []" "frags_text (fr # ws) = fst fr @ frags_text ws" "frags_text (a @ b) = frags_text a @ frags_text b"
  "frags_text (map fst buf) = frag_text buf"
  by (simp_all add: frags_text_def frag_text_def)

lemma aligned_append: "aligned P (a @ b) = (aligned P a \<and> aligned (P @ frags_text a) b)"
  by (induction a arbitrary: P) auto

lemma states_append: "states_ok P (a @ b) = (states_ok P a \<and> states_ok (P @ frag_text a) b)"
  by (induction a arbitrary: P) auto

lemma continues_state:
  assumes "continues P fr"
  shows "after_frag (fence_after P) fr = fence_after (P @ fst fr)"
proof (cases "settled_frag fr")
  case True
  then have l: "fst (snd fr) = partial_line P @ fst fr" "NL \<notin> set (butlast (fst fr))" "last (fst (snd fr)) = NL" "fst (snd fr) \<noteq> []"
    using assms by (auto simp: continues_def settled_frag_def)
  have ne: "fst fr \<noteq> []" using l(1,3,4) partial_line_unended [of P] by auto
  with l have "last (fst fr) = NL" by simp
  from fence_after_line [OF l(2) ne this] show ?thesis using True l(1) by (simp add: after_frag_def)
next
  case False
  have "NL \<notin> set (fst fr)"
  proof (cases "snd (snd fr)")
    case True
    then have l: "fst (snd fr) = partial_line P @ fst fr" "NL \<notin> set (butlast (fst fr))"
      using assms by (auto simp: continues_def)
    show ?thesis
    proof (cases "fst fr = []")
      case ne: False
      then have "last (fst fr) \<noteq> NL" using False True l(1) by (auto simp: settled_frag_def)
      moreover have "set (fst fr) = insert (last (fst fr)) (set (butlast (fst fr)))"
        using ne by (metis append_butlast_last_id list.simps(15) rotate1.simps(2) set_rotate1 Un_insert_right set_append sup_bot_right empty_set)
      ultimately show ?thesis using l(2) by auto
    qed simp
  qed (use assms in \<open>simp add: continues_def\<close>)
  then show ?thesis using False by (simp add: after_frag_def fence_after_plain)
qed

lemma states_nth:
  "states_ok P buf \<Longrightarrow> 0 < k \<Longrightarrow> k \<le> length buf \<Longrightarrow>
     snd (buf ! (k - 1)) = fence_after (P @ frag_text (take k buf))"
proof (induction P buf arbitrary: k rule: states_ok.induct)
  case (2 P e es)
  show ?case
  proof (cases "k = 1")
    case False
    then obtain m where "k = Suc m" "0 < m" using 2(3) by (cases k) auto
    with 2(1) [of m] 2(2,4) show ?thesis by (cases m) simp_all
  qed (use 2(2) in simp)
qed simp

lemma continues_cut:
  assumes "continues P fr" "n < length (fst fr)"
  shows "continues P (take n (fst fr), fst (snd fr), False)" "continues (P @ take n (fst fr)) (drop n (fst fr), snd fr)"
proof -
  have "set (take n (fst fr)) \<subseteq> set (butlast (fst fr))"
  proof -
    have "take n (fst fr) = take n (butlast (fst fr))" using assms(2) by (simp add: take_butlast)
    then show ?thesis using set_take_subset by metis
  qed
  then have t: "NL \<notin> set (take n (fst fr))" using assms(1) in_set_butlastD by (auto simp: continues_def split: if_splits dest: in_set_butlastD)
  have "NL \<notin> set (butlast (drop n (fst fr)))" if "NL \<notin> set (butlast (fst fr))"
    using that in_set_dropD by (fastforce simp: butlast_drop)
  moreover have "NL \<notin> set (drop n (fst fr))" if "NL \<notin> set (fst fr)" using that in_set_dropD by fastforce
  ultimately show "continues (P @ take n (fst fr)) (drop n (fst fr), snd fr)"
    using assms(1) t by (simp add: continues_def partial_line_plain)
  show "continues P (take n (fst fr), fst (snd fr), False)" using t by (simp add: continues_def)
qed

lemma presented_Cons: "ps \<noteq> [] \<Longrightarrow> presented P (p # ps) =
     emit (finish (reopener (fence_after P) @ p) (fence_after (P @ p))) (presented (P @ p) ps)"
  by (cases ps) simp_all

lemma loop_presented:
  "aligned P (map fst buf @ W) \<Longrightarrow> states_ok P buf \<Longrightarrow> fo = fence_after (P @ frag_text buf) \<Longrightarrow>
     reopen = reopener (fence_after P) \<Longrightarrow>
     \<exists>ps. ps \<noteq> [] \<and> concat ps = frag_text buf @ frags_text W \<and>
       split_loop limit cap W buf fo reopen used = presented P ps"
proof (induction limit cap W buf fo reopen used arbitrary: P rule: split_loop.induct)
  case (1 limit cap buf fo reopen used)
  then show ?case by (intro exI [of _ "[frag_text buf]"]) (simp add: split_loop.simps)
next
  case (2 limit cap fr work buf fo reopen used)
  note IH_place = 2(1) and IH_seal = 2(2) and IH_whole = 2(3) and IH_cut = 2(4)
  note al = 2(5) and st = 2(6) and fo = 2(7) and ro = 2(8)
  have c: "continues (P @ frag_text buf) fr" using al by (simp add: aligned_append)
  have af: "after_frag fo fr = fence_after (P @ frag_text (buf @ [(fr, after_frag fo fr)]))"
    using continues_state [OF c] fo by simp
  have al': "aligned P (map fst (buf @ [(fr, after_frag fo fr)]) @ work)" using al by simp
  have st': "states_ok P (buf @ [(fr, after_frag fo fr)])" using st af by (simp add: states_append)
  show ?case
  proof (cases "used + length (fst fr) + hold_of fo fr \<le> cap")
    case True
    from IH_place [OF this al' st' af ro] show ?thesis by (simp add: loop_place [OF True])
  next
    case nA: False
    show ?thesis
    proof (cases "seals_first cap used fo buf (fst fr)")
      case True
      let ?k = "keep_of cap fo reopen buf"
      let ?P = "P @ frag_text (take ?k buf)"
      have b: "buf \<noteq> []" using True by (simp add: seals_first_def)
      have s: "snd (buf ! (?k - 1)) = fence_after (?P @ frag_text [])"
        using states_nth [OF st, of ?k] keep_of_bounds [OF b] by simp
      have "map fst buf = map fst (take ?k buf) @ map fst (drop ?k buf)" by (metis append_take_drop_id map_append)
      then have a: "aligned ?P (map fst [] @ map fst (drop ?k buf) @ fr # work)"
        using al by (simp add: aligned_append)
      have r: "reopener (snd (buf ! (?k - 1))) = reopener (fence_after ?P)" using s by simp
      from IH_seal [OF nA True refl refl a _ s r] obtain ps where ps: "ps \<noteq> []"
        "concat ps = frag_text (drop ?k buf) @ frags_text (fr # work)"
        "split_loop limit cap (map fst (drop ?k buf) @ fr # work) [] (snd (buf ! (?k - 1)))
           (reopener (snd (buf ! (?k - 1)))) (length (reopener (snd (buf ! (?k - 1))))) = presented ?P ps"
        by auto
      have "frag_text buf = frag_text (take ?k buf) @ frag_text (drop ?k buf)"
        by (metis append_take_drop_id frag_text_simps(3))
      then show ?thesis using ps s
        by (intro exI [of _ "frag_text (take ?k buf) # ps"])
          (simp add: loop_seal [OF nA True refl refl] presented_Cons seal_finish ro)
    next
      case ns: False
      show ?thesis
      proof (cases "ladder_cut limit cap used fo fr = 0")
        case True
        from IH_whole [OF nA ns refl True al' st' af ro] show ?thesis by (simp add: loop_whole [OF nA ns True])
      next
        case nz: False
        let ?n = "ladder_cut limit cap used fo fr"
        let ?e = "((take ?n (fst fr), fst (snd fr), False), fo)"
        note cc = continues_cut [OF c ladder_cut_less [OF nz]]
        have a: "aligned P (map fst (buf @ [?e]) @ (drop ?n (fst fr), snd fr) # work)"
          using al cc by (simp add: aligned_append)
        have f: "fo = fence_after (P @ frag_text (buf @ [?e]))"
          using continues_state [OF cc(1)] fo by simp
        have s: "states_ok P (buf @ [?e])" using st f by (simp add: states_append)
        have "take ?n (fst fr) @ drop ?n (fst fr) @ xs = fst fr @ xs" for xs
          by (metis append_assoc append_take_drop_id)
        with IH_cut [OF nA ns refl nz a s f ro] show ?thesis
          by (simp add: loop_cut [OF nA ns refl nz])
      qed
    qed
  qed
qed

lemma md_lines_aligned: "partial_line P = [] \<Longrightarrow> aligned P (map whole_line (md_lines tx)) \<and> frags_text (map whole_line (md_lines tx)) = tx"
proof (induction tx arbitrary: P rule: md_lines.induct)
  case (1 tx)
  show ?case
  proof (cases "tx = []")
    case True
    then show ?thesis by (simp add: md_lines.simps [of "[]"])
  next
    case ne: False
    show ?thesis
    proof (cases "NL \<in> set tx")
      case True
      let ?b = "takeWhile (\<lambda>x. x \<noteq> NL) tx"
      have b: "NL \<notin> set ?b" by (auto dest: set_takeWhileD)
      have "dropWhile (\<lambda>x. x \<noteq> NL) tx \<noteq> []" using True by (simp add: dropWhile_eq_Nil_conv)
      then obtain c r where cr: "dropWhile (\<lambda>x. x \<noteq> NL) tx = c # r" by (cases "dropWhile (\<lambda>x. x \<noteq> NL) tx") auto
      have "c = NL" using hd_dropWhile [of "\<lambda>x. x \<noteq> NL" tx] cr by simp
      with cr have t: "tx = ?b @ NL # r" by (metis takeWhile_dropWhile_id)
      have line: "take (length ?b + 1) tx = ?b @ [NL]" "drop (length ?b + 1) tx = r"
        by (subst t, simp)+
      have p: "partial_line (P @ ?b @ [NL]) = []" by (simp add: partial_line_def line_scan_append)
      from 1(1) [OF ne refl refl, of "P @ ?b @ [NL]"] p
      have "aligned (P @ ?b @ [NL]) (map whole_line (md_lines r)) \<and> frags_text (map whole_line (md_lines r)) = r"
        unfolding line by simp
      moreover have "md_lines tx = (?b @ [NL]) # md_lines r" using md_lines_step [OF True] unfolding line .
      ultimately show ?thesis using b 1(2) t by (simp add: continues_def butlast_append)
    next
      case False
      then have "NL \<notin> set (butlast tx)" by (auto dest: in_set_butlastD)
      then show ?thesis using md_lines_last [OF False ne] 1(2) by (simp add: continues_def)
    qed
  qed
qed

lemma split_slices:
  "\<exists>ps. concat ps = message \<and> split_markdown_safe message limit reserve = presented [] ps"
proof -
  have f: "fence_after [] = None" "partial_line [] = []" by (simp_all add: fence_after_def partial_line_def)
  consider "message = []"
    | "message \<noteq> []" "limit \<le> 0 \<or> limit - reserve \<le> 0 \<or> int (length message) \<le> limit - reserve"
    | "message \<noteq> []" "\<not> (limit \<le> 0 \<or> limit - reserve \<le> 0 \<or> int (length message) \<le> limit - reserve)"
    by blast
  then show ?thesis
  proof cases
    case 1
    then show ?thesis by (intro exI [of _ "[]"]) (simp add: split_markdown_safe_def)
  next
    case 2
    then show ?thesis
      by (intro exI [of _ "[message]"]) (simp add: split_markdown_safe_def f reopener_def emit_def Let_def)
  next
    case 3
    note a = md_lines_aligned [OF f(2), of message]
    have "\<exists>ps. ps \<noteq> [] \<and> concat ps = frag_text [] @ frags_text (map whole_line (md_lines message)) \<and>
        split_loop (nat limit) (nat (limit - reserve)) (map whole_line (md_lines message)) [] None [] 0 = presented [] ps"
      by (rule loop_presented) (use a f in \<open>simp_all add: reopener_def\<close>)
    then show ?thesis using 3 a by (auto simp: split_markdown_safe_def Let_def)
  qed
qed

text \<open>C18. Splitting loses nothing and knows its fences. The chunks are a presentation of slices whose
  concatenation is the text: each slice is shown behind the opener line of the fence that the
  complete lines before it leave open, and each but the last is finished with that fence's closer,
  or trimmed of trailing white space when none is open after it. Nothing else is added, dropped or
  reordered.\<close>

theorem split_presents_slices:
  "\<exists>ps. concat ps = message \<and> split_markdown_safe message limit reserve = presented [] ps"
  by (rule split_slices)

end
