(* ===== verification/Split_Bytes.thy ===== *)
theory Split_Bytes imports Split_Slices begin

section \<open>Splitting under a byte budget (\<^verbatim>\<open>messaging/split.py\<close>)\<close>

text \<open>
  UTF-8 as \<^verbatim>\<open>truncate_utf8\<close>, \<^verbatim>\<open>chunk_utf8_bytes\<close> and \<^verbatim>\<open>split_markdown_bytes\<close> use it, and the bound
  their chunks keep.
\<close>

subsection \<open>Byte budgets\<close>

text \<open>UTF-8, and \<^verbatim>\<open>decode("utf-8", errors="ignore")\<close> of a prefix of an encoded text: a sequence
  cut short at the end is dropped. Bytes that no text encodes to are not modelled.\<close>

definition cp_utf8 :: "nat \<Rightarrow> nat list" where
  "cp_utf8 c =
     (if c < 128 then [c]
      else if c < 2048 then [192 + c div 64, 128 + c mod 64]
      else if c < 65536 then [224 + c div 4096, 128 + c div 64 mod 64, 128 + c mod 64]
      else [240 + c div 262144, 128 + c div 4096 mod 64, 128 + c div 64 mod 64, 128 + c mod 64])"

definition encode_utf8 :: "codepoints \<Rightarrow> nat list" where
  "encode_utf8 s = concat (map cp_utf8 s)"

fun decode_ignore :: "nat list \<Rightarrow> codepoints" where
  "decode_ignore [] = []"
| "decode_ignore (b # bs) =
     (if b < 128 then b # decode_ignore bs
      else if b < 224 then (case bs of c # r \<Rightarrow> ((b - 192) * 64 + (c - 128)) # decode_ignore r | _ \<Rightarrow> [])
      else if b < 240 then (case bs of c # d # r \<Rightarrow>
          ((b - 224) * 4096 + (c - 128) * 64 + (d - 128)) # decode_ignore r | _ \<Rightarrow> [])
      else (case bs of c # d # e # r \<Rightarrow>
          ((b - 240) * 262144 + (c - 128) * 4096 + (d - 128) * 64 + (e - 128)) # decode_ignore r | _ \<Rightarrow> []))"

definition utf8_prefix :: "codepoints \<Rightarrow> nat \<Rightarrow> codepoints" where
  "utf8_prefix s n = decode_ignore (take n (encode_utf8 s))"

definition truncate_utf8 :: "codepoints \<Rightarrow> int \<Rightarrow> codepoints" where
  "truncate_utf8 s max_bytes =
     (if max_bytes \<le> 0 then s
      else if int (length (encode_utf8 s)) \<le> max_bytes then s
      else utf8_prefix s (nat max_bytes))"

text \<open>The longest prefix of whole code points that fits.\<close>

fun fitting_prefix :: "codepoints \<Rightarrow> nat \<Rightarrow> codepoints" where
  "fitting_prefix [] n = []"
| "fitting_prefix (c # s) n = (if length (cp_utf8 c) \<le> n then c # fitting_prefix s (n - length (cp_utf8 c)) else [])"

lemma encode_simps [simp]: "encode_utf8 [] = []" "encode_utf8 (c # s) = cp_utf8 c @ encode_utf8 s"
  "encode_utf8 (a @ b) = encode_utf8 a @ encode_utf8 b"
  by (simp_all add: encode_utf8_def)

lemma utf8_parts:
  fixes c :: nat
  shows "c div 64 * 64 + c mod 64 = c" "c div 4096 * 4096 + c div 64 mod 64 * 64 + c mod 64 = c"
    "c div 262144 * 262144 + c div 4096 mod 64 * 4096 + c div 64 mod 64 * 64 + c mod 64 = c"
proof -
  have a: "c div 64 * 64 + c mod 64 = c" "c div 64 div 64 * 64 + c div 64 mod 64 = c div 64"
    "c div 4096 div 64 * 64 + c div 4096 mod 64 = c div 4096" by (rule div_mult_mod_eq)+
  have d: "c div 64 div 64 = c div 4096" "c div 4096 div 64 = c div 262144"
    by (simp_all add: div_mult2_eq [symmetric])
  from a d show "c div 64 * 64 + c mod 64 = c" "c div 4096 * 4096 + c div 64 mod 64 * 64 + c mod 64 = c"
    "c div 262144 * 262144 + c div 4096 mod 64 * 4096 + c div 64 mod 64 * 64 + c mod 64 = c" by linarith+
qed

lemma decode_cp:
  assumes "length (cp_utf8 c) \<le> n"
  shows "decode_ignore (take n (cp_utf8 c @ bs)) = c # decode_ignore (take (n - length (cp_utf8 c)) bs)"
proof -
  note p = utf8_parts [of c]
  have l: "c < 2048 \<Longrightarrow> c div 64 < 32" "c < 65536 \<Longrightarrow> c div 4096 < 16"
    by (simp_all add: less_mult_imp_div_less)
  consider "c < 128" | "128 \<le> c" "c < 2048" | "2048 \<le> c" "c < 65536" | "65536 \<le> c" by linarith
  then show ?thesis using assms
    by cases (simp_all add: cp_utf8_def p l take_Cons' split: nat.splits)
qed

lemma decode_cp_short:
  assumes "n < length (cp_utf8 c)"
  shows "decode_ignore (take n (cp_utf8 c @ bs)) = []"
proof -
  have l: "c < 2048 \<Longrightarrow> c div 64 < 32" "c < 65536 \<Longrightarrow> c div 4096 < 16"
    by (simp_all add: less_mult_imp_div_less)
  have n: "n = 0 \<or> n = 1 \<or> n = 2 \<or> n = 3" using assms by (auto simp: cp_utf8_def split: if_splits)
  consider "c < 128" | "128 \<le> c" "c < 2048" | "2048 \<le> c" "c < 65536" | "65536 \<le> c" by linarith
  then show ?thesis using assms n
    by cases (auto simp: cp_utf8_def l numeral_2_eq_2 numeral_3_eq_3)
qed

lemma utf8_prefix_fits: "utf8_prefix s n = fitting_prefix s n"
proof (induction s arbitrary: n)
  case (Cons c s)
  show ?case
  proof (cases "length (cp_utf8 c) \<le> n")
    case True
    then show ?thesis using Cons decode_cp [OF True, of "encode_utf8 s"] by (simp add: utf8_prefix_def)
  next
    case False
    then show ?thesis using decode_cp_short [of n c "encode_utf8 s"] by (simp add: utf8_prefix_def)
  qed
qed (simp add: utf8_prefix_def)

lemma fitting_prefix_take: "\<exists>k. k \<le> length s \<and> fitting_prefix s n = take k s"
proof (induction s arbitrary: n)
  case (Cons c s)
  from Cons.IH [of "n - length (cp_utf8 c)"] obtain k where "k \<le> length s" "fitting_prefix s (n - length (cp_utf8 c)) = take k s" by blast
  then show ?case by (cases "length (cp_utf8 c) \<le> n") (auto intro: exI [of _ "Suc k"] exI [of _ 0])
qed simp

lemma fitting_prefix_bytes: "length (encode_utf8 (fitting_prefix s n)) \<le> n"
proof (induction s arbitrary: n)
  case (Cons c s)
  from Cons.IH [of "n - length (cp_utf8 c)"] show ?case by (auto simp: le_diff_conv2)
qed simp

lemma cp_utf8_length: "0 < length (cp_utf8 c)" "length (cp_utf8 c) \<le> 4"
  by (simp_all add: cp_utf8_def)

function chunk_utf8 :: "codepoints \<Rightarrow> nat \<Rightarrow> codepoints list" where
  "chunk_utf8 remaining n =
     (if remaining = [] then []
      else if length (encode_utf8 remaining) \<le> n then [remaining]
      else let piece = utf8_prefix remaining n;
               piece = (if piece = [] then [hd remaining] else piece)
           in piece # chunk_utf8 (drop (length piece) remaining) n)"
  by pat_completeness auto

termination
  by (relation "measure (\<lambda>(remaining, n). length remaining)") auto

declare chunk_utf8.simps [simp del]

definition chunk_utf8_bytes :: "codepoints \<Rightarrow> int \<Rightarrow> codepoints list" where
  "chunk_utf8_bytes s max_bytes =
     (if s = [] then [] else if max_bytes \<le> 0 then [s] else chunk_utf8 s (nat max_bytes))"

lemma chunk_piece:
  assumes "s \<noteq> []" "piece = (if utf8_prefix s n = [] then [hd s] else utf8_prefix s n)"
  shows "piece @ drop (length piece) s = s" "length (encode_utf8 piece) \<le> n \<or> length piece = 1"
proof -
  obtain k where k: "k \<le> length s" "utf8_prefix s n = take k s"
    using fitting_prefix_take [of s n] by (auto simp: utf8_prefix_fits)
  show "piece @ drop (length piece) s = s" using assms k by (cases s) auto
  show "length (encode_utf8 piece) \<le> n \<or> length piece = 1"
    using assms fitting_prefix_bytes [of s n] by (simp add: utf8_prefix_fits)
qed

lemma chunk_utf8_spec:
  "concat (chunk_utf8 s n) = s \<and> list_all (\<lambda>c. length (encode_utf8 c) \<le> n \<or> length c = 1) (chunk_utf8 s n)"
proof (induction s n rule: chunk_utf8.induct)
  case (1 s n)
  show ?case
  proof (cases "s = [] \<or> length (encode_utf8 s) \<le> n")
    case True
    then show ?thesis by (subst (1 2) chunk_utf8.simps) auto
  next
    case False
    then have ne: "s \<noteq> []" "\<not> length (encode_utf8 s) \<le> n" by auto
    define pc where "pc = (if utf8_prefix s n = [] then [hd s] else utf8_prefix s n)"
    have e: "chunk_utf8 s n = pc # chunk_utf8 (drop (length pc) s) n"
      by (subst chunk_utf8.simps) (use ne in \<open>simp add: Let_def pc_def\<close>)
    have "concat (chunk_utf8 (drop (length pc) s) n) = drop (length pc) s \<and>
        list_all (\<lambda>c. length (encode_utf8 c) \<le> n \<or> length c = 1) (chunk_utf8 (drop (length pc) s) n)"
      by (rule 1 [OF ne refl pc_def])
    then show ?thesis unfolding e using chunk_piece [OF ne(1) pc_def] by simp
  qed
qed

text \<open>\<^verbatim>\<open>split_markdown_bytes\<close>; \<^verbatim>\<open>max\<close> over no chunk at all would raise (\<open>None\<close>).\<close>

definition BYTE_SHRINK_ROUNDS :: nat where "BYTE_SHRINK_ROUNDS = 6"
definition MIN_BYTE_SHRINK_LIMIT :: int where "MIN_BYTE_SHRINK_LIMIT = 16"

definition widest_bytes :: "codepoints list \<Rightarrow> int option" where
  "widest_bytes chunks = (if chunks = [] then None
     else Some (int (Max (set (map (\<lambda>c. length (encode_utf8 c)) chunks)))))"

definition slice_wide :: "int \<Rightarrow> codepoints list \<Rightarrow> codepoints list" where
  "slice_wide budget chunks = concat (map (\<lambda>c.
     if int (length (encode_utf8 c)) \<le> budget then [c] else chunk_utf8_bytes c budget) chunks)"

fun shrink_rounds :: "nat \<Rightarrow> codepoints \<Rightarrow> int \<Rightarrow> int \<Rightarrow> codepoints list \<Rightarrow> codepoints list option" where
  "shrink_rounds 0 message budget limit chunks = Some (slice_wide budget chunks)"
| "shrink_rounds (Suc n) message budget limit chunks =
     (case widest_bytes chunks of
         None \<Rightarrow> None
       | Some widest \<Rightarrow>
           if widest \<le> budget then Some chunks
           else if limit \<le> MIN_BYTE_SHRINK_LIMIT then Some (slice_wide budget chunks)
           else (let scaled = limit * budget div widest;
                     limit' = max MIN_BYTE_SHRINK_LIMIT (min scaled (limit - 1))
                 in shrink_rounds n message budget limit' (split_markdown_safe message limit' 0)))"

definition split_markdown_bytes :: "codepoints \<Rightarrow> int \<Rightarrow> int \<Rightarrow> codepoints list option" where
  "split_markdown_bytes message max_bytes reserve =
     (let budget = max_bytes - reserve
      in if message = [] then Some []
         else if max_bytes \<le> 0 \<or> budget \<le> 0 then Some [message]
         else if int (length (encode_utf8 message)) \<le> budget then Some [message]
         else shrink_rounds BYTE_SHRINK_ROUNDS message budget budget (split_markdown_safe message budget 0))"

lemma loop_nonempty:
  "list_all (\<lambda>fr. fst fr \<noteq> []) (map fst buf @ W) \<Longrightarrow> buf \<noteq> [] \<or> W \<noteq> [] \<Longrightarrow>
     split_loop limit cap W buf fo reopen used \<noteq> []"
proof (induction limit cap W buf fo reopen used rule: split_loop.induct)
  case (1 limit cap buf fo reopen used)
  then have "frag_text buf \<noteq> []" by (cases buf) auto
  then show ?case by (simp add: split_loop.simps emit_def)
next
  case (2 limit cap fr work buf fo reopen used)
  have e: "emit c xs \<noteq> []" if "xs \<noteq> []" for c xs using that by (simp add: emit_def)
  show ?case
  proof (cases "used + length (fst fr) + hold_of fo fr \<le> cap")
    case True
    show ?thesis unfolding loop_place [OF True] by (rule 2(1) [OF True]) (use 2(5) in simp_all)
  next
    case nA: False
    show ?thesis
    proof (cases "seals_first cap used fo buf (fst fr)")
      case True
      have "list_all (\<lambda>fr. fst fr \<noteq> []) (map fst (drop (keep_of cap fo reopen buf) buf))"
        using 2(5) by (auto simp: list_all_iff dest: in_set_dropD)
      then show ?thesis unfolding loop_seal [OF nA True refl refl]
        by (intro e 2(2) [OF nA True refl refl]) (use 2(5) in simp_all)
    next
      case ns: False
      show ?thesis
      proof (cases "ladder_cut limit cap used fo fr = 0")
        case True
        show ?thesis unfolding loop_whole [OF nA ns True]
          by (rule 2(3) [OF nA ns refl True]) (use 2(5) in simp_all)
      next
        case nz: False
        show ?thesis unfolding loop_cut [OF nA ns refl nz]
          by (rule 2(4) [OF nA ns refl nz]) (use 2(5) nz ladder_cut_less [OF nz] in auto)
      qed
    qed
  qed
qed

lemma md_lines_visible: "list_all (\<lambda>fr. fst fr \<noteq> []) (map whole_line (md_lines tx)) \<and> (tx \<noteq> [] \<longrightarrow> md_lines tx \<noteq> [])"
proof (induction tx rule: md_lines.induct)
  case (1 tx)
  show ?case
  proof (cases "tx = []")
    case True
    then show ?thesis by (simp add: md_lines.simps [of "[]"])
  next
    case False
    from 1 [OF False refl refl] show ?thesis by (subst (1 2) md_lines.simps) (simp add: Let_def False)
  qed
qed

lemma split_nonempty: "message \<noteq> [] \<Longrightarrow> split_markdown_safe message limit reserve \<noteq> []"
  using md_lines_visible [of message] loop_nonempty [of "[]" "map whole_line (md_lines message)"]
  by (simp add: split_markdown_safe_def Let_def)

lemma slice_wide_fits:
  assumes "4 \<le> budget"
  shows "list_all (\<lambda>c. int (length (encode_utf8 c)) \<le> budget) (slice_wide budget chunks)"
proof -
  have "int (length (encode_utf8 d)) \<le> budget" if "d \<in> set (chunk_utf8_bytes c budget)" for c d
  proof -
    have "d \<in> set (chunk_utf8 c (nat budget))"
      using that assms by (auto simp: chunk_utf8_bytes_def split: if_splits)
    then have "length (encode_utf8 d) \<le> nat budget \<or> length d = 1"
      using chunk_utf8_spec [of c "nat budget"] by (auto simp: list_all_iff)
    moreover have "length (encode_utf8 d) \<le> 4" if "length d = 1"
      using that cp_utf8_length(2) by (cases d) auto
    ultimately show ?thesis using assms by linarith
  qed
  then show ?thesis by (auto simp: slice_wide_def list_all_iff)
qed

lemma widest_fits:
  "widest_bytes chunks = Some w \<Longrightarrow> w \<le> budget \<Longrightarrow> list_all (\<lambda>c. int (length (encode_utf8 c)) \<le> budget) chunks"
proof -
  assume w: "widest_bytes chunks = Some w" "w \<le> budget"
  have "int (length (encode_utf8 c)) \<le> w" if "c \<in> set chunks" for c
  proof -
    have "length (encode_utf8 c) \<le> Max (set (map (\<lambda>c. length (encode_utf8 c)) chunks))"
      using that by (intro Max_ge) simp_all
    then show ?thesis using w(1) by (auto simp: widest_bytes_def split: if_splits)
  qed
  with w(2) show ?thesis by (force simp: list_all_iff)
qed

lemma shrink_rounds_fit:
  "4 \<le> budget \<Longrightarrow> message \<noteq> [] \<Longrightarrow> chunks \<noteq> [] \<Longrightarrow>
     \<exists>cs. shrink_rounds n message budget limit chunks = Some cs \<and>
       list_all (\<lambda>c. int (length (encode_utf8 c)) \<le> budget) cs"
proof (induction n arbitrary: limit chunks)
  case (Suc n)
  from Suc.prems(3) obtain w where w: "widest_bytes chunks = Some w" by (simp add: widest_bytes_def)
  consider "w \<le> budget" | "\<not> w \<le> budget" "limit \<le> MIN_BYTE_SHRINK_LIMIT"
    | "\<not> w \<le> budget" "\<not> limit \<le> MIN_BYTE_SHRINK_LIMIT" by blast
  then show ?case
  proof cases
    case 1
    then show ?thesis using w widest_fits by simp
  next
    case 2
    then show ?thesis using w slice_wide_fits Suc.prems(1) by simp
  next
    case 3
    then show ?thesis using w Suc.IH [OF Suc.prems(1,2) split_nonempty [OF Suc.prems(2)]] by (simp add: Let_def)
  qed
qed (simp add: slice_wide_fits)

text \<open>C39. Every chunk of a byte-limited message fits. Under a budget of at least four bytes, whatever the
  text, its fences and the shrinking of the character budget, splitting returns, raises nothing, and no chunk
  it returns encodes to more bytes than the budget.\<close>

theorem byte_chunks_fit:
  assumes "0 < max_bytes" "4 \<le> max_bytes - reserve"
  shows "\<exists>cs. split_markdown_bytes message max_bytes reserve = Some cs \<and>
    list_all (\<lambda>c. int (length (encode_utf8 c)) \<le> max_bytes - reserve) cs"
proof (cases "message = [] \<or> int (length (encode_utf8 message)) \<le> max_bytes - reserve")
  case True
  then show ?thesis using assms by (auto simp: split_markdown_bytes_def Let_def)
next
  case False
  then show ?thesis
    using assms shrink_rounds_fit [OF assms(2) _ split_nonempty, of message message] by (simp add: split_markdown_bytes_def Let_def)
qed

theorem byte_chunks_fit_witness:
  "\<exists>cs. split_markdown_bytes (replicate 20 20013) 10 2 = Some cs \<and>
    list_all (\<lambda>c. int (length (encode_utf8 c)) \<le> 8) cs"
  using byte_chunks_fit [of 10 2 "replicate 20 20013"] by simp

end
