(* ===== verification/Stream_Redactor.thy ===== *)
theory Stream_Redactor imports Markdown_Split begin

section \<open>Redaction of streamed output (\<^verbatim>\<open>StreamRedactor\<close> of \<^verbatim>\<open>security.py\<close>)\<close>

text \<open>
  The rolling buffer between a model's output stream and the screen. The redactor of whole texts is
  an argument of the class and of the model. The three regular expressions of the hold-back are
  written as patterns over code points and matched by derivatives; all three are pinned to the end
  of the text, where a backtracking search and membership in the language agree, and the start of a
  match is the leftmost one.
\<close>

subsection \<open>Patterns\<close>

datatype pattern =
    Never
  | Here
  | One_of "(nat \<times> nat) list"
  | Either pattern pattern
  | Then pattern pattern
  | Many pattern

fun in_ranges :: "(nat \<times> nat) list \<Rightarrow> nat \<Rightarrow> bool" where
  "in_ranges [] c = False"
| "in_ranges ((lo, hi) # rs) c = ((lo \<le> c \<and> c \<le> hi) \<or> in_ranges rs c)"

fun optional_match :: "pattern \<Rightarrow> bool" where
  "optional_match Never = False"
| "optional_match Here = True"
| "optional_match (One_of rs) = False"
| "optional_match (Either p q) = (optional_match p \<or> optional_match q)"
| "optional_match (Then p q) = (optional_match p \<and> optional_match q)"
| "optional_match (Many p) = True"

fun seq_pat :: "pattern \<Rightarrow> pattern \<Rightarrow> pattern" where
  "seq_pat Never q = Never"
| "seq_pat Here q = q"
| "seq_pat p q = Then p q"

fun alt_pat :: "pattern \<Rightarrow> pattern \<Rightarrow> pattern" where
  "alt_pat Never q = q"
| "alt_pat p q = (if q = Never then p else Either p q)"

fun after_char :: "nat \<Rightarrow> pattern \<Rightarrow> pattern" where
  "after_char c Never = Never"
| "after_char c Here = Never"
| "after_char c (One_of rs) = (if in_ranges rs c then Here else Never)"
| "after_char c (Either p q) = alt_pat (after_char c p) (after_char c q)"
| "after_char c (Then p q) = (if optional_match p then alt_pat (seq_pat (after_char c p) q) (after_char c q)
     else seq_pat (after_char c p) q)"
| "after_char c (Many p) = seq_pat (after_char c p) (Many p)"

fun fullmatch :: "pattern \<Rightarrow> codepoints \<Rightarrow> bool" where
  "fullmatch p [] = optional_match p"
| "fullmatch p (c # s) = fullmatch (after_char c p) s"

text \<open>\<open>search_to_end\<close> is \<^verbatim>\<open>re.search\<close> of a pattern that ends in \<^verbatim>\<open>\Z\<close>: where its leftmost match starts.\<close>

definition search_to_end :: "pattern \<Rightarrow> codepoints \<Rightarrow> nat option" where
  "search_to_end p s = find (\<lambda>i. fullmatch p (drop i s)) [0..<Suc (length s)]"

text \<open>\<^verbatim>\<open>$\<close> also matches before a newline that ends the text.\<close>

definition search_to_dollar :: "pattern \<Rightarrow> codepoints \<Rightarrow> bool" where
  "search_to_dollar p s = (search_to_end p s \<noteq> None \<or>
     (s \<noteq> [] \<and> last s = NL \<and> search_to_end p (butlast s) \<noteq> None))"

definition maybe :: "pattern \<Rightarrow> pattern" where
  "maybe p = Either p Here"

fun up_to :: "nat \<Rightarrow> pattern \<Rightarrow> pattern" where
  "up_to 0 p = Here"
| "up_to (Suc n) p = maybe (Then p (up_to n p))"

text \<open>A letter as \<^verbatim>\<open>re.IGNORECASE\<close> compares it, given its lower case: the dotted and dotless
  \<open>i\<close>, the long \<open>s\<close> and the Kelvin sign count as the ASCII letters.\<close>

definition any_case :: "nat \<Rightarrow> (nat \<times> nat) list" where
  "any_case c = (c - 32, c - 32) # (c, c) #
     (if c = 105 then [(304, 305)] else if c = 115 then [(383, 383)] else if c = 107 then [(8490, 8490)] else [])"

definition cps :: "string \<Rightarrow> codepoints" where
  "cps s = map of_char s"

fun word_then :: "codepoints \<Rightarrow> pattern \<Rightarrow> pattern" where
  "word_then [] p = p"
| "word_then (c # w) p = Then (One_of (any_case c)) (word_then w p)"

definition some_space :: pattern where
  "some_space = One_of [(9, 13), (28, 32), (133, 133), (160, 160), (5760, 5760), (8192, 8202), (8232, 8233),
     (8239, 8239), (8287, 8287), (12288, 12288)]"

subsection \<open>What is held back\<close>

definition STREAM_HOLDBACK_MAX :: nat where "STREAM_HOLDBACK_MAX = 512"
definition STREAM_HOLDBACK_JWT_MAX :: nat where "STREAM_HOLDBACK_JWT_MAX = 4096"

definition REDACTED_CREDENTIAL_TAG :: codepoints where
  "REDACTED_CREDENTIAL_TAG = cps ''[REDACTED: credential]''"

definition cred_char :: "nat \<Rightarrow> bool" where
  "cred_char c = ((65 \<le> c \<and> c \<le> 90) \<or> (97 \<le> c \<and> c \<le> 122) \<or> (48 \<le> c \<and> c \<le> 57) \<or>
     c \<in> set (cps ''_-+/=.:@%~'') \<or> c = 34 \<or> c = 39 \<or> c \<in> set (cps ''?&#''))"

definition PEM_HOLD_RE :: pattern where
  "PEM_HOLD_RE = word_then (cps ''begin'') (Then some_space
     (Then (maybe (Either (word_then (cps ''rsa'') (maybe some_space))
             (Either (word_then (cps ''dsa'') (maybe some_space))
             (Either (word_then (cps ''ec'') (maybe some_space))
                     (word_then (cps ''openssh'') (maybe some_space))))))
     (Then (maybe (word_then (cps ''private'') Here)) (maybe some_space))))"

definition PARTIAL_JWT_TAIL_RE :: pattern where
  "PARTIAL_JWT_TAIL_RE = (let seg = One_of [(65, 90), (97, 122), (48, 57), (95, 95), (45, 45)] in
     Then (One_of [(101, 101)]) (Then (One_of [(121, 121)]) (Then (One_of [(74, 74)])
       (Then seg (Then (Many seg) (up_to 4 (Then (One_of [(46, 46)]) (Many seg))))))))"

definition BEARER_TOKEN_CHAR :: pattern where
  "BEARER_TOKEN_CHAR = One_of [(65, 90), (97, 122), (48, 57), (46, 46), (95, 95), (126, 126), (43, 43), (47, 47),
     (61, 61), (45, 45), (304, 305), (383, 383), (8490, 8490)]"

definition BEARER_ANCHOR_PARTIAL_RE :: pattern where
  "BEARER_ANCHOR_PARTIAL_RE = (let quote_char = maybe (One_of [(34, 34), (39, 39)]) in
     word_then (cps ''authorization'') (Then quote_char (Then (Many some_space)
       (Then (One_of [(58, 58), (61, 61)]) (Then (Many some_space) (Then quote_char
         (maybe (Either (word_then (cps ''bearer'') (maybe (Then some_space (Then (Many some_space) (Many BEARER_TOKEN_CHAR)))))
           (Either (word_then (cps ''beare'') Here) (Either (word_then (cps ''bear'') Here)
           (Either (word_then (cps ''bea'') Here) (Either (word_then (cps ''be'') Here) (word_then (cps ''b'') Here))))))))))))) "

text \<open>\<open>run_start\<close> is where the maximal trailing run of credential characters starts; the other
  two adjustments of \<open>i\<close> follow it.\<close>

definition run_start :: "codepoints \<Rightarrow> nat" where
  "run_start buf = length buf - length (takeWhile cred_char (rev buf))"

definition pem_held :: "codepoints \<Rightarrow> nat \<Rightarrow> bool" where
  "pem_held buf i = (0 < i \<and> search_to_dollar PEM_HOLD_RE (drop (i - 50) (take i buf)))"

definition bearer_anchor :: "codepoints \<Rightarrow> nat option" where
  "bearer_anchor buf = search_to_end BEARER_ANCHOR_PARTIAL_RE buf"

definition jwt_tail :: "codepoints \<Rightarrow> nat option" where
  "jwt_tail buf = search_to_end PARTIAL_JWT_TAIL_RE buf"

definition hold_start :: "codepoints \<Rightarrow> nat" where
  "hold_start buf =
     (let i = run_start buf;
          i = (if pem_held buf i then 0 else i)
      in case bearer_anchor buf of None \<Rightarrow> i | Some p \<Rightarrow> min i p)"

definition cred_anchored :: "codepoints \<Rightarrow> bool" where
  "cred_anchored buf = (jwt_tail buf \<noteq> None \<or> bearer_anchor buf \<noteq> None)"

definition holdback_cap :: "codepoints \<Rightarrow> nat \<Rightarrow> nat" where
  "holdback_cap buf i = (if length buf - i > STREAM_HOLDBACK_MAX \<and> cred_anchored buf
     then STREAM_HOLDBACK_JWT_MAX else STREAM_HOLDBACK_MAX)"

text \<open>What one call of \<^verbatim>\<open>feed\<close> does with the buffer: keep all of it, commit a prefix, or
  commit a prefix and drop the rest behind the tag.\<close>

datatype cut_decision = Hold_all | Commit nat | Drop_tail nat

definition decide :: "codepoints \<Rightarrow> cut_decision" where
  "decide buf =
     (let i = hold_start buf; cap = holdback_cap buf i in
      if length buf - i > cap then
        (if cred_anchored buf then Drop_tail i else Commit (length buf - cap))
      else if i = 0 then Hold_all
      else Commit i)"

subsection \<open>The redactor\<close>

record stream_redactor =
  sr_buf :: codepoints
  sr_redact :: "codepoints \<Rightarrow> codepoints"

definition new_redactor :: "(codepoints \<Rightarrow> codepoints) \<Rightarrow> stream_redactor" where
  "new_redactor redactor = \<lparr>sr_buf = [], sr_redact = redactor\<rparr>"

definition feed :: "codepoints \<Rightarrow> stream_redactor \<Rightarrow> codepoints \<times> stream_redactor" where
  "feed chunk r =
     (if chunk = [] then ([], r)
      else let buf = sr_buf r @ chunk in
        case decide buf of
          Hold_all \<Rightarrow> ([], r\<lparr>sr_buf := buf\<rparr>)
        | Commit i \<Rightarrow> (sr_redact r (take i buf), r\<lparr>sr_buf := drop i buf\<rparr>)
        | Drop_tail i \<Rightarrow> ((if take i buf = [] then [] else sr_redact r (take i buf)) @ REDACTED_CREDENTIAL_TAG,
            r\<lparr>sr_buf := []\<rparr>))"

definition flush :: "stream_redactor \<Rightarrow> codepoints \<times> stream_redactor" where
  "flush r = ((if sr_buf r = [] then [] else sr_redact r (sr_buf r)), r\<lparr>sr_buf := []\<rparr>)"

definition reset_redactor :: "stream_redactor \<Rightarrow> stream_redactor" where
  "reset_redactor r = r\<lparr>sr_buf := []\<rparr>"

text \<open>A whole stream: its chunks in order, then the flush that ends the segment.\<close>

fun stream_from :: "stream_redactor \<Rightarrow> codepoints list \<Rightarrow> codepoints" where
  "stream_from r [] = fst (flush r)"
| "stream_from r (c # cs) = (let (out, r') = feed c r in out @ stream_from r' cs)"

definition streamed :: "(codepoints \<Rightarrow> codepoints) \<Rightarrow> codepoints list \<Rightarrow> codepoints" where
  "streamed redactor chunks = stream_from (new_redactor redactor) chunks"

subsection \<open>The matcher and the language of a pattern\<close>

inductive spells :: "pattern \<Rightarrow> codepoints \<Rightarrow> bool" where
  here: "spells Here []"
| one_of: "in_ranges rs c \<Longrightarrow> spells (One_of rs) [c]"
| either1: "spells p s \<Longrightarrow> spells (Either p q) s"
| either2: "spells q s \<Longrightarrow> spells (Either p q) s"
| thens: "spells p s \<Longrightarrow> spells q t \<Longrightarrow> spells (Then p q) (s @ t)"
| many0: "spells (Many p) []"
| many1: "spells p s \<Longrightarrow> spells (Many p) t \<Longrightarrow> spells (Many p) (s @ t)"

inductive_cases spells_NeverE [elim!]: "spells Never s"
inductive_cases spells_HereE: "spells Here s"
inductive_cases spells_OneE: "spells (One_of rs) s"
inductive_cases spells_EitherE: "spells (Either p q) s"
inductive_cases spells_ThenE: "spells (Then p q) s"
inductive_cases spells_ManyE: "spells (Many p) s"

lemma spells_Here [simp]: "spells Here s \<longleftrightarrow> s = []"
  by (auto intro: here elim: spells_HereE)

lemma spells_One [simp]: "spells (One_of rs) s \<longleftrightarrow> (\<exists>c. s = [c] \<and> in_ranges rs c)"
  by (auto intro: one_of elim: spells_OneE)

lemma spells_Either [simp]: "spells (Either p q) s \<longleftrightarrow> spells p s \<or> spells q s"
  by (auto intro: either1 either2 elim: spells_EitherE)

lemma spells_Then: "spells (Then p q) s \<longleftrightarrow> (\<exists>a b. s = a @ b \<and> spells p a \<and> spells q b)"
proof
  show "\<exists>a b. s = a @ b \<and> spells p a \<and> spells q b" if "spells (Then p q) s"
    using that by (rule spells_ThenE) blast
qed (auto intro: thens)

lemma spells_seq: "spells (seq_pat p q) s \<longleftrightarrow> spells (Then p q) s"
  by (cases p) (auto simp: spells_Then)

lemma spells_alt: "spells (alt_pat p q) s \<longleftrightarrow> spells p s \<or> spells q s"
  by (cases p) auto

lemma spells_Nil: "spells p [] \<longleftrightarrow> optional_match p"
  by (induction p) (auto simp: spells_Then intro: many0)

lemma spells_Many_Cons:
  "spells (Many p) (c # s) \<longleftrightarrow> (\<exists>a b. s = a @ b \<and> spells p (c # a) \<and> spells (Many p) b)"
proof
  show "spells (Many p) (c # s)" if "\<exists>a b. s = a @ b \<and> spells p (c # a) \<and> spells (Many p) b"
    using that many1 by fastforce
  have "m = Many p \<Longrightarrow> u = c # s \<Longrightarrow> \<exists>a b. s = a @ b \<and> spells p (c # a) \<and> spells (Many p) b"
    if "spells m u" for m u
    using that
  proof (induction arbitrary: s rule: spells.induct)
    case (many1 q a b)
    then show ?case by (cases a) auto
  qed auto
  then show "\<exists>a b. s = a @ b \<and> spells p (c # a) \<and> spells (Many p) b" if "spells (Many p) (c # s)"
    using that by blast
qed

lemma spells_after: "spells (after_char c p) s \<longleftrightarrow> spells p (c # s)"
proof (induction p arbitrary: s)
  case (Then p q)
  have "spells (Then p q) (c # s) \<longleftrightarrow>
      (optional_match p \<and> spells q (c # s)) \<or> (\<exists>a b. s = a @ b \<and> spells p (c # a) \<and> spells q b)"
    unfolding spells_Then by (simp add: Cons_eq_append_conv ex_disj_distrib conj_disj_distribR flip: spells_Nil) blast
  with Then show ?case by (auto simp: spells_alt spells_seq spells_Then)
qed (auto simp: spells_alt spells_seq spells_Then spells_Many_Cons)

lemma fullmatch_spells: "fullmatch p s \<longleftrightarrow> spells p s"
  by (induction s arbitrary: p) (simp_all add: spells_Nil spells_after)

lemmas pattern_eval = PEM_HOLD_RE_def PARTIAL_JWT_TAIL_RE_def BEARER_ANCHOR_PARTIAL_RE_def BEARER_TOKEN_CHAR_def
  some_space_def maybe_def any_case_def cps_def Let_def

lemma search_to_end_Some:
  assumes "search_to_end p s = Some i"
  shows "i \<le> length s" "spells p (drop i s)"
  using assms unfolding search_to_end_def find_Some_iff by (auto simp: fullmatch_spells simp del: upt_Suc)

lemma search_to_end_rec:
  "search_to_end p [] = (if optional_match p then Some 0 else None)"
  "search_to_end p (c # s) = (if fullmatch p (c # s) then Some 0 else map_option Suc (search_to_end p s))"
proof -
  have find_Suc: "find P (map Suc xs) = map_option Suc (find (\<lambda>i. P (Suc i)) xs)" for P xs
    by (induction xs) auto
  show "search_to_end p [] = (if optional_match p then Some 0 else None)" by (simp add: search_to_end_def)
  show "search_to_end p (c # s) = (if fullmatch p (c # s) then Some 0 else map_option Suc (search_to_end p s))"
  proof -
    have "[0..<Suc (length (c # s))] = 0 # map Suc [0..<Suc (length s)]"
      by (simp add: upt_conv_Cons map_Suc_upt del: upt_Suc)
    then show ?thesis by (simp add: search_to_end_def find_Suc del: upt_Suc fullmatch.simps(2))
  qed
qed

lemma search_from_start: "fullmatch p s \<Longrightarrow> search_to_end p s = Some 0"
  by (simp add: search_to_end_def upt_conv_Cons del: upt_Suc)

lemma search_to_end_None: "search_to_end p s = None \<longleftrightarrow> (\<forall>i \<le> length s. \<not> spells p (drop i s))"
  by (auto simp: search_to_end_def find_None_iff fullmatch_spells simp del: upt_Suc)

text \<open>What a pattern matches is made of the characters its classes admit.\<close>

fun admits :: "(nat \<Rightarrow> bool) \<Rightarrow> pattern \<Rightarrow> bool" where
  "admits P Never = True"
| "admits P Here = True"
| "admits P (One_of rs) = list_all (\<lambda>(lo, hi). list_all P [lo..<Suc hi]) rs"
| "admits P (Either p q) = (admits P p \<and> admits P q)"
| "admits P (Then p q) = (admits P p \<and> admits P q)"
| "admits P (Many p) = admits P p"

lemma in_ranges_admits: "admits P (One_of rs) \<Longrightarrow> in_ranges rs c \<Longrightarrow> P c"
  by (induction rs) (auto simp: list_all_iff simp del: upt_Suc)

lemma spells_admits: "spells p s \<Longrightarrow> admits P p \<Longrightarrow> list_all P s"
proof (induction rule: spells.induct)
  case (one_of rs c)
  then show ?case using in_ranges_admits by fastforce
qed auto

definition word_at :: "codepoints \<Rightarrow> codepoints \<Rightarrow> bool" where
  "word_at w s = (length w \<le> length s \<and> list_all2 (\<lambda>c x. in_ranges (any_case c) x) w (take (length w) s))"

lemma spells_word: "spells (word_then w p) s \<Longrightarrow> word_at w s"
proof (induction w arbitrary: s)
  case (Cons c w)
  then obtain x t where "s = x # t" "in_ranges (any_case c) x" "spells (word_then w p) t"
    by (auto simp: spells_Then)
  with Cons.IH [of t] show ?case by (auto simp: word_at_def)
qed (simp add: word_at_def)

subsection \<open>Where the buffer is cut\<close>

lemma run_start_Nil [simp]: "run_start [] = 0"
  by (simp add: run_start_def)

lemma run_start_le [simp]: "run_start b \<le> length b"
  by (simp add: run_start_def)

lemma drop_run_start: "drop (run_start b) b = rev (takeWhile cred_char (rev b))"
proof -
  have b: "b = rev (dropWhile cred_char (rev b)) @ rev (takeWhile cred_char (rev b))"
    by (metis rev_append rev_rev_ident takeWhile_dropWhile_id)
  have "length (rev (dropWhile cred_char (rev b))) = run_start b"
    using arg_cong [OF b, of length] by (simp add: run_start_def)
  with b show ?thesis by (metis append_eq_conv_conj)
qed

lemma take_run_start: "take (run_start b) b = rev (dropWhile cred_char (rev b))"
  by (metis append_take_drop_id append_same_eq drop_run_start rev_append rev_rev_ident takeWhile_dropWhile_id)

lemma trailing_run: "list_all cred_char (drop (run_start b) b)"
  by (simp add: drop_run_start list_all_iff) (meson set_takeWhileD)

lemma run_start_boundary: "take (run_start b) b \<noteq> [] \<Longrightarrow> \<not> cred_char (last (take (run_start b) b))"
  by (simp add: take_run_start last_rev hd_dropWhile)

lemma run_start_maximal:
  assumes "list_all cred_char (drop p b)" "p \<le> length b"
  shows "run_start b \<le> p"
proof -
  have "rev b = rev (drop p b) @ rev (take p b)" by (metis append_take_drop_id rev_append)
  moreover have "takeWhile cred_char (rev (drop p b) @ rev (take p b)) = rev (drop p b) @ takeWhile cred_char (rev (take p b))"
    by (rule takeWhile_append2) (use assms(1) in \<open>simp add: list_all_iff\<close>)
  ultimately have "takeWhile cred_char (rev b) = rev (drop p b) @ takeWhile cred_char (rev (take p b))" by simp
  with assms(2) show ?thesis by (simp add: run_start_def)
qed

lemma hold_start_le: "hold_start b \<le> run_start b"
  by (simp add: hold_start_def Let_def split: option.split)

lemma hold_start_anchor: "bearer_anchor b = Some p \<Longrightarrow> hold_start b \<le> p"
  by (simp add: hold_start_def Let_def)

lemma hold_start_jwt:
  assumes "jwt_tail b = Some p"
  shows "hold_start b \<le> p"
proof -
  have p: "p \<le> length b" "spells PARTIAL_JWT_TAIL_RE (drop p b)"
    using assms search_to_end_Some unfolding jwt_tail_def by blast+
  have "admits cred_char PARTIAL_JWT_TAIL_RE" by code_simp
  with p have "run_start b \<le> p" using spells_admits run_start_maximal by blast
  then show ?thesis using hold_start_le [of b] by linarith
qed

lemma decide_anchored:
  "cred_anchored b \<Longrightarrow> decide b \<in> {Drop_tail (hold_start b), Hold_all, Commit (hold_start b)}"
  by (simp add: decide_def Let_def)

lemma decide_Hold: "decide b = Hold_all \<Longrightarrow> hold_start b = 0 \<and> length b \<le> holdback_cap b 0"
  by (auto simp: decide_def Let_def split: if_splits)

lemma decide_Commit: "decide b = Commit j \<Longrightarrow> 0 < j \<and> j \<le> length b \<and> length b - j \<le> holdback_cap b (hold_start b)"
  using le_trans [OF hold_start_le [of b] run_start_le [of b]]
  by (auto simp: decide_def Let_def holdback_cap_def STREAM_HOLDBACK_MAX_def STREAM_HOLDBACK_JWT_MAX_def
      split: if_splits)

definition emitted :: "stream_redactor \<Rightarrow> codepoints \<Rightarrow> codepoints" where
  "emitted r head = (if head = [] then [] else sr_redact r head)"

lemma feed_cases:
  assumes "chunk \<noteq> []" "b = sr_buf r @ chunk"
  shows "decide b = Hold_all \<Longrightarrow> feed chunk r = ([], r\<lparr>sr_buf := b\<rparr>)"
    and "decide b = Commit j \<Longrightarrow> feed chunk r = (emitted r (take j b), r\<lparr>sr_buf := drop j b\<rparr>)"
    and "decide b = Drop_tail j \<Longrightarrow>
           feed chunk r = (emitted r (take j b) @ REDACTED_CREDENTIAL_TAG, r\<lparr>sr_buf := []\<rparr>)"
  using assms decide_Commit [of b j] by (auto simp: feed_def emitted_def)

subsection \<open>Credential tails\<close>

text \<open>Where a credential still arriving starts: the bearer anchor, or the first three letters of a
  token of three or five segments.\<close>

definition secret_tail :: "codepoints \<Rightarrow> nat \<Rightarrow> bool" where
  "secret_tail b p = (bearer_anchor b = Some p \<or> jwt_tail b = Some p)"

lemma withheld_tail:
  assumes "chunk \<noteq> []" "secret_tail (sr_buf r @ chunk) p"
  shows "\<exists>j \<le> p. feed chunk r \<in> {(emitted r (take j (sr_buf r @ chunk)), r\<lparr>sr_buf := drop j (sr_buf r @ chunk)\<rparr>),
      (emitted r (take j (sr_buf r @ chunk)) @ REDACTED_CREDENTIAL_TAG, r\<lparr>sr_buf := []\<rparr>)}"
proof -
  define b where "b = sr_buf r @ chunk"
  have p: "hold_start b \<le> p" and "cred_anchored b"
    using assms(2) hold_start_anchor hold_start_jwt unfolding b_def secret_tail_def cred_anchored_def by auto
  then consider "decide b = Drop_tail (hold_start b)" | "decide b = Hold_all" | "decide b = Commit (hold_start b)"
    using decide_anchored by blast
  then have "feed chunk r \<in> {(emitted r (take (hold_start b) b), r\<lparr>sr_buf := drop (hold_start b) b\<rparr>),
      (emitted r (take (hold_start b) b) @ REDACTED_CREDENTIAL_TAG, r\<lparr>sr_buf := []\<rparr>)}"
  proof cases
    case 2
    then show ?thesis using feed_cases(1) [OF assms(1) b_def] decide_Hold [of b] by (simp add: emitted_def)
  qed (simp_all add: feed_cases [OF assms(1) b_def])
  with p show ?thesis unfolding b_def by blast
qed

lemma feed_bound:
  assumes "chunk \<noteq> []"
  shows "length (sr_buf (snd (feed chunk r)))
    \<le> (if cred_anchored (sr_buf r @ chunk) then STREAM_HOLDBACK_JWT_MAX else STREAM_HOLDBACK_MAX)"
proof -
  define b where "b = sr_buf r @ chunk"
  have cap: "holdback_cap b i \<le> (if cred_anchored b then STREAM_HOLDBACK_JWT_MAX else STREAM_HOLDBACK_MAX)" for i
    by (simp add: holdback_cap_def STREAM_HOLDBACK_MAX_def STREAM_HOLDBACK_JWT_MAX_def)
  show ?thesis
  proof (cases "decide b")
    case Hold_all
    then show ?thesis using feed_cases(1) [OF assms b_def] decide_Hold [of b] cap [of 0] by (simp flip: b_def)
  next
    case (Commit j)
    then show ?thesis
      using feed_cases(2) [OF assms b_def] decide_Commit [of b j] cap [of "hold_start b"] by (simp flip: b_def)
  next
    case (Drop_tail j)
    then show ?thesis using feed_cases(3) [OF assms b_def] by simp
  qed
qed

subsection \<open>The pieces of a stream\<close>

definition runs_within :: "nat \<Rightarrow> codepoints \<Rightarrow> bool" where
  "runs_within n s = (\<forall>a w b. s = a @ w @ b \<longrightarrow> list_all cred_char w \<longrightarrow> length w \<le> n)"

definition mentions :: "codepoints \<Rightarrow> codepoints \<Rightarrow> bool" where
  "mentions w s = (\<exists>i. word_at w (drop i s))"

definition ordinary :: "codepoints \<Rightarrow> bool" where
  "ordinary s = (runs_within STREAM_HOLDBACK_MAX s \<and> \<not> mentions (cps ''begin'') s \<and> \<not> mentions (cps ''authorization'') s)"

lemma word_at_append: "word_at w s \<Longrightarrow> word_at w (s @ t)"
  by (auto simp: word_at_def)

lemma mentions_append: "mentions w s \<Longrightarrow> mentions w (a @ s @ t)"
proof -
  assume "mentions w s"
  then obtain i where "word_at w (drop i s)" by (auto simp: mentions_def)
  then have "word_at w (drop i s @ drop (i - length s) t)" by (rule word_at_append)
  then have "word_at w (drop (length a + i) (a @ s @ t))" by simp
  then show ?thesis unfolding mentions_def by blast
qed

lemma runs_within_append: "runs_within n (a @ s @ t) \<Longrightarrow> runs_within n s"
  unfolding runs_within_def by (metis append.assoc)

lemma ordinary_append: "ordinary (a @ s @ t) \<Longrightarrow> ordinary s"
  unfolding ordinary_def using runs_within_append mentions_append by blast

lemma search_mentions:
  assumes "search_to_end (word_then w p) s \<noteq> None"
  shows "mentions w s"
proof -
  from assms obtain i where "search_to_end (word_then w p) s = Some i" by blast
  from search_to_end_Some(2) [OF this] show ?thesis unfolding mentions_def using spells_word by blast
qed

lemma dollar_mentions: "search_to_dollar (word_then w p) s \<Longrightarrow> mentions w s"
  unfolding search_to_dollar_def
proof (elim disjE conjE)
  assume "s \<noteq> []" "search_to_end (word_then w p) (butlast s) \<noteq> None"
  then show "mentions w s"
    using search_mentions mentions_append [of w "butlast s" "[]" "[last s]"] by fastforce
qed (rule search_mentions)

lemma word_at_mentions: "word_at w y \<Longrightarrow> mentions w (x @ y @ z)"
proof -
  assume "word_at w y"
  then have "mentions w y" unfolding mentions_def by (intro exI [of _ 0]) simp
  then show ?thesis by (rule mentions_append)
qed

text \<open>
  Where a text may be cut: behind a character outside the credential class; before the word of a bearer anchor;
  inside a run of credential characters that is longer than the hold-back; or while the word of a private-key header holds the text
  before it back to the cap. What may be dropped: more than the larger cap of text that is one run or starts with
  the word of an anchor or mentions that of a header.
\<close>

definition cut_here :: "codepoints \<Rightarrow> codepoints \<Rightarrow> bool" where
  "cut_here x y = (\<not> cred_char (last x) \<or> word_at (cps ''authorization'') y \<or>
     (STREAM_HOLDBACK_MAX \<le> length y \<and> cred_char (last x) \<and> list_all cred_char (take STREAM_HOLDBACK_MAX y)) \<or>
     mentions (cps ''begin'') (x @ take STREAM_HOLDBACK_MAX y))"

definition droppable :: "codepoints \<Rightarrow> bool" where
  "droppable d = (STREAM_HOLDBACK_JWT_MAX < length d \<and>
     (list_all cred_char d \<or> word_at (cps ''authorization'') d \<or> mentions (cps ''begin'') d))"

text \<open>A text cut into pieces, each with the text that is dropped behind it, and what a redactor makes of a piece.\<close>

inductive cut_up :: "codepoints \<Rightarrow> (codepoints \<times> codepoints) list \<Rightarrow> bool" where
  cut_none: "cut_up [] []"
| cut_last: "x \<noteq> [] \<Longrightarrow> cut_up x [(x, [])]"
| cut_piece: "x \<noteq> [] \<Longrightarrow> cut_here x y \<Longrightarrow> cut_up y ps \<Longrightarrow> cut_up (x @ y) ((x, []) # ps)"
| cut_drop: "droppable d \<Longrightarrow> cut_up y ps \<Longrightarrow> cut_up (x @ d @ y) ((x, d) # ps)"

definition piece_shown :: "(codepoints \<Rightarrow> codepoints) \<Rightarrow> codepoints \<times> codepoints \<Rightarrow> codepoints" where
  "piece_shown f p = (if fst p = [] then [] else f (fst p)) @ (if snd p = [] then [] else REDACTED_CREDENTIAL_TAG)"

definition in_pieces :: "(codepoints \<Rightarrow> codepoints) \<Rightarrow> codepoints \<Rightarrow> codepoints \<Rightarrow> bool" where
  "in_pieces f s out = (\<exists>ps. cut_up s ps \<and> out = concat (map (piece_shown f) ps))"

lemma in_pieces_last: "in_pieces f s (if s = [] then [] else f s)"
  unfolding in_pieces_def
proof (cases "s = []")
  case True
  then show "\<exists>ps. cut_up s ps \<and> (if s = [] then [] else f s) = concat (map (piece_shown f) ps)"
    by (intro exI [of _ "[]"]) (simp add: cut_none)
next
  case False
  then show "\<exists>ps. cut_up s ps \<and> (if s = [] then [] else f s) = concat (map (piece_shown f) ps)"
    by (intro exI [of _ "[(s, [])]"]) (simp add: cut_last piece_shown_def)
qed

lemma in_pieces_cut: "x \<noteq> [] \<Longrightarrow> cut_here x y \<Longrightarrow> in_pieces f y out \<Longrightarrow> in_pieces f (x @ y) (f x @ out)"
  unfolding in_pieces_def
proof (elim exE conjE)
  fix ps assume "x \<noteq> []" "cut_here x y" "cut_up y ps" "out = concat (map (piece_shown f) ps)"
  then show "\<exists>ps. cut_up (x @ y) ps \<and> f x @ out = concat (map (piece_shown f) ps)"
    by (intro exI [of _ "(x, []) # ps"]) (simp add: cut_piece piece_shown_def)
qed

lemma in_pieces_drop:
  "droppable d \<Longrightarrow> in_pieces f y out \<Longrightarrow> in_pieces f (x @ d @ y) ((if x = [] then [] else f x) @ REDACTED_CREDENTIAL_TAG @ out)"
  unfolding in_pieces_def
proof (elim exE conjE)
  fix ps assume d: "droppable d" "cut_up y ps" "out = concat (map (piece_shown f) ps)"
  moreover have "d \<noteq> []" using d(1) by (auto simp: droppable_def)
  ultimately show "\<exists>ps. cut_up (x @ d @ y) ps \<and> (if x = [] then [] else f x) @ REDACTED_CREDENTIAL_TAG @ out = concat (map (piece_shown f) ps)"
    by (intro exI [of _ "(x, d) # ps"]) (simp add: cut_drop piece_shown_def)
qed

text \<open>The three places the hold may start at.\<close>

lemma pem_mentions: "pem_held b i \<Longrightarrow> mentions (cps ''begin'') b"
proof -
  assume "pem_held b i"
  then have "mentions (cps ''begin'') (drop (i - 50) (take i b))"
    unfolding pem_held_def PEM_HOLD_RE_def using dollar_mentions by blast
  then have "mentions (cps ''begin'') (take (i - 50) b @ drop (i - 50) (take i b) @ drop i b)" by (rule mentions_append)
  also have "take (i - 50) b @ drop (i - 50) (take i b) @ drop i b = b"
  proof -
    have "take (i - 50) (take i b) @ drop (i - 50) (take i b) = take i b" by (rule append_take_drop_id)
    then show ?thesis by (metis append.assoc append_take_drop_id diff_le_self min.absorb1 take_take)
  qed
  finally show ?thesis .
qed

lemma anchor_word: "bearer_anchor b = Some p \<Longrightarrow> word_at (cps ''authorization'') (drop p b)"
  using search_to_end_Some(2) spells_word unfolding bearer_anchor_def BEARER_ANCHOR_PARTIAL_RE_def Let_def by blast

lemma hold_start_cases:
  "hold_start b = run_start b \<or> (hold_start b = 0 \<and> mentions (cps ''begin'') b) \<or>
    (bearer_anchor b \<noteq> None \<and> word_at (cps ''authorization'') (drop (hold_start b) b))"
proof (cases "bearer_anchor b")
  case None
  then have "hold_start b = (if pem_held b (run_start b) then 0 else run_start b)" by (simp add: hold_start_def Let_def)
  then show ?thesis using pem_mentions [of b] by (cases "pem_held b (run_start b)") auto
next
  case (Some p)
  let ?i = "if pem_held b (run_start b) then 0 else run_start b"
  have "hold_start b = min ?i p" using Some by (simp add: hold_start_def Let_def)
  then consider "hold_start b = ?i" | "hold_start b = p" by (cases "?i \<le> p") auto
  then show ?thesis
  proof cases
    case 1
    then show ?thesis using pem_mentions [of b] by (cases "pem_held b (run_start b)") auto
  next
    case 2
    then show ?thesis using anchor_word [OF Some] Some by simp
  qed
qed

lemma commit_cuts:
  assumes "decide b = Commit j"
  shows "cut_here (take j b) (drop j b @ z)"
proof -
  have j: "0 < j" "j \<le> length b" using decide_Commit [OF assms] by blast+
  then have x: "take j b \<noteq> []" by auto
  consider "j = hold_start b" | "j = length b - STREAM_HOLDBACK_MAX" "STREAM_HOLDBACK_MAX < length b - hold_start b"
      "\<not> cred_anchored b"
    using assms by (auto simp: decide_def Let_def holdback_cap_def split: if_splits)
  then show ?thesis
  proof cases
    case 1
    then show ?thesis
      using hold_start_cases [of b] run_start_boundary [of b] x j(1) word_at_append by (auto simp: cut_here_def)
  next
    case 2
    have y: "length (drop j b) = STREAM_HOLDBACK_MAX" using 2(1,2) by simp
    consider "hold_start b = run_start b" | "mentions (cps ''begin'') b"
      using hold_start_cases [of b] 2(3) by (auto simp: cred_anchored_def)
    then show ?thesis
    proof cases
      case 1
      have d: "drop (run_start b) (take j b) \<noteq> []" using 2 1 j(2) by simp
      have "drop (run_start b) (take j b @ drop j b) = drop (run_start b) (take j b) @ drop j b"
        using 2 1 j(2) by (simp only: drop_append) simp
      then have "drop (run_start b) b = drop (run_start b) (take j b) @ drop j b" by simp
      then have "list_all cred_char (drop (run_start b) (take j b))" "list_all cred_char (drop j b)"
        using trailing_run [of b] by (metis list_all_append)+
      moreover have "last (take j b) \<in> set (drop (run_start b) (take j b))" using last_in_set [OF d] last_drop [of "run_start b" "take j b"] d by (metis drop_eq_Nil not_le)
      ultimately show ?thesis using y by (simp add: cut_here_def list_all_iff)
    next
      case 2
      then show ?thesis using y by (simp add: cut_here_def)
    qed
  qed
qed

lemma drop_tail_droppable:
  assumes "decide b = Drop_tail j"
  shows "droppable (drop j b)"
proof -
  have j: "j = hold_start b" "STREAM_HOLDBACK_JWT_MAX < length (drop j b)"
    using assms by (auto simp: decide_def Let_def holdback_cap_def STREAM_HOLDBACK_MAX_def STREAM_HOLDBACK_JWT_MAX_def split: if_splits)
  then show ?thesis using hold_start_cases [of b] trailing_run [of b] by (auto simp: droppable_def)
qed

text \<open>One chunk, and the flush behind a character that is no credential character.\<close>

lemma feed_in_pieces:
  assumes "feed c r = (out, r')" "in_pieces (sr_redact r) (sr_buf r' @ z) o'"
  shows "in_pieces (sr_redact r) (sr_buf r @ c @ z) (out @ o')"
proof (cases "c = []")
  case True
  then show ?thesis using assms by (auto simp: feed_def)
next
  case False
  define b where "b = sr_buf r @ c"
  note f = feed_cases [OF False b_def]
  have "in_pieces (sr_redact r) (b @ z) (out @ o')"
  proof (cases "decide b")
    case Hold_all
    then show ?thesis using f(1) assms by auto
  next
    case (Commit j)
    have x: "take j b \<noteq> []" using decide_Commit [OF Commit] False by (auto simp: b_def)
    then have e: "out = sr_redact r (take j b)" "sr_buf r' = drop j b"
      using f(2) [OF Commit] assms(1) by (auto simp: emitted_def)
    have "in_pieces (sr_redact r) (take j b @ drop j b @ z) (out @ o')"
      unfolding e(1) by (rule in_pieces_cut [OF x commit_cuts [OF Commit]]) (use assms(2) e(2) in simp)
    then show ?thesis by (simp flip: append.assoc)
  next
    case (Drop_tail j)
    have e: "out = emitted r (take j b) @ REDACTED_CREDENTIAL_TAG" "sr_buf r' = []" using f(3) [OF Drop_tail] assms(1) by auto
    have "in_pieces (sr_redact r) (take j b @ drop j b @ z) ((if take j b = [] then [] else sr_redact r (take j b)) @ REDACTED_CREDENTIAL_TAG @ o')"
      by (rule in_pieces_drop [OF drop_tail_droppable [OF Drop_tail]]) (use assms(2) e(2) in simp)
    moreover have "(if take j b = [] then [] else sr_redact r (take j b)) @ REDACTED_CREDENTIAL_TAG @ o' = out @ o'"
      by (simp only: e(1) emitted_def append.assoc)
    moreover have "take j b @ drop j b @ z = b @ z" by (simp flip: append.assoc)
    ultimately show ?thesis by metis
  qed
  then show ?thesis by (simp add: b_def)
qed

lemma feed_redactor: "feed c r = (out, r') \<Longrightarrow> sr_redact r' = sr_redact r"
  by (auto simp: feed_def Let_def split: cut_decision.splits if_splits)

lemma flush_in_pieces:
  assumes "sr_buf r = [] \<or> \<not> cred_char (last (sr_buf r))" "in_pieces (sr_redact r) z o'"
  shows "in_pieces (sr_redact r) (sr_buf r @ z) (fst (flush r) @ o')"
  using assms in_pieces_cut [of "sr_buf r" z "sr_redact r" o'] by (auto simp: flush_def cut_here_def)

lemma stream_from_in_pieces: "in_pieces (sr_redact r) (sr_buf r @ concat cs) (stream_from r cs)"
proof (induction cs arbitrary: r)
  case Nil
  then show ?case using in_pieces_last [of "sr_redact r" "sr_buf r"] by (simp add: flush_def)
next
  case (Cons c cs)
  obtain out r' where f: "feed c r = (out, r')" by fastforce
  show ?case using feed_in_pieces [OF f, of "concat cs"] feed_redactor [OF f] Cons [of r'] f by simp
qed

text \<open>In an ordinary text a run of credential characters lies within one piece.\<close>

definition runs_uncut :: "codepoints \<Rightarrow> (codepoints \<times> codepoints) list \<Rightarrow> bool" where
  "runs_uncut s ps = (\<forall>a w b. s = a @ w @ b \<longrightarrow> w \<noteq> [] \<longrightarrow> list_all cred_char w \<longrightarrow>
     (\<exists>p \<in> set ps. \<exists>u v. fst p = u @ w @ v))"

lemma ordinary_cut:
  assumes "ordinary (x @ y)" "x \<noteq> []" "cut_here x y"
  shows "\<not> cred_char (last x)"
proof
  assume l: "cred_char (last x)"
  have "\<not> word_at (cps ''authorization'') y"
    using word_at_mentions [of "cps ''authorization''" y x "[]"] assms(1) by (auto simp: ordinary_def)
  moreover have "\<not> mentions (cps ''begin'') (x @ take n y)" for n
    using mentions_append [of "cps ''begin''" "x @ take n y" "[]" "drop n y"] assms(1) by (auto simp: ordinary_def)
  moreover have "\<not> (STREAM_HOLDBACK_MAX \<le> length y \<and> list_all cred_char (take STREAM_HOLDBACK_MAX y))"
  proof
    assume y: "STREAM_HOLDBACK_MAX \<le> length y \<and> list_all cred_char (take STREAM_HOLDBACK_MAX y)"
    have "x @ y = butlast x @ (last x # take STREAM_HOLDBACK_MAX y) @ drop STREAM_HOLDBACK_MAX y" using assms(2) by simp
    moreover have "list_all cred_char (last x # take STREAM_HOLDBACK_MAX y)" using l y by simp
    ultimately have "length (last x # take STREAM_HOLDBACK_MAX y) \<le> STREAM_HOLDBACK_MAX"
      using assms(1) unfolding ordinary_def runs_within_def by blast
    then show False using y by simp
  qed
  ultimately show False using assms(3) l by (auto simp: cut_here_def)
qed

lemma ordinary_keeps: "ordinary (x @ d @ y) \<Longrightarrow> \<not> droppable d"
proof
  assume o: "ordinary (x @ d @ y)" and "droppable d"
  then have d: "STREAM_HOLDBACK_JWT_MAX < length d" "list_all cred_char d \<or> mentions (cps ''authorization'') d \<or> mentions (cps ''begin'') d"
    using word_at_mentions [of "cps ''authorization''" d "[]" "[]"] by (auto simp: droppable_def)
  have "ordinary d" using o by (rule ordinary_append)
  then have "list_all cred_char d" using d(2) by (simp add: ordinary_def)
  moreover have "d = [] @ d @ []" by simp
  ultimately have "length d \<le> STREAM_HOLDBACK_MAX" using \<open>ordinary d\<close> unfolding ordinary_def runs_within_def by blast
  then show False using d(1) by (simp add: STREAM_HOLDBACK_MAX_def STREAM_HOLDBACK_JWT_MAX_def)
qed

lemma ordinary_runs_uncut: "cut_up s ps \<Longrightarrow> ordinary s \<Longrightarrow> runs_uncut s ps"
proof (induction rule: cut_up.induct)
  case (cut_piece x y ps)
  have l: "\<not> cred_char (last x)" using ordinary_cut cut_piece by blast
  have y: "runs_uncut y ps" using cut_piece ordinary_append [of x y "[]"] by simp
  show ?case unfolding runs_uncut_def
  proof (intro allI impI)
    fix a w b assume s: "x @ y = a @ w @ b" and w: "w \<noteq> []" "list_all cred_char w"
    from s consider us where "x = a @ us" "us @ y = w @ b" | us where "x @ us = a" "y = us @ w @ b"
      by (auto simp: append_eq_append_conv2)
    then show "\<exists>p \<in> set ((x, []) # ps). \<exists>u v. fst p = u @ w @ v"
    proof cases
      case 1
      from 1(2) consider vs where "us = w @ vs" | vs where "us @ vs = w" by (auto simp: append_eq_append_conv2)
      then show ?thesis
      proof cases
        case 2
        have "us = []"
        proof (rule ccontr)
          assume "us \<noteq> []"
          then have "last x = last us" "last us \<in> set w" using 1(1) 2 by auto
          then show False using l w(2) by (simp add: list_all_iff)
        qed
        then have "y = [] @ w @ b" using 1(2) by simp
        then have "\<exists>p \<in> set ps. \<exists>u v. fst p = u @ w @ v" using y w unfolding runs_uncut_def by blast
        then show ?thesis by auto
      qed (use 1(1) in auto)
    next
      case 2
      then have "\<exists>p \<in> set ps. \<exists>u v. fst p = u @ w @ v" using y w unfolding runs_uncut_def by blast
      then show ?thesis by auto
    qed
  qed
next
  case (cut_drop d y ps x)
  then show ?case using ordinary_keeps by blast
qed (auto simp: runs_uncut_def)

text \<open>A redactor of runs, for concrete streams: a run of at least sixteen credential characters
  becomes the tag.\<close>

fun mask_runs :: "codepoints \<Rightarrow> codepoints \<Rightarrow> codepoints" where
  "mask_runs acc [] = (if 16 \<le> length acc then REDACTED_CREDENTIAL_TAG else acc)"
| "mask_runs acc (c # s) = (if cred_char c then mask_runs (acc @ [c]) s
     else (if 16 \<le> length acc then REDACTED_CREDENTIAL_TAG else acc) @ c # mask_runs [] s)"

lemma runs_within_short: "length s \<le> n \<Longrightarrow> runs_within n s"
  by (auto simp: runs_within_def)

lemma mentions_code [code]: "mentions w s = (w = [] \<or> list_ex (\<lambda>i. word_at w (drop i s)) [0..<length s])"
proof (cases "w = []")
  case False
  then have "word_at w (drop i s) \<Longrightarrow> i < length s" for i by (cases "i < length s") (simp_all add: word_at_def)
  then show ?thesis using False by (auto simp: mentions_def list_ex_iff)
qed (auto simp: mentions_def word_at_def)

text \<open>The hold for a private-key header ends at the cap like any other, and what it cuts there need
  not be a boundary: a token of twenty characters may lie across the cut, against the comment that
  commits only ever end outside the credential class.\<close>

lemma header_hold_cuts_a_token:
  assumes "list_all cred_char t" "length t = 20" "bearer_anchor (t @ replicate 500 32 @ cps ''BEGIN '') = None"
    "jwt_tail (t @ replicate 500 32 @ cps ''BEGIN '') = None"
  shows "decide (t @ replicate 500 32 @ cps ''BEGIN '') = Commit 14"
proof -
  define b where "b = t @ replicate 500 32 @ cps ''BEGIN ''"
  have len: "length b = 526" by (simp add: b_def assms(2) cps_def)
  have "takeWhile cred_char (rev b) = []" by (simp add: b_def cps_def cred_char_def)
  then have "run_start b = 526" by (simp add: run_start_def len)
  moreover have "drop (526 - 50) (take 526 b) = replicate 44 32 @ cps ''BEGIN ''"
  proof -
    have "drop (526 - 50) (take 526 b) = drop 456 (drop (length t) b)" using len assms(2) by simp
    also have "\<dots> = replicate 44 32 @ cps ''BEGIN ''" by (simp add: b_def)
    finally show ?thesis .
  qed
  moreover have "search_to_dollar PEM_HOLD_RE (replicate 44 32 @ cps ''BEGIN '')"
  proof -
    have "spells PEM_HOLD_RE (drop 44 (replicate 44 32 @ cps ''BEGIN ''))"
      by (simp add: pattern_eval flip: fullmatch_spells)
    moreover have "44 \<le> length (replicate 44 32 @ cps ''BEGIN '')" by simp
    ultimately show ?thesis unfolding search_to_dollar_def search_to_end_None by blast
  qed
  ultimately have "pem_held b (run_start b)" by (simp add: pem_held_def)
  then have "hold_start b = 0" using assms(3) by (simp add: hold_start_def b_def)
  then show ?thesis
    using assms(3,4) len unfolding b_def [symmetric]
    by (simp add: decide_def holdback_cap_def cred_anchored_def STREAM_HOLDBACK_MAX_def)
qed

text \<open>A buffer that ends in a line end is committed whole, so the lines of a private-key block behind its header, and a value behind a
  label and a space, reach the redactor without the header or the label its pattern needs.\<close>

lemma line_end_commits:
  assumes "b \<noteq> []" "last b = NL" "bearer_anchor b = None" "\<not> pem_held b (length b)"
  shows "decide b = Commit (length b)"
proof -
  have "\<not> cred_char NL" by (simp add: cred_char_def NL_def cps_def)
  then have "run_start b = length b" using assms(1,2) by (cases b rule: rev_cases) (simp_all add: run_start_def)
  then have "hold_start b = length b" using assms(3,4) by (simp add: hold_start_def)
  then show ?thesis using assms(1) by (simp add: decide_def holdback_cap_def)
qed

subsection \<open>Properties of the redactor\<close>

text \<open>C9. What a stream shows is its text redacted in pieces. However the text is cut into chunks and whatever the redactor, it
  is cut into consecutive pieces, each of which the redactor sees as a whole, and nothing is lost, doubled or shown
  without the redactor but what is dropped behind the tag. A cut lies behind a character outside the credential class, before the
  word of a bearer anchor, inside a run of such characters longer than the hold-back, or where the word of a private-key
  header holds the text back to the cap. So in a text without such runs and words every run of credential characters lies within one
  piece. (The patterns of the redactor that reach across spaces or line ends are not runs: they can be cut.)\<close>

theorem stream_is_redacted_in_pieces:
  "\<exists>ps. cut_up (concat chunks) ps \<and> streamed redactor chunks = concat (map (piece_shown redactor) ps) \<and>
     (ordinary (concat chunks) \<longrightarrow> runs_uncut (concat chunks) ps)"
  using stream_from_in_pieces [of "new_redactor redactor" chunks] ordinary_runs_uncut
  by (auto simp: streamed_def new_redactor_def in_pieces_def)

lemma sample_token_ordinary: "ordinary (concat [cps ''key AKIA1234'', cps ''5678ABCD9E ok''])"
  unfolding ordinary_def by (intro conjI runs_within_short)
    (simp_all add: pattern_eval mentions_code word_at_def STREAM_HOLDBACK_MAX_def)

theorem stream_is_redacted_in_pieces_witness:
  "\<exists>ps. streamed (mask_runs []) [cps ''key AKIA1234'', cps ''5678ABCD9E ok''] = concat (map (piece_shown (mask_runs [])) ps) \<and>
     (\<exists>p \<in> set ps. \<exists>u v. fst p = u @ cps ''AKIA12345678ABCD9E'' @ v)"
proof -
  let ?cs = "[cps ''key AKIA1234'', cps ''5678ABCD9E ok'']"
  obtain ps where ps: "streamed (mask_runs []) ?cs = concat (map (piece_shown (mask_runs [])) ps)" "runs_uncut (concat ?cs) ps"
    using stream_is_redacted_in_pieces [of ?cs "mask_runs []"] sample_token_ordinary by blast
  have "concat ?cs = cps ''key '' @ cps ''AKIA12345678ABCD9E'' @ cps '' ok''" by (simp add: cps_def)
  moreover have "cps ''AKIA12345678ABCD9E'' \<noteq> []" "list_all cred_char (cps ''AKIA12345678ABCD9E'')"
    by (simp_all add: cps_def cred_char_def)
  ultimately show ?thesis using ps unfolding runs_uncut_def by blast
qed

text \<open>What comes after a dropped tail is a new stream, even where it goes on with the token whose start was dropped.\<close>

lemma rest_of_dropped_tail_is_shown:
  assumes "c \<noteq> []" "decide (sr_buf r @ c) = Drop_tail j"
  shows "stream_from r (c # cs) = emitted r (take j (sr_buf r @ c)) @ REDACTED_CREDENTIAL_TAG @ streamed (sr_redact r) cs"
  using feed_cases(3) [OF assms(1) refl assms(2)] by (cases r) (simp add: streamed_def new_redactor_def)

text \<open>C24. The start of a credential that is still arriving (an \<^verbatim>\<open>Authorization: Bearer\<close> anchor with
  whatever has come of its token, or a token of base64 segments) never reaches the screen: one call of
  \<^verbatim>\<open>feed\<close> hands the redactor a prefix that ends at or before it, and keeps the rest, or, past the
  larger cap, drops the rest behind the tag.\<close>

theorem arriving_credential_is_withheld:
  assumes "chunk \<noteq> []" "secret_tail (sr_buf r @ chunk) p"
  shows "\<exists>j \<le> p. feed chunk r \<in> {(emitted r (take j (sr_buf r @ chunk)), r\<lparr>sr_buf := drop j (sr_buf r @ chunk)\<rparr>),
      (emitted r (take j (sr_buf r @ chunk)) @ REDACTED_CREDENTIAL_TAG, r\<lparr>sr_buf := []\<rparr>)}"
  using assms by (rule withheld_tail)

lemma arriving_credential_is_withheld_witness:
  "let r = \<lparr>sr_buf = cps ''authorization: '', sr_redact = mask_runs []\<rparr> in
   feed (cps ''Bearer abc'') r \<in> {([], r\<lparr>sr_buf := cps ''authorization: Bearer abc''\<rparr>),
     (REDACTED_CREDENTIAL_TAG, r\<lparr>sr_buf := []\<rparr>)}"
proof -
  let ?r = "\<lparr>sr_buf = cps ''authorization: '', sr_redact = mask_runs []\<rparr>"
  have e: "sr_buf ?r @ cps ''Bearer abc'' = cps ''authorization: Bearer abc''" by (simp add: cps_def)
  have "fullmatch BEARER_ANCHOR_PARTIAL_RE (cps ''authorization: Bearer abc'')" by (simp add: pattern_eval)
  then have "secret_tail (sr_buf ?r @ cps ''Bearer abc'') 0"
    unfolding secret_tail_def bearer_anchor_def e by (simp add: search_from_start)
  moreover have "cps ''Bearer abc'' \<noteq> []" by (simp add: cps_def)
  ultimately show ?thesis
    using arriving_credential_is_withheld [of "cps ''Bearer abc''" ?r 0] by (simp add: e [simplified] emitted_def Let_def)
qed

text \<open>The buffer is bounded: after a call of \<^verbatim>\<open>feed\<close> it holds at most 4096 characters, and at most
  512 unless the text it held ends in what may become a credential.\<close>

theorem held_back_text_is_bounded:
  assumes "chunk \<noteq> []"
  shows "length (sr_buf (snd (feed chunk r)))
    \<le> (if cred_anchored (sr_buf r @ chunk) then STREAM_HOLDBACK_JWT_MAX else STREAM_HOLDBACK_MAX)"
  using assms by (rule feed_bound)

lemma held_back_text_is_bounded_witness:
  "length (sr_buf (snd (feed (cps ''plain words'') (new_redactor id)))) \<le> STREAM_HOLDBACK_MAX"
proof -
  have "\<not> cred_anchored (cps ''plain words'')"
    by (simp add: cred_anchored_def jwt_tail_def bearer_anchor_def search_to_end_rec pattern_eval)
  moreover have "sr_buf (new_redactor id) @ cps ''plain words'' = cps ''plain words''" by (simp add: new_redactor_def)
  moreover have "cps ''plain words'' \<noteq> []" by (simp add: cps_def)
  ultimately show ?thesis using held_back_text_is_bounded [of "cps ''plain words''" "new_redactor id"] by simp
qed

end
