(* ===== verification/Turn_Filters.thy ===== *)
theory Turn_Filters imports Stream_Redactor begin

section \<open>The protocol filters of a turn (\<^verbatim>\<open>messaging/driver.py\<close>)\<close>

text \<open>
  The two filters that the text of a turn passes before the redactor: \<^verbatim>\<open>_CompactionNoticeFilter\<close>
  replaces a turn that starts with a reserved notice, \<^verbatim>\<open>_SteeringMarkerFilter\<close> takes out the steering
  markers. Both buffer what they cannot classify yet. The specifications, \<open>shown_turn\<close> and
  \<open>strip_markers\<close>, read the whole text at once.
\<close>

subsection \<open>Reserved notices\<close>

definition COMPACTION_NOTICE_PREFIXES :: "codepoints list" where
  "COMPACTION_NOTICE_PREFIXES = [9989 # cps '' Conversation compacted:'', cps ''Conversation compacted:'', 9989 # cps '' Compacted:'']"

definition COMPACTION_NOTICE_REPLACEMENT :: codepoints where
  "COMPACTION_NOTICE_REPLACEMENT = 9989 # cps '' Context compacted.''"

definition COMPACTION_PROBE_MAX :: nat where
  "COMPACTION_PROBE_MAX = fold max (map length COMPACTION_NOTICE_PREFIXES) 0 + 64"

definition is_internal_compaction_notice :: "codepoints \<Rightarrow> bool" where
  "is_internal_compaction_notice t = list_ex (starts_with (dropWhile cp_isspace t)) COMPACTION_NOTICE_PREFIXES"

record compaction_filter =
  cf_buffer :: codepoints
  cf_decided :: bool
  cf_suppress :: bool

definition new_compaction_filter :: compaction_filter where
  "new_compaction_filter = \<lparr>cf_buffer = [], cf_decided = False, cf_suppress = False\<rparr>"

definition compaction_feed :: "codepoints \<Rightarrow> compaction_filter \<Rightarrow> codepoints \<times> compaction_filter" where
  "compaction_feed chunk f =
     (if chunk = [] \<or> cf_suppress f then ([], f)
      else if cf_decided f then (chunk, f)
      else let buf = cf_buffer f @ chunk; probe = dropWhile cp_isspace buf in
        if is_internal_compaction_notice buf
        then (COMPACTION_NOTICE_REPLACEMENT, f\<lparr>cf_buffer := [], cf_suppress := True\<rparr>)
        else if (probe = [] \<or> list_ex (\<lambda>p. starts_with p probe) COMPACTION_NOTICE_PREFIXES) \<and> length buf \<le> COMPACTION_PROBE_MAX
        then ([], f\<lparr>cf_buffer := buf\<rparr>)
        else (buf, f\<lparr>cf_buffer := [], cf_decided := True\<rparr>))"

definition compaction_flush :: "compaction_filter \<Rightarrow> codepoints \<times> compaction_filter" where
  "compaction_flush f = (if cf_suppress f then ([], f) else (cf_buffer f, f\<lparr>cf_buffer := [], cf_decided := True\<rparr>))"

subsection \<open>Steering markers\<close>

definition STEER_PREFIX :: codepoints where "STEER_PREFIX = cps ''[STEERING''"
definition MAX_STEER_MARKER_CHARS :: nat where "MAX_STEER_MARKER_CHARS = 16384"

definition steer_word :: "string \<Rightarrow> pattern \<Rightarrow> pattern" where
  "steer_word w p = word_then (cps w) p"

definition STEER_MARKER_RE :: pattern where
  "STEER_MARKER_RE =
     (let ident = One_of [(48, 57), (97, 102), (65, 70), (45, 45)]; anything = Many (One_of [(0, 1114111)]) in
      Then (One_of [(91, 91)]) (steer_word ''steering'' (Then some_space (Then (Many some_space)
        (steer_word ''steer'' (Then (One_of [(45, 45)]) (Then ident (Then (Many ident)
          (Then (maybe (Then (Many some_space) (Then (One_of [(58, 58)]) (Then (Many some_space) anything))))
            (One_of [(93, 93)])))))))))) "

text \<open>\<^verbatim>\<open>str.upper\<close>, as far as it can produce a letter of the prefix.\<close>

definition upper_cp :: "nat \<Rightarrow> codepoints" where
  "upper_cp c = (if 97 \<le> c \<and> c \<le> 122 then [c - 32] else if c = 305 then [73] else if c = 383 then [83]
     else if c = 64261 \<or> c = 64262 then [83, 84] else [c])"

definition upper_text :: "codepoints \<Rightarrow> codepoints" where
  "upper_text s = concat (map upper_cp s)"

definition partial_prefix_len :: "codepoints \<Rightarrow> nat" where
  "partial_prefix_len t =
     (case find (\<lambda>n. starts_with STEER_PREFIX (drop (length (upper_text t) - n) (upper_text t)))
             (rev [1..<Suc (min (length t) (length STEER_PREFIX - 1))]) of
        Some n \<Rightarrow> n | None \<Rightarrow> 0)"

datatype frame = Text codepoints | Steer codepoints

text \<open>What the expression captures: the text behind the first colon of the marker.\<close>

definition steer_payload :: "codepoints \<Rightarrow> codepoints" where
  "steer_payload candidate = (case dropWhile (\<lambda>c. c \<noteq> 58) (butlast candidate) of [] \<Rightarrow> [] | c # s \<Rightarrow> cp_strip s)"

definition candidate_of :: "codepoints \<Rightarrow> codepoints" where
  "candidate_of buf = takeWhile (\<lambda>c. c \<noteq> 93) buf @ [93]"

text \<open>\<^verbatim>\<open>_drain\<close>: the frames, the new buffer, and whether an oversized marker is now being dropped.\<close>

function drain :: "bool \<Rightarrow> codepoints \<Rightarrow> frame list \<times> codepoints \<times> bool" where
  "drain final buf =
     (if buf = [] then ([], [], False)
      else if 91 \<notin> set buf then
        (let hold = (if final then 0 else partial_prefix_len buf);
             emit = (if hold = 0 then buf else take (length buf - hold) buf) in
         (if emit = [] then [] else [Text emit], if hold = 0 then [] else drop (length buf - hold) buf, False))
      else if hd buf \<noteq> 91 then
        (let (fs, rest) = drain final (dropWhile (\<lambda>c. c \<noteq> 91) buf) in (Text (takeWhile (\<lambda>c. c \<noteq> 91) buf) # fs, rest))
      else if length buf < length STEER_PREFIX \<and> starts_with STEER_PREFIX (upper_text buf) then
        ([], if final then [] else buf, False)
      else if \<not> starts_with (upper_text buf) STEER_PREFIX then
        (let (fs, rest) = drain final (tl buf) in (Text [hd buf] # fs, rest))
      else if 93 \<notin> set buf then
        (if MAX_STEER_MARKER_CHARS < length buf then ([], [], True) else ([], if final then [] else buf, False))
      else if \<not> fullmatch STEER_MARKER_RE (candidate_of buf) then
        (let (fs, rest) = drain final (tl buf) in (Text [hd buf] # fs, rest))
      else
        (let (fs, rest) = drain final (drop (length (candidate_of buf)) buf) in (Steer (steer_payload (candidate_of buf)) # fs, rest)))"
  by pat_completeness auto
termination
proof (relation "measure (\<lambda>x. length (snd x))", goal_cases)
  case (2 final buf)
  then show ?case by (cases buf) (auto simp: le_imp_less_Suc length_dropWhile_le)
qed (auto simp: candidate_of_def)

declare drain.simps [simp del]

record steering_filter =
  sf_buffer :: codepoints
  sf_dropping :: bool

definition new_steering_filter :: steering_filter where
  "new_steering_filter = \<lparr>sf_buffer = [], sf_dropping = False\<rparr>"

definition steering_drain :: "bool \<Rightarrow> steering_filter \<Rightarrow> frame list \<times> steering_filter" where
  "steering_drain final f = (let (fs, buf, oversized) = drain final (sf_buffer f) in
     (fs, f\<lparr>sf_buffer := buf, sf_dropping := sf_dropping f \<or> oversized\<rparr>))"

definition steering_feed :: "codepoints \<Rightarrow> steering_filter \<Rightarrow> frame list \<times> steering_filter" where
  "steering_feed chunk f =
     (if sf_dropping f \<and> 93 \<notin> set chunk then ([], f)
      else
        (let chunk' = (if sf_dropping f then tl (dropWhile (\<lambda>c. c \<noteq> 93) chunk) else chunk);
             frames = (if sf_dropping f then [Steer []] else []);
             (fs, f') = steering_drain False (f\<lparr>sf_buffer := sf_buffer f @ chunk', sf_dropping := False\<rparr>)
         in (frames @ fs, f')))"

definition steering_flush :: "steering_filter \<Rightarrow> frame list \<times> steering_filter" where
  "steering_flush f = (if sf_dropping f then ([], f\<lparr>sf_buffer := [], sf_dropping := False\<rparr>) else steering_drain True f)"

definition sanitize_channel_replay_text :: "codepoints \<Rightarrow> codepoints" where
  "sanitize_channel_replay_text t =
     (if is_internal_compaction_notice t then []
      else let (fs, f) = steering_feed t new_steering_filter; (gs, g) = steering_flush f in
        concat (map (\<lambda>fr. case fr of Text s \<Rightarrow> s | Steer s \<Rightarrow> []) (fs @ gs)))"

subsection \<open>What the filters compute\<close>

definition shown_turn :: "codepoints \<Rightarrow> codepoints" where
  "shown_turn t = (if is_internal_compaction_notice t then COMPACTION_NOTICE_REPLACEMENT else t)"

datatype piece = Seen nat | Mark codepoints

function strip_markers :: "codepoints \<Rightarrow> piece list" where
  "strip_markers buf =
     (if buf = [] then []
      else if hd buf \<noteq> 91 then Seen (hd buf) # strip_markers (tl buf)
      else if length buf < length STEER_PREFIX \<and> starts_with STEER_PREFIX (upper_text buf) then []
      else if \<not> starts_with (upper_text buf) STEER_PREFIX then Seen (hd buf) # strip_markers (tl buf)
      else if 93 \<notin> set buf then []
      else if \<not> fullmatch STEER_MARKER_RE (candidate_of buf) then Seen (hd buf) # strip_markers (tl buf)
      else Mark (steer_payload (candidate_of buf)) # strip_markers (drop (length (candidate_of buf)) buf))"
  by pat_completeness auto
termination
  by (relation "measure length") (auto simp: candidate_of_def)

declare strip_markers.simps [simp del]

fun unframe :: "frame list \<Rightarrow> piece list" where
  "unframe [] = []"
| "unframe (Text s # fs) = map Seen s @ unframe fs"
| "unframe (Steer p # fs) = Mark p # unframe fs"

lemma unframe_append [simp]: "unframe (fs @ gs) = unframe fs @ unframe gs"
  by (induction fs rule: unframe.induct) auto

text \<open>No marker of the text runs past the limit.\<close>

definition marker_room :: "codepoints \<Rightarrow> bool" where
  "marker_room t = (\<forall>i < length t. starts_with (upper_text (drop i t)) STEER_PREFIX \<longrightarrow>
     length (takeWhile (\<lambda>c. c \<noteq> 93) (drop i t)) \<le> MAX_STEER_MARKER_CHARS)"

definition outer_space :: "codepoints \<Rightarrow> nat" where
  "outer_space t = length (takeWhile cp_isspace t)"

lemma starts_with_longer: "starts_with a p \<Longrightarrow> starts_with (a @ b) p"
  by (auto simp: starts_with_iff)

lemma starts_with_overlap:
  assumes "starts_with (a @ b) p"
  shows "starts_with a p \<or> starts_with p a"
proof (cases "length p \<le> length a")
  case False
  then have "take (length a) p = a" using assms by (auto simp: starts_with_iff append_eq_append_conv_if)
  then show ?thesis by (simp add: starts_with_def)
qed (use assms in \<open>simp add: starts_with_def\<close>)

lemma starts_first: "starts_with p d \<Longrightarrow> d \<noteq> [] \<Longrightarrow> hd d = hd p"
  by (auto simp: starts_with_iff)

lemma starts_with_trans: "starts_with p (a @ b) \<Longrightarrow> starts_with p a"
  by (auto simp: starts_with_iff)

lemma upper_text_append [simp]: "upper_text (a @ b) = upper_text a @ upper_text b"
  by (simp add: upper_text_def)

lemma upper_text_length: "length s \<le> length (upper_text s)"
  by (induction s) (auto simp: upper_text_def upper_cp_def)

lemma upper_text_bracket: "91 \<in> set (upper_text s) \<longleftrightarrow> 91 \<in> set s"
  by (auto simp: upper_text_def upper_cp_def split: if_splits)

text \<open>The hold-back of a partial prefix never holds anything: the prefix starts with the bracket searched for.\<close>

lemma partial_prefix_none: "91 \<notin> set buf \<Longrightarrow> partial_prefix_len buf = 0"
proof -
  assume b: "91 \<notin> set buf"
  have "\<not> starts_with STEER_PREFIX (drop (length (upper_text buf) - n) (upper_text buf))"
    if n: "n \<in> set [1..<Suc (min (length buf) (length STEER_PREFIX - 1))]" for n
  proof
    let ?d = "drop (length (upper_text buf) - n) (upper_text buf)"
    assume s: "starts_with STEER_PREFIX ?d"
    have d: "?d \<noteq> []" using n upper_text_length [of buf] by auto
    moreover have "hd STEER_PREFIX = 91" by (simp add: STEER_PREFIX_def cps_def)
    ultimately have "hd ?d = 91" using starts_first [OF s] by simp
    then have "91 \<in> set ?d" using d hd_in_set by metis
    then show False using b upper_text_bracket in_set_dropD by metis
  qed
  then have "find (\<lambda>n. starts_with STEER_PREFIX (drop (length (upper_text buf) - n) (upper_text buf)))
      (rev [1..<Suc (min (length buf) (length STEER_PREFIX - 1))]) = None"
    by (auto simp: find_None_iff)
  then show ?thesis by (simp add: partial_prefix_len_def)
qed

lemma marker_room_suffix: "marker_room (a @ b) \<Longrightarrow> marker_room b"
  unfolding marker_room_def
proof (intro allI impI)
  fix i
  assume a: "\<forall>i < length (a @ b). starts_with (upper_text (drop i (a @ b))) STEER_PREFIX \<longrightarrow>
     length (takeWhile (\<lambda>c. c \<noteq> 93) (drop i (a @ b))) \<le> MAX_STEER_MARKER_CHARS"
    and i: "i < length b" "starts_with (upper_text (drop i b)) STEER_PREFIX"
  from a [rule_format, of "length a + i"] i show "length (takeWhile (\<lambda>c. c \<noteq> 93) (drop i b)) \<le> MAX_STEER_MARKER_CHARS"
    by simp
qed

text \<open>What the parser decides about a bracket does not change when more text comes.\<close>

definition held :: "codepoints \<Rightarrow> bool" where
  "held buf = (length buf < length STEER_PREFIX \<and> starts_with STEER_PREFIX (upper_text buf))"

definition opens :: "codepoints \<Rightarrow> bool" where
  "opens buf = starts_with (upper_text buf) STEER_PREFIX"

lemma decided_stays:
  assumes "\<not> held buf"
  shows "\<not> held (buf @ rest)" "opens (buf @ rest) \<longleftrightarrow> opens buf"
proof -
  show "\<not> held (buf @ rest)" using assms starts_with_trans by (auto simp: held_def)
  have "starts_with STEER_PREFIX (upper_text buf) \<Longrightarrow> length STEER_PREFIX \<le> length buf \<Longrightarrow> opens buf"
    using upper_text_length [of buf] by (auto simp: opens_def starts_with_def)
  then show "opens (buf @ rest) \<longleftrightarrow> opens buf"
    using starts_with_overlap [of "upper_text buf" "upper_text rest" STEER_PREFIX] starts_with_longer assms
    by (auto simp: held_def opens_def)
qed

lemma candidate_stays: "93 \<in> set buf \<Longrightarrow> candidate_of (buf @ rest) = candidate_of buf"
  by (auto simp: candidate_of_def takeWhile_append1)

lemma candidate_length: "93 \<in> set buf \<Longrightarrow> length (candidate_of buf) \<le> length buf"
  by (induction buf) (auto simp: candidate_of_def)

lemmas strip_cases = strip_markers.simps [folded held_def opens_def]
lemmas drain_cases = drain.simps [folded held_def opens_def]


subsection \<open>The filters do not depend on the chunks\<close>

lemma strip_plain: "91 \<notin> set a \<Longrightarrow> strip_markers (a @ s) = map Seen a @ strip_markers s"
  by (induction a) (auto simp: strip_markers.simps)

lemma strip_first:
  assumes "buf \<noteq> []" "hd buf \<noteq> 91 \<or> (\<not> held buf \<and> (\<not> opens buf \<or> (93 \<in> set buf \<and> \<not> fullmatch STEER_MARKER_RE (candidate_of buf))))"
  shows "strip_markers (buf @ rest) = Seen (hd buf) # strip_markers (tl buf @ rest)"
proof -
  have first: "hd (buf @ rest) = hd buf" "tl (buf @ rest) = tl buf @ rest" "buf @ rest \<noteq> []" using assms(1) by simp_all
  consider "hd buf \<noteq> 91" | "hd buf = 91" "\<not> held buf" "\<not> opens buf"
    | "hd buf = 91" "\<not> held buf" "opens buf" "93 \<in> set buf" "\<not> fullmatch STEER_MARKER_RE (candidate_of buf)"
    using assms(2) by blast
  then show ?thesis
  proof cases
    case 1
    then show ?thesis using first(3) by (simp add: strip_cases [of "buf @ rest"] first(1,2) del: append_is_Nil_conv)
  next
    case 2
    then show ?thesis using first(3) decided_stays [OF 2(2), of rest]
      by (simp add: strip_cases [of "buf @ rest"] first(1,2) del: append_is_Nil_conv)
  next
    case 3
    then have "93 \<in> set (buf @ rest)" by simp
    then show ?thesis using 3 first(3) decided_stays [OF 3(2), of rest] candidate_stays [OF 3(4), of rest]
      by (simp add: strip_cases [of "buf @ rest"] first(1,2) del: append_is_Nil_conv set_append)
  qed
qed

lemma strip_marker_whole:
  assumes "buf \<noteq> []" "hd buf = 91" "\<not> held buf" "opens buf" "93 \<in> set buf" "fullmatch STEER_MARKER_RE (candidate_of buf)"
  shows "strip_markers (buf @ rest) =
    Mark (steer_payload (candidate_of buf)) # strip_markers (drop (length (candidate_of buf)) buf @ rest)"
proof -
  have "hd (buf @ rest) = 91" "buf @ rest \<noteq> []" "93 \<in> set (buf @ rest)" using assms by simp_all
  moreover have "drop (length (candidate_of buf)) (buf @ rest) = drop (length (candidate_of buf)) buf @ rest"
    using candidate_length [OF assms(5)] by simp
  ultimately show ?thesis
    using decided_stays [OF assms(3), of rest] assms(4,6) candidate_stays [OF assms(5), of rest]
    by (simp add: strip_cases [of "buf @ rest"] del: append_is_Nil_conv set_append)
qed

text \<open>Draining what has arrived, with more to come.\<close>

lemma drain_partial:
  assumes "marker_room (buf @ rest)" "drain False buf = (fs, buf', oversized)"
  shows "\<not> oversized \<and> (\<exists>a. buf = a @ buf') \<and> unframe fs @ strip_markers (buf' @ rest) = strip_markers (buf @ rest)"
  using assms
proof (induction buf arbitrary: fs buf' oversized rule: length_induct)
  case (1 buf)
  have step: "\<not> oversized \<and> (\<exists>a. buf = a @ buf') \<and> unframe fs @ strip_markers (buf' @ rest) = strip_markers (buf @ rest)"
    if d: "drain False buf = (let (gs, r) = drain False (drop k buf) in (g # gs, r))" and k: "0 < k" "k \<le> length buf" "buf \<noteq> []"
      and here: "strip_markers (buf @ rest) = unframe [g] @ strip_markers (drop k buf @ rest)" for k g
  proof -
    obtain gs r where g: "drain False (drop k buf) = (gs, r)" by (cases "drain False (drop k buf)")
    then have fs: "fs = g # gs" "drain False (drop k buf) = (gs, buf', oversized)" using d 1(3) by auto
    have room: "marker_room (drop k buf @ rest)"
      using 1(2) marker_room_suffix [of "take k buf" "drop k buf @ rest"] by (simp flip: append.assoc)
    have "length (drop k buf) < length buf" using k by simp
    from 1(1) [rule_format, OF this room fs(2)] obtain a where "\<not> oversized" "drop k buf = a @ buf'"
        "unframe gs @ strip_markers (buf' @ rest) = strip_markers (drop k buf @ rest)" by blast
    moreover from this have "\<exists>a. buf = a @ buf'" by (metis append.assoc append_take_drop_id)
    moreover have "unframe fs @ strip_markers (buf' @ rest) = strip_markers (buf @ rest)"
      using here fs(1) calculation(3) unframe_append [of "[g]" gs] by simp
    ultimately show ?thesis by blast
  qed
  note drained = drain_cases [of False buf]
  consider "buf = []" | "buf \<noteq> []" "91 \<notin> set buf"
    | "91 \<in> set buf" "hd buf \<noteq> 91" | "hd buf = 91" "buf \<noteq> []" "held buf"
    | "hd buf = 91" "buf \<noteq> []" "\<not> held buf" "\<not> opens buf \<or> 93 \<in> set buf \<and> \<not> fullmatch STEER_MARKER_RE (candidate_of buf)"
    | "hd buf = 91" "buf \<noteq> []" "\<not> held buf" "opens buf" "93 \<notin> set buf"
    | "hd buf = 91" "buf \<noteq> []" "\<not> held buf" "opens buf" "93 \<in> set buf" "fullmatch STEER_MARKER_RE (candidate_of buf)"
    by blast
  then show ?case
  proof cases
    case 1
    then show ?thesis using drained \<open>drain False buf = (fs, buf', oversized)\<close> by simp
  next
    case 2
    then show ?thesis using drained \<open>drain False buf = (fs, buf', oversized)\<close> partial_prefix_none [of buf] strip_plain [of buf rest]
      by (simp add: Let_def)
  next
    case 3
    let ?k = "length (takeWhile (\<lambda>c. c \<noteq> 91) buf)"
    have "buf \<noteq> []" "0 < ?k" using 3 by (cases buf; auto)+
    moreover have "strip_markers (takeWhile (\<lambda>c. c \<noteq> 91) buf @ dropWhile (\<lambda>c. c \<noteq> 91) buf @ rest)
        = map Seen (takeWhile (\<lambda>c. c \<noteq> 91) buf) @ strip_markers (dropWhile (\<lambda>c. c \<noteq> 91) buf @ rest)"
      by (rule strip_plain) (auto dest: set_takeWhileD)
    ultimately show ?thesis using drained 3
      by (intro step [of ?k "Text (takeWhile (\<lambda>c. c \<noteq> 91) buf)"])
        (auto simp: Let_def length_takeWhile_le simp flip: dropWhile_eq_drop append.assoc split: prod.splits)
  next
    case 4
    then show ?thesis using drained \<open>drain False buf = (fs, buf', oversized)\<close> hd_in_set [of buf] by auto
  next
    case 5
    then have "strip_markers (buf @ rest) = Seen (hd buf) # strip_markers (tl buf @ rest)" by (intro strip_first) auto
    then show ?thesis using drained 5 hd_in_set [of buf]
      by (intro step [of 1 "Text [hd buf]"]) (auto simp: drop_Suc Suc_leI)
  next
    case 6
    have "length buf \<le> MAX_STEER_MARKER_CHARS"
    proof -
      have "starts_with (upper_text (drop 0 (buf @ rest))) STEER_PREFIX"
        using 6(4) starts_with_longer by (auto simp: opens_def)
      then have "length (takeWhile (\<lambda>c. c \<noteq> 93) (buf @ rest)) \<le> MAX_STEER_MARKER_CHARS"
        using 1(2) 6(2) unfolding marker_room_def by (metis drop0 length_greater_0_conv append_is_Nil_conv)
      moreover have "takeWhile (\<lambda>c. c \<noteq> 93) (buf @ rest) = buf @ takeWhile (\<lambda>c. c \<noteq> 93) rest"
        using 6(5) by (intro takeWhile_append2) auto
      ultimately show ?thesis by simp
    qed
    then show ?thesis using drained \<open>drain False buf = (fs, buf', oversized)\<close> 6 hd_in_set [of buf] by auto
  next
    case 7
    then show ?thesis using drained hd_in_set [of buf] candidate_length [of buf] strip_marker_whole [of buf rest]
      by (intro step [of "length (candidate_of buf)" "Steer (steer_payload (candidate_of buf))"])
        (auto simp: candidate_of_def)
  qed
qed

text \<open>Draining at the end.\<close>

lemma drain_final: "drain True buf = (fs, buf', oversized) \<Longrightarrow> unframe fs = strip_markers buf"
proof (induction buf arbitrary: fs buf' oversized rule: length_induct)
  case (1 buf)
  have step: "unframe fs = strip_markers buf"
    if d: "drain True buf = (let (gs, r) = drain True (drop k buf) in (g # gs, r))" and k: "0 < k" "buf \<noteq> []"
      and here: "strip_markers buf = unframe [g] @ strip_markers (drop k buf)" for k g
  proof -
    obtain gs r where g: "drain True (drop k buf) = (gs, r)" by (cases "drain True (drop k buf)")
    then have fs: "fs = g # gs" "drain True (drop k buf) = (gs, buf', oversized)" using d 1(2) by auto
    have "length (drop k buf) < length buf" using k by simp
    with 1(1) fs(2) have "unframe gs = strip_markers (drop k buf)" by blast
    then show ?thesis using here fs(1) unframe_append [of "[g]" gs] by simp
  qed
  note drained = drain_cases [of True buf]
  consider "buf = []" | "buf \<noteq> []" "91 \<notin> set buf"
    | "91 \<in> set buf" "hd buf \<noteq> 91"
    | "hd buf = 91" "buf \<noteq> []" "\<not> held buf" "\<not> opens buf \<or> 93 \<in> set buf \<and> \<not> fullmatch STEER_MARKER_RE (candidate_of buf)"
    | "hd buf = 91" "buf \<noteq> []" "held buf \<or> opens buf \<and> 93 \<notin> set buf"
    | "hd buf = 91" "buf \<noteq> []" "\<not> held buf" "opens buf" "93 \<in> set buf" "fullmatch STEER_MARKER_RE (candidate_of buf)"
    by blast
  then show ?case
  proof cases
    case 1
    then show ?thesis using drained \<open>drain True buf = (fs, buf', oversized)\<close> by (simp add: strip_cases)
  next
    case 2
    then show ?thesis using drained \<open>drain True buf = (fs, buf', oversized)\<close> strip_plain [of buf "[]"]
      by (simp add: Let_def strip_cases [of "[]"])
  next
    case 3
    let ?k = "length (takeWhile (\<lambda>c. c \<noteq> 91) buf)"
    have "buf \<noteq> []" "0 < ?k" using 3 by (cases buf; auto)+
    moreover have "strip_markers (takeWhile (\<lambda>c. c \<noteq> 91) buf @ dropWhile (\<lambda>c. c \<noteq> 91) buf)
        = map Seen (takeWhile (\<lambda>c. c \<noteq> 91) buf) @ strip_markers (dropWhile (\<lambda>c. c \<noteq> 91) buf)"
      by (rule strip_plain) (auto dest: set_takeWhileD)
    ultimately show ?thesis using drained 3
      by (intro step [of ?k "Text (takeWhile (\<lambda>c. c \<noteq> 91) buf)"])
        (auto simp: Let_def simp flip: dropWhile_eq_drop split: prod.splits)
  next
    case 4
    then have "strip_markers (buf @ []) = Seen (hd buf) # strip_markers (tl buf @ [])" by (intro strip_first) auto
    then show ?thesis using drained 4 hd_in_set [of buf]
      by (intro step [of 1 "Text [hd buf]"]) (auto simp: drop_Suc)
  next
    case 5
    then have "strip_markers buf = []" by (auto simp: strip_cases [of buf])
    then show ?thesis using drained 5 \<open>drain True buf = (fs, buf', oversized)\<close> hd_in_set [of buf]
      by (auto split: if_splits)
  next
    case 6
    then show ?thesis using drained hd_in_set [of buf] strip_marker_whole [of buf "[]"]
      by (intro step [of "length (candidate_of buf)" "Steer (steer_payload (candidate_of buf))"])
        (auto simp: candidate_of_def)
  qed
qed

text \<open>A whole stream through the steering filter.\<close>

fun steering_run :: "steering_filter \<Rightarrow> codepoints list \<Rightarrow> frame list" where
  "steering_run f [] = fst (steering_flush f)"
| "steering_run f (c # cs) = (let (fs, f') = steering_feed c f in fs @ steering_run f' cs)"

lemma steering_feed_open:
  assumes "\<not> sf_dropping f" "marker_room (sf_buffer f @ c @ rest)" "steering_feed c f = (fs, f')"
  shows "\<not> sf_dropping f' \<and> marker_room (sf_buffer f' @ rest) \<and>
    unframe fs @ strip_markers (sf_buffer f' @ rest) = strip_markers (sf_buffer f @ c @ rest)"
proof -
  obtain gs buf ov where d: "drain False (sf_buffer f @ c) = (gs, buf, ov)" by (cases "drain False (sf_buffer f @ c)") auto
  have part: "\<not> ov" "\<exists>a. sf_buffer f @ c = a @ buf"
      "unframe gs @ strip_markers (buf @ rest) = strip_markers (sf_buffer f @ c @ rest)"
    using drain_partial [of "sf_buffer f @ c" rest gs buf ov] assms(2) d by simp_all
  have f': "fs = gs" "f' = f\<lparr>sf_buffer := buf, sf_dropping := False\<rparr>"
    using assms(1,3) d part(1) by (simp_all add: steering_feed_def steering_drain_def Let_def)
  from part(2) obtain a where "sf_buffer f @ c @ rest = a @ buf @ rest" by (metis append.assoc)
  then have "marker_room (buf @ rest)" using assms(2) marker_room_suffix by metis
  then show ?thesis using part(3) f' by simp
qed

lemma steering_run_strips:
  "\<not> sf_dropping f \<Longrightarrow> marker_room (sf_buffer f @ concat cs) \<Longrightarrow> unframe (steering_run f cs) = strip_markers (sf_buffer f @ concat cs)"
proof (induction cs arbitrary: f)
  case Nil
  obtain gs buf ov where "drain True (sf_buffer f) = (gs, buf, ov)" by (cases "drain True (sf_buffer f)") auto
  then show ?case using Nil drain_final by (simp add: steering_flush_def steering_drain_def)
next
  case (Cons c cs)
  obtain fs f' where fd: "steering_feed c f = (fs, f')" by (cases "steering_feed c f")
  show ?case using Cons.IH [of f'] steering_feed_open [of f c "concat cs" fs f'] Cons.prems fd by simp
qed

text \<open>A whole stream through the compaction filter: what each chunk lets out, and the rest at the end.\<close>

fun compaction_run :: "compaction_filter \<Rightarrow> codepoints list \<Rightarrow> codepoints" where
  "compaction_run f [] = fst (compaction_flush f)"
| "compaction_run f (c # cs) = (let (out, f') = compaction_feed c f in out @ compaction_run f' cs)"

lemma lspace_append: "dropWhile cp_isspace a \<noteq> [] \<Longrightarrow> dropWhile cp_isspace (a @ b) = dropWhile cp_isspace a @ b"
  by (metis dropWhile_append dropWhile_eq_Nil_conv)

lemma notice_append: "is_internal_compaction_notice a \<Longrightarrow> is_internal_compaction_notice (a @ b)"
proof -
  assume a: "is_internal_compaction_notice a"
  have ne: "p \<noteq> []" if "p \<in> set COMPACTION_NOTICE_PREFIXES" for p
    using that by (auto simp: COMPACTION_NOTICE_PREFIXES_def cps_def)
  from a obtain p where "p \<in> set COMPACTION_NOTICE_PREFIXES" "starts_with (dropWhile cp_isspace a) p"
    by (auto simp: is_internal_compaction_notice_def list_ex_iff)
  then have "dropWhile cp_isspace a \<noteq> []" using ne by (metis append_is_Nil_conv starts_with_iff)
  from lspace_append [OF this] show ?thesis
    using a by (auto simp: is_internal_compaction_notice_def list_ex_iff intro: starts_with_longer)
qed

lemma notice_lengths: "p \<in> set COMPACTION_NOTICE_PREFIXES \<Longrightarrow> length p + 64 \<le> COMPACTION_PROBE_MAX"
  by (auto simp: COMPACTION_NOTICE_PREFIXES_def COMPACTION_PROBE_MAX_def cps_def)

text \<open>A text that is let through does not become a notice.\<close>

lemma let_through:
  assumes "\<not> is_internal_compaction_notice a" "outer_space (a @ b) \<le> 64"
    and "(dropWhile cp_isspace a \<noteq> [] \<and> \<not> list_ex (\<lambda>p. starts_with p (dropWhile cp_isspace a)) COMPACTION_NOTICE_PREFIXES)
      \<or> COMPACTION_PROBE_MAX < length a"
  shows "\<not> is_internal_compaction_notice (a @ b)"
proof
  assume n: "is_internal_compaction_notice (a @ b)"
  let ?p = "dropWhile cp_isspace a"
  have len: "length a = length (takeWhile cp_isspace a) + length ?p" by (metis length_append takeWhile_dropWhile_id)
  have "length (takeWhile cp_isspace a) \<le> 64 \<or> ?p = []" and ws: "?p = [] \<longrightarrow> length a \<le> 64"
  proof -
    have "length (takeWhile cp_isspace a) \<le> outer_space (a @ b)"
      by (induction a) (auto simp: outer_space_def)
    then show "length (takeWhile cp_isspace a) \<le> 64 \<or> ?p = []" using assms(2) by simp
    show "?p = [] \<longrightarrow> length a \<le> 64" using \<open>length (takeWhile cp_isspace a) \<le> outer_space (a @ b)\<close> assms(2) len
      by (simp del: dropWhile_eq_Nil_conv)
  qed
  have "64 \<le> COMPACTION_PROBE_MAX" by (simp add: COMPACTION_PROBE_MAX_def)
  then have p: "?p \<noteq> []" using assms(3) ws by force
  from n obtain q where q: "q \<in> set COMPACTION_NOTICE_PREFIXES" "starts_with (?p @ b) q"
    unfolding is_internal_compaction_notice_def lspace_append [OF p] by (auto simp: list_ex_iff)
  have "\<not> starts_with ?p q" using assms(1) q(1) by (auto simp: is_internal_compaction_notice_def list_ex_iff)
  then have "starts_with q ?p" using starts_with_overlap [OF q(2)] by blast
  then have "length ?p \<le> length q" by (auto simp: starts_with_iff)
  then have "length a \<le> COMPACTION_PROBE_MAX"
    using notice_lengths [OF q(1)] len \<open>length (takeWhile cp_isspace a) \<le> 64 \<or> ?p = []\<close> p by linarith
  then show False using assms(3) \<open>starts_with q ?p\<close> q(1) by (auto simp: list_ex_iff)
qed

lemma compaction_run_decided: "cf_decided f \<Longrightarrow> \<not> cf_suppress f \<Longrightarrow> cf_buffer f = [] \<Longrightarrow> compaction_run f cs = concat cs"
  by (induction cs) (auto simp: compaction_flush_def compaction_feed_def)

lemma compaction_run_suppressed: "cf_suppress f \<Longrightarrow> compaction_run f cs = []"
  by (induction cs) (auto simp: compaction_flush_def compaction_feed_def)

lemma compaction_run_shows:
  assumes "\<not> cf_decided f" "\<not> cf_suppress f" "\<not> is_internal_compaction_notice (cf_buffer f)" "outer_space (cf_buffer f @ concat cs) \<le> 64"
  shows "compaction_run f cs = shown_turn (cf_buffer f @ concat cs)"
  using assms
proof (induction cs arbitrary: f)
  case Nil
  then show ?case by (simp add: compaction_flush_def shown_turn_def)
next
  case (Cons c cs)
  show ?case
  proof (cases "c = []")
    case True
    then show ?thesis using Cons by (simp add: compaction_feed_def)
  next
    case False
    let ?b = "cf_buffer f @ c"
    let ?undecided = "(dropWhile cp_isspace ?b = [] \<or> list_ex (\<lambda>p. starts_with p (dropWhile cp_isspace ?b)) COMPACTION_NOTICE_PREFIXES)
        \<and> length ?b \<le> COMPACTION_PROBE_MAX"
    consider "is_internal_compaction_notice ?b" | "\<not> is_internal_compaction_notice ?b" "?undecided"
      | "\<not> is_internal_compaction_notice ?b" "\<not> ?undecided" by blast
    then show ?thesis
    proof cases
      case 1
      then show ?thesis using False Cons.prems notice_append [OF 1, of "concat cs"]
        by (simp add: compaction_feed_def Let_def shown_turn_def compaction_run_suppressed)
    next
      case 2
      then show ?thesis using False Cons.prems Cons.IH [of "f\<lparr>cf_buffer := ?b\<rparr>"]
        by (simp add: compaction_feed_def Let_def)
    next
      case 3
      then have "\<not> is_internal_compaction_notice (?b @ concat cs)"
        using Cons.prems(4) let_through [of ?b "concat cs"] by (simp del: dropWhile_eq_Nil_conv) linarith
      moreover have "compaction_feed c f = (?b, f\<lparr>cf_buffer := [], cf_decided := True\<rparr>)"
        using 3 False Cons.prems by (simp add: compaction_feed_def Let_def)
      ultimately show ?thesis using Cons.prems(2)
        by (simp add: compaction_run_decided shown_turn_def)
    qed
  qed
qed

subsection \<open>Replayed messages\<close>

fun seen_text :: "piece list \<Rightarrow> codepoints" where
  "seen_text [] = []"
| "seen_text (Seen c # ps) = c # seen_text ps"
| "seen_text (Mark m # ps) = seen_text ps"

lemma seen_text_append [simp]: "seen_text (a @ b) = seen_text a @ seen_text b"
  by (induction a rule: seen_text.induct) auto

lemma seen_text_seen [simp]: "seen_text (map Seen s) = s"
  by (induction s) auto

lemma replay_of_pieces:
  assumes "\<not> is_internal_compaction_notice t" "marker_room t"
  shows "sanitize_channel_replay_text t = seen_text (strip_markers t)"
proof -
  have u: "concat (map (\<lambda>fr. case fr of Text s \<Rightarrow> s | Steer s \<Rightarrow> []) fs) = seen_text (unframe fs)" for fs
    by (induction fs rule: unframe.induct) auto
  obtain fs f where one: "steering_feed t new_steering_filter = (fs, f)" by fastforce
  obtain gs g where two: "steering_flush f = (gs, g)" by fastforce
  have "unframe (steering_run new_steering_filter [t]) = strip_markers t"
    using steering_run_strips [of new_steering_filter "[t]"] assms(2) by (simp add: new_steering_filter_def)
  then have "unframe fs @ unframe gs = strip_markers t" using one two by simp
  then show ?thesis using assms(1) by (simp add: sanitize_channel_replay_text_def one two u flip: seen_text_append)
qed

lemma marker_room_short: "length t \<le> MAX_STEER_MARKER_CHARS \<Longrightarrow> marker_room t"
  unfolding marker_room_def using length_takeWhile_le le_trans
  by (metis diff_le_self length_drop)

text \<open>The prefix that is held back at the end is dropped: a reply loses its last bracket.\<close>

lemma notice_open: "is_internal_compaction_notice (t @ [91]) \<Longrightarrow> is_internal_compaction_notice t"
proof -
  assume "is_internal_compaction_notice (t @ [91])"
  then obtain p where p: "p \<in> set COMPACTION_NOTICE_PREFIXES" "starts_with (dropWhile cp_isspace (t @ [91])) p"
    by (auto simp: is_internal_compaction_notice_def list_ex_iff)
  have "p \<noteq> []" "last p \<noteq> 91" "hd p \<noteq> 91" using p(1) by (auto simp: COMPACTION_NOTICE_PREFIXES_def cps_def)
  moreover have "dropWhile cp_isspace (t @ [91]) = dropWhile cp_isspace t @ [91]"
    by (cases "dropWhile cp_isspace t = []") (auto simp: dropWhile_append dropWhile_eq_Nil_conv cp_isspace_def)
  moreover obtain z where "dropWhile cp_isspace (t @ [91]) = p @ z" using p(2) by (auto simp: starts_with_iff)
  ultimately have "starts_with (dropWhile cp_isspace t) p"
    by (cases z rule: rev_cases) (auto simp: starts_with_iff intro: sym simp flip: append_assoc)
  then show ?thesis using p(1) by (auto simp: is_internal_compaction_notice_def list_ex_iff)
qed

lemma last_bracket_is_lost:
  assumes "91 \<notin> set t" "\<not> is_internal_compaction_notice t" "length t < MAX_STEER_MARKER_CHARS"
  shows "sanitize_channel_replay_text (t @ [91]) = t"
proof -
  have "strip_markers [91] = []"
    by (subst strip_markers.simps) (simp add: STEER_PREFIX_def cps_def upper_text_def upper_cp_def starts_with_def)
  moreover have "\<not> is_internal_compaction_notice (t @ [91])" using assms(2) notice_open by blast
  ultimately show ?thesis using assms replay_of_pieces [of "t @ [91]"] by (simp add: marker_room_short strip_plain)
qed

lemma strip_sample:
  assumes "fullmatch STEER_MARKER_RE m" "starts_with m STEER_PREFIX" "takeWhile (\<lambda>c. c \<noteq> 93) m @ [93] = m"
  shows "strip_markers (m @ s) = Mark (steer_payload m) # strip_markers s"
proof -
  have "93 \<in> set m" by (metis append_Cons assms(3) in_set_conv_decomp)
  then have c: "93 \<in> set (m @ s)" "candidate_of (m @ s) = m" using assms(3) candidate_stays [of m s] by (simp_all add: candidate_of_def)
  obtain z where z: "m = STEER_PREFIX @ z" using assms(2) by (auto simp: starts_with_iff)
  have "upper_text STEER_PREFIX = STEER_PREFIX" by (simp add: STEER_PREFIX_def cps_def upper_text_def upper_cp_def)
  then have "starts_with (upper_text (m @ s)) STEER_PREFIX" "\<not> length (m @ s) < length STEER_PREFIX" "m @ s \<noteq> []"
    by (simp_all add: z starts_with_iff) (simp add: STEER_PREFIX_def cps_def)
  moreover have "hd (m @ s) = 91" by (simp add: z STEER_PREFIX_def cps_def)
  ultimately show ?thesis using c assms(1)
    by (subst strip_markers.simps) (simp only: c if_False if_True simp_thms append_eq_conv_conj, simp)
qed

definition nested_marker :: codepoints where
  "nested_marker = cps ''[STEER'' @ cps ''[STEERING steer-1]'' @ cps ''ING steer-2]''"

text \<open>Joined without a separator, what is left around a marker can spell another one.\<close>

lemma replay_can_show_a_marker:
  "sanitize_channel_replay_text nested_marker = cps ''[STEERING steer-2]'' \<and> fullmatch STEER_MARKER_RE (sanitize_channel_replay_text nested_marker)"
proof -
  have "fullmatch STEER_MARKER_RE (cps ''[STEERING steer-1]'')" by (simp add: STEER_MARKER_RE_def steer_word_def pattern_eval)
  note m = strip_sample [OF this]
  have b: "strip_markers nested_marker = Seen 91 # strip_markers (cps ''STEER'' @ cps ''[STEERING steer-1]'' @ cps ''ING steer-2]'')"
    unfolding nested_marker_def
    by (subst strip_markers.simps) (simp add: cps_def STEER_PREFIX_def upper_text_def upper_cp_def starts_with_def)
  have m: "strip_markers (cps ''[STEERING steer-1]'' @ s) = Mark [] # strip_markers s" for s
    using m by (simp add: starts_with_def STEER_PREFIX_def cps_def steer_payload_def)
  have "91 \<notin> set (cps ''STEER'')" "91 \<notin> set (cps ''ING steer-2]'')" by (simp_all add: cps_def)
  moreover have "strip_markers [] = []" by (simp add: strip_markers.simps)
  ultimately have s: "strip_markers nested_marker = map Seen (cps ''[STEER'') @ Mark [] # map Seen (cps ''ING steer-2]'')"
    using strip_plain [of "cps ''ING steer-2]''" "[]"] by (simp add: b strip_plain m) (simp add: cps_def)
  have "\<not> is_internal_compaction_notice nested_marker"
    by (simp add: nested_marker_def is_internal_compaction_notice_def COMPACTION_NOTICE_PREFIXES_def starts_with_def cps_def cp_isspace_def)
  moreover have "marker_room nested_marker" by (rule marker_room_short) (simp add: nested_marker_def cps_def MAX_STEER_MARKER_CHARS_def)
  ultimately have "sanitize_channel_replay_text nested_marker = cps ''[STEERING steer-2]''"
    using replay_of_pieces [of nested_marker] by (simp add: s) (simp add: cps_def)
  then show ?thesis by (simp add: STEER_MARKER_RE_def steer_word_def pattern_eval)
qed

end
