(* ===== verification/Json_Recovery.thy ===== *)
theory Json_Recovery imports Json_Value begin

section \<open>JSON in the text of a model (\<^verbatim>\<open>llm_helpers.py\<close>, \<^verbatim>\<open>workflows/schema.py\<close>)\<close>

text \<open>
  How a reply is read as JSON: the strict parse of the whole text, and the scan for a JSON container
  between other words when that fails. The decoder of the \<^verbatim>\<open>json\<close> module is an argument, with
  its four outcomes: a value and the offset behind it, a syntax error, the interpreter's recursion
  limit, and its limit on the digits of an integer. A loop that need not end is a partial function
  whose value \<open>None\<close> is not returning; a decoder that moves forward makes it end.
\<close>

datatype decoded = Decoded json nat | Syntax_error | Nesting_limit | Digit_limit

type_synonym decoder = "string \<Rightarrow> nat \<Rightarrow> decoded"

datatype raised = Recursion_error | Value_error string | Type_error | Attribute_error | Other_error string

text \<open>\<^verbatim>\<open>==\<close> between JSON values as members of containers are compared. A Boolean equals the integer of
  the same number, an integer the float of the same value; the NaN of parsed texts is one object, which a
  container finds equal to itself.\<close>

definition num_of :: "json \<Rightarrow> pyfloat option" where
  "num_of v = (case v of JBool b \<Rightarrow> Some (Finite (of_bool b)) | JInt n \<Rightarrow> Some (Finite (of_int n))
     | JFloat f \<Rightarrow> Some f | _ \<Rightarrow> None)"

fun py_eq :: "json \<Rightarrow> json \<Rightarrow> bool" where
  "py_eq (JArr xs) (JArr ys) = list_all2 py_eq xs ys"
| "py_eq (JObj d) (JObj e) = (length d = length e \<and>
     list_all (\<lambda>p. case dict_get e (fst p) of Some w \<Rightarrow> py_eq (snd p) w | None \<Rightarrow> False) d)"
| "py_eq JNull JNull = True"
| "py_eq (JStr s) (JStr t) = (s = t)"
| "py_eq v w = (case (num_of v, num_of w) of (Some a, Some b) \<Rightarrow> a = b | _ \<Rightarrow> False)"

subsection \<open>The scan for an embedded value\<close>

definition is_dict :: "json \<Rightarrow> bool" where
  "is_dict v = (case v of JObj d \<Rightarrow> True | _ \<Rightarrow> False)"

definition is_list :: "json \<Rightarrow> bool" where
  "is_list v = (case v of JArr xs \<Rightarrow> True | _ \<Rightarrow> False)"

definition container_start :: "char \<Rightarrow> bool" where
  "container_start c = (c = CHR ''{'' \<or> c = CHR ''['')"

definition settle :: "json list \<Rightarrow> json option \<Rightarrow> json option" where
  "settle preferred fallback = (case preferred of
      [] \<Rightarrow> fallback
    | v # vs \<Rightarrow> (if list_all (\<lambda>candidate. py_eq candidate v) vs then Some v else None))"

partial_function (option) scan_json ::
  "decoder \<Rightarrow> string \<Rightarrow> (json \<Rightarrow> bool) \<Rightarrow> (json \<Rightarrow> bool) option \<Rightarrow> nat \<Rightarrow> json list \<Rightarrow> json option
     \<Rightarrow> (raised + json option) option" where
  "scan_json dec t expected prefer i preferred fallback =
     (if i < length t then
        (if \<not> container_start (t ! i) then scan_json dec t expected prefer (Suc i) preferred fallback
         else (case dec t i of
             Nesting_limit \<Rightarrow> Some (Inr None)
           | Digit_limit \<Rightarrow> Some (Inl (Value_error ''Exceeds the limit for integer string conversion''))
           | Syntax_error \<Rightarrow> scan_json dec t expected prefer (Suc i) preferred fallback
           | Decoded data e \<Rightarrow>
               if expected data then
                 (case prefer of
                    None \<Rightarrow> Some (Inr (Some data))
                  | Some p \<Rightarrow>
                      if p data then scan_json dec t expected prefer e (preferred @ [data]) fallback
                      else scan_json dec t expected prefer e preferred
                             (if fallback = None then Some data else fallback))
               else scan_json dec t expected prefer e preferred fallback))
      else Some (Inr (settle preferred fallback)))"

definition extract_json_of_type ::
  "decoder \<Rightarrow> string \<Rightarrow> (json \<Rightarrow> bool) \<Rightarrow> (json \<Rightarrow> bool) option \<Rightarrow> (raised + json option) option" where
  "extract_json_of_type dec t expected prefer = scan_json dec t expected prefer 0 [] None"

subsection \<open>The reply as a whole\<close>

definition json_space :: "char \<Rightarrow> bool" where
  "json_space c = (c \<in> {CHR '' '', CHR 0x09, CHR 0x0A, CHR 0x0D})"

text \<open>\<^verbatim>\<open>json.loads\<close>: one value with nothing but white space around it.\<close>

definition json_loads :: "decoder \<Rightarrow> string \<Rightarrow> decoded" where
  "json_loads dec s =
     (case dec s (length (takeWhile json_space s)) of
        Decoded v e \<Rightarrow> (let e' = e + length (takeWhile json_space (drop e s)) in
          if e' = length s then Decoded v e' else Syntax_error)
      | other \<Rightarrow> other)"

text \<open>\<^verbatim>\<open>s.split(sep, 2)[1]\<close> of a text that starts with \<open>sep\<close>: what lies between the first two.\<close>

fun until_sub :: "'a list \<Rightarrow> 'a list \<Rightarrow> 'a list" where
  "until_sub sep [] = []"
| "until_sub sep (c # s) = (if starts_with (c # s) sep then [] else c # until_sub sep s)"

definition unfenced :: "string \<Rightarrow> string" where
  "unfenced t =
     (let stripped = py_strip t in
      if starts_with stripped ''```'' then
        (let inner = until_sub ''```'' (drop 3 stripped);
             inner = (if starts_with inner ''json'' then drop 4 inner else inner)
         in py_strip inner)
      else stripped)"

definition parse_json :: "decoder \<Rightarrow> string option \<Rightarrow> (json \<Rightarrow> bool) option \<Rightarrow> (raised + json) option" where
  "parse_json dec reply prefer =
     (case reply of
        None \<Rightarrow> Some (Inl (Value_error ''model output is not text''))
      | Some t \<Rightarrow>
          (case json_loads dec (unfenced t) of
             Decoded v e \<Rightarrow> Some (Inr v)
           | Nesting_limit \<Rightarrow> Some (Inl Recursion_error)
           | Digit_limit \<Rightarrow> Some (Inl (Value_error ''Exceeds the limit for integer string conversion''))
           | Syntax_error \<Rightarrow>
               (case extract_json_of_type dec (unfenced t) (\<lambda>v. is_dict v \<or> is_list v) prefer of
                  None \<Rightarrow> None
                | Some (Inl e) \<Rightarrow> Some (Inl e)
                | Some (Inr None) \<Rightarrow> Some (Inl (Value_error ''model output is not valid JSON''))
                | Some (Inr (Some v)) \<Rightarrow> Some (Inr v))))"

subsection \<open>What the scan finds\<close>

text \<open>The decoder moves forward; \<open>readable\<close>: no offset of the text runs into one of its limits.\<close>

definition moves_forward :: "decoder \<Rightarrow> bool" where
  "moves_forward dec = (\<forall>t i v e. dec t i = Decoded v e \<longrightarrow> i < e)"

definition readable :: "decoder \<Rightarrow> string \<Rightarrow> bool" where
  "readable dec t = (\<forall>i < length t. container_start (t ! i) \<longrightarrow> dec t i \<noteq> Nesting_limit \<and> dec t i \<noteq> Digit_limit)"

text \<open>The values embedded in a text from an offset on, outermost ones only, in order.\<close>

inductive embedded :: "decoder \<Rightarrow> string \<Rightarrow> nat \<Rightarrow> json list \<Rightarrow> bool" for dec t where
  over: "length t \<le> i \<Longrightarrow> embedded dec t i []"
| prose: "i < length t \<Longrightarrow> \<not> container_start (t ! i) \<Longrightarrow> embedded dec t (Suc i) vs \<Longrightarrow> embedded dec t i vs"
| stray: "i < length t \<Longrightarrow> container_start (t ! i) \<Longrightarrow> dec t i = Syntax_error \<Longrightarrow>
    embedded dec t (Suc i) vs \<Longrightarrow> embedded dec t i vs"
| found: "i < length t \<Longrightarrow> container_start (t ! i) \<Longrightarrow> dec t i = Decoded v e \<Longrightarrow>
    embedded dec t e vs \<Longrightarrow> embedded dec t i (v # vs)"

text \<open>What a caller is given of them.\<close>

definition select_from :: "(json \<Rightarrow> bool) \<Rightarrow> (json \<Rightarrow> bool) option \<Rightarrow> json list \<Rightarrow> json option" where
  "select_from expected prefer vs = (let cs = filter expected vs in
     case prefer of None \<Rightarrow> (if cs = [] then None else Some (hd cs))
     | Some p \<Rightarrow> settle (filter p cs) (find (\<lambda>v. \<not> p v) cs))"

lemma embedded_exists:
  assumes "moves_forward dec" "readable dec t"
  shows "\<exists>vs. embedded dec t i vs"
proof (induction "length t - i" arbitrary: i rule: less_induct)
  case less
  show ?case
  proof (cases "i < length t")
    case True
    have later: "\<exists>vs. embedded dec t k vs" if "i < k" for k using less [of k] True that by simp
    show ?thesis
    proof (cases "container_start (t ! i)")
      case c: True
      show ?thesis
      proof (cases "dec t i")
        case (Decoded v e)
        then have "i < e" using assms(1) by (simp add: moves_forward_def)
        then show ?thesis using later [of e] True c Decoded by (blast intro: found)
      next
        case Syntax_error
        then show ?thesis using later [of "Suc i"] True c by (blast intro: stray)
      qed (use assms(2) True c in \<open>auto simp: readable_def\<close>)
    qed (use later [of "Suc i"] True in \<open>blast intro: prose\<close>)
  qed (meson over not_less)
qed

lemma find_or: "find Q (xs @ ys) = (case find Q xs of None \<Rightarrow> find Q ys | Some x \<Rightarrow> Some x)"
  by (induction xs) auto

lemma scan_selects:
  assumes "embedded dec t i vs"
  shows "scan_json dec t expected None i [] None = Some (Inr (select_from expected None vs))"
    and "scan_json dec t expected (Some p) i preferred fallback =
      Some (Inr (settle (preferred @ filter p (filter expected vs))
        (case fallback of Some f \<Rightarrow> Some f | None \<Rightarrow> find (\<lambda>v. \<not> p v) (filter expected vs))))"
proof -
  show "scan_json dec t expected None i [] None = Some (Inr (select_from expected None vs))"
    using assms
    by (induction rule: embedded.induct) (subst scan_json.simps, simp add: select_from_def settle_def)+
  show "scan_json dec t expected (Some p) i preferred fallback =
      Some (Inr (settle (preferred @ filter p (filter expected vs))
        (case fallback of Some f \<Rightarrow> Some f | None \<Rightarrow> find (\<lambda>v. \<not> p v) (filter expected vs))))"
    using assms
  proof (induction arbitrary: preferred fallback rule: embedded.induct)
    case (over i)
    then show ?case by (subst scan_json.simps) (simp split: option.split)
  next
    case (found i v e vs)
    then show ?case by (subst scan_json.simps) (simp split: option.split)
  qed (subst scan_json.simps, simp)+
qed

lemma extract_selects:
  "embedded dec t 0 vs \<Longrightarrow> extract_json_of_type dec t expected prefer = Some (Inr (select_from expected prefer vs))"
  by (cases "prefer") (simp_all add: extract_json_of_type_def scan_selects select_from_def)

text \<open>The scan returns, and what it raises is a \<^verbatim>\<open>ValueError\<close>.\<close>

lemma scan_returns:
  assumes "moves_forward dec"
  shows "\<exists>r. scan_json dec t expected pr i preferred fallback = Some r \<and> (\<forall>e. r = Inl e \<longrightarrow> (\<exists>m. e = Value_error m))"
proof (induction "length t - i" arbitrary: i preferred fallback rule: less_induct)
  case less
  have later: "i < length t \<Longrightarrow> i < k \<Longrightarrow>
      \<exists>r. scan_json dec t expected pr k ps fb = Some r \<and> (\<forall>e. r = Inl e \<longrightarrow> (\<exists>m. e = Value_error m))" for k ps fb
    using less [of k ps fb] by simp
  show ?case
  proof (cases "i < length t \<and> container_start (t ! i)")
    case True
    show ?thesis
    proof (cases "dec t i")
      case (Decoded v e)
      then have "i < e" using assms by (simp add: moves_forward_def)
      with later [of e] show ?thesis using True Decoded
        by (subst scan_json.simps) (cases pr, simp_all)
    qed (use True later [of "Suc i"] in \<open>subst scan_json.simps, simp\<close>)+
  qed (use later [of "Suc i"] in \<open>subst scan_json.simps, auto\<close>)
qed

lemma settle_Some:
  assumes "settle ps fb = Some v"
  shows "(v \<in> set ps \<and> (\<forall>w \<in> set ps. w = v \<or> py_eq w v)) \<or> (ps = [] \<and> fb = Some v)"
  using assms by (cases ps) (auto simp: settle_def list_all_iff split: if_splits)

lemma select_prefers:
  assumes "select_from expected (Some p) vs = Some v"
  shows "v \<in> set vs \<and> expected v \<and> (\<forall>w \<in> set vs. expected w \<longrightarrow> p w \<longrightarrow> p v \<and> (w = v \<or> py_eq w v))"
proof -
  have "settle (filter p (filter expected vs)) (find (\<lambda>v. \<not> p v) (filter expected vs)) = Some v"
    using assms by (simp add: select_from_def)
  from settle_Some [OF this] show ?thesis
  proof (elim disjE conjE)
    assume none: "filter p (filter expected vs) = []" and f: "find (\<lambda>v. \<not> p v) (filter expected vs) = Some v"
    from f have "v \<in> set (filter expected vs)" by (metis find_Some_iff nth_mem)
    with none show ?thesis by (auto simp: filter_empty_conv)
  qed auto
qed

definition is_container :: "json \<Rightarrow> bool" where
  "is_container v = (is_dict v \<or> is_list v)"

text \<open>A decoder that knows the two empty containers, for concrete texts.\<close>

definition empties :: decoder where
  "empties t i = (if take 2 (drop i t) = ''{}'' then Decoded (JObj []) (i + 2)
     else if take 2 (drop i t) = ''[]'' then Decoded (JArr []) (i + 2) else Syntax_error)"

lemma empties_moves: "moves_forward empties"
  by (auto simp: moves_forward_def empties_def split: if_splits)

lemma empties_readable: "readable empties t"
  by (auto simp: readable_def empties_def)

lemma select_declines:
  assumes "select_from expected (Some p) vs = None"
  shows "(\<forall>v \<in> set vs. \<not> expected v) \<or>
    (\<exists>v \<in> set vs. \<exists>w \<in> set vs. expected v \<and> p v \<and> expected w \<and> p w \<and> \<not> py_eq w v)"
proof (cases "filter p (filter expected vs)")
  case Nil
  then have "find (\<lambda>v. \<not> p v) (filter expected vs) = None" using assms by (simp add: select_from_def settle_def)
  with Nil show ?thesis by (auto simp: find_None_iff filter_empty_conv)
next
  case (Cons v ws)
  then have "\<not> list_all (\<lambda>c. py_eq c v) ws" using assms by (auto simp: select_from_def settle_def)
  then obtain w where "w \<in> set ws" "\<not> py_eq w v" by (auto simp: list_all_iff)
  moreover have "v \<in> set (filter p (filter expected vs))" "set ws \<subseteq> set (filter p (filter expected vs))"
    unfolding Cons by auto
  ultimately show ?thesis by auto
qed

lemma parse_json_cases:
  assumes "moves_forward dec"
  shows "\<exists>r. parse_json dec reply pr = Some r \<and>
    (\<forall>e. r = Inl e \<longrightarrow> (\<exists>m. e = Value_error m) \<or> (e = Recursion_error \<and> (\<exists>t. reply = Some t \<and> json_loads dec (unfenced t) = Nesting_limit)))"
proof (cases reply)
  case (Some t)
  show ?thesis
  proof (cases "json_loads dec (unfenced t)")
    case Syntax_error
    obtain r where r: "extract_json_of_type dec (unfenced t) is_container pr = Some r"
        "\<forall>e. r = Inl e \<longrightarrow> (\<exists>m. e = Value_error m)"
      using scan_returns [OF assms] unfolding extract_json_of_type_def by blast
    then show ?thesis using Some Syntax_error
      by (cases r) (auto simp: parse_json_def is_container_def [abs_def] split: option.split)
  qed (use Some in \<open>auto simp: parse_json_def\<close>)
qed (simp add: parse_json_def)

subsection \<open>Properties of the recovery\<close>

text \<open>C26. The scan for an embedded value ends, and its answer is never a guess: on a text that stays within
  the decoder's limits, a value comes back only if it is one of the outermost values of the text, of the
  expected type, and every preferred value of the text is preferred with it and equal to it; and nothing
  comes back only if no value has the expected type or two preferred ones differ.\<close>

theorem embedded_value_is_unambiguous:
  assumes "moves_forward dec" "readable dec t"
  shows "\<exists>vs. embedded dec t 0 vs \<and> (case extract_json_of_type dec t expected (Some p) of
      Some (Inr (Some v)) \<Rightarrow> v \<in> set vs \<and> expected v \<and>
        (\<forall>w \<in> set vs. expected w \<longrightarrow> p w \<longrightarrow> p v \<and> (w = v \<or> py_eq w v))
    | Some (Inr None) \<Rightarrow> (\<forall>v \<in> set vs. \<not> expected v) \<or>
        (\<exists>v \<in> set vs. \<exists>w \<in> set vs. expected v \<and> p v \<and> expected w \<and> p w \<and> \<not> py_eq w v)
    | _ \<Rightarrow> False)"
proof -
  obtain vs where vs: "embedded dec t 0 vs" using embedded_exists [OF assms] by blast
  show ?thesis
    using select_prefers [of expected p vs] select_declines [of expected p vs]
    by (intro exI [of _ vs] conjI vs) (cases "select_from expected (Some p) vs"; simp add: extract_selects [OF vs])
qed

lemma embedded_value_is_unambiguous_witness:
  "\<exists>r. extract_json_of_type empties ''see [] or {x} then {} and {}'' is_container (Some is_dict) = Some (Inr r)"
proof (cases "extract_json_of_type empties ''see [] or {x} then {} and {}'' is_container (Some is_dict)")
  case (Some r)
  then show ?thesis
    using embedded_value_is_unambiguous [OF empties_moves empties_readable,
        of "''see [] or {x} then {} and {}''" is_container is_dict] by (cases r) auto
qed (use embedded_value_is_unambiguous [OF empties_moves empties_readable,
        of "''see [] or {x} then {} and {}''" is_container is_dict] in simp)

text \<open>Reading a reply ends, and all it can raise is \<^verbatim>\<open>ValueError\<close>, which its caller turns into a
  retry, or the \<^verbatim>\<open>RecursionError\<close> of the strict parse of the whole text.\<close>

theorem reading_a_reply_returns:
  assumes "moves_forward dec"
  shows "\<exists>r. parse_json dec reply pr = Some r \<and>
    (\<forall>e. r = Inl e \<longrightarrow> (\<exists>m. e = Value_error m) \<or>
       (e = Recursion_error \<and> (\<exists>t. reply = Some t \<and> json_loads dec (unfenced t) = Nesting_limit)))"
  using assms by (rule parse_json_cases)

lemma reading_a_reply_returns_witness:
  "\<exists>r. parse_json empties (Some ''```json {x} {} ```'') (Some is_dict) = Some r"
  using reading_a_reply_returns [OF empties_moves, of "Some ''```json {x} {} ```''" "Some is_dict"] by blast

end
