(* ===== verification/Session_Directive.thy ===== *)
theory Session_Directive imports Json_Recovery begin

section \<open>Session directives (\<^verbatim>\<open>session_directive.py\<close>)\<close>

text \<open>
  The codec by which a stateless tool asks the session that called it for an effect: a line of prose,
  then a marker with a JSON payload. \<^verbatim>\<open>json.dumps\<close> and the decoder are parameters. The dash in the prose of
  a refusal, U+2014 in the code, is written as one character of the range of strings.
\<close>

definition DIRECTIVE_TOOLS :: "string list" where
  "DIRECTIVE_TOOLS = [''monitor_start'', ''monitor_update'', ''autonudge_stop'', ''set_project'', ''suggest_followup'',
     ''ask_question'']"

definition CORE_MCP_SERVER :: string where "CORE_MCP_SERVER = ''junction-core''"
definition SENTINEL :: string where "SENTINEL = ''[[JUNCTION_SESSION_DIRECTIVE]]''"
definition MAX_DIRECTIVE_CHARS :: nat where "MAX_DIRECTIVE_CHARS = 3800"
definition REFUSAL_SENTINEL :: string where "REFUSAL_SENTINEL = ''[[JUNCTION_SESSION_DIRECTIVE_REFUSED]]''"

text \<open>\<^verbatim>\<open>str.find\<close> of a non-empty text.\<close>

fun find_sub :: "'a list \<Rightarrow> 'a list \<Rightarrow> nat option" where
  "find_sub [] p = (if p = [] then Some 0 else None)"
| "find_sub (c # s) p = (if starts_with (c # s) p then Some 0 else map_option Suc (find_sub s p))"

definition directive_payload :: "string \<Rightarrow> (string \<times> json) list \<Rightarrow> json" where
  "directive_payload kind args = JObj [(''kind'', JStr kind), (''args'', JObj args)]"

definition encode :: "(json \<Rightarrow> string) \<Rightarrow> string \<Rightarrow> (string \<times> json) list \<Rightarrow> string \<Rightarrow> string" where
  "encode dumps kind args human =
     (let out = human @ [CHR 0x0A] @ SENTINEL @ dumps (directive_payload kind args) in
      if MAX_DIRECTIVE_CHARS < length out then
        ''Error: '' @ kind @ '' arguments are too large to deliver ('' @ show_nat (length out) @ '' chars, limit '' @
          show_nat MAX_DIRECTIVE_CHARS @
          ''). Shorten them (e.g. a briefer message / fewer items) and call the tool again '' @
          [CHR 0x97] @ '' nothing was applied.'' @ [CHR 0x0A] @ REFUSAL_SENTINEL
      else out)"

definition is_refusal :: "string \<Rightarrow> bool" where
  "is_refusal t = contains_sub t REFUSAL_SENTINEL"

definition decode :: "decoder \<Rightarrow> string \<Rightarrow> string \<Rightarrow> raised + (string \<times> json) list option" where
  "decode dec t expected_tool =
     (if expected_tool \<notin> set DIRECTIVE_TOOLS \<or> t = [] then Inr None
      else (case find_sub t SENTINEL of
        None \<Rightarrow> Inr None
      | Some i \<Rightarrow>
          (case json_loads dec (takeWhile (\<lambda>c. c \<noteq> CHR 0x0A) (drop (i + length SENTINEL) t)) of
             Nesting_limit \<Rightarrow> Inl Recursion_error
           | Syntax_error \<Rightarrow> Inr None
           | Digit_limit \<Rightarrow> Inr None
           | Decoded block e \<Rightarrow> Inr (case block of
                 JObj d \<Rightarrow> if dict_get d ''kind'' \<noteq> Some (JStr expected_tool) then None
                   else Some (case dict_get d ''args'' of Some (JObj args) \<Rightarrow> args | _ \<Rightarrow> [])
               | _ \<Rightarrow> None))))"

text \<open>\<^verbatim>\<open>raw.rsplit("___", 1)[-1]\<close> of a name that contains the separator.\<close>

fun after_last_sub :: "'a list \<Rightarrow> 'a list \<Rightarrow> 'a list option" where
  "after_last_sub sep [] = None"
| "after_last_sub sep (c # s) = (case after_last_sub sep s of
      Some t \<Rightarrow> Some t
    | None \<Rightarrow> if starts_with (c # s) sep then Some (drop (length sep) (c # s)) else None)"

definition match_tool :: "string \<Rightarrow> string" where
  "match_tool raw =
     (if raw \<in> set DIRECTIVE_TOOLS then raw
      else (case after_last_sub ''___'' raw of
          Some t \<Rightarrow> if t \<in> set DIRECTIVE_TOOLS then t else ''''
        | None \<Rightarrow> ''''))"

definition directive_tool_for :: "string \<Rightarrow> string \<Rightarrow> string" where
  "directive_tool_for mcp_server_name tool_name =
     (if mcp_server_name \<noteq> CORE_MCP_SERVER then '''' else match_tool tool_name)"

definition strip_marker :: "string \<Rightarrow> string" where
  "strip_marker t =
     (case (find_sub t SENTINEL, find_sub t REFUSAL_SENTINEL) of
        (None, None) \<Rightarrow> t
      | (Some i, None) \<Rightarrow> rev (dropWhile (\<lambda>c. c = CHR 0x0A) (rev (take i t)))
      | (None, Some j) \<Rightarrow> rev (dropWhile (\<lambda>c. c = CHR 0x0A) (rev (take j t)))
      | (Some i, Some j) \<Rightarrow> rev (dropWhile (\<lambda>c. c = CHR 0x0A) (rev (take (min i j) t))))"

subsection \<open>Searching\<close>

lemma starts_with_hd: "starts_with s p \<Longrightarrow> p \<noteq> [] \<Longrightarrow> s \<noteq> [] \<and> hd s = hd p"
  by (auto simp: starts_with_iff)

lemma find_sub_skip:
  assumes "p \<noteq> []" "hd p \<notin> set a"
  shows "find_sub (a @ b) p = map_option (\<lambda>i. length a + i) (find_sub b p)"
  using assms(2)
proof (induction a)
  case Nil
  then show ?case by (simp add: option.map_ident)
next
  case (Cons c a)
  then have "\<not> starts_with (c # a @ b) p" using starts_with_hd [of "c # a @ b" p] assms(1) by auto
  then show ?case using Cons by (simp add: option.map_comp comp_def)
qed

lemma find_sub_here: "find_sub (p @ b) p = Some 0"
  using starts_with_append [of p b] by (cases "p @ b") (auto simp del: starts_with_append)

text \<open>An occurrence that ends behind a character the pattern does not have starts behind it.\<close>

lemma find_sub_behind:
  assumes "c \<notin> set p" "p \<noteq> []" "\<not> contains_sub a p"
  shows "find_sub (a @ c # p @ b) p = Some (length a + 1)"
  using assms(3)
proof (induction a)
  case Nil
  have "\<not> starts_with (c # p @ b) p" using assms(1,2) starts_with_hd [of "c # p @ b" p] by (auto dest: hd_in_set)
  then show ?case by (simp add: find_sub_here)
next
  case (Cons x a)
  have "\<not> starts_with (x # a @ c # p @ b) p"
  proof
    assume s: "starts_with (x # a @ c # p @ b) p"
    show False
    proof (cases "length p \<le> length (x # a)")
      case True
      then have "take (length p) ((x # a) @ c # p @ b) = take (length p) (x # a)" by (simp del: append_Cons)
      then have "starts_with (x # a) p" using s by (simp add: starts_with_def)
      then show False using Cons.prems by simp
    next
      case False
      then have "p ! length (x # a) = (x # a @ c # p @ b) ! length (x # a)"
        using s nth_take [of "length (x # a)" "length p" "x # a @ c # p @ b"] by (simp add: starts_with_def)
      then have "p ! length (x # a) = c" by (simp add: nth_append)
      then show False using False assms(1) nth_mem [of "length (x # a)" p] by auto
    qed
  qed
  then show ?case using Cons by simp
qed

lemma contains_find: "contains_sub s p \<longleftrightarrow> find_sub s p \<noteq> None"
  by (induction s) auto

lemma after_last_sub_split: "after_last_sub sep s = Some t \<Longrightarrow> \<exists>a. s = a @ sep @ t"
proof (induction s)
  case (Cons c s)
  show ?case
  proof (cases "after_last_sub sep s")
    case None
    then have "starts_with (c # s) sep" "t = drop (length sep) (c # s)" using Cons.prems by (auto split: if_splits)
    then have "c # s = [] @ sep @ t" by (auto simp: starts_with_iff)
    then show ?thesis by blast
  next
    case (Some u)
    then obtain a where "s = a @ sep @ t" using Cons by auto
    then have "c # s = (c # a) @ sep @ t" by simp
    then show ?thesis by blast
  qed
qed simp

subsection \<open>What the codec promises\<close>

lemmas sentinels = SENTINEL_def REFUSAL_SENTINEL_def

definition directive_text :: "(json \<Rightarrow> string) \<Rightarrow> string \<Rightarrow> (string \<times> json) list \<Rightarrow> string \<Rightarrow> string" where
  "directive_text dumps kind args human = human @ [CHR 0x0A] @ SENTINEL @ dumps (directive_payload kind args)"

lemma decode_directive_text:
  assumes "\<not> contains_sub human SENTINEL" "tool \<in> set DIRECTIVE_TOOLS"
    and "json_loads dec (dumps (directive_payload kind args)) = Decoded (directive_payload kind args) e"
    and "CHR 0x0A \<notin> set (dumps (directive_payload kind args))"
  shows "decode dec (directive_text dumps kind args human) tool = Inr (if tool = kind then Some args else None)"
proof -
  let ?d = "dumps (directive_payload kind args)"
  have "find_sub (human @ [CHR 0x0A] @ SENTINEL @ ?d) SENTINEL = Some (length human + 1)"
    using find_sub_behind [of "CHR 0x0A" SENTINEL human ?d] assms(1) by (simp add: sentinels)
  moreover have "drop (length human + 1 + length SENTINEL) (human @ [CHR 0x0A] @ SENTINEL @ ?d) = ?d" by simp
  moreover have line: "takeWhile (\<lambda>c. c \<noteq> CHR 0x0A) ?d = ?d" using assms(4) by (auto simp: takeWhile_eq_all_conv)
  ultimately have "decode dec (human @ [CHR 0x0A] @ SENTINEL @ ?d) tool =
      (case directive_payload kind args of
         JObj d \<Rightarrow> Inr (if dict_get d ''kind'' \<noteq> Some (JStr tool) then None
           else Some (case dict_get d ''args'' of Some (JObj args) \<Rightarrow> args | _ \<Rightarrow> [])))"
    using assms(2) by (simp add: decode_def line assms(3)) (simp add: directive_payload_def)
  then show ?thesis unfolding directive_text_def by (simp add: directive_payload_def)
qed

lemma no_bracket_number: "CHR ''['' \<notin> set (show_nat n)"
  using show_nat_chars [of "CHR ''[''" n] by (auto simp: digit_val_def)

lemma tool_no_bracket: "kind \<in> set DIRECTIVE_TOOLS \<Longrightarrow> CHR ''['' \<notin> set kind"
  by (auto simp: DIRECTIVE_TOOLS_def)

text \<open>A refusal holds its own mark, and no directive.\<close>

lemma refusal_decodes:
  assumes "kind \<in> set DIRECTIVE_TOOLS" "MAX_DIRECTIVE_CHARS < length (directive_text dumps kind args human)"
  shows "decode dec (encode dumps kind args human) tool = Inr None \<and> is_refusal (encode dumps kind args human)"
proof -
  obtain prose where prose: "encode dumps kind args human = prose @ REFUSAL_SENTINEL" "CHR ''['' \<notin> set prose"
  proof
    let ?n = "length (directive_text dumps kind args human)"
    let ?prose = "''Error: '' @ kind @ '' arguments are too large to deliver ('' @ show_nat ?n @ '' chars, limit '' @
          show_nat MAX_DIRECTIVE_CHARS @
          ''). Shorten them (e.g. a briefer message / fewer items) and call the tool again '' @
          [CHR 0x97] @ '' nothing was applied.'' @ [CHR 0x0A]"
    show "encode dumps kind args human = ?prose @ REFUSAL_SENTINEL"
      using assms(2) unfolding encode_def directive_text_def Let_def by simp
    show "CHR ''['' \<notin> set ?prose" using tool_no_bracket [OF assms(1)] no_bracket_number by simp
  qed
  have "find_sub (prose @ REFUSAL_SENTINEL) SENTINEL = None" "find_sub (prose @ REFUSAL_SENTINEL) REFUSAL_SENTINEL \<noteq> None"
    using find_sub_skip [of SENTINEL prose REFUSAL_SENTINEL] find_sub_skip [of REFUSAL_SENTINEL prose REFUSAL_SENTINEL]
      prose(2) by (simp_all add: sentinels starts_with_def)
  then show ?thesis by (simp add: prose(1) decode_def is_refusal_def contains_find)
qed

text \<open>A directive survives its transport: what \<^verbatim>\<open>encode\<close> returns for a directive tool decodes, under
  the tool it was encoded for, to the arguments it was given and under any other tool to nothing; where it would
  exceed the limit of the transport it decodes to nothing under every tool and is recognised as a refusal.\<close>

theorem directive_round_trip:
  assumes "kind \<in> set DIRECTIVE_TOOLS" "\<not> contains_sub human SENTINEL" "tool \<in> set DIRECTIVE_TOOLS"
    and "json_loads dec (dumps (directive_payload kind args)) = Decoded (directive_payload kind args) e"
    and "CHR 0x0A \<notin> set (dumps (directive_payload kind args))"
  shows "if length (directive_text dumps kind args human) \<le> MAX_DIRECTIVE_CHARS
    then decode dec (encode dumps kind args human) tool = Inr (if tool = kind then Some args else None)
    else decode dec (encode dumps kind args human) tool = Inr None \<and> is_refusal (encode dumps kind args human)"
proof (cases "length (directive_text dumps kind args human) \<le> MAX_DIRECTIVE_CHARS")
  case True
  then have "encode dumps kind args human = directive_text dumps kind args human"
    by (simp add: encode_def directive_text_def Let_def)
  then show ?thesis using True decode_directive_text [where dumps = dumps] assms(2-5) by simp
qed (use refusal_decodes [where dumps = dumps] assms(1) in simp)

definition stop_args :: "(string \<times> json) list" where
  "stop_args = [(''reason'', JStr ''done'')]"

text \<open>A serialiser and a decoder that agree on one payload.\<close>

definition stop_text :: string where
  "stop_text = ''{\"kind\":\"autonudge_stop\",\"args\":{\"reason\":\"done\"}}''"

definition stop_dumps :: "json \<Rightarrow> string" where
  "stop_dumps v = (if v = directive_payload ''autonudge_stop'' stop_args then stop_text else ''null'')"

definition stop_decoder :: decoder where
  "stop_decoder t i = (if i = 0 \<and> t = stop_text then Decoded (directive_payload ''autonudge_stop'' stop_args) (length t)
     else Syntax_error)"

lemma stop_decodes: "json_loads stop_decoder (stop_dumps (directive_payload ''autonudge_stop'' stop_args)) =
    Decoded (directive_payload ''autonudge_stop'' stop_args) (length stop_text)"
  by (simp add: json_loads_def stop_dumps_def) (simp add: stop_text_def stop_decoder_def json_space_def)

lemma stop_text_line: "CHR 0x0A \<notin> set stop_text" "length stop_text = 50"
  by (simp_all add: stop_text_def)

theorem directive_round_trip_witness:
  "decode stop_decoder (encode stop_dumps ''autonudge_stop'' stop_args ''Stopping.'') ''autonudge_stop'' = Inr (Some stop_args)"
proof -
  have "\<not> contains_sub ''Stopping.'' SENTINEL" by (simp add: SENTINEL_def starts_with_def)
  moreover have "length (directive_text stop_dumps ''autonudge_stop'' stop_args ''Stopping.'') \<le> MAX_DIRECTIVE_CHARS"
    by (simp add: directive_text_def SENTINEL_def MAX_DIRECTIVE_CHARS_def stop_dumps_def stop_text_line)
  ultimately show ?thesis
    using directive_round_trip [of "''autonudge_stop''" "''Stopping.''" "''autonudge_stop''" stop_decoder stop_dumps stop_args]
      stop_decodes stop_text_line(1)
    by (simp add: DIRECTIVE_TOOLS_def stop_dumps_def)
qed

text \<open>The identity behind a directive: whatever server and tool name a call was recorded with, the
  predicate answers with the name of a directive tool or with nothing, and with a name only when the call
  was served by the core server under that very name or under one that ends in it behind the separator.\<close>

lemma directive_identity:
  "directive_tool_for server name \<in> set ([] # DIRECTIVE_TOOLS) \<and>
   (directive_tool_for server name = [] \<or> server = CORE_MCP_SERVER \<and>
     (name = directive_tool_for server name \<or> (\<exists>a. name = a @ ''___'' @ directive_tool_for server name)))"
  using after_last_sub_split [of "''___''" name]
  by (auto simp: directive_tool_for_def match_tool_def split: option.splits)

end
