(* ===== verification/Turn_Driver.thy ===== *)
theory Turn_Driver imports Turn_Filters Session_Directive Tool_Approval begin

section \<open>The turn loop (\<^verbatim>\<open>TurnDriver.run\<close> of \<^verbatim>\<open>messaging/driver.py\<close>)\<close>

text \<open>
  One turn: the events of the provider, in order, to the effects of the driver, in order. An effect is an
  output event dispatched to the renderer, a verdict sent to the provider, or a call of the directive consumer (noted
  with the tool call whose result it answers).
  The local variables of \<^verbatim>\<open>run\<close> are a record. What the channel injects (the gate, the predicates, the
  decider's answer) comes with the event, as in \<open>Tool_Approval\<close>; a failure of the consumer is swallowed by the
  code. The redactor of whole texts and the JSON decoder are parameters; what the decoder raises ends the turn.
\<close>

subsection \<open>Events and effects\<close>

datatype option_field = Str codepoints | Plain json

datatype provider_event =
    Text_chunk codepoints
  | Thinking_chunk codepoints
  | Steer_consumed
  | Tool_call string codepoints string codepoints string string
  | Subagent_activity string string
  | Tool_result string string bool
  | Permission_request string string codepoints "(string \<times> option_field) list list" codepoints permission_event bool
  | Compaction_status rat
  | Complete string
  | Other_event

datatype output_event =
    Text_out codepoints
  | Thinking_out codepoints
  | Steer_out codepoints
  | Tool_out string codepoints string codepoints
  | Prompt_out string codepoints codepoints "(string \<times> option_field) list list" codepoints
  | Compaction_out rat
  | Done_out string

datatype effect = Dispatch output_event | Approve string | Reject string | Apply string string "(string \<times> json) list"

record turn_config =
  tc_ladder :: ladder
  tc_redact :: "codepoints \<Rightarrow> codepoints"
  tc_decoder :: decoder
  tc_consumer :: bool

record turn_state =
  ts_compaction :: compaction_filter
  ts_steering :: steering_filter
  ts_redactor :: stream_redactor
  ts_pending_steer :: nat
  ts_unmatched_marker :: nat
  ts_directives :: "(string, string) dict"
  ts_native :: "string list"
  ts_purposes :: "(string, codepoints) dict"
  ts_accumulated :: codepoints

definition start_turn :: "turn_config \<Rightarrow> turn_state" where
  "start_turn cfg = \<lparr>ts_compaction = new_compaction_filter, ts_steering = new_steering_filter,
     ts_redactor = new_redactor (tc_redact cfg), ts_pending_steer = 0, ts_unmatched_marker = 0, ts_directives = [],
     ts_native = [], ts_purposes = [], ts_accumulated = []\<rparr>"

subsection \<open>Text\<close>

definition and_then :: "effect list \<times> turn_state \<Rightarrow> (turn_state \<Rightarrow> effect list \<times> turn_state) \<Rightarrow> effect list \<times> turn_state" where
  "and_then r f = (let (es, st) = r; (es', st') = f st in (es @ es', st'))"

definition emit_text :: "codepoints \<Rightarrow> turn_state \<Rightarrow> effect list \<times> turn_state" where
  "emit_text text st = (let (safe, r) = feed text (ts_redactor st) in
     if safe = [] then ([], st\<lparr>ts_redactor := r\<rparr>)
     else ([Dispatch (Text_out safe)], st\<lparr>ts_redactor := r, ts_accumulated := ts_accumulated st @ safe\<rparr>))"

definition flush_redactor :: "turn_state \<Rightarrow> effect list \<times> turn_state" where
  "flush_redactor st = (let (tail, r) = flush (ts_redactor st) in
     if tail = [] then ([], st\<lparr>ts_redactor := r\<rparr>)
     else ([Dispatch (Text_out tail)], st\<lparr>ts_redactor := r, ts_accumulated := ts_accumulated st @ tail\<rparr>))"

definition match_marker :: "turn_state \<Rightarrow> turn_state" where
  "match_marker st = (if 0 < ts_pending_steer st then st\<lparr>ts_pending_steer := ts_pending_steer st - 1\<rparr>
     else st\<lparr>ts_unmatched_marker := ts_unmatched_marker st + 1\<rparr>)"

fun dispatch_frames :: "turn_config \<Rightarrow> frame list \<Rightarrow> turn_state \<Rightarrow> effect list \<times> turn_state" where
  "dispatch_frames cfg [] st = ([], st)"
| "dispatch_frames cfg (Text p # fs) st = and_then (emit_text p st) (dispatch_frames cfg fs)"
| "dispatch_frames cfg (Steer p # fs) st =
     and_then (emit_text [NL] st) (\<lambda>st. and_then (flush_redactor st) (\<lambda>st.
       and_then ([Dispatch (Steer_out (tc_redact cfg p))], match_marker st) (dispatch_frames cfg fs)))"

definition text_chunk :: "turn_config \<Rightarrow> codepoints \<Rightarrow> turn_state \<Rightarrow> effect list \<times> turn_state" where
  "text_chunk cfg text st =
     (let (filtered, f) = compaction_feed text (ts_compaction st); st = st\<lparr>ts_compaction := f\<rparr> in
      if filtered = [] then ([], st)
      else let (frames, g) = steering_feed filtered (ts_steering st) in dispatch_frames cfg frames (st\<lparr>ts_steering := g\<rparr>))"

definition complete_turn :: "turn_config \<Rightarrow> string \<Rightarrow> turn_state \<Rightarrow> effect list \<times> turn_state" where
  "complete_turn cfg stop_reason st =
     (let (pending, f) = compaction_flush (ts_compaction st); st = st\<lparr>ts_compaction := f\<rparr> in
      and_then
        (if pending = [] then ([], st)
         else let (frames, g) = steering_feed pending (ts_steering st) in dispatch_frames cfg frames (st\<lparr>ts_steering := g\<rparr>))
        (\<lambda>st. let (frames, g) = steering_flush (ts_steering st) in
           and_then (dispatch_frames cfg frames (st\<lparr>ts_steering := g\<rparr>)) (\<lambda>st.
             and_then (flush_redactor st) (\<lambda>st.
               (replicate (ts_pending_steer st) (Dispatch (Steer_out [])) @ [Dispatch (Done_out stop_reason)],
                st\<lparr>ts_pending_steer := 0\<rparr>)))))"

subsection \<open>Tools and directives\<close>

definition tool_call :: "turn_config \<Rightarrow> string \<Rightarrow> codepoints \<Rightarrow> string \<Rightarrow> codepoints \<Rightarrow> string \<Rightarrow> string \<Rightarrow>
    turn_state \<Rightarrow> effect list \<times> turn_state" where
  "tool_call cfg tool_call_id title kind purpose server name st =
     (let purpose = tc_redact cfg purpose;
          st = (if tool_call_id \<noteq> '''' \<and> purpose \<noteq> [] then st\<lparr>ts_purposes := dict_set tool_call_id purpose (ts_purposes st)\<rparr> else st);
          canonical = directive_tool_for server name;
          st = (if tc_consumer cfg \<and> tool_call_id \<noteq> '''' \<and> canonical \<noteq> ''''
                then st\<lparr>ts_directives := dict_set tool_call_id canonical (ts_directives st)\<rparr> else st)
      in ([Dispatch (Tool_out tool_call_id (tc_redact cfg title) kind purpose)], st))"

definition drop_directive :: "string \<Rightarrow> turn_state \<Rightarrow> turn_state" where
  "drop_directive c st = st\<lparr>ts_directives := dict_pop c (ts_directives st)\<rparr>"

definition consume_directive :: "turn_config \<Rightarrow> string \<Rightarrow> string \<Rightarrow> bool \<Rightarrow> turn_state \<Rightarrow> raised + effect list \<times> turn_state" where
  "consume_directive cfg tool_call_id output is_final st =
     (case dict_get (ts_directives st) tool_call_id of
        None \<Rightarrow> Inr ([], st)
      | Some tool \<Rightarrow>
          if tool = '''' then Inr ([], st)
          else if tool_call_id \<in> set (ts_native st) then Inr ([], drop_directive tool_call_id st)
          else (case decode (tc_decoder cfg) output tool of
             Inl e \<Rightarrow> Inl e
           | Inr None \<Rightarrow> Inr ([], if is_final \<and> is_refusal output then drop_directive tool_call_id st else st)
           | Inr (Some args) \<Rightarrow> Inr ([Apply tool_call_id tool args], drop_directive tool_call_id st)))"

definition redact_options :: "turn_config \<Rightarrow> (string \<times> option_field) list list \<Rightarrow> (string \<times> option_field) list list" where
  "redact_options cfg os =
     map (map (\<lambda>(k, v). (k, case v of Str s \<Rightarrow> Str (tc_redact cfg s) | Plain j \<Rightarrow> Plain j))) os"

definition permission_effects :: "turn_config \<Rightarrow> string \<Rightarrow> string \<Rightarrow> codepoints \<Rightarrow> (string \<times> option_field) list list \<Rightarrow>
    codepoints \<Rightarrow> permission_outcome \<Rightarrow> turn_state \<Rightarrow> effect list" where
  "permission_effects cfg request_id tool_call_id title opts tool_input outcome st =
     (if po_prompted outcome then [Dispatch (Prompt_out request_id (tc_redact cfg title)
          (case dict_get (ts_purposes st) tool_call_id of Some p \<Rightarrow> p | None \<Rightarrow> []) (redact_options cfg opts) (tc_redact cfg tool_input))]
      else []) @ [if po_approved outcome then Approve request_id else Reject request_id]"

subsection \<open>The loop\<close>

fun turn_step :: "turn_config \<Rightarrow> provider_event \<Rightarrow> turn_state \<Rightarrow> raised + effect list \<times> turn_state" where
  "turn_step cfg (Text_chunk t) st = Inr (text_chunk cfg t st)"
| "turn_step cfg (Thinking_chunk t) st = Inr ([Dispatch (Thinking_out (tc_redact cfg t))], st)"
| "turn_step cfg Steer_consumed st = Inr ([],
     if 0 < ts_unmatched_marker st then st\<lparr>ts_unmatched_marker := ts_unmatched_marker st - 1\<rparr>
     else st\<lparr>ts_pending_steer := ts_pending_steer st + 1\<rparr>)"
| "turn_step cfg (Tool_call c title kind purpose server name) st = Inr (tool_call cfg c title kind purpose server name st)"
| "turn_step cfg (Subagent_activity c sub) st = Inr ([],
     if c \<noteq> '''' \<and> sub \<noteq> '''' then st\<lparr>ts_native := c # ts_native st\<rparr> else st)"
| "turn_step cfg (Tool_result c output is_final) st =
     (if tc_consumer cfg then consume_directive cfg c output is_final st else Inr ([], st))"
| "turn_step cfg (Permission_request r c title opts tool_input pe answer) st =
     Inr (permission_effects cfg r c title opts tool_input (permission_request (tc_ladder cfg) pe answer) st, st)"
| "turn_step cfg (Compaction_status pct) st = Inr ([Dispatch (Compaction_out pct)], st)"
| "turn_step cfg (Complete stop_reason) st = Inr (complete_turn cfg stop_reason st)"
| "turn_step cfg Other_event st = Inr ([], st)"

text \<open>The effects up to the end, or to what is raised, and the state or the error.\<close>

fun turn_from :: "turn_config \<Rightarrow> provider_event list \<Rightarrow> turn_state \<Rightarrow> effect list \<times> (raised + turn_state)" where
  "turn_from cfg [] st = ([], Inr st)"
| "turn_from cfg (e # evs) st = (case turn_step cfg e st of
      Inl x \<Rightarrow> ([], Inl x)
    | Inr (es, st') \<Rightarrow> (let (es', r) = turn_from cfg evs st' in (es @ es', r)))"

definition run_turn :: "turn_config \<Rightarrow> provider_event list \<Rightarrow> effect list \<times> (raised + codepoints)" where
  "run_turn cfg evs = (case turn_from cfg evs (start_turn cfg) of
      (es, Inl x) \<Rightarrow> (es, Inl x) | (es, Inr st) \<Rightarrow> (es, Inr (ts_accumulated st)))"

subsection \<open>The text of a turn\<close>

fun plain :: "piece list \<Rightarrow> codepoints" where
  "plain [] = []"
| "plain (Seen c # ps) = c # plain ps"
| "plain (Mark m # ps) = NL # plain ps"

lemma plain_append [simp]: "plain (a @ b) = plain a @ plain b"
  by (induction a rule: plain.induct) auto

lemma plain_seen [simp]: "plain (map Seen s) = s"
  by (induction s) auto

fun shown_text :: "effect list \<Rightarrow> codepoints" where
  "shown_text [] = []"
| "shown_text (Dispatch (Text_out t) # es) = t @ shown_text es"
| "shown_text (e # es) = shown_text es"

lemma shown_text_append [simp]: "shown_text (a @ b) = shown_text a @ shown_text b"
  by (induction a rule: shown_text.induct) auto

fun boundaries :: "effect list \<Rightarrow> nat" where
  "boundaries [] = 0"
| "boundaries (Dispatch (Steer_out p) # es) = Suc (boundaries es)"
| "boundaries (e # es) = boundaries es"

lemma boundaries_append [simp]: "boundaries (a @ b) = boundaries a + boundaries b"
  by (induction a rule: boundaries.induct) auto

lemma boundaries_replicate [simp]: "boundaries (replicate n (Dispatch (Steer_out p))) = n"
  by (induction n) auto

lemma shown_replicate [simp]: "shown_text (replicate n (Dispatch (Steer_out p))) = []"
  by (induction n) auto

lemma and_then_eq: "and_then r f = (fst r @ fst (f (snd r)), snd (f (snd r)))"
  by (simp add: and_then_def split_def Let_def)

text \<open>A newline ends the buffer or empties it, so the flush at a marker cuts behind a newline.\<close>

lemma feed_newline:
  assumes "feed [NL] r = (out, r')"
  shows "sr_buf r' = [] \<or> \<not> cred_char (last (sr_buf r'))"
proof -
  have nl: "\<not> cred_char NL" by (simp add: cred_char_def NL_def cps_def)
  have "last (drop j (b @ [NL])) = NL" if "drop j (b @ [NL]) \<noteq> []" for j b
    using that by (subst last_drop) auto
  then show ?thesis using assms nl by (auto simp: feed_def Let_def split: cut_decision.splits if_splits)
qed

text \<open>What may be shown in the end, if \<open>z\<close> still comes and is then flushed.\<close>

definition may_show :: "turn_state \<Rightarrow> codepoints \<Rightarrow> codepoints \<Rightarrow> bool" where
  "may_show st z out = (\<exists>o'. out = ts_accumulated st @ o' \<and> in_pieces (sr_redact (ts_redactor st)) (sr_buf (ts_redactor st) @ z) o')"

definition same_filters :: "turn_state \<Rightarrow> turn_state \<Rightarrow> bool" where
  "same_filters st st' = (ts_steering st' = ts_steering st \<and> ts_compaction st' = ts_compaction st \<and>
     ts_directives st' = ts_directives st \<and> ts_native st' = ts_native st)"

fun marks :: "piece list \<Rightarrow> nat" where
  "marks [] = 0"
| "marks (Seen c # ps) = marks ps"
| "marks (Mark m # ps) = Suc (marks ps)"

lemma marks_append [simp]: "marks (a @ b) = marks a + marks b"
  by (induction a rule: marks.induct) auto

lemma marks_seen [simp]: "marks (map Seen s) = 0"
  by (induction s) auto

definition same_redactor :: "turn_state \<Rightarrow> turn_state \<Rightarrow> bool" where
  "same_redactor st st' = (sr_redact (ts_redactor st') = sr_redact (ts_redactor st))"

lemma emit_text_keeps:
  assumes "emit_text c st = (es, st')"
  shows "(\<forall>z out. may_show st' z out \<longrightarrow> may_show st (c @ z) out) \<and> ts_accumulated st' = ts_accumulated st @ shown_text es \<and>
    boundaries es = 0 \<and> same_filters st st' \<and> same_redactor st st' \<and> ts_pending_steer st' = ts_pending_steer st \<and>
    ts_unmatched_marker st' = ts_unmatched_marker st \<and>
    (c = [NL] \<longrightarrow> sr_buf (ts_redactor st') = [] \<or> \<not> cred_char (last (sr_buf (ts_redactor st'))))"
proof -
  obtain o1 r where f: "feed c (ts_redactor st) = (o1, r)" by (cases "feed c (ts_redactor st)")
  have s: "ts_redactor st' = r" "ts_accumulated st' = ts_accumulated st @ o1" "shown_text es = o1" "boundaries es = 0"
      "same_filters st st'" "ts_pending_steer st' = ts_pending_steer st" "ts_unmatched_marker st' = ts_unmatched_marker st"
    using assms f by (auto simp: emit_text_def same_filters_def split: if_splits)
  have "may_show st (c @ z) out" if "may_show st' z out" for z out
  proof -
    from that obtain o' where o: "out = ts_accumulated st @ o1 @ o'" "in_pieces (sr_redact r) (sr_buf r @ z) o'"
      using s by (auto simp: may_show_def)
    then have "in_pieces (sr_redact (ts_redactor st)) (sr_buf (ts_redactor st) @ c @ z) (o1 @ o')"
      using feed_redactor [OF f] by (intro feed_in_pieces [OF f]) simp
    then show ?thesis using o(1) unfolding may_show_def by blast
  qed
  moreover have "c = [NL] \<Longrightarrow> sr_buf r = [] \<or> \<not> cred_char (last (sr_buf r))" using feed_newline f by blast
  ultimately show ?thesis using s feed_redactor [OF f] by (simp add: same_redactor_def)
qed

lemma flush_redactor_keeps:
  assumes "flush_redactor st = (es, st')" "sr_buf (ts_redactor st) = [] \<or> \<not> cred_char (last (sr_buf (ts_redactor st)))"
  shows "(\<forall>z out. may_show st' z out \<longrightarrow> may_show st z out) \<and> ts_accumulated st' = ts_accumulated st @ shown_text es \<and>
    boundaries es = 0 \<and> same_filters st st' \<and> same_redactor st st' \<and> ts_pending_steer st' = ts_pending_steer st \<and>
    ts_unmatched_marker st' = ts_unmatched_marker st"
proof -
  let ?o1 = "fst (flush (ts_redactor st))"
  have s: "ts_redactor st' = (ts_redactor st)\<lparr>sr_buf := []\<rparr>" "ts_accumulated st' = ts_accumulated st @ ?o1" "shown_text es = ?o1"
      "boundaries es = 0" "same_filters st st'" "ts_pending_steer st' = ts_pending_steer st" "ts_unmatched_marker st' = ts_unmatched_marker st"
    using assms(1) by (auto simp: flush_redactor_def flush_def same_filters_def split: if_splits)
  have "may_show st z out" if "may_show st' z out" for z out
  proof -
    from that obtain o' where o: "out = ts_accumulated st @ ?o1 @ o'" "in_pieces (sr_redact (ts_redactor st)) z o'"
      using s by (auto simp: may_show_def)
    then show ?thesis using flush_in_pieces [OF assms(2) o(2)] unfolding may_show_def by blast
  qed
  then show ?thesis using s by (simp add: same_redactor_def)
qed

lemma flush_at_end:
  assumes "flush_redactor st = (es, st')"
  shows "may_show st [] (ts_accumulated st') \<and> ts_accumulated st' = ts_accumulated st @ shown_text es \<and> boundaries es = 0 \<and>
    ts_pending_steer st' = ts_pending_steer st"
  using assms in_pieces_last [of "sr_redact (ts_redactor st)" "sr_buf (ts_redactor st)"]
  by (auto simp: flush_redactor_def flush_def may_show_def split: if_splits)

lemma match_marker_keeps:
  "may_show (match_marker st) z out = may_show st z out" "same_redactor st' (match_marker st) = same_redactor st' st"
  "ts_accumulated (match_marker st) = ts_accumulated st" "same_filters st' (match_marker st) = same_filters st' st"
  "ts_pending_steer (match_marker st) = ts_pending_steer st - 1"
  "ts_unmatched_marker (match_marker st) = ts_unmatched_marker st + (1 - ts_pending_steer st)"
  by (auto simp: match_marker_def may_show_def same_redactor_def same_filters_def)

lemma dispatch_frames_keeps:
  assumes "dispatch_frames cfg fs st = (es, st')"
  shows "(\<forall>z out. may_show st' z out \<longrightarrow> may_show st (plain (unframe fs) @ z) out) \<and>
    ts_accumulated st' = ts_accumulated st @ shown_text es \<and> boundaries es = marks (unframe fs) \<and>
    same_filters st st' \<and> same_redactor st st' \<and>
    ts_pending_steer st' = ts_pending_steer st - marks (unframe fs) \<and>
    ts_unmatched_marker st' = ts_unmatched_marker st + (marks (unframe fs) - ts_pending_steer st)"
  using assms
proof (induction cfg fs st arbitrary: es st' rule: dispatch_frames.induct)
  case (1 cfg st)
  then show ?case by (simp add: same_filters_def same_redactor_def)
next
  case (2 cfg p fs st)
  obtain es1 st1 where e: "emit_text p st = (es1, st1)" by (cases "emit_text p st")
  obtain es2 st2 where f: "dispatch_frames cfg fs st1 = (es2, st2)" by (cases "dispatch_frames cfg fs st1")
  have k: "es = es1 @ es2" "st' = st2" using 2(2) e f by (simp_all add: and_then_eq)
  from 2(1) [OF f] emit_text_keeps [OF e] show ?case unfolding k by (simp add: same_filters_def same_redactor_def)
next
  case (3 cfg p fs st)
  obtain es1 st1 where e: "emit_text [NL] st = (es1, st1)" by (cases "emit_text [NL] st")
  obtain es0 st0 where fl: "flush_redactor st1 = (es0, st0)" by (cases "flush_redactor st1")
  obtain es2 st2 where f: "dispatch_frames cfg fs (match_marker st0) = (es2, st2)" by (cases "dispatch_frames cfg fs (match_marker st0)")
  have k: "es = es1 @ es0 @ Dispatch (Steer_out (tc_redact cfg p)) # es2" "st' = st2"
    using 3(2) e fl f by (simp_all add: and_then_eq)
  note a = emit_text_keeps [OF e]
  note b = flush_redactor_keeps [OF fl a [THEN conjunct2, THEN conjunct2, THEN conjunct2, THEN conjunct2, THEN conjunct2,
    THEN conjunct2, THEN conjunct2, rule_format, OF refl]]
  note c = 3(1) [OF f]
  have sp: "plain (unframe (Steer p # fs)) @ z = [NL] @ plain (unframe fs) @ z" for z by simp
  have "\<forall>z out. may_show st' z out \<longrightarrow> may_show st (plain (unframe (Steer p # fs)) @ z) out"
    unfolding sp k using a b c match_marker_keeps(1) by blast
  moreover have "ts_accumulated st' = ts_accumulated st @ shown_text es" "boundaries es = marks (unframe (Steer p # fs))"
    using a b c unfolding k by (simp_all add: match_marker_keeps)
  moreover have "same_filters st st'" "same_redactor st st'"
    using a b c unfolding k by (simp_all add: same_filters_def same_redactor_def match_marker_def split: if_splits)
  moreover have "ts_pending_steer st' = ts_pending_steer st - marks (unframe (Steer p # fs))"
    "ts_unmatched_marker st' = ts_unmatched_marker st + (marks (unframe (Steer p # fs)) - ts_pending_steer st)"
    using a b c unfolding k by (auto simp: match_marker_keeps)
  ultimately show ?case by blast
qed

text \<open>The text still to be parsed when \<open>cs\<close> are the chunks to come.\<close>

definition still :: "turn_state \<Rightarrow> codepoints list \<Rightarrow> codepoints" where
  "still st cs = sf_buffer (ts_steering st) @ compaction_run (ts_compaction st) cs"

definition turn_inv :: "turn_state \<Rightarrow> codepoints list \<Rightarrow> bool" where
  "turn_inv st cs = (\<not> sf_dropping (ts_steering st) \<and>
     marker_room (still st cs) \<and> (ts_pending_steer st = 0 \<or> ts_unmatched_marker st = 0))"

definition due :: "turn_state \<Rightarrow> codepoints list \<Rightarrow> codepoints \<Rightarrow> bool" where
  "due st cs out = may_show st (plain (strip_markers (still st cs))) out"

text \<open>How many boundaries are shown in the end, when \<open>n\<close> typed events and the markers of \<open>cs\<close> still come.\<close>

definition boundaries_due :: "turn_state \<Rightarrow> nat \<Rightarrow> codepoints list \<Rightarrow> int" where
  "boundaries_due st n cs = max (int (marks (strip_markers (still st cs))))
     (int (ts_pending_steer st) + int n - int (ts_unmatched_marker st))"

lemma frames_keep:
  assumes run: "dispatch_frames cfg fs st = (es, st')" and inv: "ts_pending_steer st = 0 \<or> ts_unmatched_marker st = 0"
  shows "may_show st' z out \<Longrightarrow> may_show st (plain (unframe fs) @ z) out"
    "ts_accumulated st' = ts_accumulated st @ shown_text es" "same_filters st st'" "same_redactor st st'"
    "ts_pending_steer st' = 0 \<or> ts_unmatched_marker st' = 0"
    "max (int (marks (unframe fs) + m)) (int (ts_pending_steer st) + int n - int (ts_unmatched_marker st)) =
       int (boundaries es) + max (int m) (int (ts_pending_steer st') + int n - int (ts_unmatched_marker st'))"
  using dispatch_frames_keeps [OF run] inv by auto

lemma may_show_filters [simp]:
  "may_show (x\<lparr>ts_compaction := f\<rparr>) = may_show x" "may_show (x\<lparr>ts_steering := g\<rparr>) = may_show x"
  "same_redactor (x\<lparr>ts_compaction := f\<rparr>) = same_redactor x" "same_redactor (x\<lparr>ts_steering := g\<rparr>) = same_redactor x"
  "same_redactor y (x\<lparr>ts_steering := g\<rparr>) = same_redactor y x" "same_redactor y (x\<lparr>ts_compaction := f\<rparr>) = same_redactor y x"
  "same_redactor x x"
  by (simp_all add: may_show_def same_redactor_def fun_eq_iff)

lemma text_chunk_keeps:
  assumes inv: "turn_inv st (c # cs)" and run: "text_chunk cfg c st = (es, st')"
  shows "turn_inv st' cs \<and> (\<forall>out. due st' cs out \<longrightarrow> due st (c # cs) out) \<and> ts_accumulated st' = ts_accumulated st @ shown_text es \<and>
    same_redactor st st' \<and> boundaries_due st n (c # cs) = int (boundaries es) + boundaries_due st' n cs"
proof -
  obtain t f where cf: "compaction_feed c (ts_compaction st) = (t, f)" by (cases "compaction_feed c (ts_compaction st)")
  let ?s = "st\<lparr>ts_compaction := f\<rparr>"
  have whole: "still st (c # cs) = sf_buffer (ts_steering st) @ t @ compaction_run f cs" by (simp add: still_def cf)
  show ?thesis
  proof (cases "t = []")
    case True
    then have "es = []" "st' = ?s" using run by (simp_all add: text_chunk_def cf)
    moreover have "still ?s cs = still st (c # cs)" using whole True by (simp add: still_def)
    ultimately show ?thesis using inv by (simp add: turn_inv_def due_def boundaries_due_def)
  next
    case False
    obtain fs g where sf: "steering_feed t (ts_steering st) = (fs, g)" by (cases "steering_feed t (ts_steering st)")
    let ?u = "st\<lparr>ts_compaction := f, ts_steering := g\<rparr>"
    let ?z = "sf_buffer g @ compaction_run f cs"
    have df: "dispatch_frames cfg fs ?u = (es, st')" using run False by (simp add: text_chunk_def cf sf)
    have fed: "\<not> sf_dropping g" "marker_room ?z" "unframe fs @ strip_markers ?z = strip_markers (still st (c # cs))"
      using steering_feed_open [of "ts_steering st" t "compaction_run f cs" fs g] inv sf whole by (simp_all add: turn_inv_def)
    then have parts: "plain (strip_markers (still st (c # cs))) = plain (unframe fs) @ plain (strip_markers ?z)"
        "marks (strip_markers (still st (c # cs))) = marks (unframe fs) + marks (strip_markers ?z)"
      by (metis plain_append, metis marks_append)
    have "ts_pending_steer ?u = 0 \<or> ts_unmatched_marker ?u = 0" using inv by (simp add: turn_inv_def)
    note k = frames_keep [OF df this]
    have "still st' cs = ?z" using k(3) by (simp add: still_def same_filters_def)
    then show ?thesis using k(1-5) fed(1,2) parts k(6) [of "marks (strip_markers ?z)" n]
      by (simp add: turn_inv_def due_def boundaries_due_def same_filters_def)
  qed
qed

lemma complete_keeps:
  assumes inv: "turn_inv st []" and run: "complete_turn cfg reason st = (es, st')"
  shows "due st [] (ts_accumulated st') \<and> ts_accumulated st' = ts_accumulated st @ shown_text es \<and>
    int (boundaries es) = boundaries_due st 0 []"
proof -
  obtain t f where cf: "compaction_flush (ts_compaction st) = (t, f)" by (cases "compaction_flush (ts_compaction st)")
  obtain fs g where sf: "(if t = [] then ([], ts_steering st) else steering_feed t (ts_steering st)) = (fs, g)" by fastforce
  obtain gs h where fl: "steering_flush g = (gs, h)" by (cases "steering_flush g")
  let ?u = "st\<lparr>ts_compaction := f, ts_steering := g\<rparr>"
  have whole: "still st [] = sf_buffer (ts_steering st) @ t" by (simp add: still_def cf)
  have nd: "\<not> sf_dropping (ts_steering st)" using inv by (simp add: turn_inv_def)
  have g: "\<not> sf_dropping g \<and> unframe fs @ strip_markers (sf_buffer g) = strip_markers (still st [])"
    using steering_feed_open [of "ts_steering st" t "[]" fs g] nd inv sf whole by (auto simp: turn_inv_def split: if_splits)
  have "unframe gs = strip_markers (sf_buffer g)"
    using steering_run_strips [of g "[]"] g inv fl steering_feed_open [of "ts_steering st" t "[]" fs g] sf whole
    by (auto simp: turn_inv_def split: if_splits)
  then have parts: "strip_markers (still st []) = unframe fs @ unframe gs" using g by simp
  obtain es1 st1 where d1: "dispatch_frames cfg fs ?u = (es1, st1)" by (cases "dispatch_frames cfg fs ?u")
  obtain es2 st2 where d2: "dispatch_frames cfg gs (st1\<lparr>ts_steering := h\<rparr>) = (es2, st2)"
    by (cases "dispatch_frames cfg gs (st1\<lparr>ts_steering := h\<rparr>)")
  have i1: "ts_pending_steer ?u = 0 \<or> ts_unmatched_marker ?u = 0" using inv by (simp add: turn_inv_def)
  note k1 = frames_keep [OF d1 i1]
  have i2: "ts_pending_steer (st1\<lparr>ts_steering := h\<rparr>) = 0 \<or> ts_unmatched_marker (st1\<lparr>ts_steering := h\<rparr>) = 0" using k1(5) by simp
  note k2 = frames_keep [OF d2 i2]
  obtain es3 st3 where fr: "flush_redactor st2 = (es3, st3)" by (cases "flush_redactor st2")
  note last = flush_at_end [OF fr]
  have "steering_flush (ts_steering st1) = (gs, h)" using k1(3) fl by (simp add: same_filters_def)
  then have r: "es = es1 @ es2 @ es3 @ replicate (ts_pending_steer st3) (Dispatch (Steer_out [])) @ [Dispatch (Done_out reason)]"
      "st' = st3\<lparr>ts_pending_steer := 0\<rparr>"
    using run d1 d2 fr sf by (auto simp: complete_turn_def cf and_then_eq split_def split: if_splits)
  have "may_show st2 [] (ts_accumulated st3)" using last by blast
  then have "may_show st1 (plain (unframe gs)) (ts_accumulated st3)" using k2(1) [of "[]"] by simp
  then have "due st [] (ts_accumulated st')" using k1(1) parts unfolding r by (simp add: due_def)
  moreover have "ts_accumulated st' = ts_accumulated st @ shown_text es" using k1(2) k2(2) last unfolding r by simp
  moreover have "int (boundaries es) = boundaries_due st 0 []"
    using k1(6) [of "marks (unframe gs)" 0] k2(6) [of 0 0] k2(5) last parts unfolding r
    by (auto simp: boundaries_due_def)
  ultimately show ?thesis by blast
qed

fun texts_of :: "provider_event list \<Rightarrow> codepoints list" where
  "texts_of [] = []"
| "texts_of (Text_chunk t # evs) = t # texts_of evs"
| "texts_of (e # evs) = texts_of evs"

fun typed_steers :: "provider_event list \<Rightarrow> nat" where
  "typed_steers [] = 0"
| "typed_steers (Steer_consumed # evs) = Suc (typed_steers evs)"
| "typed_steers (e # evs) = typed_steers evs"

fun ends_turn :: "provider_event \<Rightarrow> bool" where
  "ends_turn (Complete r) = True"
| "ends_turn e = False"

definition same_text :: "turn_state \<Rightarrow> turn_state \<Rightarrow> bool" where
  "same_text st st' = (ts_compaction st' = ts_compaction st \<and> ts_steering st' = ts_steering st \<and> ts_redactor st' = ts_redactor st \<and>
     ts_accumulated st' = ts_accumulated st)"

lemma permission_silent [simp]:
  "shown_text (permission_effects cfg r c title opts ti oc st) = []" "boundaries (permission_effects cfg r c title opts ti oc st) = 0"
  by (auto simp: permission_effects_def)

lemma consume_silent:
  "consume_directive cfg c output fin st = Inr (es, st') \<Longrightarrow> same_text st st' \<and> shown_text es = [] \<and> boundaries es = 0 \<and>
     ts_pending_steer st' = ts_pending_steer st \<and> ts_unmatched_marker st' = ts_unmatched_marker st"
  by (auto simp: consume_directive_def drop_directive_def same_text_def split: option.splits if_splits sum.splits)

lemma other_step_keeps:
  assumes "turn_step cfg e st = Inr (es, st')" "texts_of [e] = []" "\<not> ends_turn e"
    and "ts_pending_steer st = 0 \<or> ts_unmatched_marker st = 0"
  shows "same_text st st' \<and> shown_text es = [] \<and> boundaries es = 0 \<and>
    (ts_pending_steer st' = 0 \<or> ts_unmatched_marker st' = 0) \<and>
    int (ts_pending_steer st) - int (ts_unmatched_marker st) + int (typed_steers [e]) =
      int (ts_pending_steer st') - int (ts_unmatched_marker st')"
  using assms consume_silent
  by (cases e) (auto simp: same_text_def tool_call_def Let_def split: if_splits)

lemma turn_from_keeps:
  assumes "turn_from cfg (evs @ [Complete r]) st = (es, Inr st')" "list_all (\<lambda>e. \<not> ends_turn e) evs" "turn_inv st (texts_of evs)"
  shows "due st (texts_of evs) (ts_accumulated st') \<and> ts_accumulated st' = ts_accumulated st @ shown_text es \<and>
    int (boundaries es) = boundaries_due st (typed_steers evs) (texts_of evs)"
  using assms
proof (induction evs arbitrary: st es)
  case Nil
  then show ?case using complete_keeps [of st cfg r] by (cases "complete_turn cfg r st") auto
next
  case (Cons e evs)
  obtain es1 st1 where one: "turn_step cfg e st = Inr (es1, st1)" using Cons.prems(1) by (auto split: sum.splits)
  obtain es2 where two: "turn_from cfg (evs @ [Complete r]) st1 = (es2, Inr st')" and es: "es = es1 @ es2"
    using Cons.prems(1) one by (auto split: prod.splits)
  have later: "list_all (\<lambda>e. \<not> ends_turn e) evs" using Cons.prems(2) by simp
  show ?case
  proof (cases "\<exists>t. e = Text_chunk t")
    case True
    then obtain t where e: "e = Text_chunk t" by blast
    then have "turn_inv st (t # texts_of evs)" "text_chunk cfg t st = (es1, st1)" using Cons.prems(3) one by simp_all
    note k = text_chunk_keeps [OF this, of "typed_steers evs"]
    then have "turn_inv st1 (texts_of evs)" by blast
    note i = Cons.IH [OF two later this]
    have "due st (texts_of (e # evs)) (ts_accumulated st')" using i [THEN conjunct1] k by (simp add: e)
    moreover have "ts_accumulated st' = ts_accumulated st @ shown_text es" using i k by (simp add: es)
    ultimately show ?thesis using i k by (simp add: e es)
  next
    case False
    then have tx: "texts_of [e] = []" "texts_of (e # evs) = texts_of evs"
      "typed_steers (e # evs) = typed_steers [e] + typed_steers evs" by (cases e; simp)+
    have "\<not> ends_turn e" "ts_pending_steer st = 0 \<or> ts_unmatched_marker st = 0" using Cons.prems(2,3) by (simp_all add: turn_inv_def)
    note k = other_step_keeps [OF one tx(1) this]
    have [simp]: "still st1 cs = still st cs" "may_show st1 z out = may_show st z out" for cs z out
      using k by (simp_all add: still_def same_text_def may_show_def)
    have "turn_inv st1 (texts_of evs)" using Cons.prems(3) k tx(2) by (auto simp: turn_inv_def same_text_def)
    note i = Cons.IH [OF two later this]
    have "due st (texts_of (e # evs)) (ts_accumulated st')" using i [THEN conjunct1] tx(2) by (simp add: due_def)
    moreover have "ts_accumulated st' = ts_accumulated st @ shown_text es" using i k by (simp add: es same_text_def)
    ultimately show ?thesis using i k tx(2,3) by (auto simp: es boundaries_due_def)
  qed
qed

lemma start_inv:
  assumes "outer_space (concat cs) \<le> 64" "marker_room (shown_turn (concat cs))"
  shows "turn_inv (start_turn cfg) cs" "still (start_turn cfg) cs = shown_turn (concat cs)"
proof -
  have "\<not> is_internal_compaction_notice []"
    by (simp add: is_internal_compaction_notice_def COMPACTION_NOTICE_PREFIXES_def starts_with_def cps_def)
  then have "compaction_run new_compaction_filter cs = shown_turn (concat cs)"
    using compaction_run_shows [of new_compaction_filter cs] assms(1) by (simp add: new_compaction_filter_def)
  then show s: "still (start_turn cfg) cs = shown_turn (concat cs)"
    by (simp add: still_def start_turn_def new_steering_filter_def)
  show "turn_inv (start_turn cfg) cs"
    using assms by (simp add: turn_inv_def s) (simp add: start_turn_def new_redactor_def new_steering_filter_def)
qed

subsection \<open>The turn returns\<close>

definition directive_readable :: "decoder \<Rightarrow> string \<Rightarrow> bool" where
  "directive_readable dec output = (case find_sub output SENTINEL of None \<Rightarrow> True
     | Some i \<Rightarrow> json_loads dec (takeWhile (\<lambda>c. c \<noteq> CHR 0x0A) (drop (i + length SENTINEL) output)) \<noteq> Nesting_limit)"

fun answerable :: "turn_config \<Rightarrow> provider_event \<Rightarrow> bool" where
  "answerable cfg (Tool_result c output is_final) = (\<not> tc_consumer cfg \<or> directive_readable (tc_decoder cfg) output)"
| "answerable cfg e = True"

lemma decode_readable: "directive_readable dec output \<Longrightarrow> decode dec output tool \<noteq> Inl x"
  by (auto simp: directive_readable_def decode_def split: option.splits decoded.splits)

lemma step_returns: "answerable cfg e \<Longrightarrow> \<exists>es st'. turn_step cfg e st = Inr (es, st')"
proof (cases e)
  case (Tool_result c out is_final)
  assume "answerable cfg e"
  then show ?thesis using Tool_result decode_readable [of "tc_decoder cfg" out]
    by (auto simp: consume_directive_def split: option.splits sum.splits)
qed (auto simp: text_chunk_def complete_turn_def and_then_eq split: prod.splits)

lemma turn_returns: "list_all (answerable cfg) evs \<Longrightarrow> \<exists>es st'. turn_from cfg evs st = (es, Inr st')"
proof (induction evs arbitrary: st)
  case (Cons e evs)
  then obtain es st' where "turn_step cfg e st = Inr (es, st')" using step_returns by fastforce
  moreover obtain es' st'' where "turn_from cfg evs st' = (es', Inr st'')" using Cons by fastforce
  ultimately show ?case by simp
qed simp

text \<open>The whole reply as the channel shall see it: markers become newlines, a reserved notice its replacement.\<close>

definition reply_of :: "provider_event list \<Rightarrow> piece list" where
  "reply_of evs = strip_markers (shown_turn (concat (texts_of evs)))"

text \<open>A turn as it is expected to be: it ends with its end, its tool results can be decoded, its text does not start with more white space than the filter of
  notices looks through, and no steering marker is longer than the filter of markers waits for.\<close>

definition regular_turn :: "turn_config \<Rightarrow> provider_event list \<Rightarrow> bool" where
  "regular_turn cfg evs = (list_all (\<lambda>e. \<not> ends_turn e) evs \<and> list_all (answerable cfg) evs \<and>
     outer_space (concat (texts_of evs)) \<le> 64 \<and> marker_room (shown_turn (concat (texts_of evs))))"

lemma turn_result:
  assumes "regular_turn cfg evs"
  shows "\<exists>es. run_turn cfg (evs @ [Complete r]) = (es, Inr (shown_text es)) \<and>
    in_pieces (tc_redact cfg) (plain (reply_of evs)) (shown_text es) \<and> boundaries es = max (marks (reply_of evs)) (typed_steers evs)"
proof -
  have o: "list_all (\<lambda>e. \<not> ends_turn e) evs" "list_all (answerable cfg) (evs @ [Complete r])"
    using assms by (simp_all add: regular_turn_def)
  obtain es st where t: "turn_from cfg (evs @ [Complete r]) (start_turn cfg) = (es, Inr st)" using turn_returns [OF o(2)] by blast
  have s: "turn_inv (start_turn cfg) (texts_of evs)" "still (start_turn cfg) (texts_of evs) = shown_turn (concat (texts_of evs))"
    using start_inv [of "texts_of evs" cfg] assms by (simp_all add: regular_turn_def)
  note k = turn_from_keeps [OF t o(1) s(1)]
  have a: "ts_accumulated st = shown_text es" using k by (simp add: start_turn_def)
  moreover have p: "in_pieces (tc_redact cfg) (plain (reply_of evs)) (ts_accumulated st)"
    using k [THEN conjunct1] s(2) by (simp add: due_def may_show_def reply_of_def) (simp add: start_turn_def new_redactor_def)
  moreover have "boundaries_due (start_turn cfg) n (texts_of evs) = int (max (marks (reply_of evs)) n)" for n
    using s(2) by (simp add: boundaries_due_def reply_of_def) (simp add: start_turn_def)
  then have "boundaries es = max (marks (reply_of evs)) (typed_steers evs)" using k by auto
  ultimately show ?thesis using t by (auto simp: run_turn_def)
qed

subsection \<open>Directives\<close>

fun applied :: "string \<Rightarrow> string \<Rightarrow> effect list \<Rightarrow> nat" where
  "applied c tool [] = 0"
| "applied c tool (Apply c' tool' args # es) = of_bool (c' = c \<and> tool' = tool) + applied c tool es"
| "applied c tool (e # es) = applied c tool es"

text \<open>The calls that the core server reported under this id and for this tool.\<close>

fun core_calls :: "string \<Rightarrow> string \<Rightarrow> provider_event list \<Rightarrow> nat" where
  "core_calls c tool [] = 0"
| "core_calls c tool (Tool_call c' title kind purpose server name # evs) =
     of_bool (c' = c \<and> server = CORE_MCP_SERVER \<and> match_tool name = tool) + core_calls c tool evs"
| "core_calls c tool (e # evs) = core_calls c tool evs"

lemma applied_append [simp]: "applied c tool (a @ b) = applied c tool a + applied c tool b"
  by (induction a rule: applied.induct) auto

lemma applied_replicate [simp]: "applied c tool (replicate n (Dispatch d)) = 0"
  by (induction n) auto

definition no_directives :: "turn_state \<Rightarrow> effect list \<times> turn_state \<Rightarrow> bool" where
  "no_directives st r = (ts_directives (snd r) = ts_directives st \<and> ts_native (snd r) = ts_native st \<and> (\<forall>c tool. applied c tool (fst r) = 0))"

lemma no_directives_then:
  "no_directives st r \<Longrightarrow> (\<And>st'. ts_directives st' = ts_directives st \<Longrightarrow> ts_native st' = ts_native st \<Longrightarrow> no_directives st' (f st')) \<Longrightarrow>
     no_directives st (and_then r f)"
  by (simp add: no_directives_def and_then_eq)

lemma no_directives_simps:
  "no_directives st ([], st')  = (ts_directives st' = ts_directives st \<and> ts_native st' = ts_native st)"
  "no_directives st (emit_text t st)" "no_directives st (flush_redactor st)"
  by (auto simp: no_directives_def emit_text_def flush_redactor_def split: prod.splits)

lemma no_directives_frames: "no_directives st (dispatch_frames cfg fs st)"
proof (induction cfg fs st rule: dispatch_frames.induct)
  case (3 cfg p fs st)
  then show ?case
    by (auto intro!: no_directives_then simp: no_directives_simps) (auto simp: no_directives_def match_marker_def)
qed (auto intro!: no_directives_then simp: no_directives_simps)


lemma text_chunk_no_directives: "no_directives st (text_chunk cfg t st)"
  using no_directives_frames [of _ cfg]
  by (auto simp: text_chunk_def Let_def no_directives_def split: prod.splits)

lemma complete_no_directives: "no_directives st (complete_turn cfg r st)"
  unfolding complete_turn_def Let_def
  using no_directives_frames [of _ cfg]
  by (auto split: prod.splits intro!: no_directives_then simp: no_directives_simps) (auto simp: no_directives_def)

definition granted :: "string \<Rightarrow> string \<Rightarrow> turn_state \<Rightarrow> nat" where
  "granted c tool st = of_bool (dict_get (ts_directives st) c = Some tool)"

lemma step_directives:
  assumes "turn_step cfg e st = Inr (es, st')" "tool \<noteq> []"
  shows "applied c tool es + granted c tool st' \<le> core_calls c tool [e] + granted c tool st \<and>
    set (ts_native st) \<subseteq> set (ts_native st') \<and> (c \<in> set (ts_native st) \<longrightarrow> applied c tool es = 0)"
proof (cases e)
  case (Text_chunk t)
  then show ?thesis using assms text_chunk_no_directives [of st cfg t] by (simp add: no_directives_def granted_def)
next
  case (Complete r)
  then show ?thesis using assms complete_no_directives [of st cfg r] by (simp add: no_directives_def granted_def)
next
  case (Tool_call c' title kind purpose server name)
  then show ?thesis using assms
    by (auto simp: tool_call_def Let_def granted_def dict_simps directive_tool_for_def split: if_splits)
next
  case (Tool_result c' out is_final)
  then show ?thesis using assms
    by (auto simp: consume_directive_def drop_directive_def granted_def dict_simps split: option.splits sum.splits if_splits)
next
  case (Permission_request r c' title opts ti pe answer)
  then show ?thesis using assms by (auto simp: permission_effects_def granted_def)
qed (use assms in \<open>auto simp: granted_def split: if_splits\<close>)

lemma turn_from_directives:
  assumes "tool \<noteq> []" "turn_from cfg evs st = (es, r)"
  shows "applied c tool es \<le> core_calls c tool evs + granted c tool st \<and> (c \<in> set (ts_native st) \<longrightarrow> applied c tool es = 0)"
  using assms(2)
proof (induction evs arbitrary: st es)
  case (Cons e evs)
  show ?case
  proof (cases "turn_step cfg e st")
    case (Inr p)
    obtain es1 st1 where one: "turn_step cfg e st = Inr (es1, st1)" using Inr by (cases p) auto
    obtain es2 where two: "turn_from cfg evs st1 = (es2, r)" "es = es1 @ es2" using Cons.prems one by (auto split: prod.splits)
    have "core_calls c tool (e # evs) = core_calls c tool [e] + core_calls c tool evs" by (cases e) auto
    then show ?thesis using step_directives [OF one assms(1), of c] Cons.IH [OF two(1)] two(2) by auto
  qed (use Cons.prems in simp)
qed simp

lemma turn_from_append:
  "turn_from cfg (a @ b) st = (case turn_from cfg a st of
      (es, Inl x) \<Rightarrow> (es, Inl x) | (es, Inr st') \<Rightarrow> (let (es', r) = turn_from cfg b st' in (es @ es', r)))"
  by (induction a arbitrary: st) (auto split: sum.splits prod.splits)

lemma native_stays_out:
  assumes "tool \<noteq> []" "c \<noteq> []" "sub \<noteq> []"
  shows "applied c tool (fst (turn_from cfg (a @ Subagent_activity c sub # b) st)) = applied c tool (fst (turn_from cfg a st))"
proof (cases "turn_from cfg a st")
  case (Pair es r)
  show ?thesis
  proof (cases r)
    case (Inr st')
    let ?s = "st'\<lparr>ts_native := c # ts_native st'\<rparr>"
    obtain es' r' where b: "turn_from cfg b ?s = (es', r')" by fastforce
    have "applied c tool es' = 0" using turn_from_directives [OF assms(1) b, of c] by simp
    then show ?thesis using Pair Inr b assms(2,3) by (simp add: turn_from_append)
  qed (use Pair in \<open>simp add: turn_from_append\<close>)
qed

subsection \<open>The properties of a turn\<close>

definition sample_config :: turn_config where
  "sample_config = \<lparr>tc_ladder = \<lparr>deny_all_tools = False, approval_mode = APPROVAL_INTERACTIVE, has_decider = False\<rparr>,
     tc_redact = mask_runs [], tc_decoder = stop_decoder, tc_consumer = True\<rparr>"

definition sample_turn :: "provider_event list" where
  "sample_turn = [Text_chunk (cps ''key AKIA1234''), Text_chunk (cps ''5678ABCD9E [STEER''), Thinking_chunk (cps ''hm''),
     Text_chunk (cps ''ING steer-1f: go on]AKIA''), Steer_consumed, Steer_consumed]"

lemma sample_text: "concat (texts_of sample_turn) = cps ''key AKIA12345678ABCD9E [STEERING steer-1f: go on]AKIA''"
  by (simp add: sample_turn_def cps_def)

lemma sample_shown: "shown_turn (concat (texts_of sample_turn)) = concat (texts_of sample_turn)"
  by (simp add: sample_text shown_turn_def is_internal_compaction_notice_def COMPACTION_NOTICE_PREFIXES_def starts_with_def cps_def cp_isspace_def)

lemma sample_marker: "fullmatch STEER_MARKER_RE (cps ''[STEERING steer-1f: go on]'')"
  by (simp add: STEER_MARKER_RE_def steer_word_def pattern_eval)

lemma sample_reply: "reply_of sample_turn = map Seen (cps ''key AKIA12345678ABCD9E '') @ Mark (cps ''go on'') # map Seen (cps ''AKIA'')"
proof -
  have m: "strip_markers (cps ''[STEERING steer-1f: go on]'' @ s) = Mark (cps ''go on'') # strip_markers s" for s
    using strip_sample [OF sample_marker, of s]
    by (simp add: starts_with_def STEER_PREFIX_def cps_def steer_payload_def cp_strip_def cp_rstrip_def cp_isspace_def)
  have "concat (texts_of sample_turn) = cps ''key AKIA12345678ABCD9E '' @ cps ''[STEERING steer-1f: go on]'' @ cps ''AKIA''"
    by (simp add: sample_text cps_def)
  moreover have "91 \<notin> set (cps ''key AKIA12345678ABCD9E '')" "91 \<notin> set (cps ''AKIA'')" by (simp_all add: cps_def)
  moreover have "strip_markers [] = []" by (simp add: strip_markers.simps)
  ultimately show ?thesis using strip_plain [of "cps ''AKIA''" "[]"] unfolding reply_of_def sample_shown by (simp add: strip_plain m)
qed

lemma sample_regular: "regular_turn sample_config sample_turn"
  unfolding regular_turn_def
proof (intro conjI)
  show "outer_space (concat (texts_of sample_turn)) \<le> 64" by (simp add: sample_text outer_space_def cps_def cp_isspace_def)
  show "marker_room (shown_turn (concat (texts_of sample_turn)))"
    unfolding sample_shown by (rule marker_room_short) (simp add: sample_text cps_def MAX_STEER_MARKER_CHARS_def)
qed (simp_all add: sample_turn_def)

lemma sample_plain: "plain (reply_of sample_turn) = cps ''key '' @ cps ''AKIA12345678ABCD9E'' @ (cps '' '' @ NL # cps ''AKIA'')"
  by (simp add: sample_reply cps_def)

lemma sample_ordinary: "ordinary (plain (reply_of sample_turn))"
  unfolding ordinary_def by (intro conjI runs_within_short)
    (simp_all add: sample_plain pattern_eval mentions_code word_at_def STREAM_HOLDBACK_MAX_def)

text \<open>C10. What a turn shows: the text the renderer is given and the text returned are one and the same, and it is the
  whole reply redacted in pieces, however the provider cut it into chunks and whatever other events it sent in between, and whatever
  the redactor. In the reply each steering marker is a newline, an unfinished one at the end is
  gone, and a turn that starts with a reserved notice is the replacement of that notice. The pieces are cut as a stream is: in
  a reply without long runs and without the words of an anchor or a header every run of credential characters lies within one piece. It
  holds for a turn that ends with its end, whose tool results can be decoded, with at most 64 characters of white
  space before its text and no steering marker longer than the filter waits for.\<close>

theorem turn_shows_the_reply_in_pieces:
  assumes "regular_turn cfg evs"
  shows "\<exists>shown ps. snd (run_turn cfg (evs @ [Complete r])) = Inr shown \<and> shown_text (fst (run_turn cfg (evs @ [Complete r]))) = shown \<and>
    cut_up (plain (reply_of evs)) ps \<and> shown = concat (map (piece_shown (tc_redact cfg)) ps) \<and>
    (ordinary (plain (reply_of evs)) \<longrightarrow> runs_uncut (plain (reply_of evs)) ps)"
proof -
  obtain es ps where "run_turn cfg (evs @ [Complete r]) = (es, Inr (shown_text es))" "cut_up (plain (reply_of evs)) ps"
      "shown_text es = concat (map (piece_shown (tc_redact cfg)) ps)"
    using turn_result [OF assms, of r] unfolding in_pieces_def by blast
  then show ?thesis using ordinary_runs_uncut by (intro exI [of _ "shown_text es"] exI [of _ ps]) simp
qed

theorem turn_shows_the_reply_in_pieces_witness:
  "\<exists>shown ps. snd (run_turn sample_config (sample_turn @ [Complete ''end_turn''])) = Inr shown \<and>
     shown = concat (map (piece_shown (mask_runs [])) ps) \<and> (\<exists>p \<in> set ps. \<exists>u v. fst p = u @ cps ''AKIA12345678ABCD9E'' @ v)"
proof -
  have c: "tc_redact sample_config = mask_runs []" by (simp add: sample_config_def)
  obtain shown ps where s: "snd (run_turn sample_config (sample_turn @ [Complete ''end_turn''])) = Inr shown"
      "shown = concat (map (piece_shown (mask_runs [])) ps)" "runs_uncut (plain (reply_of sample_turn)) ps"
    using turn_shows_the_reply_in_pieces [OF sample_regular, of "''end_turn''"] sample_ordinary unfolding c by blast
  have "cps ''AKIA12345678ABCD9E'' \<noteq> []" "list_all cred_char (cps ''AKIA12345678ABCD9E'')"
    by (simp_all add: cps_def cred_char_def)
  with s(3) [unfolded runs_uncut_def, rule_format, OF sample_plain]
  have "\<exists>p \<in> set ps. \<exists>u v. fst p = u @ cps ''AKIA12345678ABCD9E'' @ v" .
  with s(1,2) show ?thesis by (intro exI conjI)
qed

text \<open>One boundary per steer: the typed events and the inline markers of a steer come in either order and
  in any number, and the renderer is told of the larger number of the two, so a steer that is announced twice is
  one boundary and one that is announced once is not lost.\<close>

theorem one_boundary_per_steer:
  assumes "regular_turn cfg evs"
  shows "boundaries (fst (run_turn cfg (evs @ [Complete r]))) = max (marks (reply_of evs)) (typed_steers evs)"
  using turn_result [OF assms, of r] by auto

theorem one_boundary_per_steer_witness:
  "boundaries (fst (run_turn sample_config (sample_turn @ [Complete ''end_turn'']))) = 2"
proof -
  have "max (marks (reply_of sample_turn)) (typed_steers sample_turn) = 2" by (simp add: sample_reply) (simp add: sample_turn_def)
  then show ?thesis using one_boundary_per_steer [OF sample_regular, of "''end_turn''"] by simp
qed

fun natively_owned :: "string \<Rightarrow> provider_event \<Rightarrow> bool" where
  "natively_owned c (Subagent_activity c' sub) = (c' = c \<and> c \<noteq> [] \<and> sub \<noteq> [])"
| "natively_owned c e = False"

lemma core_calls_append: "core_calls c tool (a @ b) = core_calls c tool a + core_calls c tool b"
  by (induction c tool a rule: core_calls.induct) auto

lemma applied_member: "Apply c tool args \<in> set es \<Longrightarrow> 0 < applied c tool es"
  by (induction es rule: applied.induct) auto

lemma no_directives_member: "no_directives st r \<Longrightarrow> Apply c tool args \<notin> set (fst r)"
  using applied_member by (fastforce simp: no_directives_def)

lemma step_applies:
  assumes "turn_step cfg e st = Inr (es, st')" "Apply c tool args \<in> set es"
  shows "\<exists>out is_final. e = Tool_result c out is_final \<and> decode (tc_decoder cfg) out tool = Inr (Some args) \<and>
    tool \<noteq> [] \<and> granted c tool st = 1 \<and> c \<notin> set (ts_native st)"
proof (cases e)
  case (Text_chunk t)
  then show ?thesis using assms no_directives_member [OF text_chunk_no_directives [of st cfg t]] by simp
next
  case (Complete r)
  then show ?thesis using assms no_directives_member [OF complete_no_directives [of st cfg r]] by simp
next
  case (Tool_result c' out is_final)
  then show ?thesis using assms
    by (auto simp: consume_directive_def granted_def split: option.splits sum.splits if_splits)
qed (use assms in \<open>auto simp: tool_call_def permission_effects_def Let_def split: if_splits\<close>)

lemma applied_source:
  assumes "turn_from cfg evs st = (es, r)" "Apply c tool args \<in> set es"
  shows "\<exists>before out is_final after. evs = before @ Tool_result c out is_final # after \<and>
    decode (tc_decoder cfg) out tool = Inr (Some args) \<and> 0 < core_calls c tool before + granted c tool st \<and>
    tool \<noteq> [] \<and> list_all (\<lambda>e. \<not> natively_owned c e) before \<and> c \<notin> set (ts_native st)"
  using assms
proof (induction evs arbitrary: st es)
  case (Cons e evs)
  show ?case
  proof (cases "turn_step cfg e st")
    case (Inr p)
    obtain es1 st1 where one: "turn_step cfg e st = Inr (es1, st1)" using Inr by (cases p) auto
    obtain es2 where two: "turn_from cfg evs st1 = (es2, r)" "es = es1 @ es2" using Cons.prems one by (auto split: prod.splits)
    show ?thesis
    proof (cases "Apply c tool args \<in> set es1")
      case True
      then obtain out is_final where "e = Tool_result c out is_final" "decode (tc_decoder cfg) out tool = Inr (Some args)"
          "tool \<noteq> []" "granted c tool st = 1" "c \<notin> set (ts_native st)" using step_applies [OF one True] by blast
      then show ?thesis by (intro exI [of _ "[]"] exI [of _ out] exI [of _ is_final] exI [of _ evs]) auto
    next
      case False
      then obtain before out is_final after where b: "evs = before @ Tool_result c out is_final # after"
          "decode (tc_decoder cfg) out tool = Inr (Some args)" "0 < core_calls c tool before + granted c tool st1"
          "tool \<noteq> []" "list_all (\<lambda>e. \<not> natively_owned c e) before" "c \<notin> set (ts_native st1)"
        using Cons.IH [OF two(1)] Cons.prems(2) two(2) by auto
      have "core_calls c tool (e # before) = core_calls c tool [e] + core_calls c tool before" by (cases e) auto
      moreover have "\<not> natively_owned c e" using b(6) one by (cases e) (auto split: if_splits)
      ultimately show ?thesis using step_directives [OF one b(4), of c] b
        by (intro exI [of _ "e # before"] exI [of _ out] exI [of _ is_final] exI [of _ after]) auto
    qed
  qed (use Cons.prems in simp)
qed simp

lemma run_turn_effects: "fst (run_turn cfg evs) = fst (turn_from cfg evs (start_turn cfg))"
  by (auto simp: run_turn_def split: prod.splits sum.splits)

lemma start_grants [simp]: "granted c tool (start_turn cfg) = 0"
  by (simp add: granted_def start_turn_def)

text \<open>C11. Where a directive comes from: arguments are applied for a call and a tool only by a result of that very
  call that decodes to them, after the core server itself reported the call under the tool's name, and never
  when the call was announced before as a native sub-agent's. No text of a model, result of another tool or
  server of the same tool name can do it.\<close>

theorem directives_come_from_core_calls:
  assumes "Apply c tool args \<in> set (fst (run_turn cfg evs))"
  shows "\<exists>before out is_final after. evs = before @ Tool_result c out is_final # after \<and>
    decode (tc_decoder cfg) out tool = Inr (Some args) \<and> 0 < core_calls c tool before \<and>
    list_all (\<lambda>e. \<not> natively_owned c e) before"
proof -
  obtain es r where t: "turn_from cfg evs (start_turn cfg) = (es, r)" by fastforce
  show ?thesis using applied_source [OF t] assms t by (fastforce simp: run_turn_effects)
qed

text \<open>C31. A directive is applied once: however many results a call has, before its end and after, it is applied no
  more often than the core server reported the call, and not at all once the call is announced as a native sub-agent's.\<close>

theorem directives_apply_once:
  assumes "tool \<noteq> []" "c \<noteq> []" "sub \<noteq> []"
  shows "applied c tool (fst (run_turn cfg evs)) \<le> core_calls c tool evs \<and>
    applied c tool (fst (run_turn cfg (evs @ Subagent_activity c sub # rest))) = applied c tool (fst (run_turn cfg evs))"
proof -
  obtain es r where t: "turn_from cfg evs (start_turn cfg) = (es, r)" by fastforce
  have "applied c tool (fst (run_turn cfg evs)) \<le> core_calls c tool evs"
    using turn_from_directives [OF assms(1) t, of c] by (simp add: run_turn_effects t)
  then show ?thesis using native_stays_out [OF assms] by (simp add: run_turn_effects)
qed

definition sample_result :: string where
  "sample_result = encode stop_dumps ''autonudge_stop'' stop_args ''Stopping.''"

text \<open>A shell prints the marker, then the core server's tool returns it twice.\<close>

definition sample_directive :: "provider_event list" where
  "sample_directive = [Tool_call ''t0'' [] ''shell'' [] '''' ''execute_bash'', Tool_result ''t0'' sample_result True,
     Tool_call ''t1'' [] ''mcp'' [] CORE_MCP_SERVER ''autonudge_stop'',
     Tool_result ''t1'' sample_result False, Tool_result ''t1'' sample_result True]"

lemma sample_decodes: "decode (tc_decoder sample_config) sample_result ''autonudge_stop'' = Inr (Some stop_args)"
proof -
  have "sample_result = directive_text stop_dumps ''autonudge_stop'' stop_args ''Stopping.''"
    by (simp add: sample_result_def encode_def directive_text_def SENTINEL_def MAX_DIRECTIVE_CHARS_def stop_dumps_def stop_text_line)
  moreover have "\<not> contains_sub ''Stopping.'' SENTINEL" by (simp add: SENTINEL_def starts_with_def)
  ultimately show ?thesis
    using decode_directive_text [of "''Stopping.''" "''autonudge_stop''" stop_decoder stop_dumps "''autonudge_stop''" stop_args]
      stop_decodes stop_text_line(1)
    by (simp add: sample_config_def DIRECTIVE_TOOLS_def stop_dumps_def)
qed

lemma sample_directive_run:
  "fst (run_turn sample_config sample_directive) =
    [Dispatch (Tool_out ''t0'' [] ''shell'' []), Dispatch (Tool_out ''t1'' [] ''mcp'' []), Apply ''t1'' ''autonudge_stop'' stop_args]"
proof -
  have [simp]: "tc_redact sample_config [] = []" "tc_consumer sample_config" by (simp_all add: sample_config_def)
  have [simp]: "directive_tool_for CORE_MCP_SERVER ''autonudge_stop'' = ''autonudge_stop''" "directive_tool_for [] n = []" for n
    by (simp_all add: directive_tool_for_def match_tool_def DIRECTIVE_TOOLS_def CORE_MCP_SERVER_def)
  show ?thesis
    by (simp add: run_turn_def sample_directive_def start_turn_def tool_call_def consume_directive_def drop_directive_def dict_simps sample_decodes)
qed

theorem directives_come_from_core_calls_witness:
  "0 < core_calls ''t1'' ''autonudge_stop'' sample_directive \<and>
   Apply ''t1'' ''autonudge_stop'' stop_args \<in> set (fst (run_turn sample_config sample_directive))"
proof -
  have a: "Apply ''t1'' ''autonudge_stop'' stop_args \<in> set (fst (run_turn sample_config sample_directive))"
    by (simp add: sample_directive_run)
  obtain before after where "sample_directive = before @ after" "0 < core_calls ''t1'' ''autonudge_stop'' before"
    using directives_come_from_core_calls [OF a] by blast
  then have "0 < core_calls ''t1'' ''autonudge_stop'' sample_directive" by (metis core_calls_append trans_less_add1)
  then show ?thesis using a by blast
qed

theorem directives_apply_once_witness:
  "applied ''t1'' ''autonudge_stop'' (fst (run_turn sample_config sample_directive)) = 1 \<and>
   applied ''t1'' ''autonudge_stop'' (fst (run_turn sample_config (take 3 sample_directive @ Subagent_activity ''t1'' ''s'' #
     drop 3 sample_directive))) = 0"
proof -
  have [simp]: "match_tool ''autonudge_stop'' = ''autonudge_stop''" by (simp add: match_tool_def DIRECTIVE_TOOLS_def)
  have "core_calls ''t1'' ''autonudge_stop'' sample_directive = 1"
    "core_calls ''t1'' ''autonudge_stop'' (take 3 sample_directive) = 1"
    by (simp_all add: sample_directive_def CORE_MCP_SERVER_def)
  moreover have "applied ''t1'' ''autonudge_stop'' (fst (run_turn sample_config (take 3 sample_directive))) = 0"
    by (simp add: run_turn_effects sample_directive_def tool_call_def consume_directive_def start_turn_def dict_simps directive_tool_for_def sample_config_def CORE_MCP_SERVER_def)
  ultimately show ?thesis
    using directives_apply_once [of "''autonudge_stop''" "''t1''" "''s''" sample_config sample_directive]
      directives_apply_once [of "''autonudge_stop''" "''t1''" "''s''" sample_config "take 3 sample_directive" "drop 3 sample_directive"]
    by (simp add: sample_directive_run)
qed

end
