(* ===== verification/Schema_Check.thy ===== *)
theory Schema_Check imports Json_Recovery begin

section \<open>Structured output (\<^verbatim>\<open>workflows/schema.py\<close>)\<close>

text \<open>
  The validator of the JSON-Schema subset and the bounded retry around it. A message of the validator
  is a value of \<open>violation\<close> that carries what the message renders. Where the code would raise on a
  malformed schema, the model returns the exception. The agent is an argument that takes a prompt and
  a state of the world and returns a reply or an exception.
\<close>

subsection \<open>Types\<close>

definition DEFAULT_SCHEMA_RETRIES :: int where "DEFAULT_SCHEMA_RETRIES = 2"

definition then_do :: "'e + 'a \<Rightarrow> ('a \<Rightarrow> 'e + 'b) \<Rightarrow> 'e + 'b" where
  "then_do r f = (case r of Inl e \<Rightarrow> Inl e | Inr x \<Rightarrow> f x)"

lemma then_do_simps [simp]: "then_do (Inl e) f = Inl e" "then_do (Inr x) f = f x"
  by (simp_all add: then_do_def)

lemma then_do_cong [fundef_cong]:
  "r = r' \<Longrightarrow> (\<And>x. r' = Inr x \<Longrightarrow> f x = g x) \<Longrightarrow> then_do r f = then_do r' g"
  by (cases r') (auto simp: then_do_def)

lemma then_do_Inr: "then_do r f = Inr y \<longleftrightarrow> (\<exists>x. r = Inr x \<and> f x = Inr y)"
  by (cases r) auto

text \<open>\<^verbatim>\<open>isinstance(value, _JSON_TYPES[name])\<close>, where a Boolean is no number; \<open>None\<close> for a name the
  table does not have.\<close>

definition has_json_type :: "string \<Rightarrow> json \<Rightarrow> bool option" where
  "has_json_type name v =
     (if name = ''object'' then Some (is_dict v)
      else if name = ''array'' then Some (is_list v)
      else if name = ''integer'' then Some (case v of JInt n \<Rightarrow> True | _ \<Rightarrow> False)
      else if name = ''number'' then Some (case v of JInt n \<Rightarrow> True | JFloat f \<Rightarrow> True | _ \<Rightarrow> False)
      else if name = ''string'' then Some (case v of JStr s \<Rightarrow> True | _ \<Rightarrow> False)
      else if name = ''boolean'' then Some (case v of JBool b \<Rightarrow> True | _ \<Rightarrow> False)
      else if name = ''null'' then Some (v = JNull)
      else None)"

fun type_ok :: "json \<Rightarrow> json \<Rightarrow> raised + bool"
  and any_type_ok :: "json \<Rightarrow> json list \<Rightarrow> raised + bool" where
  "type_ok v (JArr members) = any_type_ok v members"
| "type_ok v (JStr name) = Inr (case has_json_type name v of Some b \<Rightarrow> b | None \<Rightarrow> True)"
| "type_ok v (JObj d) = Inl Type_error"
| "type_ok v JNull = Inr True"
| "type_ok v (JBool b) = Inr True"
| "type_ok v (JInt n) = Inr True"
| "type_ok v (JFloat f) = Inr True"
| "any_type_ok v [] = Inr False"
| "any_type_ok v (m # ms) = then_do (type_ok v m) (\<lambda>b. if b then Inr True else any_type_ok v ms)"

subsection \<open>Validation\<close>

datatype violation =
    Not_json string
  | Wrong_type string json json
  | Not_in_enum string json json
  | Missing_property string json

text \<open>\<^verbatim>\<open>value in enum\<close>, \<^verbatim>\<open>for key in required\<close> and \<^verbatim>\<open>key in value\<close>, each for whatever
  the schema holds there.\<close>

definition py_in :: "json \<Rightarrow> json \<Rightarrow> raised + bool" where
  "py_in v c = (case c of
      JArr xs \<Rightarrow> Inr (list_ex (py_eq v) xs)
    | JStr s \<Rightarrow> (case v of JStr w \<Rightarrow> Inr (contains_sub s w) | _ \<Rightarrow> Inl Type_error)
    | JObj d \<Rightarrow> (case v of JStr k \<Rightarrow> Inr (k \<in> set (dict_keys d)) | JArr xs \<Rightarrow> Inl Type_error | JObj e \<Rightarrow> Inl Type_error
        | _ \<Rightarrow> Inr False)
    | _ \<Rightarrow> Inl Type_error)"

definition py_iter :: "json \<Rightarrow> raised + json list" where
  "py_iter c = (case c of
      JArr xs \<Rightarrow> Inr xs
    | JStr s \<Rightarrow> Inr (map (\<lambda>x. JStr [x]) s)
    | JObj d \<Rightarrow> Inr (map (\<lambda>p. JStr (fst p)) d)
    | _ \<Rightarrow> Inl Type_error)"

fun missing_properties :: "string \<Rightarrow> (string \<times> json) list \<Rightarrow> json list \<Rightarrow> raised + violation list" where
  "missing_properties path d [] = Inr []"
| "missing_properties path d (k # ks) =
     then_do (py_in k (JObj d)) (\<lambda>present.
       then_do (missing_properties path d ks) (\<lambda>es. Inr (if present then es else Missing_property path k # es)))"

definition enum_violations :: "json \<Rightarrow> (string \<times> json) list \<Rightarrow> string \<Rightarrow> raised + violation list" where
  "enum_violations v s path = (case dict_get s ''enum'' of
      None \<Rightarrow> Inr []
    | Some c \<Rightarrow> then_do (py_in v c) (\<lambda>member. Inr (if member then [] else [Not_in_enum path v c])))"

definition type_violation :: "json \<Rightarrow> (string \<times> json) list \<Rightarrow> string \<Rightarrow> raised + violation list" where
  "type_violation v s path = (case dict_get s ''type'' of
      None \<Rightarrow> Inr []
    | Some JNull \<Rightarrow> Inr []
    | Some t \<Rightarrow> then_do (type_ok v t) (\<lambda>good. Inr (if good then [] else [Wrong_type path t v])))"

definition or_default :: "'a \<Rightarrow> 'a option \<Rightarrow> 'a" where
  "or_default x m = (case m of Some y \<Rightarrow> y | None \<Rightarrow> x)"

lemma size_dict_get: "dict_get d k = Some v \<Longrightarrow> size v < size_list (size_prod (\<lambda>_. 0) size) d"
  by (induction d) (auto split: if_splits)

function validate_against_schema :: "json \<Rightarrow> json \<Rightarrow> string \<Rightarrow> raised + violation list"
  and validate_properties :: "(string \<times> json) list \<Rightarrow> (string \<times> json) list \<Rightarrow> string \<Rightarrow> raised + violation list"
  and validate_items :: "json list \<Rightarrow> nat \<Rightarrow> json \<Rightarrow> string \<Rightarrow> raised + violation list" where
  "validate_against_schema v schema path =
     (case schema of
        JObj s \<Rightarrow>
          then_do (type_violation v s path) (\<lambda>wrong.
            if wrong \<noteq> [] then Inr wrong
            else then_do (enum_violations v s path) (\<lambda>es.
              case v of
                JObj d \<Rightarrow>
                  then_do (py_iter (or_default (JArr []) (dict_get s ''required''))) (\<lambda>required.
                  then_do (missing_properties path d required) (\<lambda>ms.
                    case or_default (JObj []) (dict_get s ''properties'') of
                      JObj props \<Rightarrow> then_do (validate_properties d props path) (\<lambda>ps. Inr (es @ ms @ ps))
                    | _ \<Rightarrow> Inl Attribute_error))
              | JArr xs \<Rightarrow>
                  (case dict_get s ''items'' of
                     Some (JObj it) \<Rightarrow> then_do (validate_items xs 0 (JObj it) path) (\<lambda>is. Inr (es @ is))
                   | _ \<Rightarrow> Inr es)
              | _ \<Rightarrow> Inr es))
      | _ \<Rightarrow> Inl Attribute_error)"
| "validate_properties d [] path = Inr []"
| "validate_properties d ((key, subschema) # props) path =
     (case dict_get d key of
        Some w \<Rightarrow> then_do (validate_against_schema w subschema (path @ ''.'' @ key)) (\<lambda>es.
          then_do (validate_properties d props path) (\<lambda>ps. Inr (es @ ps)))
      | None \<Rightarrow> validate_properties d props path)"
| "validate_items [] i it path = Inr []"
| "validate_items (x # xs) i it path =
     then_do (validate_against_schema x it (path @ ''['' @ show_nat i @ '']'')) (\<lambda>es.
       then_do (validate_items xs (Suc i) it path) (\<lambda>is. Inr (es @ is)))"
  by pat_completeness auto
termination
  by (relation "measures [\<lambda>x. case x of Inl (v, _) \<Rightarrow> size v
        | Inr (Inl (d, _)) \<Rightarrow> size_list (size_prod (\<lambda>_. 0) size) d
        | Inr (Inr (xs, _)) \<Rightarrow> size_list size xs,
      \<lambda>x. case x of Inl _ \<Rightarrow> 0 | Inr (Inl (_, props, _)) \<Rightarrow> length props | Inr (Inr (xs, _)) \<Rightarrow> length xs]")
    (auto dest: size_dict_get)

declare validate_against_schema.simps [simp del]

subsection \<open>What a schema means\<close>

text \<open>The specification, by recursion on the schema where the validator recurses on the value, with no
  paths, messages or exceptions. \<open>plain_schema\<close> is the subset the module documents: type names or
  unions of them, lists for \<^verbatim>\<open>enum\<close> and \<^verbatim>\<open>required\<close>, schemas below \<^verbatim>\<open>properties\<close> and
  \<^verbatim>\<open>items\<close>.\<close>

definition names_of :: "json option \<Rightarrow> string list" where
  "names_of m = (case m of Some (JArr ks) \<Rightarrow> concat (map (\<lambda>k. case k of JStr n \<Rightarrow> [n] | _ \<Rightarrow> []) ks) | _ \<Rightarrow> [])"

definition fields_of :: "json option \<Rightarrow> (string \<times> json) list" where
  "fields_of m = (case m of Some (JObj ps) \<Rightarrow> ps | _ \<Rightarrow> [])"

definition admits_name :: "json \<Rightarrow> string \<Rightarrow> bool" where
  "admits_name v name = (has_json_type name v \<noteq> Some False)"

definition type_admits :: "json option \<Rightarrow> json \<Rightarrow> bool" where
  "type_admits t v = (case t of
      Some (JStr name) \<Rightarrow> admits_name v name
    | Some (JArr ms) \<Rightarrow> list_ex (admits_name v) (names_of t)
    | _ \<Rightarrow> True)"

definition enum_admits :: "json option \<Rightarrow> json \<Rightarrow> bool" where
  "enum_admits m v = (case m of Some (JArr xs) \<Rightarrow> list_ex (py_eq v) xs | _ \<Rightarrow> True)"

lemma size_in_dict: "p \<in> set d \<Longrightarrow> size (snd p) < size_list (size_prod (\<lambda>_. 0) size) d"
  by (induction d) (auto simp: less_SucI)

lemma size_fields:
  assumes "p \<in> set (fields_of (dict_get s k))"
  shows "size (snd p) < Suc (size_list (size_prod (\<lambda>_. 0) size) s)"
proof -
  from assms obtain ps where k: "dict_get s k = Some (JObj ps)" and p: "p \<in> set ps"
    by (cases "dict_get s k"; cases "the (dict_get s k)") (auto simp: fields_of_def)
  from size_dict_get [OF k] size_in_dict [OF p] show ?thesis by simp
qed

function conforms :: "json \<Rightarrow> json \<Rightarrow> bool" where
  "conforms schema v =
     (case schema of
        JObj s \<Rightarrow> type_admits (dict_get s ''type'') v \<and> enum_admits (dict_get s ''enum'') v \<and>
          (case v of
             JObj d \<Rightarrow> list_all (\<lambda>k. k \<in> set (dict_keys d)) (names_of (dict_get s ''required'')) \<and>
               list_all (\<lambda>p. case dict_get d (fst p) of Some w \<Rightarrow> conforms (snd p) w | None \<Rightarrow> True)
                 (fields_of (dict_get s ''properties''))
           | JArr xs \<Rightarrow> (case dict_get s ''items'' of Some (JObj it) \<Rightarrow> list_all (conforms (JObj it)) xs | _ \<Rightarrow> True)
           | _ \<Rightarrow> True)
      | _ \<Rightarrow> False)"
  by pat_completeness auto
termination
  by (relation "measure (\<lambda>(s, v). size s)") (use size_fields size_dict_get in fastforce)+

definition all_names :: "json list \<Rightarrow> bool" where
  "all_names ks = list_all (\<lambda>k. case k of JStr n \<Rightarrow> True | _ \<Rightarrow> False) ks"

function plain_schema :: "json \<Rightarrow> bool" where
  "plain_schema schema =
     (case schema of
        JObj s \<Rightarrow>
          (case dict_get s ''type'' of None \<Rightarrow> True | Some JNull \<Rightarrow> True | Some (JStr n) \<Rightarrow> True
             | Some (JArr ms) \<Rightarrow> all_names ms | _ \<Rightarrow> False) \<and>
          (case dict_get s ''enum'' of None \<Rightarrow> True | Some (JArr xs) \<Rightarrow> True | _ \<Rightarrow> False) \<and>
          (case dict_get s ''required'' of None \<Rightarrow> True
             | Some (JArr ks) \<Rightarrow> all_names ks | _ \<Rightarrow> False) \<and>
          (case dict_get s ''properties'' of None \<Rightarrow> True | Some (JObj ps) \<Rightarrow> True | _ \<Rightarrow> False) \<and>
          list_all (\<lambda>p. plain_schema (snd p)) (fields_of (dict_get s ''properties'')) \<and>
          (case dict_get s ''items'' of Some (JObj it) \<Rightarrow> plain_schema (JObj it) | _ \<Rightarrow> True)
      | _ \<Rightarrow> False)"
  by pat_completeness auto
termination
  by (relation "measure size") (use size_fields size_dict_get in fastforce)+

declare conforms.simps [simp del] plain_schema.simps [simp del]

lemma names_of_list: "all_names ks \<Longrightarrow> ks = map JStr (names_of (Some (JArr ks)))"
  by (induction ks) (auto simp: all_names_def names_of_def split: json.splits)

lemma any_type_ok_names: "any_type_ok v (map JStr ns) = Inr (list_ex (admits_name v) ns)"
  by (induction ns) (auto simp: admits_name_def split: option.split)

lemma missing_names:
  "\<exists>ms. missing_properties path d (map JStr ns) = Inr ms \<and> (ms = [] \<longleftrightarrow> list_all (\<lambda>k. k \<in> set (dict_keys d)) ns)"
  by (induction ns) (auto simp: py_in_def)

lemma type_violation_plain:
  assumes "plain_schema (JObj s)"
  shows "\<exists>es. type_violation v s path = Inr es \<and> (es = [] \<longleftrightarrow> type_admits (dict_get s ''type'') v)"
proof (cases "dict_get s ''type''")
  case (Some t)
  show ?thesis
  proof (cases t)
    case (JArr ms)
    then have "all_names ms" using assms Some by (simp add: plain_schema.simps [of "JObj s"])
    from any_type_ok_names [of v "names_of (Some (JArr ms))"] show ?thesis
      using Some JArr by (simp add: type_violation_def type_admits_def flip: names_of_list [OF \<open>all_names ms\<close>])
  next
    case (JStr n)
    then show ?thesis using Some
      by (auto simp: type_violation_def type_admits_def admits_name_def split: option.split)
  qed (use assms Some in \<open>auto simp: plain_schema.simps [of "JObj s"] type_violation_def type_admits_def\<close>)
qed (simp add: type_violation_def type_admits_def)

lemma enum_violations_plain:
  assumes "plain_schema (JObj s)"
  shows "\<exists>es. enum_violations v s path = Inr es \<and> (es = [] \<longleftrightarrow> enum_admits (dict_get s ''enum'') v)"
  using assms by (cases "dict_get s ''enum''")
    (auto simp: plain_schema.simps [of "JObj s"] enum_violations_def enum_admits_def py_in_def split: json.splits)

text \<open>The validator decides the meaning of a plain schema and never raises on one.\<close>

lemma validate_decides:
  "plain_schema schema \<Longrightarrow>
     \<exists>es. validate_against_schema v schema path = Inr es \<and> (es = [] \<longleftrightarrow> conforms schema v)"
  "list_all (\<lambda>p. plain_schema (snd p)) props \<Longrightarrow>
     \<exists>es. validate_properties d props path = Inr es \<and>
       (es = [] \<longleftrightarrow> list_all (\<lambda>p. case dict_get d (fst p) of Some w \<Rightarrow> conforms (snd p) w | None \<Rightarrow> True) props)"
  "plain_schema it \<Longrightarrow>
     \<exists>es. validate_items xs i it path = Inr es \<and> (es = [] \<longleftrightarrow> list_all (conforms it) xs)"
proof (induction v schema path and d props path and xs i it path
    rule: validate_against_schema_validate_properties_validate_items.induct)
  case (1 v schema path)
  then obtain s where s: "schema = JObj s" by (cases schema) (auto simp: plain_schema.simps)
  have ps: "plain_schema (JObj s)" using 1 s by simp
  obtain ts where ts: "type_violation v s path = Inr ts" "ts = [] \<longleftrightarrow> type_admits (dict_get s ''type'') v"
    using type_violation_plain [OF ps] by blast
  obtain es where es: "enum_violations v s path = Inr es" "es = [] \<longleftrightarrow> enum_admits (dict_get s ''enum'') v"
    using enum_violations_plain [OF ps] by blast
  show ?case
  proof (cases "ts = []")
    case False
    then show ?thesis using ts s
      by (subst validate_against_schema.simps, subst conforms.simps) simp
  next
    case ok: True
    show ?thesis
    proof (cases v)
      case (JObj d)
      obtain ns where ns: "py_iter (or_default (JArr []) (dict_get s ''required'')) = Inr (map JStr ns)"
          "names_of (dict_get s ''required'') = ns"
      proof (cases "dict_get s ''required''")
        case None
        then show ?thesis using that [of "[]"] by (simp add: or_default_def py_iter_def names_of_def)
      next
        case (Some r)
        then obtain ks where "r = JArr ks" "all_names ks"
          using ps by (cases r) (auto simp: plain_schema.simps [of "JObj s"])
        then show ?thesis using Some that names_of_list [of ks] by (simp add: or_default_def py_iter_def)
      qed
      obtain ms where ms: "missing_properties path d (map JStr ns) = Inr ms"
          "ms = [] \<longleftrightarrow> list_all (\<lambda>k. k \<in> set (dict_keys d)) ns"
        using missing_names by blast
      obtain props where props: "or_default (JObj []) (dict_get s ''properties'') = JObj props"
          "fields_of (dict_get s ''properties'') = props"
        using ps by (cases "dict_get s ''properties''")
          (auto simp: plain_schema.simps [of "JObj s"] or_default_def fields_of_def split: json.splits)
      have "list_all (\<lambda>p. plain_schema (snd p)) props"
        using ps props(2) by (simp add: plain_schema.simps [of "JObj s"])
      with 1(2) [OF s ts(1) _ es(1) JObj ns(1) ms(1) props(1)] obtain rs where
        "validate_properties d props path = Inr rs"
        "rs = [] \<longleftrightarrow> list_all (\<lambda>p. case dict_get d (fst p) of Some w \<Rightarrow> conforms (snd p) w | None \<Rightarrow> True) props"
        using ok by auto
      then show ?thesis using ok ts es s JObj ns ms props
        by (subst validate_against_schema.simps, subst conforms.simps) auto
    next
      case (JArr xs)
      show ?thesis
      proof (cases "\<exists>it. dict_get s ''items'' = Some (JObj it)")
        case True
        then obtain it where it: "dict_get s ''items'' = Some (JObj it)" by blast
        have "plain_schema (JObj it)" using ps it by (simp add: plain_schema.simps [of "JObj s"])
        with 1(1) [OF s ts(1) _ es(1) JArr it refl] obtain rs where
          "validate_items xs 0 (JObj it) path = Inr rs" "rs = [] \<longleftrightarrow> list_all (conforms (JObj it)) xs"
          using ok by auto
        then show ?thesis using ok ts es s JArr it
          by (subst validate_against_schema.simps, subst conforms.simps) auto
      next
        case False
        then show ?thesis using ok ts es s JArr
          by (subst validate_against_schema.simps, subst conforms.simps) (auto split: option.split json.split)
      qed
    qed (use ok ts es s in \<open>subst validate_against_schema.simps, subst conforms.simps, simp\<close>)+
  qed
next
  case (3 d key subschema props path)
  show ?case
  proof (cases "dict_get d key")
    case None
    then show ?thesis using 3 by simp
  next
    case (Some w)
    obtain es where es: "validate_against_schema w subschema (path @ ''.'' @ key) = Inr es" "es = [] \<longleftrightarrow> conforms subschema w"
      using 3(2) [OF Some] 3(4) by auto
    obtain ps where "validate_properties d props path = Inr ps"
        "ps = [] \<longleftrightarrow> list_all (\<lambda>p. case dict_get d (fst p) of Some w \<Rightarrow> conforms (snd p) w | None \<Rightarrow> True) props"
      using 3(3) [OF Some es(1)] 3(4) by auto
    then show ?thesis using Some es by auto
  qed
next
  case (5 x xs i it path)
  obtain es where es: "validate_against_schema x it (path @ ''['' @ show_nat i @ '']'') = Inr es" "es = [] \<longleftrightarrow> conforms it x"
    using 5(1) 5(3) by auto
  obtain rs where "validate_items xs (Suc i) it path = Inr rs" "rs = [] \<longleftrightarrow> list_all (conforms it) xs"
    using 5(2) [OF es(1)] 5(3) by auto
  then show ?case using es by auto
qed simp_all

subsection \<open>The bounded retry\<close>

definition shape_preference :: "json option \<Rightarrow> (json \<Rightarrow> bool) option" where
  "shape_preference expected =
     (let by_name = (\<lambda>n. if n = ''object'' then Some is_dict else if n = ''array'' then Some is_list else None) in
      case expected of
        Some (JStr n) \<Rightarrow> by_name n
      | Some (JArr ts) \<Rightarrow> (case remdups (filter (\<lambda>n. n = ''object'' \<or> n = ''array'') (names_of expected)) of
            [n] \<Rightarrow> by_name n | _ \<Rightarrow> None)
      | _ \<Rightarrow> None)"

text \<open>The pair the code returns; Python's \<^verbatim>\<open>None\<close> for the value is \<^const>\<open>JNull\<close>, as it is for a
  parsed \<^verbatim>\<open>null\<close>.\<close>

definition coerce_and_validate ::
  "decoder \<Rightarrow> string option \<Rightarrow> (string \<times> json) list \<Rightarrow> (raised + json \<times> violation list) option" where
  "coerce_and_validate dec reply s =
     (case parse_json dec reply (shape_preference (dict_get s ''type'')) of
        None \<Rightarrow> None
      | Some (Inl (Value_error m)) \<Rightarrow> Some (Inr (JNull, [Not_json m]))
      | Some (Inl e) \<Rightarrow> Some (Inl e)
      | Some (Inr v) \<Rightarrow> Some (then_do (validate_against_schema v (JObj s) ''$'') (\<lambda>es.
          Inr (if es \<noteq> [] then (JNull, es) else (v, [])))))"

record prompt_format =
  pf_dumps :: "json \<Rightarrow> string"
  pf_message :: "violation \<Rightarrow> string"

definition augment_prompt :: "prompt_format \<Rightarrow> string \<Rightarrow> (string \<times> json) list \<Rightarrow> string" where
  "augment_prompt pf prompt s =
     prompt @ [CHR 0x0A, CHR 0x0A] @ ''Reply ONLY with a single JSON value matching this JSON Schema (no prose, no code fence):''
       @ [CHR 0x0A] @ pf_dumps pf (JObj s)"

definition retry_prompt :: "prompt_format \<Rightarrow> string \<Rightarrow> (string \<times> json) list \<Rightarrow> violation list \<Rightarrow> string" where
  "retry_prompt pf prompt s es =
     augment_prompt pf prompt s @ [CHR 0x0A, CHR 0x0A] @ ''Your previous reply was invalid: ''
       @ join_with ''; '' (map (pf_message pf) es) @ ''. Reply ONLY with corrected JSON.''"

type_synonym 'w agent = "string \<Rightarrow> 'w \<Rightarrow> (raised + string option) \<times> 'w"

fun attempt_schema ::
  "nat \<Rightarrow> decoder \<Rightarrow> prompt_format \<Rightarrow> 'w agent \<Rightarrow> string \<Rightarrow> (string \<times> json) list \<Rightarrow> string \<Rightarrow> 'w
     \<Rightarrow> ((raised + json) \<times> 'w) option" where
  "attempt_schema 0 dec pf produce prompt s attempt_prompt w = Some (Inr JNull, w)"
| "attempt_schema (Suc n) dec pf produce prompt s attempt_prompt w =
     (case produce attempt_prompt w of
        (Inl e, w') \<Rightarrow> Some (Inl e, w')
      | (Inr reply, w') \<Rightarrow>
          (case coerce_and_validate dec reply s of
             None \<Rightarrow> None
           | Some (Inl e) \<Rightarrow> Some (Inl e, w')
           | Some (Inr (v, es)) \<Rightarrow>
               if es = [] then Some (Inr v, w')
               else attempt_schema n dec pf produce prompt s (retry_prompt pf prompt s es) w'))"

definition run_with_schema ::
  "decoder \<Rightarrow> prompt_format \<Rightarrow> 'w agent \<Rightarrow> string \<Rightarrow> (string \<times> json) list \<Rightarrow> int \<Rightarrow> 'w \<Rightarrow> ((raised + json) \<times> 'w) option" where
  "run_with_schema dec pf produce prompt s retries w =
     attempt_schema (nat (retries + 1)) dec pf produce prompt s (augment_prompt pf prompt s) w"

text \<open>The specification: an agent with a script of replies, and the value the first acceptable one holds.\<close>

fun scripted :: "string option list agent" where
  "scripted p [] = (Inl (Other_error ''no reply left''), [])"
| "scripted p (r # rs) = (Inr r, rs)"

definition acceptable :: "decoder \<Rightarrow> (string \<times> json) list \<Rightarrow> string option \<Rightarrow> json option" where
  "acceptable dec s reply = (case parse_json dec reply (shape_preference (dict_get s ''type'')) of
      Some (Inr v) \<Rightarrow> if conforms (JObj s) v then Some v else None | _ \<Rightarrow> None)"

fun first_acceptable :: "decoder \<Rightarrow> (string \<times> json) list \<Rightarrow> nat \<Rightarrow> string option list \<Rightarrow> json \<times> string option list" where
  "first_acceptable dec s 0 rs = (JNull, rs)"
| "first_acceptable dec s (Suc n) [] = (JNull, [])"
| "first_acceptable dec s (Suc n) (r # rs) =
     (case acceptable dec s r of Some v \<Rightarrow> (v, rs) | None \<Rightarrow> first_acceptable dec s n rs)"

definition strictly_readable :: "decoder \<Rightarrow> string option \<Rightarrow> bool" where
  "strictly_readable dec reply = (case reply of Some t \<Rightarrow> json_loads dec (unfenced t) \<noteq> Nesting_limit | None \<Rightarrow> True)"

lemma coerce_accepts:
  assumes "plain_schema (JObj s)" "moves_forward dec" "strictly_readable dec reply"
  shows "\<exists>v es. coerce_and_validate dec reply s = Some (Inr (v, es)) \<and>
    acceptable dec s reply = (if es = [] then Some v else None)"
proof -
  let ?p = "shape_preference (dict_get s ''type'')"
  obtain r where r: "parse_json dec reply ?p = Some r" and only: "\<forall>e. r = Inl e \<longrightarrow> (\<exists>m. e = Value_error m) \<or>
      (e = Recursion_error \<and> (\<exists>t. reply = Some t \<and> json_loads dec (unfenced t) = Nesting_limit))"
    using parse_json_cases [OF assms(2), of reply ?p] by blast
  have e: "\<exists>m. e = Value_error m" if "r = Inl e" for e
    using only that assms(3) by (auto simp: strictly_readable_def)
  show ?thesis
  proof (cases r)
    case (Inl x)
    then obtain m where "x = Value_error m" using e by blast
    then have "coerce_and_validate dec reply s = Some (Inr (JNull, [Not_json m]))" "acceptable dec s reply = None"
      using r Inl by (simp_all add: coerce_and_validate_def acceptable_def)
    then show ?thesis by auto
  next
    case (Inr v)
    obtain es where "validate_against_schema v (JObj s) ''$'' = Inr es" "es = [] \<longleftrightarrow> conforms (JObj s) v"
      using validate_decides(1) [OF assms(1)] by blast
    then show ?thesis using r Inr by (auto simp: coerce_and_validate_def acceptable_def)
  qed
qed

lemma attempt_first_acceptable:
  assumes "plain_schema (JObj s)" "moves_forward dec" "list_all (strictly_readable dec) rs" "n \<le> length rs"
  shows "attempt_schema n dec pf scripted prompt s p rs =
    Some (Inr (fst (first_acceptable dec s n rs)), snd (first_acceptable dec s n rs))"
  using assms(3,4)
proof (induction n arbitrary: rs p)
  case (Suc n)
  then obtain r rs' where rs: "rs = r # rs'" by (cases rs) auto
  then obtain v es where "coerce_and_validate dec r s = Some (Inr (v, es))"
      "acceptable dec s r = (if es = [] then Some v else None)"
    using coerce_accepts [OF assms(1,2)] Suc.prems by fastforce
  then show ?case using Suc rs by simp
qed simp

lemma first_acceptable_bound: "length rs \<le> length (snd (first_acceptable dec s n rs)) + n"
  by (induction n arbitrary: rs; case_tac rs) (fastforce split: option.split simp: le_SucI)+

subsection \<open>Properties of structured output\<close>

text \<open>C8. The validator decides the schema: on a schema of the documented subset it raises nothing whatever
  the value, and its list of errors is empty exactly when the value conforms to the schema.\<close>

theorem validator_decides_schema:
  assumes "plain_schema schema"
  shows "\<exists>es. validate_against_schema v schema path = Inr es \<and> (es = [] \<longleftrightarrow> conforms schema v)"
  using assms by (rule validate_decides(1))

definition sample_schema :: "(string \<times> json) list" where
  "sample_schema = [(''type'', JArr [JStr ''object'', JStr ''null'']), (''required'', JArr [JStr ''n'']),
     (''properties'', JObj [(''n'', JObj [(''type'', JStr ''integer'')])])]"

lemma sample_schema_plain: "plain_schema (JObj sample_schema)"
  by (simp add: sample_schema_def plain_schema.simps fields_of_def all_names_def)

lemma validator_decides_schema_witness:
  "\<exists>es. validate_against_schema (JObj [(''n'', JBool True)]) (JObj sample_schema) ''$'' = Inr es \<and> es \<noteq> []"
proof -
  have "\<not> conforms (JObj sample_schema) (JObj [(''n'', JBool True)])"
    by (simp add: sample_schema_def conforms.simps fields_of_def names_of_def type_admits_def admits_name_def
        has_json_type_def is_dict_def)
  then show ?thesis
    using validator_decides_schema [OF sample_schema_plain, of "JObj [(''n'', JBool True)]" "''$''"] by blast
qed

text \<open>C25. \<^verbatim>\<open>run_with_schema\<close> returns, with the value of the first acceptable reply among the first
  \<^verbatim>\<open>retries + 1\<close> (one that parses and conforms to the schema), or with nothing when there is none; it
  asks for no more replies than that.\<close>

theorem first_acceptable_reply_is_returned:
  assumes "plain_schema (JObj s)" "moves_forward dec" "list_all (strictly_readable dec) replies"
    and "nat (retries + 1) \<le> length replies"
  shows "run_with_schema dec pf scripted prompt s retries replies =
      Some (Inr (fst (first_acceptable dec s (nat (retries + 1)) replies)),
        snd (first_acceptable dec s (nat (retries + 1)) replies))
    \<and> length replies \<le> length (snd (first_acceptable dec s (nat (retries + 1)) replies)) + nat (retries + 1)"
  using attempt_first_acceptable [OF assms] first_acceptable_bound by (simp add: run_with_schema_def)

lemmas sample_eval = acceptable_def parse_json_def json_loads_def extract_json_of_type_def unfenced_def empties_def
  shape_preference_def settle_def json_space_def container_start_def is_dict_def is_list_def str_defs Let_def

lemma first_acceptable_reply_is_returned_witness:
  "run_with_schema empties \<lparr>pf_dumps = \<lambda>j. [], pf_message = \<lambda>e. []\<rparr> scripted ''go''
     [(''type'', JStr ''object'')] DEFAULT_SCHEMA_RETRIES [Some ''no'', Some ''an {} here'', Some ''[]'']
   = Some (Inr (JObj []), [Some ''[]''])"
proof -
  let ?s = "[(''type'', JStr ''object'')]" and ?rs = "[Some ''no'', Some ''an {} here'', Some ''[]'']"
  have "plain_schema (JObj ?s)" by (simp add: plain_schema.simps fields_of_def)
  moreover have "list_all (strictly_readable empties) ?rs"
    by (auto simp: strictly_readable_def json_loads_def empties_def split: if_splits)
  moreover have "nat (DEFAULT_SCHEMA_RETRIES + 1) = 3" by (simp add: DEFAULT_SCHEMA_RETRIES_def)
  moreover have "acceptable empties ?s (Some ''no'') = None"
    by (simp add: sample_eval scan_json.simps)
  moreover have "acceptable empties ?s (Some ''an {} here'') = Some (JObj [])"
    by (simp add: sample_eval scan_json.simps conforms.simps [of "JObj ?s"] type_admits_def admits_name_def has_json_type_def
        enum_admits_def names_of_def fields_of_def)
  ultimately show ?thesis
    using first_acceptable_reply_is_returned [OF _ empties_moves, of ?s ?rs DEFAULT_SCHEMA_RETRIES
        "\<lparr>pf_dumps = \<lambda>j. [], pf_message = \<lambda>e. []\<rparr>" "''go''"]
    by (simp add: numeral_3_eq_3)
qed

end
