(* ===== verification/Backend_Pool.thy ===== *)
theory Backend_Pool imports Circuit_Breaker Json_Value "HOL-Library.Multiset" begin

section \<open>The pool of MCP backends (\<^verbatim>\<open>mcp_gateway/pool.py\<close>)\<close>

text \<open>
  The processes a gateway shares between sessions: one per identity in the reuse index, those that
  finish their work after a credential rotation, and those bound to one connection. A process is a
  number, its state a record that a \<open>heap\<close> maps the number to; the pool holds the numbers, as the
  code holds references. Every method that takes the pool's lock is one operation here: none of them
  suspends while it holds it. The next theory splits \<^verbatim>\<open>get_or_create\<close> at its suspension points.
  The clock is the argument \<open>now\<close>, an identity is its digest; \<^verbatim>\<open>SHA-256\<close> and the rendering of
  other values as text are arguments of the operations on keys. Log lines, the metrics snapshot and
  the walk of \<^verbatim>\<open>/proc\<close> are left out.
\<close>

subsection \<open>Identities\<close>

record pool_key =
  pk_server_name :: string
  pk_agent_name :: string
  pk_command_args_hash :: string
  pk_effective_env_hash :: string
  pk_work_dir :: string
  pk_binary_version :: string
  pk_os_uid :: int
  pk_sandbox_mode :: string
  pk_autoapprove_set_hash :: string
  pk_approval_mode :: string
  pk_trust_all_tools :: bool
  pk_config_snapshot_hash :: string

datatype register_error = Missing_fields "string list" | Uid_not_int json | Trust_not_bool json

definition KEY_FIELDS :: "string list" where
  "KEY_FIELDS = [''server_name'', ''agent_name'', ''command_args_hash'', ''effective_env_hash'', ''work_dir'',
     ''binary_version'', ''os_uid'', ''sandbox_mode'', ''autoapprove_set_hash'', ''approval_mode'',
     ''trust_all_tools'', ''config_snapshot_hash'']"

definition field_text :: "(json \<Rightarrow> string) \<Rightarrow> (string, json) dict \<Rightarrow> string \<Rightarrow> string" where
  "field_text py_str register f = (case dict_get register f of Some v \<Rightarrow> py_str v | None \<Rightarrow> [])"

definition from_register :: "(json \<Rightarrow> string) \<Rightarrow> (string, json) dict \<Rightarrow> register_error + pool_key" where
  "from_register py_str register =
     (let missing = filter (\<lambda>f. f \<notin> set (dict_keys register)) KEY_FIELDS;
          txt = field_text py_str register
      in if missing \<noteq> [] then Inl (Missing_fields missing)
         else case the (dict_get register ''os_uid'') of
           JInt uid \<Rightarrow>
             (case the (dict_get register ''trust_all_tools'') of
                JBool trust \<Rightarrow> Inr \<lparr>pk_server_name = txt ''server_name'', pk_agent_name = txt ''agent_name'',
                  pk_command_args_hash = txt ''command_args_hash'', pk_effective_env_hash = txt ''effective_env_hash'',
                  pk_work_dir = txt ''work_dir'', pk_binary_version = txt ''binary_version'', pk_os_uid = uid,
                  pk_sandbox_mode = txt ''sandbox_mode'', pk_autoapprove_set_hash = txt ''autoapprove_set_hash'',
                  pk_approval_mode = txt ''approval_mode'', pk_trust_all_tools = trust,
                  pk_config_snapshot_hash = txt ''config_snapshot_hash''\<rparr>
              | v \<Rightarrow> Inl (Trust_not_bool v))
         | v \<Rightarrow> Inl (Uid_not_int v))"

text \<open>What \<^verbatim>\<open>stable_hash\<close> hashes: the fields in the order of their names.\<close>

definition key_payload :: "pool_key \<Rightarrow> json" where
  "key_payload k = JObj [(''agent_name'', JStr (pk_agent_name k)), (''approval_mode'', JStr (pk_approval_mode k)),
     (''autoapprove_set_hash'', JStr (pk_autoapprove_set_hash k)), (''binary_version'', JStr (pk_binary_version k)),
     (''command_args_hash'', JStr (pk_command_args_hash k)), (''config_snapshot_hash'', JStr (pk_config_snapshot_hash k)),
     (''effective_env_hash'', JStr (pk_effective_env_hash k)), (''os_uid'', JInt (pk_os_uid k)),
     (''sandbox_mode'', JStr (pk_sandbox_mode k)), (''server_name'', JStr (pk_server_name k)),
     (''trust_all_tools'', JBool (pk_trust_all_tools k)), (''work_dir'', JStr (pk_work_dir k))]"

definition stable_hash :: "(json \<Rightarrow> string) \<Rightarrow> pool_key \<Rightarrow> string" where
  "stable_hash sha k = sha (key_payload k)"

subsection \<open>State\<close>

text \<open>\<open>bk_born\<close> is the rotation the process was launched under: the code does not store it, the
  specification speaks of it.\<close>

record backend =
  bk_digest :: string
  bk_token :: string
  bk_stubs :: "string list"
  bk_last_used :: secs
  bk_created :: secs
  bk_pinned :: bool
  bk_alive :: bool
  bk_quarantined :: bool
  bk_born :: nat

type_synonym heap = "nat \<Rightarrow> backend"

definition bk_refcount :: "backend \<Rightarrow> nat" where
  "bk_refcount b = length (bk_stubs b)"

definition storage_digest :: "backend \<Rightarrow> string" where
  "storage_digest b = (if bk_token b \<noteq> [] then bk_digest b @ '':'' @ bk_token b else bk_digest b)"

record draining =
  dr_backend :: nat
  dr_deadline :: secs
  dr_digest :: string

record backend_pool =
  bp_max :: nat
  bp_breaker :: "breaker option"
  bp_backends :: "(string, nat) dict"
  bp_spawn_locks :: "(string, nat) dict"
  bp_reserved :: "(string, nat) dict"
  bp_evictions_idle :: nat
  bp_evictions_lru :: nat
  bp_spawns :: nat
  bp_capacity_rejects :: nat
  bp_draining :: "draining list"
  bp_exclusive :: "(string, nat) dict"
  bp_drain_epoch :: nat

datatype pool_error =
    Max_below_one
  | Key_collision
  | Pool_at_capacity
  | Drained_during_spawn
  | Breaker_open
  | Rotation_storm
  | Spawn_failed

definition DRAIN_DEADLINE_SECS :: secs where "DRAIN_DEADLINE_SECS = 60"
definition MAX_SPAWN_DRAIN_RETRIES :: nat where "MAX_SPAWN_DRAIN_RETRIES = 3"

definition make_backend_pool :: "int \<Rightarrow> breaker option \<Rightarrow> pool_error + backend_pool" where
  "make_backend_pool max_backends br = (if max_backends < 1 then Inl Max_below_one
     else Inr \<lparr>bp_max = nat max_backends, bp_breaker = br, bp_backends = [], bp_spawn_locks = [], bp_reserved = [],
       bp_evictions_idle = 0, bp_evictions_lru = 0, bp_spawns = 0, bp_capacity_rejects = 0, bp_draining = [],
       bp_exclusive = [], bp_drain_epoch = 0\<rparr>)"

subsection \<open>Reservations\<close>

definition is_reserved :: "backend_pool \<Rightarrow> string \<Rightarrow> bool" where
  "is_reserved p d = (d \<in> set (dict_keys (bp_reserved p)))"

definition reserved_count :: "backend_pool \<Rightarrow> string \<Rightarrow> nat" where
  "reserved_count p d = (case dict_get (bp_reserved p) d of Some n \<Rightarrow> n | None \<Rightarrow> 0)"

definition reserve :: "string \<Rightarrow> backend_pool \<Rightarrow> backend_pool" where
  "reserve d p = p\<lparr>bp_reserved := dict_set d (reserved_count p d + 1) (bp_reserved p)\<rparr>"

definition unreserve :: "string \<Rightarrow> backend_pool \<Rightarrow> backend_pool" where
  "unreserve d p = (if 1 < reserved_count p d
     then p\<lparr>bp_reserved := dict_set d (reserved_count p d - 1) (bp_reserved p)\<rparr>
     else p\<lparr>bp_reserved := dict_pop d (bp_reserved p)\<rparr>)"

subsection \<open>Eviction\<close>

text \<open>\<^verbatim>\<open>_pick_lru_idle_locked\<close>: the loop carries the oldest candidate so far.\<close>

definition lru_candidate :: "heap \<Rightarrow> backend_pool \<Rightarrow> string \<times> nat \<Rightarrow> bool" where
  "lru_candidate h p e = (bk_refcount (h (snd e)) = 0 \<and> \<not> is_reserved p (fst e) \<and> \<not> bk_pinned (h (snd e)))"

fun pick_lru :: "heap \<Rightarrow> backend_pool \<Rightarrow> (string \<times> nat) option \<Rightarrow> (string, nat) dict \<Rightarrow> (string \<times> nat) option" where
  "pick_lru h p oldest [] = oldest"
| "pick_lru h p oldest (e # es) =
     (if \<not> lru_candidate h p e then pick_lru h p oldest es
      else pick_lru h p (case oldest of
          None \<Rightarrow> Some e
        | Some q \<Rightarrow> if bk_last_used (h (snd e)) < bk_last_used (h (snd q)) then Some e else oldest) es)"

definition evict_lru :: "heap \<Rightarrow> backend_pool \<Rightarrow> backend_pool \<times> nat option" where
  "evict_lru h p = (case pick_lru h p None (bp_backends p) of
      None \<Rightarrow> (p, None)
    | Some (d, i) \<Rightarrow> (p\<lparr>bp_backends := dict_pop d (bp_backends p), bp_spawn_locks := dict_pop d (bp_spawn_locks p),
        bp_evictions_lru := bp_evictions_lru p + 1\<rparr>, Some i))"

text \<open>\<^verbatim>\<open>evict\<close>: the process leaves the index and is the caller's to shut down.\<close>

definition evict :: "string \<Rightarrow> bool \<Rightarrow> nat option \<Rightarrow> backend_pool \<Rightarrow> backend_pool \<times> nat option" where
  "evict d keep_spawn_lock expected p =
     (if expected \<noteq> None \<and> dict_get (bp_backends p) d \<noteq> expected then (p, None)
      else (p\<lparr>bp_backends := dict_pop d (bp_backends p),
              bp_spawn_locks := (if keep_spawn_lock then bp_spawn_locks p else dict_pop d (bp_spawn_locks p))\<rparr>,
            dict_get (bp_backends p) d))"

definition idle_stale :: "heap \<Rightarrow> secs \<Rightarrow> bool \<Rightarrow> backend_pool \<Rightarrow> string \<times> nat \<Rightarrow> bool" where
  "idle_stale h cutoff include_pinned p e =
     (bk_refcount (h (snd e)) = 0 \<and> \<not> is_reserved p (fst e) \<and> bk_last_used (h (snd e)) < cutoff \<and>
      (include_pinned \<or> \<not> bk_pinned (h (snd e))))"

definition evict_idle :: "heap \<Rightarrow> secs \<Rightarrow> secs \<Rightarrow> bool \<Rightarrow> backend_pool \<Rightarrow> backend_pool \<times> nat list" where
  "evict_idle h now older_than include_pinned p =
     (let stale = filter (idle_stale h (now - older_than) include_pinned p) (bp_backends p) in
      (p\<lparr>bp_backends := fold dict_pop (map fst stale) (bp_backends p),
         bp_spawn_locks := fold dict_pop (map fst stale) (bp_spawn_locks p),
         bp_evictions_idle := bp_evictions_idle p + length stale\<rparr>, map snd stale))"

subsection \<open>Insertion and lookup\<close>

text \<open>\<^verbatim>\<open>add\<close>: the victims are the processes whose shutdown it schedules.\<close>

definition pool_add ::
  "heap \<Rightarrow> string \<Rightarrow> nat \<Rightarrow> bool \<Rightarrow> nat option \<Rightarrow> backend_pool \<Rightarrow> backend_pool \<times> (pool_error + nat list)" where
  "pool_add h d i reserved spawn_epoch p =
     (if spawn_epoch \<noteq> None \<and> spawn_epoch \<noteq> Some (bp_drain_epoch p) then (p, Inl Drained_during_spawn)
      else if d \<in> set (dict_keys (bp_backends p)) then (p, Inl Key_collision)
      else
        (let (p', victim) = (if bp_max p \<le> length (bp_backends p) then evict_lru h p else (p, None)) in
         if bp_max p \<le> length (bp_backends p) \<and> victim = None
         then (p'\<lparr>bp_capacity_rejects := bp_capacity_rejects p' + 1\<rparr>, Inl Pool_at_capacity)
         else let p'' = p'\<lparr>bp_backends := dict_set d i (bp_backends p')\<rparr> in
           (if reserved then reserve d p'' else p'', Inr (case victim of None \<Rightarrow> [] | Some v \<Rightarrow> [v]))))"

definition pool_get :: "string \<Rightarrow> backend_pool \<Rightarrow> nat option" where
  "pool_get d p = dict_get (bp_backends p) d"

definition get_by_digest :: "heap \<Rightarrow> string \<Rightarrow> backend_pool \<Rightarrow> nat option" where
  "get_by_digest h d p =
     (case (case dict_get (bp_backends p) d of
              Some i \<Rightarrow> Some i
            | None \<Rightarrow> find (\<lambda>i. storage_digest (h i) = d) (map snd (bp_exclusive p))) of
        Some i \<Rightarrow> if bk_alive (h i) then Some i else None
      | None \<Rightarrow> None)"

subsection \<open>Private processes\<close>

definition register_exclusive :: "string \<Rightarrow> nat \<Rightarrow> backend_pool \<Rightarrow> backend_pool \<times> nat list" where
  "register_exclusive stub i p =
     (p\<lparr>bp_exclusive := dict_set stub i (dict_pop stub (bp_exclusive p)), bp_spawns := bp_spawns p + 1\<rparr>,
      case dict_get (bp_exclusive p) stub of Some old \<Rightarrow> [old] | None \<Rightarrow> [])"

definition release_exclusive :: "string \<Rightarrow> backend_pool \<Rightarrow> backend_pool \<times> nat option" where
  "release_exclusive stub p = (p\<lparr>bp_exclusive := dict_pop stub (bp_exclusive p)\<rparr>, dict_get (bp_exclusive p) stub)"

subsection \<open>Rotation and shutdown\<close>

text \<open>\<^verbatim>\<open>drain_all_to_bluegreen\<close>; a spawn lock is dropped only when nobody holds it or waits for it.\<close>

definition drain_all :: "(nat \<Rightarrow> bool) \<Rightarrow> secs \<Rightarrow> secs \<Rightarrow> backend_pool \<Rightarrow> backend_pool \<times> nat" where
  "drain_all lock_idle now deadline_secs p =
     (p\<lparr>bp_drain_epoch := bp_drain_epoch p + 1,
        bp_backends := [],
        bp_spawn_locks := filter (\<lambda>e. \<not> (fst e \<in> set (dict_keys (bp_backends p)) \<and> lock_idle (snd e))) (bp_spawn_locks p),
        bp_draining := bp_draining p @ map (\<lambda>(d, i). \<lparr>dr_backend = i, dr_deadline = now + deadline_secs, dr_digest = d\<rparr>) (bp_backends p)\<rparr>,
      length (bp_backends p))"

definition reapable :: "heap \<Rightarrow> secs \<Rightarrow> backend_pool \<Rightarrow> draining \<Rightarrow> bool" where
  "reapable h now p e = (dr_deadline e \<le> now \<or> (bk_refcount (h (dr_backend e)) = 0 \<and> \<not> is_reserved p (dr_digest e)))"

definition reap_draining :: "heap \<Rightarrow> secs \<Rightarrow> backend_pool \<Rightarrow> backend_pool \<times> nat list" where
  "reap_draining h now p =
     (p\<lparr>bp_draining := filter (\<lambda>e. \<not> reapable h now p e) (bp_draining p)\<rparr>,
      map dr_backend (filter (reapable h now p) (bp_draining p)))"

definition all_backends :: "backend_pool \<Rightarrow> nat list" where
  "all_backends p = map snd (bp_backends p) @ map dr_backend (bp_draining p) @ map snd (bp_exclusive p)"

definition backends_hosting_stub :: "heap \<Rightarrow> string \<Rightarrow> backend_pool \<Rightarrow> nat list" where
  "backends_hosting_stub h stub p =
     filter (\<lambda>i. stub \<in> set (bk_stubs (h i))) (map snd (bp_backends p) @ map snd (bp_exclusive p))"

definition shutdown_all :: "backend_pool \<Rightarrow> backend_pool \<times> nat list" where
  "shutdown_all p = (p\<lparr>bp_backends := [], bp_spawn_locks := [], bp_draining := [], bp_exclusive := []\<rparr>, all_backends p)"

definition note_backend_death :: "string \<Rightarrow> secs \<Rightarrow> secs \<Rightarrow> backend_pool \<Rightarrow> backend_pool" where
  "note_backend_death key uptime now p =
     (case bp_breaker p of None \<Rightarrow> p | Some b \<Rightarrow> p\<lparr>bp_breaker := Some (record_death key uptime now b)\<rparr>)"

definition note_backend_healthy :: "string \<Rightarrow> backend_pool \<Rightarrow> backend_pool" where
  "note_backend_healthy key p =
     (case bp_breaker p of None \<Rightarrow> p | Some b \<Rightarrow> p\<lparr>bp_breaker := Some (record_healthy key b)\<rparr>)"

definition breaker_allows :: "string \<Rightarrow> secs \<Rightarrow> backend_pool \<Rightarrow> bool \<times> backend_pool" where
  "breaker_allows key now p =
     (case bp_breaker p of None \<Rightarrow> (True, p)
      | Some b \<Rightarrow> (let (ok, b') = allow key now b in (ok, p\<lparr>bp_breaker := Some b'\<rparr>)))"

subsection \<open>What stubs and processes do\<close>

definition attach_stub :: "string \<Rightarrow> secs \<Rightarrow> nat \<Rightarrow> heap \<Rightarrow> heap option" where
  "attach_stub stub now i h = (if stub \<in> set (bk_stubs (h i)) then None
     else Some (h(i := (h i)\<lparr>bk_stubs := bk_stubs (h i) @ [stub], bk_last_used := now\<rparr>)))"

definition detach_stub :: "string \<Rightarrow> secs \<Rightarrow> nat \<Rightarrow> heap \<Rightarrow> heap" where
  "detach_stub stub now i h =
     (let stubs = filter (\<lambda>s. s \<noteq> stub) (bk_stubs (h i)) in
      h(i := (h i)\<lparr>bk_stubs := stubs, bk_last_used := (if stubs = [] then now else bk_last_used (h i))\<rparr>))"

text \<open>\<^verbatim>\<open>recycle_if_idle\<close>, whose kill succeeds: a process still shared is quarantined instead.\<close>

definition recycle_if_idle :: "nat \<Rightarrow> heap \<Rightarrow> heap \<times> bool" where
  "recycle_if_idle i h =
     (if 0 < bk_refcount (h i) then (h(i := (h i)\<lparr>bk_quarantined := True\<rparr>), False)
      else if bk_alive (h i) then (h(i := (h i)\<lparr>bk_alive := False\<rparr>), True) else (h, False))"

subsection \<open>The victim of a full pool\<close>

lemma pick_lru_spec:
  assumes "\<forall>q. oldest = Some q \<longrightarrow> lru_candidate h p q"
  shows "case pick_lru h p oldest es of
      None \<Rightarrow> oldest = None \<and> (\<forall>e \<in> set es. \<not> lru_candidate h p e)
    | Some q \<Rightarrow> lru_candidate h p q \<and> (q \<in> set es \<or> oldest = Some q) \<and>
        (\<forall>e \<in> set es \<union> set_option oldest. lru_candidate h p e \<longrightarrow> bk_last_used (h (snd q)) \<le> bk_last_used (h (snd e)))"
  using assms
proof (induction es arbitrary: oldest)
  case Nil
  then show ?case by (cases oldest) auto
next
  case (Cons e es)
  show ?case
  proof (cases "lru_candidate h p e")
    case False
    then show ?thesis using Cons.IH [OF Cons.prems] by (cases "pick_lru h p oldest es") auto
  next
    case True
    define next_oldest where "next_oldest = (case oldest of None \<Rightarrow> Some e
      | Some q \<Rightarrow> if bk_last_used (h (snd e)) < bk_last_used (h (snd q)) then Some e else oldest)"
    have "\<forall>q. next_oldest = Some q \<longrightarrow> lru_candidate h p q"
      using True Cons.prems by (auto simp: next_oldest_def split: option.splits if_splits)
    from Cons.IH [OF this] show ?thesis
      using True Cons.prems by (cases oldest; cases "pick_lru h p next_oldest es")
        (auto simp: next_oldest_def split: if_splits)
  qed
qed

lemma evict_lru_cases:
  obtains "evict_lru h p = (p, None)" "\<forall>e \<in> set (bp_backends p). \<not> lru_candidate h p e"
  | d i where "evict_lru h p = (p\<lparr>bp_backends := dict_pop d (bp_backends p), bp_spawn_locks := dict_pop d (bp_spawn_locks p),
        bp_evictions_lru := bp_evictions_lru p + 1\<rparr>, Some i)" "(d, i) \<in> set (bp_backends p)" "lru_candidate h p (d, i)"
      "\<forall>e \<in> set (bp_backends p). lru_candidate h p e \<longrightarrow> bk_last_used (h i) \<le> bk_last_used (h (snd e))"
  using pick_lru_spec [where oldest = None and h = h and p = p and es = "bp_backends p"]
  by (cases "pick_lru h p None (bp_backends p)") (auto simp: evict_lru_def)

subsection \<open>One operation after another\<close>

datatype pool_op =
    Add string nat bool "nat option"
  | Evict string bool "nat option"
  | Evict_idle secs secs bool
  | Register_exclusive string nat
  | Release_exclusive string
  | Reserve string
  | Unreserve string
  | Drain "nat list" secs secs
  | Reap secs
  | Note_death string secs secs
  | Note_healthy string
  | Shutdown_all

text \<open>The processes an operation brings, and those it hands out to be shut down: an \<open>Add\<close> that fails hands
  back the one it was given.\<close>

fun arrives :: "pool_op \<Rightarrow> nat list" where
  "arrives (Add d i r e) = [i]"
| "arrives (Register_exclusive stub i) = [i]"
| "arrives _ = []"

fun apply_op :: "heap \<Rightarrow> pool_op \<Rightarrow> backend_pool \<Rightarrow> backend_pool \<times> nat list" where
  "apply_op h (Add d i r e) p = (case pool_add h d i r e p of (p', Inl _) \<Rightarrow> (p', [i]) | (p', Inr vs) \<Rightarrow> (p', vs))"
| "apply_op h (Evict d keep expected) p = (case evict d keep expected p of (p', None) \<Rightarrow> (p', []) | (p', Some i) \<Rightarrow> (p', [i]))"
| "apply_op h (Evict_idle now older pinned) p = evict_idle h now older pinned p"
| "apply_op h (Register_exclusive stub i) p = register_exclusive stub i p"
| "apply_op h (Release_exclusive stub) p = (case release_exclusive stub p of (p', None) \<Rightarrow> (p', []) | (p', Some i) \<Rightarrow> (p', [i]))"
| "apply_op h (Reserve d) p = (reserve d p, [])"
| "apply_op h (Unreserve d) p = (unreserve d p, [])"
| "apply_op h (Drain held now deadline) p = (fst (drain_all (\<lambda>l. l \<notin> set held) now deadline p), [])"
| "apply_op h (Reap now) p = reap_draining h now p"
| "apply_op h (Note_death key uptime now) p = (note_backend_death key uptime now p, [])"
| "apply_op h (Note_healthy key) p = (note_backend_healthy key p, [])"
| "apply_op h Shutdown_all p = shutdown_all p"

text \<open>A history: what the processes are like when each operation happens is part of it.\<close>

fun apply_ops :: "(heap \<times> pool_op) list \<Rightarrow> backend_pool \<Rightarrow> backend_pool \<times> nat list" where
  "apply_ops [] p = (p, [])"
| "apply_ops ((h, op) # ops) p =
     (let (p', out) = apply_op h op p; (p'', outs) = apply_ops ops p' in (p'', out @ outs))"

definition arrivals :: "(heap \<times> pool_op) list \<Rightarrow> nat list" where
  "arrivals ops = concat (map (arrives \<circ> snd) ops)"

definition index_ok :: "backend_pool \<Rightarrow> bool" where
  "index_ok p = (dict_ok (bp_backends p) \<and> dict_ok (bp_exclusive p) \<and> length (bp_backends p) \<le> bp_max p \<and> 0 < bp_max p)"

lemma mset_dict_pop:
  "dict_ok d \<Longrightarrow> mset (map snd d) = mset (map snd (dict_pop k d)) + mset (case dict_get d k of Some v \<Rightarrow> [v] | None \<Rightarrow> [])"
proof (induction d)
  case (Cons e d)
  show ?case
  proof (cases "fst e = k")
    case True
    with Cons.prems have "k \<notin> set (dict_keys d)" by auto
    then show ?thesis using True by (cases e) simp
  qed (use Cons in \<open>cases e, auto split: option.splits\<close>)
qed simp

lemma dict_pop_keys: "set (dict_keys (dict_pop k d)) = set (dict_keys d) - {k}"
  by (auto simp: AList.delete_eq image_iff)

lemma fold_pop_filter:
  "dict_ok d \<Longrightarrow> fold dict_pop (map fst (filter P d)) d = filter (\<lambda>e. \<not> P e) d"
proof -
  have pop: "fold dict_pop ks d = filter (\<lambda>e. fst e \<notin> set ks) d" for ks and d :: "('a \<times> 'b) list"
    by (induction ks arbitrary: d) (auto simp: AList.delete_eq intro!: filter_cong)
  assume ok: "dict_ok d"
  have "fst e \<in> set (map fst (filter P d)) \<longleftrightarrow> P e" if "e \<in> set d" for e
    using that ok by (auto simp: distinct_map inj_on_def)
  then show ?thesis unfolding pop by (intro filter_cong) auto
qed

lemma reserve_same [simp]:
  "bp_backends (reserve d p) = bp_backends p" "bp_draining (reserve d p) = bp_draining p"
  "bp_exclusive (reserve d p) = bp_exclusive p" "bp_max (reserve d p) = bp_max p"
  "bp_drain_epoch (reserve d p) = bp_drain_epoch p"
  by (simp_all add: reserve_def)

lemma unreserve_same [simp]:
  "bp_backends (unreserve d p) = bp_backends p" "bp_draining (unreserve d p) = bp_draining p"
  "bp_exclusive (unreserve d p) = bp_exclusive p" "bp_max (unreserve d p) = bp_max p"
  "bp_drain_epoch (unreserve d p) = bp_drain_epoch p"
  by (simp_all add: unreserve_def)

lemma note_same [simp]:
  "bp_backends (note_backend_death k u now p) = bp_backends p" "bp_draining (note_backend_death k u now p) = bp_draining p"
  "bp_exclusive (note_backend_death k u now p) = bp_exclusive p" "bp_max (note_backend_death k u now p) = bp_max p"
  "bp_drain_epoch (note_backend_death k u now p) = bp_drain_epoch p"
  "bp_reserved (note_backend_death k u now p) = bp_reserved p"
  "bp_backends (note_backend_healthy k p) = bp_backends p" "bp_draining (note_backend_healthy k p) = bp_draining p"
  "bp_exclusive (note_backend_healthy k p) = bp_exclusive p" "bp_max (note_backend_healthy k p) = bp_max p"
  "bp_drain_epoch (note_backend_healthy k p) = bp_drain_epoch p"
  "bp_reserved (note_backend_healthy k p) = bp_reserved p"
  by (simp_all add: note_backend_death_def note_backend_healthy_def split: option.split)

lemma pool_add_cases:
  assumes "index_ok p"
  obtains (refused) e q where "pool_add h d i r se p = (q, Inl e)" "bp_backends q = bp_backends p"
      "bp_draining q = bp_draining p" "bp_exclusive q = bp_exclusive p" "bp_max q = bp_max p"
      "bp_reserved q = bp_reserved p" "bp_drain_epoch q = bp_drain_epoch p"
  | (room) q where "pool_add h d i r se p = (q, Inr [])" "bp_backends q = bp_backends p @ [(d, i)]"
      "bp_draining q = bp_draining p" "bp_exclusive q = bp_exclusive p" "bp_max q = bp_max p"
      "length (bp_backends p) < bp_max p" "d \<notin> set (dict_keys (bp_backends p))"
      "bp_reserved q = bp_reserved (if r then reserve d p else p)" "bp_drain_epoch q = bp_drain_epoch p"
      "se = None \<or> se = Some (bp_drain_epoch p)"
  | (replaced) q v k where "pool_add h d i r se p = (q, Inr [v])" "bp_backends q = dict_pop k (bp_backends p) @ [(d, i)]"
      "(k, v) \<in> set (bp_backends p)" "lru_candidate h p (k, v)" "d \<notin> set (dict_keys (bp_backends p))"
      "bp_draining q = bp_draining p" "bp_exclusive q = bp_exclusive p" "bp_max q = bp_max p"
      "bp_reserved q = bp_reserved (if r then reserve d p else p)" "bp_drain_epoch q = bp_drain_epoch p"
      "se = None \<or> se = Some (bp_drain_epoch p)"
proof (cases "(se \<noteq> None \<and> se \<noteq> Some (bp_drain_epoch p)) \<or> d \<in> set (dict_keys (bp_backends p))")
  case True
  then have "pool_add h d i r se p = (p, Inl Drained_during_spawn) \<or> pool_add h d i r se p = (p, Inl Key_collision)"
    by (auto simp: pool_add_def)
  then show thesis using refused [of p] by blast
next
  case ok: False
  then have se: "se = None \<or> se = Some (bp_drain_epoch p)" and new: "d \<notin> set (dict_keys (bp_backends p))" by auto
  show thesis
  proof (cases "bp_max p \<le> length (bp_backends p)")
    case False
    then show thesis using ok se new
      by (intro room [of "fst (pool_add h d i r se p)"]) (auto simp: pool_add_def reserve_def reserved_count_def Let_def split: if_splits)
  next
    case full: True
    show thesis
    proof (cases rule: evict_lru_cases [of h p])
      case 1
      then show thesis using ok full se new
        by (intro refused [of "fst (pool_add h d i r se p)" Pool_at_capacity]) (auto simp: pool_add_def)
    next
      case (2 k v)
      have "d \<notin> set (dict_keys (dict_pop k (bp_backends p)))" using new by (simp only: dict_pop_keys) blast
      then show thesis using ok full se new 2
        by (intro replaced [of "fst (pool_add h d i r se p)" v k])
          (auto simp: pool_add_def reserve_def reserved_count_def Let_def split: if_splits)
    qed
  qed
qed

lemma apply_op_index_ok:
  assumes "index_ok p"
  shows "index_ok (fst (apply_op h op p))"
proof (cases op)
  case (Add d i r e)
  from assms show ?thesis
  proof (cases rule: pool_add_cases [of p h d i r e])
    case (replaced q v k)
    have "k \<in> set (dict_keys (bp_backends p))" using replaced(3) by force
    then have "length (dict_pop k (bp_backends p)) = length (bp_backends p) - 1" "0 < length (bp_backends p)"
      using assms dict_pop_present [of "bp_backends p" k] by (auto simp: index_ok_def)
    moreover have "d \<notin> set (dict_keys (dict_pop k (bp_backends p)))"
      using replaced(5) by (simp only: dict_pop_keys) blast
    moreover have "dict_ok (dict_pop k (bp_backends p))" using assms by (simp add: index_ok_def)
    ultimately show ?thesis using assms Add replaced(1,2,7,8) by (simp add: index_ok_def)
  qed (use assms Add in \<open>auto simp: index_ok_def\<close>)
next
  case (Evict d keep expected)
  then show ?thesis using assms order_trans [OF dict_pop_length_le [of d "bp_backends p"]]
    by (auto simp: index_ok_def evict_def split: option.split)
next
  case (Evict_idle now older pinned)
  then show ?thesis using assms order_trans [OF length_filter_le]
    by (auto simp: index_ok_def evict_idle_def Let_def fold_pop_filter)
next
  case (Register_exclusive stub i)
  then show ?thesis using assms by (auto simp: index_ok_def register_exclusive_def)
next
  case (Release_exclusive stub)
  then show ?thesis using assms by (auto simp: index_ok_def release_exclusive_def split: option.split)
qed (use assms in \<open>auto simp: index_ok_def drain_all_def reap_draining_def shutdown_all_def\<close>)

lemma apply_op_conserves:
  assumes "index_ok p"
  shows "mset (all_backends p) + mset (arrives op) =
    mset (all_backends (fst (apply_op h op p))) + mset (snd (apply_op h op p))"
proof (cases op)
  case (Add d i r e)
  from assms show ?thesis
  proof (cases rule: pool_add_cases [of p h d i r e])
    case (replaced q v k)
    have "dict_get (bp_backends p) k = Some v" using assms replaced(3) by (simp add: index_ok_def)
    then have "mset (map snd (bp_backends p)) = mset (map snd (dict_pop k (bp_backends p))) + {#v#}"
      using assms mset_dict_pop [of "bp_backends p" k] by (simp add: index_ok_def)
    then show ?thesis using Add replaced by (simp add: all_backends_def)
  qed (use Add in \<open>auto simp: all_backends_def\<close>)
next
  case (Evict d keep expected)
  then show ?thesis using assms mset_dict_pop [of "bp_backends p" d]
    by (auto simp: index_ok_def evict_def all_backends_def split: option.split)
next
  case (Evict_idle now older pinned)
  let ?P = "idle_stale h (now - older) pinned p"
  have "mset (map snd (bp_backends p)) = mset (map snd (filter ?P (bp_backends p))) + mset (map snd (filter (\<lambda>e. \<not> ?P e) (bp_backends p)))"
    by (simp flip: image_mset_union)
  then show ?thesis using Evict_idle assms by (simp add: evict_idle_def Let_def all_backends_def fold_pop_filter index_ok_def)
next
  case (Register_exclusive stub i)
  have "dict_set stub i (dict_pop stub (bp_exclusive p)) = dict_pop stub (bp_exclusive p) @ [(stub, i)]"
    by (rule dict_set_new) (use dict_pop_keys [of stub "bp_exclusive p"] in blast)
  then show ?thesis using assms mset_dict_pop [of "bp_exclusive p" stub] Register_exclusive
    by (auto simp: index_ok_def register_exclusive_def all_backends_def split: option.split)
next
  case (Release_exclusive stub)
  then show ?thesis using assms mset_dict_pop [of "bp_exclusive p" stub]
    by (auto simp: index_ok_def release_exclusive_def all_backends_def split: option.split)
next
  case (Drain held now deadline)
  have "map dr_backend (map (\<lambda>(d, i). \<lparr>dr_backend = i, dr_deadline = t, dr_digest = d\<rparr>) xs) = map snd xs" for t and xs
    by (induction xs) auto
  then show ?thesis using Drain by (simp add: drain_all_def all_backends_def del: map_map)
next
  case (Reap now)
  have "mset (map dr_backend (bp_draining p)) = mset (map dr_backend (filter (reapable h now p) (bp_draining p)))
      + mset (map dr_backend (filter (\<lambda>e. \<not> reapable h now p e) (bp_draining p)))"
    by (simp flip: image_mset_union)
  then show ?thesis using Reap by (simp add: reap_draining_def all_backends_def)
qed (simp_all add: all_backends_def shutdown_all_def)

lemma apply_ops_keep:
  assumes "index_ok p"
  shows "index_ok (fst (apply_ops ops p)) \<and>
    mset (all_backends p) + mset (arrivals ops) = mset (all_backends (fst (apply_ops ops p))) + mset (snd (apply_ops ops p))"
  using assms
proof (induction ops arbitrary: p)
  case (Cons o1 ops)
  obtain h op where o1: "o1 = (h, op)" by fastforce
  obtain p' out where 1: "apply_op h op p = (p', out)" by fastforce
  obtain p'' outs where 2: "apply_ops ops p' = (p'', outs)" by fastforce
  have "index_ok p'" using apply_op_index_ok [OF Cons.prems, of h op] 1 by simp
  from Cons.IH [OF this] apply_op_conserves [OF Cons.prems, of op h] show ?case
    using o1 1 2 by (simp add: arrivals_def) (metis add.commute add.left_commute)
qed (simp add: arrivals_def)

lemma make_backend_pool_ok:
  "make_backend_pool n br = Inr p \<Longrightarrow> index_ok p \<and> all_backends p = [] \<and> bp_max p = nat n \<and> 1 \<le> n"
  by (auto simp: make_backend_pool_def index_ok_def all_backends_def split: if_splits)

lemma apply_op_max [simp]: "bp_max (fst (apply_op h op p)) = bp_max p"
proof (cases op)
  case (Add d i r e)
  obtain q v where q: "evict_lru h p = (q, v)" by fastforce
  then have "bp_max q = bp_max p" by (cases rule: evict_lru_cases [of h p]) auto
  then have "bp_max (fst (pool_add h d i r e p)) = bp_max p"
    using q by (simp add: pool_add_def Let_def)
  then show ?thesis using Add by (auto split: prod.split sum.split)
qed (auto simp: evict_def evict_idle_def Let_def register_exclusive_def release_exclusive_def drain_all_def
    reap_draining_def shutdown_all_def split: option.split)

lemma apply_ops_max [simp]: "bp_max (fst (apply_ops ops p)) = bp_max p"
proof (induction ops arbitrary: p)
  case (Cons o1 ops)
  obtain h op where o1: "o1 = (h, op)" by fastforce
  show ?case using Cons [of "fst (apply_op h op p)"] o1 by (simp add: split_def Let_def)
qed simp

text \<open>The operations that reclaim processes on their own.\<close>

definition is_sweep :: "pool_op \<Rightarrow> bool" where
  "is_sweep op = (case op of Add d i r e \<Rightarrow> True | Evict_idle now older pinned \<Rightarrow> True | Reap now \<Rightarrow> True | _ \<Rightarrow> False)"

definition unused_in :: "heap \<Rightarrow> backend_pool \<Rightarrow> string \<Rightarrow> nat \<Rightarrow> bool" where
  "unused_in h p d i = (bk_stubs (h i) = [] \<and> \<not> is_reserved p d)"

lemma sweep_spares:
  assumes "is_sweep op" "i \<in> set (snd (apply_op h op p))" "i \<notin> set (arrives op)"
  shows "(\<exists>d. (d, i) \<in> set (bp_backends p) \<and> unused_in h p d i) \<or>
    (\<exists>e \<in> set (bp_draining p). dr_backend e = i \<and>
      (unused_in h p (dr_digest e) i \<or> (\<exists>now. op = Reap now \<and> dr_deadline e \<le> now)))"
proof (cases op)
  case (Add d j r e)
  have "i \<in> set_option (snd (evict_lru h p))"
    using assms(2,3) Add by (auto simp: pool_add_def Let_def split: if_splits prod.splits option.splits)
  then show ?thesis
    by (cases rule: evict_lru_cases [of h p]) (auto simp: lru_candidate_def unused_in_def bk_refcount_def)
next
  case (Evict_idle now older pinned)
  then show ?thesis using assms(2)
    by (auto simp: evict_idle_def Let_def idle_stale_def unused_in_def bk_refcount_def)
next
  case (Reap now)
  then show ?thesis using assms(2)
    by (auto simp: reap_draining_def reapable_def unused_in_def bk_refcount_def)
qed (use assms(1) in \<open>auto simp: is_sweep_def\<close>)

subsection \<open>Properties of the pool\<close>

text \<open>C23. No process is lost and the index stays within its bound: after any history of operations on a new
  pool, the reuse index holds at most \<^verbatim>\<open>max_backends\<close> processes, and the processes that came in are, each
  exactly as often as it came, those still held (pooled, draining or private) and those handed out to be
  shut down.\<close>

theorem no_backend_is_lost:
  assumes "make_backend_pool n br = Inr p"
  shows "int (length (bp_backends (fst (apply_ops ops p)))) \<le> n \<and>
    mset (arrivals ops) = mset (all_backends (fst (apply_ops ops p))) + mset (snd (apply_ops ops p))"
  using make_backend_pool_ok [OF assms] apply_ops_keep [of p ops] apply_ops_max [of ops p]
  by (auto simp: index_ok_def)

definition quiet_backend :: backend where
  "quiet_backend = \<lparr>bk_digest = ''a'', bk_token = [], bk_stubs = [], bk_last_used = 0, bk_created = 0, bk_pinned = False,
     bk_alive = True, bk_quarantined = False, bk_born = 0\<rparr>"

lemma no_backend_is_lost_witness:
  "(let ops = map (Pair (\<lambda>i. quiet_backend)) [Add ''a'' 1 False None, Add ''b'' 2 True (Some 0), Add ''c'' 3 False None,
       Drain [] 5 60, Reap 9, Register_exclusive ''s'' 4];
     p = projr (make_backend_pool 1 None) in
     mset [1, 2, 3, 4] = mset (all_backends (fst (apply_ops ops p))) + mset (snd (apply_ops ops p)))"
  using no_backend_is_lost [of 1 None "projr (make_backend_pool 1 None)"
      "map (Pair (\<lambda>i. quiet_backend)) [Add ''a'' 1 False None, Add ''b'' 2 True (Some 0), Add ''c'' 3 False None,
       Drain [] 5 60, Reap 9, Register_exclusive ''s'' 4]"]
  by (simp add: make_backend_pool_def arrivals_def Let_def)

text \<open>C32. What is in use is not reclaimed: a process that the idle sweep, the insertion into a full pool or
  the reaping of drained processes shuts down has no stub attached and is not reserved for one, unless its
  deadline after a rotation has passed.\<close>

theorem sweeps_spare_backends_in_use:
  assumes "is_sweep op" "i \<in> set (snd (apply_op h op p))" "i \<notin> set (arrives op)"
  shows "(\<exists>d. (d, i) \<in> set (bp_backends p) \<and> unused_in h p d i) \<or>
    (\<exists>e \<in> set (bp_draining p). dr_backend e = i \<and>
      (unused_in h p (dr_digest e) i \<or> (\<exists>now. op = Reap now \<and> dr_deadline e \<le> now)))"
  using assms by (rule sweep_spares)

lemma sweeps_spare_backends_in_use_witness:
  "let p = fst (apply_op (\<lambda>i. quiet_backend) (Add ''a'' 1 False None) (projr (make_backend_pool 1 None))) in
   1 \<in> set (snd (apply_op (\<lambda>i. quiet_backend) (Evict_idle 100 60 False) p)) \<and> \<not> is_reserved p ''a''"
proof -
  let ?h = "\<lambda>i. quiet_backend" and ?p = "fst (apply_op (\<lambda>i. quiet_backend) (Add ''a'' 1 False None) (projr (make_backend_pool 1 None)))"
  have p: "bp_backends ?p = [(''a'', 1)]" "bp_draining ?p = []"
    by (simp_all add: make_backend_pool_def pool_add_def)
  have e: "1 \<in> set (snd (apply_op ?h (Evict_idle 100 60 False) ?p))"
    by (simp add: make_backend_pool_def pool_add_def evict_idle_def idle_stale_def quiet_backend_def bk_refcount_def is_reserved_def)
  have "(\<exists>d. (d, 1) \<in> set (bp_backends ?p) \<and> unused_in ?h ?p d 1) \<or>
      (\<exists>e \<in> set (bp_draining ?p). dr_backend e = 1 \<and>
        (unused_in ?h ?p (dr_digest e) 1 \<or> (\<exists>now. Evict_idle 100 60 False = Reap now \<and> dr_deadline e \<le> now)))"
    by (rule sweeps_spare_backends_in_use) (use e in \<open>simp_all add: is_sweep_def\<close>)
  then have "unused_in ?h ?p ''a'' 1" using p by simp
  with e show ?thesis by (simp add: unused_in_def Let_def)
qed

text \<open>A full pool gives up its least recently used idle process, and refuses only when it has none: the
  victim is idle, unreserved, not pinned and no later used than any other such process.\<close>

theorem full_pool_evicts_least_recently_used:
  assumes "bp_max p \<le> length (bp_backends p)" "d \<notin> set (dict_keys (bp_backends p))"
  shows "case snd (pool_add h d i r (Some (bp_drain_epoch p)) p) of
      Inr victims \<Rightarrow> \<exists>k v. victims = [v] \<and> (k, v) \<in> set (bp_backends p) \<and> lru_candidate h p (k, v) \<and>
        (\<forall>e \<in> set (bp_backends p). lru_candidate h p e \<longrightarrow> bk_last_used (h v) \<le> bk_last_used (h (snd e)))
    | Inl e \<Rightarrow> e = Pool_at_capacity \<and> (\<forall>e \<in> set (bp_backends p). \<not> lru_candidate h p e)"
  using assms by (cases rule: evict_lru_cases [of h p]) (auto simp: pool_add_def Let_def)

lemma full_pool_evicts_least_recently_used_witness:
  "let h = (\<lambda>i. quiet_backend\<lparr>bk_last_used := of_nat i\<rparr>);
       p = (projr (make_backend_pool 2 None))\<lparr>bp_backends := [(''a'', 2), (''b'', 1)]\<rparr>
   in \<exists>v. snd (pool_add h ''c'' 3 True (Some (bp_drain_epoch p)) p) = Inr [v] \<and> bk_last_used (h v) \<le> 1"
proof -
  let ?h = "\<lambda>i. quiet_backend\<lparr>bk_last_used := of_nat i\<rparr>"
  let ?p = "(projr (make_backend_pool 2 None))\<lparr>bp_backends := [(''a'', 2), (''b'', 1)]\<rparr>"
  have c: "lru_candidate ?h ?p (''b'', 1)"
    by (simp add: lru_candidate_def quiet_backend_def bk_refcount_def is_reserved_def make_backend_pool_def)
  have "bp_max ?p \<le> length (bp_backends ?p)" "''c'' \<notin> set (dict_keys (bp_backends ?p))"
    by (simp_all add: make_backend_pool_def)
  from full_pool_evicts_least_recently_used [OF this, of ?h 3 True] c show ?thesis
    by (cases "snd (pool_add ?h ''c'' 3 True (Some (bp_drain_epoch ?p)) ?p)") (auto simp: Let_def)
qed

end
