(* ===== verification/Backend_Acquire.thy ===== *)
theory Backend_Acquire imports Backend_Pool begin

section \<open>Acquiring a backend, interleaved (\<^verbatim>\<open>BackendPool.get_or_create\<close>)\<close>

text \<open>
  \<^verbatim>\<open>get_or_create\<close> cut at its suspension points: waiting for the spawn lock of the identity, the
  shutdown of a quarantined or dead process, \<^verbatim>\<open>spawn()\<close>, the shutdown of a process that must not be
  pooled. What runs between two of them is one event of the system; the sweeps, the rotation of
  credentials, stubs and dying processes come between in any order. A lock is its queue of callers, the
  first of which holds it: \<^verbatim>\<open>asyncio.Lock\<close> is fair. Cancelled calls are left out.
\<close>

subsection \<open>State\<close>

datatype call =
    Waiting string nat
  | Retiring string nat nat
  | Burying string nat
  | Spawning string nat nat nat
  | Discarding string nat nat nat
  | Refusing string nat pool_error nat
  | Holding string nat
  | Failed pool_error
  | Settled

record mcp_world =
  mw_pool :: backend_pool
  mw_heap :: heap
  mw_next :: nat
  mw_locks :: "nat list list"
  mw_calls :: "(nat, call) dict"

definition new_world :: "backend_pool \<Rightarrow> mcp_world" where
  "new_world p = \<lparr>mw_pool = p, mw_heap = (\<lambda>i. \<lparr>bk_digest = [], bk_token = [], bk_stubs = [], bk_last_used = 0,
     bk_created = 0, bk_pinned = False, bk_alive = False, bk_quarantined = False, bk_born = 0\<rparr>),
     mw_next = 0, mw_locks = [], mw_calls = []\<rparr>"

definition set_call :: "nat \<Rightarrow> call \<Rightarrow> mcp_world \<Rightarrow> mcp_world" where
  "set_call c st w = w\<lparr>mw_calls := dict_set c st (mw_calls w)\<rparr>"

definition set_pool :: "backend_pool \<Rightarrow> mcp_world \<Rightarrow> mcp_world" where
  "set_pool p w = w\<lparr>mw_pool := p\<rparr>"

definition kill :: "nat list \<Rightarrow> mcp_world \<Rightarrow> mcp_world" where
  "kill is w = w\<lparr>mw_heap := (\<lambda>i. if i \<in> set is then (mw_heap w i)\<lparr>bk_alive := False\<rparr> else mw_heap w i)\<rparr>"

definition lock_idle :: "mcp_world \<Rightarrow> nat \<Rightarrow> bool" where
  "lock_idle w l = (mw_locks w ! l = [])"

subsection \<open>The pieces of the call\<close>

text \<open>Leaving \<^verbatim>\<open>async with lock\<close> and the \<^verbatim>\<open>finally\<close> that reaps the lock of an identity without a
  process.\<close>

definition release :: "string \<Rightarrow> nat \<Rightarrow> mcp_world \<Rightarrow> mcp_world" where
  "release d l w =
     (let w' = w\<lparr>mw_locks := (mw_locks w)[l := tl (mw_locks w ! l)]\<rparr>; p = mw_pool w' in
      if d \<notin> set (dict_keys (bp_backends p)) \<and> dict_get (bp_spawn_locks p) d = Some l \<and> lock_idle w' l
      then set_pool (p\<lparr>bp_spawn_locks := dict_pop d (bp_spawn_locks p)\<rparr>) w' else w')"

definition fail_call :: "nat \<Rightarrow> string \<Rightarrow> nat \<Rightarrow> pool_error \<Rightarrow> mcp_world \<Rightarrow> mcp_world" where
  "fail_call c d l e w = release d l (set_call c (Failed e) w)"

definition hand_out :: "nat \<Rightarrow> string \<Rightarrow> nat \<Rightarrow> mcp_world \<Rightarrow> mcp_world" where
  "hand_out c d i w = set_call c (Holding d i) (set_pool (reserve d (mw_pool w)) w)"

text \<open>The breaker, then the first attempt.\<close>

definition begin_spawn :: "nat \<Rightarrow> string \<Rightarrow> nat \<Rightarrow> secs \<Rightarrow> mcp_world \<Rightarrow> mcp_world" where
  "begin_spawn c d l now w =
     (let (allowed, p) = breaker_allows d now (mw_pool w); w' = set_pool p w in
      if allowed then set_call c (Spawning d l 0 (bp_drain_epoch p)) w'
      else fail_call c d l Breaker_open w')"

definition usable :: "backend \<Rightarrow> bool" where
  "usable b = (bk_alive b \<and> \<not> bk_quarantined b)"

text \<open>With the spawn lock held: the double check and what a stale entry needs.\<close>

definition locked_section :: "nat \<Rightarrow> string \<Rightarrow> nat \<Rightarrow> secs \<Rightarrow> mcp_world \<Rightarrow> mcp_world" where
  "locked_section c d l now w =
     (case pool_get d (mw_pool w) of
        None \<Rightarrow> begin_spawn c d l now w
      | Some i \<Rightarrow> (let b = mw_heap w i in
          if usable b then release d l (hand_out c d i w)
          else if bk_alive b then set_call c (Retiring d l i) w
          else (let p = note_backend_death (bk_digest b) (now - bk_created b) now (mw_pool w) in
            set_call c (Burying d l) (set_pool (fst (evict d True None p)) w))))"

text \<open>The fast path, then the lock of the identity.\<close>

definition take_lock :: "nat \<Rightarrow> string \<Rightarrow> secs \<Rightarrow> mcp_world \<Rightarrow> mcp_world" where
  "take_lock c d now w =
     (case dict_get (bp_spawn_locks (mw_pool w)) d of
        Some l \<Rightarrow> (let w' = w\<lparr>mw_locks := (mw_locks w)[l := mw_locks w ! l @ [c]]\<rparr> in
          if lock_idle w l then locked_section c d l now w' else set_call c (Waiting d l) w')
      | None \<Rightarrow> (let l = length (mw_locks w);
          w' = set_pool ((mw_pool w)\<lparr>bp_spawn_locks := dict_set d l (bp_spawn_locks (mw_pool w))\<rparr>)
                 (w\<lparr>mw_locks := mw_locks w @ [[c]]\<rparr>) in locked_section c d l now w'))"

definition call_get_or_create :: "nat \<Rightarrow> string \<Rightarrow> secs \<Rightarrow> mcp_world \<Rightarrow> mcp_world" where
  "call_get_or_create c d now w =
     (case pool_get d (mw_pool w) of
        Some i \<Rightarrow> if usable (mw_heap w i) then hand_out c d i w else take_lock c d now w
      | None \<Rightarrow> take_lock c d now w)"

text \<open>\<^verbatim>\<open>spawn()\<close> has returned: the process was launched under the rotation \<open>e\<close> read before it. It awaits after the child exists and
  nothing looks at the child again, so the child may have exited by now (\<open>alive\<close>).\<close>

definition launch :: "string \<Rightarrow> secs \<Rightarrow> bool \<Rightarrow> bool \<Rightarrow> nat \<Rightarrow> mcp_world \<Rightarrow> mcp_world" where
  "launch d now pinned alive e w = w\<lparr>mw_heap := (mw_heap w)(mw_next w := \<lparr>bk_digest = d, bk_token = [], bk_stubs = [],
     bk_last_used = now, bk_created = now, bk_pinned = pinned, bk_alive = alive, bk_quarantined = False, bk_born = e\<rparr>),
     mw_next := mw_next w + 1\<rparr>"

definition spawned :: "nat \<Rightarrow> string \<Rightarrow> nat \<Rightarrow> nat \<Rightarrow> nat \<Rightarrow> mcp_world \<Rightarrow> mcp_world" where
  "spawned c d l n e w =
     (let i = mw_next w - 1 in
      case pool_add (mw_heap w) d i True (Some e) (mw_pool w) of
        (p, Inl err) \<Rightarrow> set_call c (if err = Drained_during_spawn then Discarding d l n i else Refusing d l err i) (set_pool p w)
      | (p, Inr victims) \<Rightarrow>
          release d l (set_call c (Holding d i) (kill victims (set_pool (p\<lparr>bp_spawns := bp_spawns p + 1\<rparr>) w))))"

text \<open>An awaited shutdown has finished.\<close>

definition shut :: "nat \<Rightarrow> secs \<Rightarrow> mcp_world \<Rightarrow> call \<Rightarrow> mcp_world option" where
  "shut c now w st = (case st of
      Retiring d l i \<Rightarrow> (let w' = kill [i] w in Some (begin_spawn c d l now (set_pool (fst (evict d True None (mw_pool w'))) w')))
    | Burying d l \<Rightarrow> Some (begin_spawn c d l now w)
    | Discarding d l n i \<Rightarrow> (let w' = kill [i] w in
        Some (if n < MAX_SPAWN_DRAIN_RETRIES then set_call c (Spawning d l (n + 1) (bp_drain_epoch (mw_pool w'))) w'
              else fail_call c d l Rotation_storm w'))
    | Refusing d l e i \<Rightarrow> Some (fail_call c d l e (kill [i] w))
    | _ \<Rightarrow> None)"

subsection \<open>The system\<close>

datatype mcp_event =
    Call nat string secs
  | Resume nat secs
  | Shut nat secs
  | Spawned nat secs bool bool
  | Spawn_fails nat
  | Attach nat string secs
  | Settle nat
  | Detach nat string secs
  | Dies nat
  | Recycle nat
  | Sweep_idle secs secs bool
  | Sweep_dead string nat
  | Rotate secs
  | Reap_drained secs

fun mcp_step :: "mcp_event \<Rightarrow> mcp_world \<Rightarrow> mcp_world option" where
  "mcp_step (Call c d now) w = (if dict_get (mw_calls w) c = None then Some (call_get_or_create c d now w) else None)"
| "mcp_step (Resume c now) w = (case dict_get (mw_calls w) c of
      Some (Waiting d l) \<Rightarrow> if mw_locks w ! l \<noteq> [] \<and> hd (mw_locks w ! l) = c then Some (locked_section c d l now w) else None
    | _ \<Rightarrow> None)"
| "mcp_step (Shut c now) w = (case dict_get (mw_calls w) c of Some st \<Rightarrow> shut c now w st | None \<Rightarrow> None)"
| "mcp_step (Spawned c now pinned alive) w = (case dict_get (mw_calls w) c of
      Some (Spawning d l n e) \<Rightarrow> Some (spawned c d l n e (launch d now pinned alive e w)) | _ \<Rightarrow> None)"
| "mcp_step (Spawn_fails c) w = (case dict_get (mw_calls w) c of
      Some (Spawning d l n e) \<Rightarrow> Some (fail_call c d l Spawn_failed w) | _ \<Rightarrow> None)"
| "mcp_step (Attach c stub now) w = (case dict_get (mw_calls w) c of
      Some (Holding d i) \<Rightarrow> (case attach_stub stub now i (mw_heap w) of Some h \<Rightarrow> Some (w\<lparr>mw_heap := h\<rparr>) | None \<Rightarrow> None)
    | _ \<Rightarrow> None)"
| "mcp_step (Settle c) w = (case dict_get (mw_calls w) c of
      Some (Holding d i) \<Rightarrow> Some (set_call c Settled (set_pool (unreserve d (mw_pool w)) w)) | _ \<Rightarrow> None)"
| "mcp_step (Detach i stub now) w = Some (w\<lparr>mw_heap := detach_stub stub now i (mw_heap w)\<rparr>)"
| "mcp_step (Dies i) w = Some (kill [i] w)"
| "mcp_step (Recycle i) w = Some (w\<lparr>mw_heap := fst (recycle_if_idle i (mw_heap w))\<rparr>)"
| "mcp_step (Sweep_idle now older pinned) w =
     (let (p, victims) = evict_idle (mw_heap w) now older pinned (mw_pool w) in Some (kill victims (set_pool p w)))"
| "mcp_step (Sweep_dead d i) w = (if bk_alive (mw_heap w i) then None
     else Some (set_pool (fst (evict d False (Some i) (mw_pool w))) w))"
| "mcp_step (Rotate now) w = Some (set_pool (fst (drain_all (lock_idle w) now DRAIN_DEADLINE_SECS (mw_pool w))) w)"
| "mcp_step (Reap_drained now) w = (let (p, victims) = reap_draining (mw_heap w) now (mw_pool w) in Some (kill victims (set_pool p w)))"

inductive mcp_reaches :: "mcp_world \<Rightarrow> mcp_world \<Rightarrow> bool" for w0 where
  start: "mcp_reaches w0 w0"
| next_event: "mcp_reaches w0 w \<Longrightarrow> mcp_step e w = Some w' \<Longrightarrow> mcp_reaches w0 w'"

fun mcp_run :: "mcp_event list \<Rightarrow> mcp_world \<Rightarrow> mcp_world option" where
  "mcp_run [] w = Some w"
| "mcp_run (e # es) w = (case mcp_step e w of Some w' \<Rightarrow> mcp_run es w' | None \<Rightarrow> None)"

lemma mcp_run_reaches:
  assumes "mcp_reaches w0 w" "mcp_run es w = Some w'"
  shows "mcp_reaches w0 w'"
  using assms by (induction es arbitrary: w) (auto split: option.splits intro: next_event)

subsection \<open>The invariant\<close>

definition holds :: "string \<Rightarrow> call \<Rightarrow> bool" where
  "holds d st = (case st of Holding d' i \<Rightarrow> d' = d | _ \<Rightarrow> False)"

definition holders :: "mcp_world \<Rightarrow> string \<Rightarrow> nat" where
  "holders w d = length (filter (\<lambda>e. holds d (snd e)) (mw_calls w))"

definition call_ok :: "nat \<Rightarrow> call \<Rightarrow> bool" where
  "call_ok epoch st = (case st of Spawning d l n e \<Rightarrow> n \<le> MAX_SPAWN_DRAIN_RETRIES \<and> e \<le> epoch
     | Discarding d l n i \<Rightarrow> n \<le> MAX_SPAWN_DRAIN_RETRIES | _ \<Rightarrow> True)"

definition index_current :: "mcp_world \<Rightarrow> bool" where
  "index_current w = (\<forall>d i. (d, i) \<in> set (bp_backends (mw_pool w)) \<longrightarrow>
     i < mw_next w \<and> bk_born (mw_heap w i) = bp_drain_epoch (mw_pool w) \<and> bk_digest (mw_heap w i) = d)"

definition world_ok :: "mcp_world \<Rightarrow> bool" where
  "world_ok w = (index_ok (mw_pool w) \<and> index_current w \<and> dict_ok (mw_calls w) \<and>
     (\<forall>d. reserved_count (mw_pool w) d = holders w d) \<and> (\<forall>e \<in> set (bp_reserved (mw_pool w)). 0 < snd e) \<and>
     (\<forall>c st. dict_get (mw_calls w) c = Some st \<longrightarrow> call_ok (bp_drain_epoch (mw_pool w)) st))"

definition idle_call :: "mcp_world \<Rightarrow> nat \<Rightarrow> bool" where
  "idle_call w c = (\<forall>d i. dict_get (mw_calls w) c \<noteq> Some (Holding d i))"

lemma world_fields [simp]:
  "mw_pool (set_call c st w) = mw_pool w" "mw_heap (set_call c st w) = mw_heap w" "mw_next (set_call c st w) = mw_next w"
  "mw_locks (set_call c st w) = mw_locks w" "mw_calls (set_call c st w) = dict_set c st (mw_calls w)"
  "mw_pool (set_pool p w) = p" "mw_heap (set_pool p w) = mw_heap w" "mw_next (set_pool p w) = mw_next w"
  "mw_locks (set_pool p w) = mw_locks w" "mw_calls (set_pool p w) = mw_calls w"
  "mw_pool (kill is w) = mw_pool w" "mw_next (kill is w) = mw_next w" "mw_calls (kill is w) = mw_calls w"
  "mw_locks (kill is w) = mw_locks w"
  by (simp_all add: set_call_def set_pool_def kill_def)

lemma kill_heap [simp]:
  "bk_born (mw_heap (kill is w) i) = bk_born (mw_heap w i)" "bk_digest (mw_heap (kill is w) i) = bk_digest (mw_heap w i)"
  "bk_stubs (mw_heap (kill is w) i) = bk_stubs (mw_heap w i)"
  by (simp_all add: kill_def)

lemma holders_set_call:
  assumes "dict_ok (mw_calls w)"
  shows "holders (set_call c st w) d + (case dict_get (mw_calls w) c of Some old \<Rightarrow> of_bool (holds d old) | None \<Rightarrow> 0) =
    holders w d + of_bool (holds d st)"
proof -
  have "length (filter (\<lambda>e. holds d (snd e)) (dict_set c st cs)) + (case dict_get cs c of Some old \<Rightarrow> of_bool (holds d old) | None \<Rightarrow> 0)
      = length (filter (\<lambda>e. holds d (snd e)) cs) + of_bool (holds d st)" if "dict_ok cs" for cs :: "(nat, call) dict"
    using that by (induction cs) (auto split: option.splits)
  from this [OF assms] show ?thesis by (simp add: holders_def)
qed

lemma world_ok_locks [simp]: "world_ok (w\<lparr>mw_locks := ls\<rparr>) = world_ok w"
  by (simp add: world_ok_def index_current_def holders_def call_ok_def)

lemma world_ok_pool:
  assumes "world_ok w" "index_ok p" "set (bp_backends p) \<subseteq> set (bp_backends (mw_pool w))"
    and "bp_drain_epoch p = bp_drain_epoch (mw_pool w)" "bp_reserved p = bp_reserved (mw_pool w)"
  shows "world_ok (set_pool p w)"
proof -
  have "reserved_count p d = reserved_count (mw_pool w) d" for d using assms(5) by (simp add: reserved_count_def)
  moreover have "holders (set_pool p w) d = holders w d" for d by (simp add: holders_def)
  ultimately show ?thesis using assms by (auto simp: world_ok_def index_current_def)
qed

lemma world_ok_call:
  assumes "world_ok w" "idle_call w c" "\<forall>d i. st \<noteq> Holding d i" "call_ok (bp_drain_epoch (mw_pool w)) st"
  shows "world_ok (set_call c st w)"
proof -
  have "\<not> holds d st" for d using assms(3) by (simp add: holds_def split: call.split)
  moreover have "\<not> holds d old" if "dict_get (mw_calls w) c = Some old" for d old
    using assms(2) that by (auto simp: idle_call_def holds_def split: call.splits)
  ultimately have "holders (set_call c st w) d = holders w d" for d
    using holders_set_call [of w c st d] assms(1) by (simp add: world_ok_def split: option.splits)
  then show ?thesis using assms(1,4) by (auto simp: world_ok_def index_current_def dict_simps)
qed

lemma world_ok_release: "world_ok w \<Longrightarrow> world_ok (release d l w)"
  unfolding release_def Let_def
  by (auto intro!: world_ok_pool) (auto simp: world_ok_def index_ok_def)

lemma world_ok_fail: "world_ok w \<Longrightarrow> idle_call w c \<Longrightarrow> world_ok (fail_call c d l e w)"
  unfolding fail_call_def by (intro world_ok_release world_ok_call) (auto simp: call_ok_def)

lemma reserved_count_reserve: "reserved_count (reserve d p) k = reserved_count p k + of_bool (k = d)"
  by (simp add: reserved_count_def reserve_def dict_simps)

lemma reserve_positive: "\<forall>e \<in> set (bp_reserved p). 0 < snd e \<Longrightarrow> \<forall>e \<in> set (bp_reserved (reserve d p)). 0 < snd e"
  using set_dict_set [of d "reserved_count p d + 1" "bp_reserved p"] by (auto simp: reserve_def)

text \<open>A caller that is handed a process counts as one reservation.\<close>

lemma world_ok_held:
  assumes "index_ok p" "index_current (set_pool p w)" "dict_ok (mw_calls w)" "idle_call w c"
    and "\<forall>k. reserved_count p k = holders w k + of_bool (k = d)" "\<forall>e \<in> set (bp_reserved p). 0 < snd e"
    and "\<forall>c st. dict_get (mw_calls w) c = Some st \<longrightarrow> call_ok (bp_drain_epoch (mw_pool w)) st" "bp_drain_epoch (mw_pool w) \<le> bp_drain_epoch p"
  shows "world_ok (set_call c (Holding d i) (set_pool p w))"
proof -
  have "\<not> holds k old" if "dict_get (mw_calls w) c = Some old" for k old
    using assms(4) that by (auto simp: idle_call_def holds_def split: call.splits)
  then have "holders (set_call c (Holding d i) (set_pool p w)) k = holders w k + of_bool (k = d)" for k
    using holders_set_call [of "set_pool p w" c "Holding d i" k] assms(3)
    by (auto simp: holds_def holders_def split: option.splits)
  moreover have "call_ok (bp_drain_epoch p) x" if "call_ok (bp_drain_epoch (mw_pool w)) x" for x
    using that assms(8) by (auto simp: call_ok_def split: call.splits)
  ultimately show ?thesis using assms by (auto simp: world_ok_def index_current_def dict_simps call_ok_def split: if_splits)
qed

lemma world_ok_hand_out: "world_ok w \<Longrightarrow> idle_call w c \<Longrightarrow> world_ok (hand_out c d i w)"
  unfolding hand_out_def
  by (rule world_ok_held) (auto simp: world_ok_def index_ok_def index_current_def reserved_count_reserve intro: reserve_positive [rule_format])

lemma kill_set_call: "set_call c st (kill is w) = kill is (set_call c st w)"
  by (simp add: set_call_def kill_def cong: if_cong)

lemma call_ok_mono: "call_ok e st \<Longrightarrow> e \<le> e' \<Longrightarrow> call_ok e' st"
  by (auto simp: call_ok_def split: call.splits)

lemma world_ok_kill [simp]: "world_ok (kill is w) = world_ok w"
  by (simp add: world_ok_def index_current_def holders_def)

lemma world_ok_shrunk:
  assumes "world_ok w" "bp_backends p = filter P (bp_backends (mw_pool w))" "bp_exclusive p = bp_exclusive (mw_pool w)"
    and "bp_max p = bp_max (mw_pool w)" "bp_drain_epoch p = bp_drain_epoch (mw_pool w)" "bp_reserved p = bp_reserved (mw_pool w)"
  shows "world_ok (set_pool p w)"
proof (rule world_ok_pool [OF assms(1)])
  show "index_ok p" using assms order_trans [OF length_filter_le]
    by (auto simp: world_ok_def index_ok_def distinct_map_filter)
qed (use assms in auto)

lemma evict_shrinks:
  "bp_backends (fst (evict d keep expected p)) = filter (\<lambda>e. (expected \<noteq> None \<and> dict_get (bp_backends p) d \<noteq> expected) \<or> fst e \<noteq> d) (bp_backends p)"
  "bp_exclusive (fst (evict d keep expected p)) = bp_exclusive p" "bp_max (fst (evict d keep expected p)) = bp_max p"
  "bp_drain_epoch (fst (evict d keep expected p)) = bp_drain_epoch p" "bp_reserved (fst (evict d keep expected p)) = bp_reserved p"
  by (auto simp: evict_def AList.delete_eq intro!: filter_cong)

lemma world_ok_evict: "world_ok w \<Longrightarrow> world_ok (set_pool (fst (evict d keep expected (mw_pool w))) w)"
  by (rule world_ok_shrunk) (simp_all add: evict_shrinks)

lemma breaker_allows_same:
  "snd (breaker_allows d now p) = p\<lparr>bp_breaker := bp_breaker (snd (breaker_allows d now p))\<rparr>"
  by (auto simp: breaker_allows_def split: option.split prod.split)

lemma breaker_allows_fields [simp]:
  "bp_backends (snd (breaker_allows d now p)) = bp_backends p" "bp_exclusive (snd (breaker_allows d now p)) = bp_exclusive p"
  "bp_max (snd (breaker_allows d now p)) = bp_max p" "bp_drain_epoch (snd (breaker_allows d now p)) = bp_drain_epoch p"
  "bp_reserved (snd (breaker_allows d now p)) = bp_reserved p"
  by (subst breaker_allows_same, simp)+

lemma idle_call_simps [simp]:
  "idle_call (set_pool p w) c = idle_call w c" "idle_call (kill is w) c = idle_call w c"
  "idle_call (w\<lparr>mw_locks := ls\<rparr>) c = idle_call w c"
  by (simp_all add: idle_call_def)

lemma world_ok_begin_spawn:
  assumes "world_ok w" "idle_call w c"
  shows "world_ok (begin_spawn c d l now w)"
proof -
  have "world_ok (set_pool (snd (breaker_allows d now (mw_pool w))) w)"
    using assms(1) by (intro world_ok_shrunk [where P = "\<lambda>e. True"]) simp_all
  then show ?thesis using assms(2)
    by (auto simp: begin_spawn_def Let_def split_def call_ok_def intro!: world_ok_call world_ok_fail)
qed

lemma note_death_fields [simp]: "bp_spawn_locks (note_backend_death k u now p) = bp_spawn_locks p"
  by (simp add: note_backend_death_def split: option.split)

lemma world_ok_locked_section:
  assumes "world_ok w" "idle_call w c"
  shows "world_ok (locked_section c d l now w)"
proof -
  have "world_ok (set_pool (fst (evict d True None (note_backend_death k u now (mw_pool w)))) w)" for k u
    using assms(1) by (intro world_ok_shrunk [where P = "\<lambda>e. fst e \<noteq> d"]) (simp_all add: evict_shrinks)
  then show ?thesis using assms
    by (auto simp: locked_section_def Let_def call_ok_def split: option.split
        intro!: world_ok_begin_spawn world_ok_release world_ok_hand_out world_ok_call)
qed

lemma world_ok_take_lock:
  assumes "world_ok w" "idle_call w c"
  shows "world_ok (take_lock c d now w)"
proof -
  have "world_ok (set_pool ((mw_pool w)\<lparr>bp_spawn_locks := x\<rparr>) (w\<lparr>mw_locks := ls\<rparr>))" for x ls
    using assms(1) by (intro world_ok_shrunk [where P = "\<lambda>e. True"]) simp_all
  then show ?thesis using assms
    by (auto simp: take_lock_def Let_def call_ok_def split: option.split intro!: world_ok_locked_section world_ok_call)
qed

lemma world_ok_launch: "world_ok w \<Longrightarrow> world_ok (launch d now pinned alive e w)"
  by (fastforce simp: launch_def world_ok_def index_current_def holders_def)

lemma pool_add_success:
  assumes "pool_add h d i True se p = (q, Inr vs)" "index_ok p"
  shows "index_ok q" "set (bp_backends q) \<subseteq> insert (d, i) (set (bp_backends p))" "(d, i) \<in> set (bp_backends q)"
    "bp_reserved q = bp_reserved (reserve d p)" "bp_drain_epoch q = bp_drain_epoch p"
    "se = None \<or> se = Some (bp_drain_epoch p)"
proof -
  show "index_ok q" using apply_op_index_ok [OF assms(2), of h "Add d i True se"] assms(1) by simp
  from assms(2) show "set (bp_backends q) \<subseteq> insert (d, i) (set (bp_backends p))" "(d, i) \<in> set (bp_backends q)"
    "bp_reserved q = bp_reserved (reserve d p)" "bp_drain_epoch q = bp_drain_epoch p"
    "se = None \<or> se = Some (bp_drain_epoch p)"
    using set_dict_pop assms(1)
    by (cases rule: pool_add_cases [of p h d i True se]; force)+
qed

lemma pool_add_refused:
  assumes "pool_add h d i r se p = (q, Inl err)" "index_ok p"
  shows "bp_backends q = bp_backends p" "bp_exclusive q = bp_exclusive p" "bp_max q = bp_max p"
    "bp_drain_epoch q = bp_drain_epoch p" "bp_reserved q = bp_reserved p"
proof -
  from assms(2) show "bp_backends q = bp_backends p" "bp_exclusive q = bp_exclusive p" "bp_max q = bp_max p"
    "bp_drain_epoch q = bp_drain_epoch p" "bp_reserved q = bp_reserved p"
    using assms(1) by (cases rule: pool_add_cases [of p h d i r se]; force)+
qed

lemma world_ok_spawned:
  assumes ok: "world_ok w" and c: "idle_call w c" and n: "n \<le> MAX_SPAWN_DRAIN_RETRIES"
    and i: "0 < mw_next w" "bk_born (mw_heap w (mw_next w - 1)) = e" "bk_digest (mw_heap w (mw_next w - 1)) = d"
  shows "world_ok (spawned c d l n e w)"
proof -
  let ?i = "mw_next w - 1"
  have iok: "index_ok (mw_pool w)" using ok by (simp add: world_ok_def)
  obtain q r where add: "pool_add (mw_heap w) d ?i True (Some e) (mw_pool w) = (q, r)" by fastforce
  show ?thesis
  proof (cases r)
    case (Inl err)
    with add have "world_ok (set_pool q w)"
      using pool_add_refused [OF _ iok] ok by (intro world_ok_shrunk [where P = "\<lambda>e. True"]) auto
    then show ?thesis using add Inl c n by (auto simp: spawned_def Let_def call_ok_def intro!: world_ok_call)
  next
    case (Inr vs)
    note q = pool_add_success [OF add [unfolded Inr] iok]
    let ?q = "q\<lparr>bp_spawns := bp_spawns q + 1\<rparr>"
    have "world_ok (set_call c (Holding d ?i) (set_pool ?q w))"
    proof (rule world_ok_held)
      show "index_current (set_pool ?q w)"
        using ok q(2,5,6) i by (auto simp: world_ok_def index_current_def)
      have "reserved_count ?q k = reserved_count (reserve d (mw_pool w)) k" for k
        using q(4) by (simp add: reserved_count_def)
      then show "\<forall>k. reserved_count ?q k = holders w k + of_bool (k = d)"
        using ok by (simp add: reserved_count_reserve world_ok_def)
    qed (use ok c q in \<open>auto simp: world_ok_def index_ok_def intro: reserve_positive [rule_format]\<close>)
    moreover have "spawned c d l n e w = release d l (kill vs (set_call c (Holding d ?i) (set_pool ?q w)))"
      using add Inr by (simp add: spawned_def Let_def kill_set_call)
    ultimately show ?thesis by (simp add: world_ok_release)
  qed
qed

lemma idle_callI: "dict_get (mw_calls w) c = Some st \<Longrightarrow> \<forall>d i. st \<noteq> Holding d i \<Longrightarrow> idle_call w c"
  by (simp add: idle_call_def)

lemma world_ok_shut:
  assumes "world_ok w" "dict_get (mw_calls w) c = Some st" "shut c now w st = Some w'"
  shows "world_ok w'"
proof -
  have "call_ok (bp_drain_epoch (mw_pool w)) st" using assms(1,2) by (auto simp: world_ok_def)
  then show ?thesis using assms idle_callI [OF assms(2)] world_ok_evict [of "kill is w" for "is"]
    by (cases st) (auto simp: shut_def Let_def call_ok_def split: if_splits
        intro!: world_ok_begin_spawn world_ok_fail world_ok_call)
qed

lemma unreserve_accounts:
  assumes "\<forall>e \<in> set (bp_reserved p). 0 < snd e"
  shows "reserved_count (unreserve d p) k = reserved_count p k - of_bool (k = d)"
    and "\<forall>e \<in> set (bp_reserved (unreserve d p)). 0 < snd e"
proof -
  show "reserved_count (unreserve d p) k = reserved_count p k - of_bool (k = d)"
    by (auto simp: unreserve_def reserved_count_def dict_simps)
  show "\<forall>e \<in> set (bp_reserved (unreserve d p)). 0 < snd e"
    using assms set_dict_set [of d "reserved_count p d - 1" "bp_reserved p"] set_dict_pop [of d "bp_reserved p"]
    by (auto simp: unreserve_def)
qed

lemma world_ok_settle:
  assumes "world_ok w" "dict_get (mw_calls w) c = Some (Holding d i)"
  shows "world_ok (set_call c Settled (set_pool (unreserve d (mw_pool w)) w))"
proof -
  let ?w = "set_call c Settled (set_pool (unreserve d (mw_pool w)) w)"
  have h: "holders ?w k + of_bool (k = d) = holders w k" for k
    using holders_set_call [of "set_pool (unreserve d (mw_pool w)) w" c Settled k] assms
    by (auto simp: world_ok_def holds_def holders_def)
  have pos: "\<forall>e \<in> set (bp_reserved (mw_pool w)). 0 < snd e" and r: "reserved_count (mw_pool w) k = holders w k" for k
    using assms(1) unfolding world_ok_def by blast+
  have "reserved_count (unreserve d (mw_pool w)) k = holders ?w k" for k
    using unreserve_accounts(1) [OF pos, of d k] h [of k] r [of k] by linarith
  moreover have "index_ok (mw_pool ?w)" "index_current ?w" "dict_ok (mw_calls ?w)"
    using assms(1) by (simp_all add: world_ok_def index_ok_def index_current_def)
  moreover have "\<forall>c' st. dict_get (mw_calls ?w) c' = Some st \<longrightarrow> call_ok (bp_drain_epoch (mw_pool ?w)) st"
  proof (intro allI impI)
    fix c' st
    assume "dict_get (mw_calls ?w) c' = Some st"
    then have "st = Settled \<or> dict_get (mw_calls w) c' = Some st" by (simp add: dict_simps split: if_splits)
    then show "call_ok (bp_drain_epoch (mw_pool ?w)) st"
      using assms(1) by (elim disjE) (simp add: call_ok_def, simp add: world_ok_def)
  qed
  moreover have "\<forall>e \<in> set (bp_reserved (mw_pool ?w)). 0 < snd e"
    using unreserve_accounts(2) [OF pos, of d] by simp
  ultimately show ?thesis unfolding world_ok_def by simp
qed

lemma world_ok_heap:
  assumes "world_ok w" "\<And>i. bk_born (h i) = bk_born (mw_heap w i)" "\<And>i. bk_digest (h i) = bk_digest (mw_heap w i)"
  shows "world_ok (w\<lparr>mw_heap := h\<rparr>)"
  using assms by (auto simp: world_ok_def index_current_def holders_def)

lemma world_ok_rotate: "world_ok w \<Longrightarrow> world_ok (set_pool (fst (drain_all (lock_idle w) now dl (mw_pool w))) w)"
  by (auto simp: drain_all_def world_ok_def index_ok_def index_current_def holders_def reserved_count_def
      intro: call_ok_mono [of "bp_drain_epoch (mw_pool w)"])

lemma mcp_step_ok:
  assumes "world_ok w" "mcp_step e w = Some w'"
  shows "world_ok w'"
proof (cases e)
  case (Call c d now)
  then have "idle_call w c" "w' = call_get_or_create c d now w"
    using assms(2) by (auto simp: idle_call_def split: if_splits)
  then show ?thesis using assms(1)
    by (auto simp: call_get_or_create_def split: option.split intro: world_ok_hand_out world_ok_take_lock)
next
  case (Resume c now)
  then show ?thesis using assms by (auto split: option.splits call.splits if_splits intro!: world_ok_locked_section idle_callI)
next
  case (Shut c now)
  then show ?thesis using assms by (auto split: option.splits intro: world_ok_shut)
next
  case (Spawned c now pinned alive)
  then obtain d l n ep where c: "dict_get (mw_calls w) c = Some (Spawning d l n ep)"
      "w' = spawned c d l n ep (launch d now pinned alive ep w)"
    using assms(2) by (auto split: option.splits call.splits)
  moreover have "call_ok (bp_drain_epoch (mw_pool w)) (Spawning d l n ep)" using assms(1) c(1) by (simp add: world_ok_def)
  then have "n \<le> MAX_SPAWN_DRAIN_RETRIES" by (simp add: call_ok_def)
  ultimately show ?thesis using world_ok_launch [OF assms(1)]
    by (auto simp: launch_def idle_call_def intro!: world_ok_spawned)
next
  case (Spawn_fails c)
  then show ?thesis using assms by (auto split: option.splits call.splits intro!: world_ok_fail idle_callI)
next
  case (Attach c stub now)
  then show ?thesis using assms
    by (auto simp: attach_stub_def split: option.splits call.splits if_splits intro!: world_ok_heap)
next
  case (Settle c)
  then show ?thesis using assms by (auto split: option.splits call.splits intro: world_ok_settle)
next
  case (Detach i stub now)
  then show ?thesis using assms by (auto simp: detach_stub_def Let_def intro!: world_ok_heap)
next
  case (Recycle i)
  then show ?thesis using assms by (auto simp: recycle_if_idle_def intro!: world_ok_heap)
next
  case (Sweep_idle now older pinned)
  have "dict_ok (bp_backends (mw_pool w))" using assms(1) by (simp add: world_ok_def index_ok_def)
  then have "world_ok (set_pool (fst (evict_idle (mw_heap w) now older pinned (mw_pool w))) w)"
    using assms(1) by (intro world_ok_shrunk
        [where P = "\<lambda>e. \<not> idle_stale (mw_heap w) (now - older) pinned (mw_pool w) e"])
      (simp_all add: evict_idle_def Let_def fold_pop_filter)
  then show ?thesis using Sweep_idle assms(2) by (auto simp: split_def Let_def)
next
  case (Sweep_dead d i)
  then show ?thesis using assms by (auto split: if_splits intro: world_ok_evict)
next
  case (Rotate now)
  then show ?thesis using assms by (auto intro: world_ok_rotate)
next
  case (Reap_drained now)
  then show ?thesis using assms
    by (auto simp: reap_draining_def intro!: world_ok_shrunk [where P = "\<lambda>e. True"])
qed (use assms in auto)

lemma new_world_ok:
  assumes "make_backend_pool n br = Inr p"
  shows "world_ok (new_world p)"
proof -
  have p: "bp_backends p = []" "bp_reserved p = []"
    using assms by (auto simp: make_backend_pool_def split: if_splits)
  then show ?thesis using make_backend_pool_ok [OF assms]
    by (simp add: new_world_def world_ok_def index_current_def holders_def reserved_count_def)
qed

lemma reaches_ok:
  assumes "mcp_reaches w0 w" "world_ok w0"
  shows "world_ok w"
  using assms by (induction rule: mcp_reaches.induct) (auto intro: mcp_step_ok)

subsection \<open>Handing out\<close>

lemma release_fields [simp]:
  "bp_backends (mw_pool (release d l w)) = bp_backends (mw_pool w)" "mw_calls (release d l w) = mw_calls w"
  "mw_heap (release d l w) = mw_heap w" "bp_drain_epoch (mw_pool (release d l w)) = bp_drain_epoch (mw_pool w)"
  by (simp_all add: release_def Let_def)

text \<open>What a caller newly holds is in the index and not quarantined; it is alive, or was launched for this caller.\<close>

definition fresh_holding :: "bool \<Rightarrow> mcp_world \<Rightarrow> nat \<Rightarrow> string \<Rightarrow> nat \<Rightarrow> bool" where
  "fresh_holding alive w c d i = (dict_get (mw_calls w) c = Some (Holding d i) \<longrightarrow>
     dict_get (bp_backends (mw_pool w)) d = Some i \<and> \<not> bk_quarantined (mw_heap w i) \<and> (alive \<longrightarrow> bk_alive (mw_heap w i)))"

lemma begin_spawn_not_holding: "dict_get (mw_calls (begin_spawn c d l now w)) c \<noteq> Some (Holding k i)"
  by (simp add: begin_spawn_def Let_def split_def fail_call_def dict_simps)

lemma locked_section_fresh: "fresh_holding True (locked_section c d l now w) c k i"
  using begin_spawn_not_holding [of c d l now w k i]
  by (auto simp: fresh_holding_def usable_def locked_section_def Let_def dict_simps hand_out_def pool_get_def split: option.split)

lemma take_lock_fresh: "fresh_holding True (take_lock c d now w) c k i"
proof (cases "dict_get (bp_spawn_locks (mw_pool w)) d")
  case (Some l)
  then show ?thesis
    using locked_section_fresh [of c d l now "w\<lparr>mw_locks := (mw_locks w)[l := mw_locks w ! l @ [c]]\<rparr>" k i]
    by (auto simp: take_lock_def Let_def fresh_holding_def dict_simps)
qed (use locked_section_fresh in \<open>simp add: take_lock_def Let_def\<close>)

lemma call_frames:
  assumes "c' \<noteq> c"
  shows "dict_get (mw_calls (fail_call c d l err w)) c' = dict_get (mw_calls w) c'"
    and "dict_get (mw_calls (begin_spawn c d l now w)) c' = dict_get (mw_calls w) c'"
    and "dict_get (mw_calls (locked_section c d l now w)) c' = dict_get (mw_calls w) c'"
    and "dict_get (mw_calls (take_lock c d now w)) c' = dict_get (mw_calls w) c'"
    and "dict_get (mw_calls (call_get_or_create c d now w)) c' = dict_get (mw_calls w) c'"
    and "shut c now w st = Some w' \<Longrightarrow> dict_get (mw_calls w') c' = dict_get (mw_calls w) c'"
    and "dict_get (mw_calls (spawned c d l n e w)) c' = dict_get (mw_calls w) c'"
proof -
  show f: "dict_get (mw_calls (fail_call c d l err w)) c' = dict_get (mw_calls w) c'" for d l err w
    using assms by (simp add: fail_call_def dict_simps)
  show b: "dict_get (mw_calls (begin_spawn c d l now w)) c' = dict_get (mw_calls w) c'" for d l now w
    using assms f by (simp add: begin_spawn_def Let_def split_def dict_simps)
  show ls: "dict_get (mw_calls (locked_section c d l now w)) c' = dict_get (mw_calls w) c'" for d l now w
    using assms b by (simp add: locked_section_def Let_def hand_out_def dict_simps split: option.split)
  show t: "dict_get (mw_calls (take_lock c d now w)) c' = dict_get (mw_calls w) c'" for d now w
    using assms ls by (simp add: take_lock_def Let_def dict_simps split: option.split)
  show "dict_get (mw_calls (call_get_or_create c d now w)) c' = dict_get (mw_calls w) c'"
    using assms t by (simp add: call_get_or_create_def hand_out_def dict_simps split: option.split)
  show "shut c now w st = Some w' \<Longrightarrow> dict_get (mw_calls w') c' = dict_get (mw_calls w) c'"
    using assms f b by (cases st) (auto simp: shut_def Let_def dict_simps)
  show "dict_get (mw_calls (spawned c d l n e w)) c' = dict_get (mw_calls w) c'"
    using assms by (simp add: spawned_def Let_def dict_simps split: prod.split sum.split)
qed

lemma shut_not_holding:
  "shut c now w st = Some w' \<Longrightarrow> dict_get (mw_calls w') c \<noteq> Some (Holding k i)"
  using begin_spawn_not_holding by (cases st) (auto simp: shut_def Let_def dict_simps fail_call_def split: if_splits)

lemma call_fresh: "dict_get (mw_calls w) c = None \<Longrightarrow> fresh_holding True (call_get_or_create c d now w) c k i"
  using take_lock_fresh [of c d now w k i]
  by (auto simp: call_get_or_create_def hand_out_def fresh_holding_def usable_def pool_get_def dict_simps split: option.split)

lemma spawned_fresh:
  assumes ok: "world_ok w"
  shows "fresh_holding alive (spawned c d l n e (launch d now pinned alive e w)) c k i"
proof -
  let ?w = "launch d now pinned alive e w"
  let ?i = "mw_next w"
  have iok: "index_ok (mw_pool ?w)" using ok by (simp add: world_ok_def launch_def)
  obtain q r where add: "pool_add (mw_heap ?w) d ?i True (Some e) (mw_pool ?w) = (q, r)" by fastforce
  show ?thesis
  proof (cases r)
    case (Inl err)
    then show ?thesis using add by (simp add: spawned_def Let_def launch_def fresh_holding_def dict_simps)
  next
    case (Inr vs)
    note q = pool_add_success [OF add [unfolded Inr] iok]
    have "dict_ok (bp_backends q)" using q(1) by (simp add: index_ok_def)
    then have got: "dict_get (bp_backends q) d = Some ?i" using q(3) by simp
    have "?i \<notin> set vs"
      using iok
    proof (cases rule: pool_add_cases [of "mw_pool ?w" "mw_heap ?w" d ?i True "Some e"])
      case (replaced q' v k')
      then have "(k', v) \<in> set (bp_backends (mw_pool w))" "vs = [v]" using add Inr by (auto simp: launch_def)
      then show ?thesis using ok by (auto simp: world_ok_def index_current_def)
    qed (use add Inr in auto)
    then have "\<not> bk_quarantined (mw_heap (kill vs ?w) ?i) \<and> bk_alive (mw_heap (kill vs ?w) ?i) = alive" by (simp add: kill_def launch_def)
    moreover have "spawned c d l n e ?w =
        release d l (set_call c (Holding d ?i) (kill vs (set_pool (q\<lparr>bp_spawns := bp_spawns q + 1\<rparr>) ?w)))"
      using add Inr by (simp add: spawned_def Let_def launch_def)
    ultimately show ?thesis using got by (auto simp: fresh_holding_def dict_simps kill_def)
  qed
qed

lemma newly_held_is_usable:
  assumes ok: "world_ok w" and step: "mcp_step e w = Some w'"
    and before: "dict_get (mw_calls w) c \<noteq> Some (Holding d i)" and held: "dict_get (mw_calls w') c = Some (Holding d i)"
  shows "dict_get (bp_backends (mw_pool w')) d = Some i \<and> \<not> bk_quarantined (mw_heap w' i) \<and>
    (bk_alive (mw_heap w' i) \<or> (\<exists>now pinned. e = Spawned c now pinned False))"
proof (cases e)
  case (Call c0 d0 now)
  then have w': "w' = call_get_or_create c0 d0 now w" "dict_get (mw_calls w) c0 = None"
    using step by (auto split: if_splits)
  then have "c0 = c" using call_frames(5) [of c c0 d0 now w] before held by auto
  then show ?thesis using call_fresh [OF w'(2), of d0 now d i] held w'(1) by (simp add: fresh_holding_def)
next
  case (Resume c0 now)
  then obtain d0 l where w': "w' = locked_section c0 d0 l now w"
    using step by (auto split: option.splits call.splits if_splits)
  then have "c0 = c" using call_frames(3) [of c c0 d0 l now w] before held by auto
  then show ?thesis using locked_section_fresh [of c0 d0 l now w d i] held w' by (simp add: fresh_holding_def)
next
  case (Shut c0 now)
  then obtain st where "shut c0 now w st = Some w'" using step by (auto split: option.splits)
  then show ?thesis using call_frames(6) [of c c0 now w st w'] shut_not_holding before held by (cases "c = c0") auto
next
  case (Spawned c0 now pinned alive)
  then obtain d0 l n ep where w': "w' = spawned c0 d0 l n ep (launch d0 now pinned alive ep w)"
    using step by (auto split: option.splits call.splits)
  then have "c0 = c" using call_frames(7) [of c c0 d0 l n ep "launch d0 now pinned alive ep w"] before held
    by (auto simp: launch_def)
  then show ?thesis using spawned_fresh [OF ok, of alive c0 d0 l n ep now pinned d i] held w' Spawned \<open>c0 = c\<close> by (auto simp: fresh_holding_def)
next
  case (Spawn_fails c0)
  then show ?thesis using step before held by (auto simp: fail_call_def dict_simps split: option.splits call.splits if_splits)
next
  case (Settle c0)
  then show ?thesis using step before held by (auto simp: dict_simps split: option.splits call.splits if_splits)
qed (use step before held in \<open>auto simp: Let_def split_def split: option.splits call.splits if_splits\<close>)

subsection \<open>What the acquisition promises\<close>

lemmas acquire_run_defs = new_world_def make_backend_pool_def call_get_or_create_def pool_get_def take_lock_def Let_def
  locked_section_def begin_spawn_def breaker_allows_def set_call_def set_pool_def launch_def spawned_def
  pool_add_def dict_simps reserve_def reserved_count_def release_def lock_idle_def kill_def hand_out_def usable_def

text \<open>A pool of four, without a breaker, for the examples.\<close>

definition small_pool :: backend_pool where
  "small_pool = (case make_backend_pool 4 None of Inr p \<Rightarrow> p)"

lemma spawns_are_bounded:
  assumes "mcp_reaches (new_world p) w" "make_backend_pool n br = Inr p"
    and "dict_get (mw_calls w) c = Some (Spawning d l k e)"
  shows "k \<le> MAX_SPAWN_DRAIN_RETRIES \<and> e \<le> bp_drain_epoch (mw_pool w)"
proof -
  have "call_ok (bp_drain_epoch (mw_pool w)) (Spawning d l k e)"
    using reaches_ok [OF assms(1) new_world_ok [OF assms(2)]] assms(3) by (simp add: world_ok_def)
  then show ?thesis by (simp add: call_ok_def)
qed

text \<open>C7. What \<^verbatim>\<open>get_or_create\<close> hands out: however calls, spawns, shutdowns, sweeps, deaths and rotations of the
  credentials interleave, a process that a caller has just been given is the one the pool holds under its identity, is
  not quarantined, and was launched under the rotation in force at that moment, so that no caller is served by a process
  with a revoked credential. A process that was in the pool is alive; one launched for the caller may have
  exited before \<^verbatim>\<open>spawn()\<close> returned.\<close>

theorem acquired_backend_is_current:
  assumes "make_backend_pool n br = Inr p" "mcp_reaches (new_world p) w" "mcp_step e w = Some w'"
    and "dict_get (mw_calls w) c \<noteq> Some (Holding d i)" "dict_get (mw_calls w') c = Some (Holding d i)"
  shows "dict_get (bp_backends (mw_pool w')) d = Some i \<and> \<not> bk_quarantined (mw_heap w' i) \<and>
    (bk_alive (mw_heap w' i) \<or> (\<exists>now pinned. e = Spawned c now pinned False)) \<and> bk_digest (mw_heap w' i) = d \<and>
    bk_born (mw_heap w' i) = bp_drain_epoch (mw_pool w')"
proof -
  have ok: "world_ok w" "world_ok w'"
    using reaches_ok [OF assms(2) new_world_ok [OF assms(1)]] mcp_step_ok assms(3) by blast+
  note got = newly_held_is_usable [OF ok(1) assms(3-5)]
  moreover have "(d, i) \<in> set (bp_backends (mw_pool w'))" using got by (simp add: map_of_SomeD)
  ultimately show ?thesis using ok(2) by (simp add: world_ok_def index_current_def)
qed

theorem acquired_backend_is_current_witness:
  "\<exists>w. mcp_run [Call 1 ''db'' 0, Rotate 1, Spawned 1 2 False True, Shut 1 3, Spawned 1 4 False True] (new_world small_pool) = Some w \<and>
     dict_get (bp_backends (mw_pool w)) ''db'' = Some 1 \<and> usable (mw_heap w 1) \<and> bk_born (mw_heap w 1) = 1"
proof -
  let ?es = "[Call 1 ''db'' 0, Rotate 1, Spawned 1 2 False True, Shut 1 3]"
  obtain w w' where w: "mcp_run ?es (new_world small_pool) = Some w" "dict_get (mw_calls w) 1 = Some (Spawning ''db'' 0 1 1)"
      and w': "mcp_step (Spawned 1 4 False True) w = Some w'" "dict_get (mw_calls w') 1 = Some (Holding ''db'' 1)"
        "bp_drain_epoch (mw_pool w') = 1"
    by (simp add: small_pool_def acquire_run_defs drain_all_def shut_def MAX_SPAWN_DRAIN_RETRIES_def)
  have "make_backend_pool 4 None = Inr small_pool" by (simp add: small_pool_def make_backend_pool_def)
  from acquired_backend_is_current [OF this mcp_run_reaches [OF start w(1)] w'(1) _ w'(2)] w'(3) w(2)
  have "dict_get (bp_backends (mw_pool w')) ''db'' = Some 1 \<and> usable (mw_heap w' 1) \<and> bk_born (mw_heap w' 1) = 1" by (simp add: usable_def)
  moreover have "mcp_run (?es @ [Spawned 1 4 False True]) (new_world small_pool) = Some w'"
  proof -
    have "mcp_run (as @ bs) v = Some u" if "mcp_run as v = Some x" "mcp_run bs x = Some u" for as bs v x u
      using that by (induction as arbitrary: v) (auto split: option.splits)
    from this [OF w(1)] show ?thesis using w'(1) by simp
  qed
  ultimately show ?thesis by auto
qed

text \<open>A child that has exited by the time \<^verbatim>\<open>spawn()\<close> returns is pooled and handed out all the same.\<close>

lemma dead_child_is_handed_out:
  "\<exists>w. mcp_run [Call 1 ''db'' 0, Spawned 1 2 False False] (new_world small_pool) = Some w \<and>
     dict_get (mw_calls w) 1 = Some (Holding ''db'' 0) \<and> \<not> bk_alive (mw_heap w 0)"
  by (simp add: small_pool_def acquire_run_defs)

text \<open>Reservations: in every state the pool can reach, the reservation count of an identity is the number of
  callers that have been handed its process and have not yet settled, and only those identities are marked reserved, so
  that the sweeps spare exactly what is being handed out.\<close>

theorem reservations_count_callers:
  assumes "make_backend_pool n br = Inr p" "mcp_reaches (new_world p) w"
  shows "reserved_count (mw_pool w) d = holders w d \<and> (is_reserved (mw_pool w) d \<longleftrightarrow> 0 < holders w d)"
proof -
  have ok: "\<forall>d. reserved_count (mw_pool w) d = holders w d" "\<forall>e \<in> set (bp_reserved (mw_pool w)). 0 < snd e"
    using reaches_ok [OF assms(2) new_world_ok [OF assms(1)]] unfolding world_ok_def by blast+
  have "is_reserved (mw_pool w) d \<longleftrightarrow> 0 < reserved_count (mw_pool w) d"
    using ok(2) by (force simp: is_reserved_def reserved_count_def map_of_eq_None_iff split: option.split dest: map_of_SomeD)
  then show ?thesis using ok(1) by simp
qed


theorem reservations_count_callers_witness:
  "\<exists>w. mcp_run [Call 1 ''db'' 0, Spawned 1 2 False True, Call 2 ''db'' 3] (new_world small_pool) = Some w \<and>
     reserved_count (mw_pool w) ''db'' = 2 \<and> holders w ''db'' = 2"
proof -
  obtain w where w: "mcp_run [Call 1 ''db'' 0, Spawned 1 2 False True, Call 2 ''db'' 3] (new_world small_pool) = Some w"
      "reserved_count (mw_pool w) ''db'' = 2"
    by (simp add: small_pool_def acquire_run_defs)
  have "make_backend_pool 4 None = Inr small_pool" by (simp add: small_pool_def make_backend_pool_def)
  from reservations_count_callers [OF this mcp_run_reaches [OF start w(1)], of "''db''"] show ?thesis using w by auto
qed

end
