(* ===== verification/Acquire_Progress.thy ===== *)
theory Acquire_Progress imports Backend_Acquire begin

section \<open>Acquisitions come to an end\<close>

text \<open>
  The spawn locks of \<^verbatim>\<open>get_or_create\<close> under any interleaving: the queue of a lock holds exactly the calls inside
  or before its \<^verbatim>\<open>async with\<close> and only the first is inside. It follows that a pending call never waits for
  nothing: what it waits for can finish, and every finished wait is one suspension less.
\<close>

subsection \<open>Locks and progress\<close>

fun lock_of :: "call \<Rightarrow> nat option" where
  "lock_of (Waiting d l) = Some l"
| "lock_of (Retiring d l i) = Some l"
| "lock_of (Burying d l) = Some l"
| "lock_of (Spawning d l n e) = Some l"
| "lock_of (Discarding d l n i) = Some l"
| "lock_of (Refusing d l e i) = Some l"
| "lock_of (Holding d i) = None"
| "lock_of (Failed e) = None"
| "lock_of Settled = None"

definition queues :: "mcp_world \<Rightarrow> nat \<Rightarrow> nat list \<Rightarrow> bool" where
  "queues w l q = (distinct q \<and> (\<forall>c. c \<in> set q \<longleftrightarrow> (\<exists>st. dict_get (mw_calls w) c = Some st \<and> lock_of st = Some l)) \<and>
     (\<forall>c \<in> set (tl q). \<exists>d. dict_get (mw_calls w) c = Some (Waiting d l)))"

text \<open>The queue of a lock is the callers inside \<^verbatim>\<open>async with lock\<close> or before it, and only its first is inside.\<close>

definition locks_ok :: "mcp_world \<Rightarrow> bool" where
  "locks_ok w = ((\<forall>l < length (mw_locks w). queues w l (mw_locks w ! l)) \<and>
     (\<forall>c st l. dict_get (mw_calls w) c = Some st \<longrightarrow> lock_of st = Some l \<longrightarrow> l < length (mw_locks w)) \<and>
     (\<forall>(d, l) \<in> set (bp_spawn_locks (mw_pool w)). l < length (mw_locks w)))"

text \<open>The suspensions a call has left at most.\<close>

fun work :: "call \<Rightarrow> nat" where
  "work (Waiting d l) = 11"
| "work (Retiring d l i) = 10"
| "work (Burying d l) = 10"
| "work (Spawning d l n e) = 2 * (MAX_SPAWN_DRAIN_RETRIES + 1 - n) + 1"
| "work (Discarding d l n i) = 2 * (MAX_SPAWN_DRAIN_RETRIES + 1 - n)"
| "work (Refusing d l e i) = 1"
| "work (Holding d i) = 0"
| "work (Failed e) = 0"
| "work Settled = 0"

lemma locks_ok_inside:
  assumes "locks_ok w" "dict_get (mw_calls w) c = Some st" "lock_of st = Some l" "\<forall>d l. st \<noteq> Waiting d l"
  shows "l < length (mw_locks w) \<and> (\<exists>q. mw_locks w ! l = c # q)"
proof -
  have l: "l < length (mw_locks w)" using assms(1-3) unfolding locks_ok_def by blast
  then have q: "queues w l (mw_locks w ! l)" using assms(1) by (simp add: locks_ok_def)
  then have "c \<in> set (mw_locks w ! l)" "c \<notin> set (tl (mw_locks w ! l))"
    using assms(2-4) by (simp_all add: queues_def) fastforce?
  then show ?thesis using l by (cases "mw_locks w ! l") auto
qed

text \<open>The caller inside a lock moves on, still inside.\<close>

lemma locks_ok_move:
  assumes "locks_ok w" "l < length (mw_locks w)" "mw_locks w ! l = c # q" "lock_of st = Some l"
    and "dict_get (mw_calls w) c = Some old" "lock_of old = Some l"
  shows "locks_ok (set_call c st w)"
proof -
  have q: "queues w l (c # q)" using assms(1-3) by (auto simp: locks_ok_def)
  have other: "c \<notin> set (mw_locks w ! k)" if "k < length (mw_locks w)" "k \<noteq> l" for k
  proof -
    have "queues w k (mw_locks w ! k)" using assms(1) that(1) by (simp add: locks_ok_def)
    then show ?thesis using assms(5,6) that(2) by (auto simp: queues_def)
  qed
  have "queues (set_call c st w) k (mw_locks w ! k)" if k: "k < length (mw_locks w)" for k
  proof (cases "k = l")
    case True
    then show ?thesis using q assms(3,4) by (auto simp: queues_def dict_simps)
  next
    case False
    have "c \<notin> set (tl (mw_locks w ! k))" using other [OF k False] by (cases "mw_locks w ! k") auto
    moreover have "queues w k (mw_locks w ! k)" using assms(1) k by (simp add: locks_ok_def)
    ultimately show ?thesis using other [OF k False] False assms(4) by (auto simp: queues_def dict_simps)
  qed
  then show ?thesis using assms by (auto simp: locks_ok_def dict_simps split: if_splits)
qed

text \<open>A call without a lock stays without one.\<close>

lemma locks_ok_free:
  assumes "locks_ok w" "lock_of st = None" "\<forall>old. dict_get (mw_calls w) c = Some old \<longrightarrow> lock_of old = None"
  shows "locks_ok (set_call c st w)"
proof -
  have "queues (set_call c st w) k (mw_locks w ! k)" if "k < length (mw_locks w)" for k
  proof -
    have q: "queues w k (mw_locks w ! k)" using assms(1) that by (simp add: locks_ok_def)
    then have "c \<notin> set (mw_locks w ! k)" using assms(3) by (auto simp: queues_def)
    moreover then have "c \<notin> set (tl (mw_locks w ! k))" by (cases "mw_locks w ! k") auto
    ultimately show ?thesis using q assms(2,3) by (auto simp: queues_def dict_simps)
  qed
  then show ?thesis using assms by (auto simp: locks_ok_def dict_simps split: if_splits)
qed

text \<open>The caller inside a lock leaves it.\<close>

lemma locks_ok_leave:
  assumes "locks_ok w" "l < length (mw_locks w)" "mw_locks w ! l = c # q" "lock_of st = None"
    and "dict_get (mw_calls w) c = Some old" "lock_of old = Some l"
  shows "locks_ok (release d l (set_call c st w))"
proof -
  have q: "queues w l (c # q)" using assms(1-3) by (auto simp: locks_ok_def)
  have "queues (set_call c st w) k (((mw_locks w)[l := q]) ! k)" if k: "k < length (mw_locks w)" for k
  proof (cases "k = l")
    case True
    then show ?thesis using q k assms(4) by (cases q) (auto simp: queues_def dict_simps)
  next
    case False
    have "queues w k (mw_locks w ! k)" using assms(1) k by (simp add: locks_ok_def)
    moreover then have "c \<notin> set (mw_locks w ! k)" using False assms(5,6) by (auto simp: queues_def)
    moreover then have "c \<notin> set (tl (mw_locks w ! k))" by (cases "mw_locks w ! k") auto
    ultimately show ?thesis using False assms(4) by (auto simp: queues_def dict_simps)
  qed
  then show ?thesis using assms
    by (auto simp: locks_ok_def dict_simps release_def Let_def queues_def split: if_splits dest: set_dict_pop [THEN subsetD])
qed

text \<open>The caller \<open>c\<close> is inside the lock \<open>l\<close>.\<close>

definition inside :: "mcp_world \<Rightarrow> nat \<Rightarrow> nat \<Rightarrow> bool" where
  "inside w c l = (l < length (mw_locks w) \<and> mw_locks w ! l \<noteq> [] \<and> hd (mw_locks w ! l) = c \<and>
     (\<exists>old. dict_get (mw_calls w) c = Some old \<and> lock_of old = Some l))"

lemma locks_ok_step:
  assumes "locks_ok w" "inside w c l"
  shows "lock_of st = Some l \<Longrightarrow> locks_ok (set_call c st w)"
    and "lock_of st = None \<Longrightarrow> locks_ok (release d l (set_call c st w))"
proof -
  obtain q old where q: "l < length (mw_locks w)" "mw_locks w ! l = c # q" "dict_get (mw_calls w) c = Some old" "lock_of old = Some l"
    using assms(2) unfolding inside_def by (metis list.collapse)
  show "lock_of st = Some l \<Longrightarrow> locks_ok (set_call c st w)" by (rule locks_ok_move [OF assms(1) q(1,2) _ q(3,4)])
  show "lock_of st = None \<Longrightarrow> locks_ok (release d l (set_call c st w))" by (rule locks_ok_leave [OF assms(1) q(1,2) _ q(3,4)])
qed

lemma locks_ok_pool: "locks_ok w \<Longrightarrow> set (bp_spawn_locks p) \<subseteq> set (bp_spawn_locks (mw_pool w)) \<Longrightarrow> locks_ok (set_pool p w)"
  by (auto simp: locks_ok_def queues_def)

lemma locks_ok_same [simp]:
  "locks_ok (kill is w) = locks_ok w" "locks_ok (w\<lparr>mw_heap := h\<rparr>) = locks_ok w" "locks_ok (launch d now pinned alive e w) = locks_ok w"
  by (simp_all add: locks_ok_def queues_def launch_def)

lemma inside_same [simp]:
  "inside (set_pool p w) c l = inside w c l" "inside (kill is w) c l = inside w c l" "inside (launch d now pinned alive e w) c l = inside w c l"
  by (simp_all add: inside_def launch_def)

lemma insideI:
  assumes "locks_ok w" "dict_get (mw_calls w) c = Some st" "lock_of st = Some l" "\<forall>d l. st \<noteq> Waiting d l"
  shows "inside w c l"
  using locks_ok_inside [OF assms] assms(2,3) by (auto simp: inside_def)

text \<open>The operations of the pool leave the table of locks or shrink it.\<close>

lemma spawn_locks_shrink:
  "bp_spawn_locks (snd (breaker_allows d now p)) = bp_spawn_locks p"
  "bp_spawn_locks (reserve d p) = bp_spawn_locks p" "bp_spawn_locks (unreserve d p) = bp_spawn_locks p"
  "bp_spawn_locks (note_backend_death k u now p) = bp_spawn_locks p"
  "set (bp_spawn_locks (fst (evict d keep expected p))) \<subseteq> set (bp_spawn_locks p)"
  by (auto simp: breaker_allows_def reserve_def unreserve_def note_backend_death_def evict_def Let_def
      split: option.splits prod.split if_splits dest: set_dict_pop [THEN subsetD])

lemma fold_dict_pop_subset: "set (fold dict_pop ks d) \<subseteq> set d"
  by (induction ks arbitrary: d) (auto dest: set_dict_pop [THEN subsetD] subsetD)

lemma locks_ok_begin_spawn:
  assumes "locks_ok w" "inside w c l"
  shows "locks_ok (begin_spawn c d l now w)"
proof -
  let ?w = "set_pool (snd (breaker_allows d now (mw_pool w))) w"
  have "locks_ok ?w" "inside ?w c l" using assms by (auto intro: locks_ok_pool simp: spawn_locks_shrink)
  then show ?thesis by (auto simp: begin_spawn_def Let_def split_def fail_call_def intro: locks_ok_step)
qed

lemma locks_ok_locked_section:
  assumes "locks_ok w" "inside w c l"
  shows "locks_ok (locked_section c d l now w)"
proof (cases "pool_get d (mw_pool w)")
  case None
  then show ?thesis using locks_ok_begin_spawn [OF assms] by (simp add: locked_section_def)
next
  case (Some i)
  let ?b = "mw_heap w i"
  let ?p = "note_backend_death (bk_digest ?b) (now - bk_created ?b) now (mw_pool w)"
  have "locks_ok (set_pool (reserve d (mw_pool w)) w)" "locks_ok (set_pool (fst (evict d True None ?p)) w)"
    using assms(1) spawn_locks_shrink(5) [of d True None ?p] by (auto intro!: locks_ok_pool simp: spawn_locks_shrink)
  then show ?thesis using Some assms
    by (auto simp: locked_section_def Let_def hand_out_def intro!: locks_ok_step)
qed

text \<open>Joining a queue.\<close>

lemma dict_set_twice: "dict_set c st (dict_set c st0 d) = dict_set c st d"
  by (induction d) auto

lemma locked_section_forgets: "locked_section c d l now (set_call c st0 w) = locked_section c d l now w"
proof -
  have set_call: "set_call c st (set_call c st0 v) = set_call c st v" for st v by (simp add: set_call_def dict_set_twice)
  have commute: "set_pool p (set_call c st0 v) = set_call c st0 (set_pool p v)" for p v by (simp add: set_call_def set_pool_def)
  have "begin_spawn c d l now (set_call c st0 v) = begin_spawn c d l now v" for v
    by (simp add: begin_spawn_def Let_def split_def fail_call_def set_call commute)
  then show ?thesis by (simp add: locked_section_def Let_def hand_out_def set_call commute split: option.split)
qed

lemma locks_ok_join:
  assumes "locks_ok w" "dict_get (mw_calls w) c = None" "l < length (mw_locks w)"
  shows "locks_ok (set_call c (Waiting d l) (w\<lparr>mw_locks := (mw_locks w)[l := mw_locks w ! l @ [c]]\<rparr>))"
proof -
  let ?w = "set_call c (Waiting d l) (w\<lparr>mw_locks := (mw_locks w)[l := mw_locks w ! l @ [c]]\<rparr>)"
  have "queues ?w k ((mw_locks w)[l := mw_locks w ! l @ [c]] ! k)" if k: "k < length (mw_locks w)" for k
  proof -
    have q: "queues w k (mw_locks w ! k)" using assms(1) k by (simp add: locks_ok_def)
    then have new: "c \<notin> set (mw_locks w ! k)" using assms(2) by (simp add: queues_def)
    then have "c \<notin> set (tl (mw_locks w ! k))" by (cases "mw_locks w ! k") auto
    then show ?thesis using q new assms(2,3)
      by (cases "mw_locks w ! k"; cases "k = l") (auto simp: queues_def dict_simps split: if_splits)
  qed
  then show ?thesis using assms by (auto simp: locks_ok_def dict_simps split: if_splits)
qed

lemma locks_ok_new:
  assumes "locks_ok w"
  shows "locks_ok (set_pool ((mw_pool w)\<lparr>bp_spawn_locks := dict_set d (length (mw_locks w)) (bp_spawn_locks (mw_pool w))\<rparr>)
     (w\<lparr>mw_locks := mw_locks w @ [[]]\<rparr>))"
proof -
  have "\<forall>(k, l) \<in> set (dict_set d (length (mw_locks w)) (bp_spawn_locks (mw_pool w))). l < length (mw_locks w) + 1"
    using assms set_dict_set [of d "length (mw_locks w)" "bp_spawn_locks (mw_pool w)"] by (fastforce simp: locks_ok_def)
  moreover have "\<forall>c st. dict_get (mw_calls w) c = Some st \<longrightarrow> lock_of st \<noteq> Some (length (mw_locks w))"
    using assms unfolding locks_ok_def by (meson less_irrefl)
  then have "queues w (length (mw_locks w)) []" by (simp add: queues_def)
  ultimately show ?thesis using assms
    by (auto simp: locks_ok_def queues_def nth_append less_Suc_eq)
qed

lemma locks_ok_take_lock:
  assumes "locks_ok w" "dict_get (mw_calls w) c = None"
  shows "locks_ok (take_lock c d now w)"
proof (cases "dict_get (bp_spawn_locks (mw_pool w)) d")
  case (Some l)
  then have l: "l < length (mw_locks w)" using assms(1) by (auto simp: locks_ok_def dest: map_of_SomeD)
  let ?v = "w\<lparr>mw_locks := (mw_locks w)[l := mw_locks w ! l @ [c]]\<rparr>"
  have joined: "locks_ok (set_call c (Waiting d l) ?v)" using locks_ok_join [OF assms l] .
  show ?thesis
  proof (cases "lock_idle w l")
    case True
    then have "inside (set_call c (Waiting d l) ?v) c l" using l by (simp add: inside_def lock_idle_def dict_simps)
    then have "locks_ok (locked_section c d l now (set_call c (Waiting d l) ?v))" by (rule locks_ok_locked_section [OF joined])
    then show ?thesis using Some True by (simp add: take_lock_def Let_def locked_section_forgets)
  qed (use Some joined in \<open>simp add: take_lock_def Let_def\<close>)
next
  case None
  let ?l = "length (mw_locks w)"
  let ?p = "(mw_pool w)\<lparr>bp_spawn_locks := dict_set d ?l (bp_spawn_locks (mw_pool w))\<rparr>"
  let ?u = "set_pool ?p (w\<lparr>mw_locks := mw_locks w @ [[]]\<rparr>)"
  let ?v = "set_pool ?p (w\<lparr>mw_locks := mw_locks w @ [[c]]\<rparr>)"
  have "?u\<lparr>mw_locks := (mw_locks ?u)[?l := mw_locks ?u ! ?l @ [c]]\<rparr> = ?v" by (simp add: set_pool_def)
  then have "locks_ok (set_call c (Waiting d ?l) (?u\<lparr>mw_locks := (mw_locks ?u)[?l := mw_locks ?u ! ?l @ [c]]\<rparr>)) =
      locks_ok (set_call c (Waiting d ?l) ?v)" by (rule arg_cong)
  then have joined: "locks_ok (set_call c (Waiting d ?l) ?v)"
    using locks_ok_join [of ?u c ?l d] locks_ok_new [OF assms(1)] assms(2) by simp
  have "inside (set_call c (Waiting d ?l) ?v) c ?l" by (simp add: inside_def dict_simps nth_append)
  then have "locks_ok (locked_section c d ?l now (set_call c (Waiting d ?l) ?v))" by (rule locks_ok_locked_section [OF joined])
  then show ?thesis using None by (simp add: take_lock_def Let_def locked_section_forgets)
qed

lemma spawn_locks_add: "set (bp_spawn_locks (fst (pool_add h d i r e p))) \<subseteq> set (bp_spawn_locks p)"
  by (auto simp: pool_add_def evict_lru_def reserve_def Let_def split: option.splits prod.splits if_splits
      dest: set_dict_pop [THEN subsetD])

lemma locks_ok_spawned:
  assumes "locks_ok w" "inside w c l"
  shows "locks_ok (spawned c d l n e w)"
proof -
  obtain q r where add: "pool_add (mw_heap w) d (mw_next w - 1) True (Some e) (mw_pool w) = (q, r)" by fastforce
  have "set (bp_spawn_locks q) \<subseteq> set (bp_spawn_locks (mw_pool w))" using spawn_locks_add add by (metis fst_conv)
  then have "locks_ok (set_pool q w)" "locks_ok (set_pool (q\<lparr>bp_spawns := bp_spawns q + 1\<rparr>) w)"
    using assms(1) by (auto intro!: locks_ok_pool)
  then show ?thesis using assms(2) add
    by (cases r) (auto simp: spawned_def Let_def intro!: locks_ok_step)
qed

lemma locks_ok_shut:
  assumes "locks_ok w" "dict_get (mw_calls w) c = Some st" "shut c now w st = Some w'"
  shows "locks_ok w'"
proof -
  have "lock_of st = Some l \<Longrightarrow> inside w c l" for l
    using assms by (intro insideI) (auto simp: shut_def)
  moreover have "locks_ok (set_pool (fst (evict d True None (mw_pool w))) (kill is w))" for d "is"
    using assms(1) by (intro locks_ok_pool) (auto simp: spawn_locks_shrink)
  ultimately show ?thesis using assms
    by (cases st) (auto simp: shut_def Let_def fail_call_def split: if_splits intro!: locks_ok_begin_spawn locks_ok_step)
qed

lemma locks_ok_mcp_step:
  assumes ok: "locks_ok w" and step: "mcp_step e w = Some w'"
  shows "locks_ok w'"
proof (cases e)
  case (Call c d now)
  then have "dict_get (mw_calls w) c = None" "w' = call_get_or_create c d now w" using step by (auto split: if_splits)
  moreover then have "locks_ok (hand_out c d i w)" for i
    using ok by (auto simp: hand_out_def spawn_locks_shrink intro!: locks_ok_free locks_ok_pool)
  ultimately show ?thesis using locks_ok_take_lock [OF ok]
    by (auto simp: call_get_or_create_def split: option.split)
next
  case (Resume c now)
  then obtain d l where c: "dict_get (mw_calls w) c = Some (Waiting d l)" "mw_locks w ! l \<noteq> []" "hd (mw_locks w ! l) = c"
      "w' = locked_section c d l now w"
    using step by (auto split: option.splits call.splits if_splits)
  then have "l < length (mw_locks w)" using ok by (force simp: locks_ok_def)
  then have "inside w c l" using c by (simp add: inside_def)
  then show ?thesis using locks_ok_locked_section [OF ok] c(4) by simp
next
  case (Shut c now)
  then show ?thesis using step locks_ok_shut [OF ok] by (auto split: option.splits)
next
  case (Spawned c now pinned alive)
  then obtain d l n ep where c: "dict_get (mw_calls w) c = Some (Spawning d l n ep)"
      "w' = spawned c d l n ep (launch d now pinned alive ep w)"
    using step by (auto split: option.splits call.splits)
  then have "inside w c l" using insideI [OF ok c(1), of l] by simp
  then show ?thesis using ok c(2) by (auto intro: locks_ok_spawned)
next
  case (Spawn_fails c)
  then obtain d l n ep where c: "dict_get (mw_calls w) c = Some (Spawning d l n ep)" "w' = fail_call c d l Spawn_failed w"
    using step by (auto split: option.splits call.splits)
  then have "inside w c l" using insideI [OF ok c(1), of l] by simp
  then show ?thesis using locks_ok_step(2) [OF ok] c(2) by (simp add: fail_call_def)
next
  case (Settle c)
  then obtain d i where c: "dict_get (mw_calls w) c = Some (Holding d i)"
      "w' = set_call c Settled (set_pool (unreserve d (mw_pool w)) w)"
    using step by (auto split: option.splits call.splits)
  then show ?thesis using ok by (auto simp: spawn_locks_shrink intro!: locks_ok_free locks_ok_pool)
next
  case (Attach c stub now)
  then show ?thesis using step ok by (auto simp: attach_stub_def split: option.splits call.splits if_splits)
next
  case (Sweep_idle now older pinned)
  have "locks_ok (set_pool (fst (evict_idle (mw_heap w) now older pinned (mw_pool w))) w)"
    by (rule locks_ok_pool [OF ok]) (simp add: evict_idle_def Let_def fold_dict_pop_subset)
  then show ?thesis using Sweep_idle step by (auto simp: split_def Let_def)
next
  case (Sweep_dead d i)
  then show ?thesis using step ok by (auto simp: spawn_locks_shrink intro!: locks_ok_pool split: if_splits dest: spawn_locks_shrink(5) [THEN subsetD])
next
  case (Rotate now)
  then show ?thesis using step ok by (auto simp: drain_all_def intro!: locks_ok_pool)
next
  case (Reap_drained now)
  then show ?thesis using step ok by (auto simp: reap_draining_def intro!: locks_ok_pool)
qed (use ok step in auto)

subsection \<open>Work left\<close>

definition total_work :: "mcp_world \<Rightarrow> nat" where
  "total_work w = sum_list (map (work \<circ> snd) (mw_calls w))"

text \<open>The ends of the waits of the calls themselves.\<close>

fun own_event :: "mcp_event \<Rightarrow> bool" where
  "own_event (Resume c now) = True"
| "own_event (Shut c now) = True"
| "own_event (Spawned c now pinned alive) = True"
| "own_event (Spawn_fails c) = True"
| "own_event e = False"

definition at_rest :: "mcp_world \<Rightarrow> bool" where
  "at_rest w = list_all (\<lambda>e. lock_of (snd e) = None) (mw_calls w)"

definition moves :: "nat \<Rightarrow> nat \<Rightarrow> mcp_world \<Rightarrow> mcp_world \<Rightarrow> bool" where
  "moves c b w w' = (\<exists>st. mw_calls w' = dict_set c st (mw_calls w) \<and> work st < b)"

lemma moves_into: "mw_calls v = mw_calls w \<Longrightarrow> moves c b v w' = moves c b w w'"
  by (simp add: moves_def)

lemma moves_release [simp]: "moves c b w (release d l w') = moves c b w w'"
  by (simp add: moves_def)

lemma moves_set_call: "work st < b \<Longrightarrow> mw_calls v = mw_calls w \<Longrightarrow> moves c b w (set_call c st v)"
  by (auto simp: moves_def)

lemma moves_fail: "0 < b \<Longrightarrow> mw_calls v = mw_calls w \<Longrightarrow> moves c b w (fail_call c d l e v)"
  by (simp add: fail_call_def moves_set_call)

lemma moves_begin_spawn: "9 < b \<Longrightarrow> mw_calls v = mw_calls w \<Longrightarrow> moves c b w (begin_spawn c d l now v)"
  by (auto simp: begin_spawn_def Let_def split_def MAX_SPAWN_DRAIN_RETRIES_def intro!: moves_set_call moves_fail)

lemma moves_locked_section: "moves c 11 w (locked_section c d l now w)"
  by (auto simp: locked_section_def Let_def hand_out_def split: option.split intro!: moves_set_call moves_begin_spawn)

lemma moves_spawned:
  assumes "n \<le> MAX_SPAWN_DRAIN_RETRIES"
  shows "moves c (work (Spawning d l n e)) w (spawned c d l n e (launch d now pinned alive e w))"
proof -
  have "moves c (work (Spawning d l n e)) w (set_call c st v)"
    if "work st < work (Spawning d l n e)" "mw_calls v = mw_calls w" for st v
    using that by (rule moves_set_call)
  then show ?thesis using assms
    by (auto simp: spawned_def Let_def launch_def split: prod.split sum.split intro!: moves_set_call)
qed

lemma moves_shut:
  assumes "call_ok epoch st" "shut c now w st = Some w'"
  shows "moves c (work st) w w'"
  using assms by (cases st) (auto simp: shut_def Let_def call_ok_def MAX_SPAWN_DRAIN_RETRIES_def split: if_splits
      intro!: moves_set_call moves_begin_spawn moves_fail)

lemma moves_less:
  assumes "dict_ok (mw_calls w)" "dict_get (mw_calls w) c = Some st" "moves c (work st) w w'"
  shows "total_work w' < total_work w"
proof -
  have "sum_list (map (work \<circ> snd) (dict_set c st' cs)) + work st = sum_list (map (work \<circ> snd) cs) + work st'"
    if "dict_get cs c = Some st" for cs :: "(nat, call) dict" and st'
    using that by (induction cs) (auto split: if_splits)
  note balance = this [OF assms(2)]
  obtain st' where "mw_calls w' = dict_set c st' (mw_calls w)" "work st' < work st" using assms(3) by (auto simp: moves_def)
  then show ?thesis using balance [of st'] by (simp add: total_work_def)
qed

lemma own_event_less:
  assumes ok: "world_ok w" and own: "own_event e" and step: "mcp_step e w = Some w'"
  shows "total_work w' < total_work w"
proof -
  have calls: "dict_ok (mw_calls w)" "\<And>c st. dict_get (mw_calls w) c = Some st \<Longrightarrow> call_ok (bp_drain_epoch (mw_pool w)) st"
    using ok by (simp_all add: world_ok_def)
  note less = moves_less [OF calls(1)]
  show ?thesis
  proof (cases e)
    case (Resume c now)
    then show ?thesis using step moves_locked_section
      by (auto split: option.splits call.splits if_splits intro!: less)
  next
    case (Shut c now)
    then show ?thesis using step by (auto split: option.splits intro!: less moves_shut [OF calls(2)])
  next
    case (Spawned c now pinned alive)
    then obtain d l n ep where c: "dict_get (mw_calls w) c = Some (Spawning d l n ep)"
        "w' = spawned c d l n ep (launch d now pinned alive ep w)"
      using step by (auto split: option.splits call.splits)
    then have "n \<le> MAX_SPAWN_DRAIN_RETRIES" using calls(2) [OF c(1)] by (simp add: call_ok_def)
    then show ?thesis using less [OF c(1) moves_spawned] c(2) by simp
  next
    case (Spawn_fails c)
    then show ?thesis using step by (auto split: option.splits call.splits intro!: less moves_fail)
  qed (use own in auto)
qed

lemma inside_can_move:
  assumes "dict_get (mw_calls w) c = Some st" "lock_of st = Some l" "mw_locks w ! l = c # q"
  shows "\<exists>e w'. own_event e \<and> mcp_step e w = Some w'"
proof (cases st)
  case (Waiting d k)
  then have "mcp_step (Resume c 0) w = Some (locked_section c d k 0 w)" using assms by simp
  then show ?thesis by (metis own_event.simps(1))
next
  case (Spawning d k n e)
  then have "mcp_step (Spawn_fails c) w = Some (fail_call c d k Spawn_failed w)" using assms by simp
  then show ?thesis by (metis own_event.simps(4))
next
  case (Discarding d k n i)
  then have "\<exists>w'. mcp_step (Shut c 0) w = Some w'" using assms by (simp add: shut_def Let_def)
  then show ?thesis by (metis own_event.simps(2))
next
  case (Retiring d k i)
  then have "\<exists>w'. mcp_step (Shut c 0) w = Some w'" using assms by (simp add: shut_def Let_def)
  then show ?thesis by (metis own_event.simps(2))
next
  case (Burying d k)
  then have "\<exists>w'. mcp_step (Shut c 0) w = Some w'" using assms by (simp add: shut_def)
  then show ?thesis by (metis own_event.simps(2))
next
  case (Refusing d k e i)
  then have "\<exists>w'. mcp_step (Shut c 0) w = Some w'" using assms by (simp add: shut_def)
  then show ?thesis by (metis own_event.simps(2))
qed (use assms in auto)

lemma pending_can_move:
  assumes "locks_ok w" "dict_get (mw_calls w) c = Some st" "lock_of st = Some l"
  shows "\<exists>e w'. own_event e \<and> mcp_step e w = Some w'"
proof -
  have "l < length (mw_locks w)" using assms unfolding locks_ok_def by blast
  then have q: "queues w l (mw_locks w ! l)" using assms(1) by (simp add: locks_ok_def)
  then have "c \<in> set (mw_locks w ! l)" using assms(2,3) by (simp add: queues_def)
  then obtain h t where ht: "mw_locks w ! l = h # t" by (cases "mw_locks w ! l") auto
  then have "h \<in> set (mw_locks w ! l)" by simp
  then obtain st' where "dict_get (mw_calls w) h = Some st'" "lock_of st' = Some l"
    using q by (auto simp: queues_def)
  then show ?thesis using inside_can_move ht by blast
qed

lemma locks_ok_reaches:
  assumes "mcp_reaches (new_world p) w" "make_backend_pool n br = Inr p"
  shows "locks_ok w"
proof -
  have "bp_spawn_locks p = []" using assms(2) by (auto simp: make_backend_pool_def split: if_splits)
  then have "locks_ok (new_world p)" by (simp add: new_world_def locks_ok_def)
  with assms(1) show ?thesis by (induction rule: mcp_reaches.induct) (auto intro: locks_ok_mcp_step)
qed

text \<open>Whatever is pending can be brought to an end by its own waits alone.\<close>

lemma calls_finish:
  assumes "mcp_reaches (new_world p) w" "make_backend_pool n br = Inr p"
  shows "\<exists>es w'. list_all own_event es \<and> length es \<le> total_work w \<and> mcp_run es w = Some w' \<and> at_rest w'"
  using assms(1)
proof (induction "total_work w" arbitrary: w rule: less_induct)
  case less
  note ok = reaches_ok [OF less.prems new_world_ok [OF assms(2)]] and locks = locks_ok_reaches [OF less.prems assms(2)]
  show ?case
  proof (cases "at_rest w")
    case True
    then have "list_all own_event [] \<and> length ([] :: mcp_event list) \<le> total_work w \<and> mcp_run [] w = Some w \<and> at_rest w" by simp
    then show ?thesis by blast
  next
    case False
    then obtain c st l where "(c, st) \<in> set (mw_calls w)" "lock_of st = Some l" by (auto simp: at_rest_def list_all_iff)
    then have "dict_get (mw_calls w) c = Some st" "lock_of st = Some l" using ok by (auto simp: world_ok_def)
    then obtain e v where e: "own_event e" "mcp_step e w = Some v" using pending_can_move [OF locks] by blast
    then have "total_work v < total_work w" using own_event_less [OF ok] by blast
    moreover obtain es w' where "list_all own_event es" "length es \<le> total_work v" "mcp_run es v = Some w'" "at_rest w'"
      using less.hyps [OF \<open>total_work v < total_work w\<close>] next_event [OF less.prems e(2)] by blast
    ultimately have "list_all own_event (e # es) \<and> length (e # es) \<le> total_work w \<and> mcp_run (e # es) w = Some w' \<and> at_rest w'"
      using e by simp
    then show ?thesis by blast
  qed
qed

lemma other_event_less:
  assumes ok: "world_ok w" and step: "mcp_step e w = Some w'" and "\<forall>c d now. e \<noteq> Call c d now"
  shows "total_work w' \<le> total_work w"
proof (cases "own_event e")
  case True
  then show ?thesis using own_event_less [OF ok _ step] by simp
next
  case False
  show ?thesis
  proof (cases e)
    case (Settle c)
    then obtain d i where "dict_get (mw_calls w) c = Some (Holding d i)"
        "w' = set_call c Settled (set_pool (unreserve d (mw_pool w)) w)"
      using step by (auto split: option.splits call.splits)
    moreover have "sum_list (map (work \<circ> snd) (dict_set c Settled cs)) \<le> sum_list (map (work \<circ> snd) cs)" for cs
      by (induction cs) auto
    ultimately show ?thesis by (simp add: total_work_def)
  qed (use False assms in \<open>auto simp: total_work_def Let_def split_def split: option.splits call.splits if_splits\<close>)
qed

text \<open>C22. An acquisition comes to an end: in every state the pool can reach, each end of a wait of a call (its turn at
  the lock, a shutdown, a spawn that succeeds or fails) strictly lowers the work left, at most eleven waits for a call;
  no sweep, death, rotation or stub raises it; while a call is pending one such wait can end; and the pending
  calls can all be brought to a process or an error within the work left, so that no spawn lock is ever waited for
  in vain.\<close>

theorem acquisitions_come_to_an_end:
  assumes "make_backend_pool n br = Inr p" "mcp_reaches (new_world p) w"
  shows "(\<forall>e w'. own_event e \<longrightarrow> mcp_step e w = Some w' \<longrightarrow> total_work w' < total_work w) \<and>
    (\<forall>e w'. (\<forall>c d now. e \<noteq> Call c d now) \<longrightarrow> mcp_step e w = Some w' \<longrightarrow> total_work w' \<le> total_work w) \<and>
    (at_rest w \<or> (\<exists>e w'. own_event e \<and> mcp_step e w = Some w')) \<and>
    (\<exists>es w'. list_all own_event es \<and> length es \<le> total_work w \<and> mcp_run es w = Some w' \<and> at_rest w')"
proof -
  note ok = reaches_ok [OF assms(2) new_world_ok [OF assms(1)]]
  have "\<exists>e w'. own_event e \<and> mcp_step e w = Some w'" if "\<not> at_rest w"
  proof -
    from that obtain c st l where "(c, st) \<in> set (mw_calls w)" "lock_of st = Some l" by (auto simp: at_rest_def list_all_iff)
    then have "dict_get (mw_calls w) c = Some st" "lock_of st = Some l" using ok by (auto simp: world_ok_def)
    then show ?thesis using pending_can_move locks_ok_reaches [OF assms(2,1)] by blast
  qed
  then show ?thesis using calls_finish [OF assms(2,1)] own_event_less [OF ok] other_event_less [OF ok] by blast
qed

subsection \<open>A process that nobody holds\<close>

text \<open>While call 2 awaits the shutdown of a quarantined process, the idle sweep drops its entry and the held lock, call 3
  spawns and attaches under a new lock, and then call 2 evicts whatever the identity maps to.\<close>

definition retire_race :: "mcp_event list" where
  "retire_race = [Call 1 ''db'' 0, Spawned 1 0 False True, Attach 1 ''s1'' 0, Settle 1, Recycle 0, Detach 0 ''s1'' 1,
     Call 2 ''db'' 600, Sweep_idle 602 600 False, Call 3 ''db'' 602, Spawned 3 603 False True, Attach 3 ''s3'' 603, Settle 3,
     Shut 2 604]"

lemma retire_race_runs:
  "\<exists>w. mcp_run retire_race (new_world small_pool) = Some w \<and> usable (mw_heap w 1) \<and> bk_stubs (mw_heap w 1) = [''s3''] \<and>
     all_backends (mw_pool w) = [] \<and> dict_get (mw_calls w) 2 = Some (Spawning ''db'' 0 0 0)"
  by (simp add: retire_race_def small_pool_def acquire_run_defs recycle_if_idle_def detach_stub_def attach_stub_def
      evict_idle_def idle_stale_def bk_refcount_def is_reserved_def evict_def unreserve_def set_call_def shut_def
      shutdown_all_def all_backends_def)

theorem acquisitions_come_to_an_end_witness:
  "\<exists>es w'. list_all own_event es \<and> mcp_run es (the (mcp_run [Call 1 ''db'' 0, Call 2 ''db'' 1, Rotate 2] (new_world small_pool))) = Some w' \<and>
     at_rest w'"
proof -
  obtain w where w: "mcp_run [Call 1 ''db'' 0, Call 2 ''db'' 1, Rotate 2] (new_world small_pool) = Some w"
    by (simp add: small_pool_def acquire_run_defs drain_all_def)
  have "make_backend_pool 4 None = Inr small_pool" by (simp add: small_pool_def make_backend_pool_def)
  from acquisitions_come_to_an_end [OF this mcp_run_reaches [OF start w]] show ?thesis using w by auto
qed

text \<open>The pool can lose a live process: there is a schedule in which the idle sweep runs while \<^verbatim>\<open>get_or_create\<close>
  awaits the shutdown of a quarantined process, a second caller spawns and attaches meanwhile, and the first then
  evicts, without naming the process it means, the one the second is using. That process is alive and serves a
  stub, and yet it is in no list of the pool, so that not even the final \<^verbatim>\<open>shutdown_all\<close> ends it.\<close>

theorem retiring_can_lose_a_live_process:
  "\<exists>w. mcp_reaches (new_world small_pool) w \<and> usable (mw_heap w 1) \<and> bk_stubs (mw_heap w 1) = [''s3''] \<and>
     all_backends (mw_pool w) = [] \<and> snd (shutdown_all (mw_pool w)) = []"
proof -
  obtain w where "mcp_run retire_race (new_world small_pool) = Some w" "usable (mw_heap w 1)"
      "bk_stubs (mw_heap w 1) = [''s3'']" "all_backends (mw_pool w) = []"
    using retire_race_runs by blast
  then show ?thesis using mcp_run_reaches [OF start] by (fastforce simp: shutdown_all_def)
qed

end
