(* ===== verification/Workflow_Runner.thy ===== *)
theory Workflow_Runner imports Workflow_Events Json_Recovery "HOL-Library.Multiset" begin

section \<open>Running a workflow script (\<^verbatim>\<open>workflows/runner.py\<close>, \<^verbatim>\<open>context.py\<close>, \<^verbatim>\<open>dsl.py\<close>)\<close>

text \<open>
  The context a script works on, with its budget, its count of agent calls, its cache of results to replay and
  the stream it writes; the combinators, whose branches interleave at the awaits of agent calls; and the run around
  the script, from authoring to the terminal event. The calls of the stream's factory methods stand for the
  events (\<open>run_events\<close>). The script, the agent, the author and the validator are inputs; audit lines are left out.
\<close>

subsection \<open>Budget and counter\<close>

definition DEFAULT_MAX_AGENTS_PER_RUN :: int where "DEFAULT_MAX_AGENTS_PER_RUN = 1000"
definition DEFAULT_RUN_TIMEOUT_SECS :: int where "DEFAULT_RUN_TIMEOUT_SECS = 3600"
definition MIN_RUN_TIMEOUT_SECS :: int where "MIN_RUN_TIMEOUT_SECS = 60"
definition MAX_RUN_TIMEOUT_SECS :: int where "MAX_RUN_TIMEOUT_SECS = 6 * 3600"
definition MAX_AGENT_ERROR_CHARS :: nat where "MAX_AGENT_ERROR_CHARS = 500"

text \<open>\<^verbatim>\<open>int(value)\<close>; \<^verbatim>\<open>TypeError\<close> and \<^verbatim>\<open>ValueError\<close> are \<open>None\<close>, the \<^verbatim>\<open>OverflowError\<close> of an infinite float is raised.\<close>

definition int_of_json :: "json \<Rightarrow> raised + int option" where
  "int_of_json v = (case v of
      JInt n \<Rightarrow> Inr (Some n)
    | JBool b \<Rightarrow> Inr (Some (of_bool b))
    | JFloat (Finite r) \<Rightarrow> Inr (Some (if 0 \<le> r then \<lfloor>r\<rfloor> else \<lceil>r\<rceil>))
    | JFloat PosInf \<Rightarrow> Inl (Other_error ''OverflowError'')
    | JFloat NegInf \<Rightarrow> Inl (Other_error ''OverflowError'')
    | JStr s \<Rightarrow> Inr (py_int s)
    | _ \<Rightarrow> Inr None)"

definition clamp_run_timeout :: "json \<Rightarrow> int \<Rightarrow> raised + int" where
  "clamp_run_timeout value fallback = (case int_of_json value of
      Inl e \<Rightarrow> Inl e
    | Inr None \<Rightarrow> Inr fallback
    | Inr (Some secs) \<Rightarrow> Inr (if secs \<le> 0 then fallback else max MIN_RUN_TIMEOUT_SECS (min secs MAX_RUN_TIMEOUT_SECS)))"

text \<open>The ellipsis and the dash of the code, U+2026 and U+2014, are written as characters of the range of strings.\<close>

definition describe_agent_error :: "(string \<Rightarrow> string) \<Rightarrow> string \<Rightarrow> string \<Rightarrow> string" where
  "describe_agent_error redact name message =
     (let t = redact (py_strip (name @ '': '' @ message)) in
      if MAX_AGENT_ERROR_CHARS < length t then take MAX_AGENT_ERROR_CHARS t @ [CHR 0x85] else t)"

record budget =
  bg_total :: "int option"
  bg_spent :: int

definition would_exceed :: "budget \<Rightarrow> int \<Rightarrow> bool" where
  "would_exceed b cost = (case bg_total b of None \<Rightarrow> False | Some t \<Rightarrow> t \<le> bg_spent b + cost)"

definition remaining :: "budget \<Rightarrow> int option" where
  "remaining b = (case bg_total b of None \<Rightarrow> None | Some t \<Rightarrow> Some (max 0 (t - bg_spent b)))"


subsection \<open>The context\<close>

record checkpoint_call =
  cc_index :: int
  cc_result :: json
  cc_ok :: bool
  cc_error :: string

record run_context =
  rc_budget :: budget
  rc_limit :: int
  rc_count :: int
  rc_phase :: string
  rc_calls :: "stream_call list"
  rc_results :: "(int, json) dict"
  rc_errors :: "(int, string) dict"
  rc_replay :: "(int, json) dict"
  rc_replay_before :: int
  rc_checkpoints :: "checkpoint_call list"

definition new_context :: "int option \<Rightarrow> int \<Rightarrow> (int, json) dict \<Rightarrow> int \<Rightarrow> stream_call list \<Rightarrow> run_context" where
  "new_context tokens limit replay replay_before calls = \<lparr>rc_budget = \<lparr>bg_total = tokens, bg_spent = 0\<rparr>, rc_limit = limit,
     rc_count = 0, rc_phase = '''', rc_calls = calls, rc_results = [], rc_errors = [], rc_replay = replay,
     rc_replay_before = replay_before, rc_checkpoints = []\<rparr>"

definition emit_call :: "stream_call \<Rightarrow> run_context \<Rightarrow> run_context" where
  "emit_call c ctx = ctx\<lparr>rc_calls := rc_calls ctx @ [c]\<rparr>"



text \<open>The arguments of a call that the events show, and what becomes of a live call.\<close>

record agent_args =
  aa_prompt :: string
  aa_label :: string
  aa_phase :: string

datatype agent_reply =
    Replied json
  | No_schema_match
  | Agent_raised string string

definition agent_id :: "int \<Rightarrow> string" where "agent_id i = ''a'' @ show_int i"

text \<open>The first segment of \<^verbatim>\<open>agent\<close>: \<open>Inl\<close> is the message of \<^verbatim>\<open>BudgetExceeded\<close>.\<close>

definition begin_agent :: "agent_args \<Rightarrow> run_context \<Rightarrow> (string + int) \<times> run_context" where
  "begin_agent a ctx =
     (if rc_limit ctx \<le> rc_count ctx then (Inl (''agent-count cap reached: '' @ show_int (rc_limit ctx) @ '' agents per run''), ctx)
      else let ctx = ctx\<lparr>rc_count := rc_count ctx + 1\<rparr> in
        if would_exceed (rc_budget ctx) 0 then (Inl ''budget exhausted before agent call'', ctx)
        else let i = rc_count ctx - 1 in
          (Inr i, emit_call (AgentStarted (agent_id i) (if aa_label a = '''' then take 40 (aa_prompt a) else aa_label a)
             (if aa_phase a = '''' then rc_phase ctx else aa_phase a) i) ctx))"

definition settle_agent :: "(json \<Rightarrow> string) \<Rightarrow> int \<Rightarrow> json \<Rightarrow> string \<Rightarrow> run_context \<Rightarrow> run_context" where
  "settle_agent str i result error ctx =
     (let good = (result \<noteq> JNull);
          ctx = ctx\<lparr>rc_results := dict_set i result (rc_results ctx),
            rc_errors := (if error = '''' then rc_errors ctx else dict_set i error (rc_errors ctx)),
            rc_checkpoints := rc_checkpoints ctx @ [\<lparr>cc_index = i, cc_result = result, cc_ok = good, cc_error = error\<rparr>]\<rparr>
      in emit_call (AgentFinished (agent_id i) (if result = JNull then '''' else take 120 (str result)) good error) ctx)"

definition replayed :: "int \<Rightarrow> run_context \<Rightarrow> json option" where
  "replayed i ctx = (if i < rc_replay_before ctx then dict_get (rc_replay ctx) i else None)"

definition replay_error :: "json \<Rightarrow> string" where
  "replay_error result = (if result = JNull then ''replayed a call that had already failed in the prior run'' else '''')"

fun outcome_of :: "(string \<Rightarrow> string) \<Rightarrow> agent_reply \<Rightarrow> json \<times> string" where
  "outcome_of redact (Replied v) = (v, if v = JNull then ''agent returned no result'' else '''')"
| "outcome_of redact No_schema_match = (JNull, ''no schema-valid result after bounded re-asks'')"
| "outcome_of redact (Agent_raised name message) = (JNull, describe_agent_error redact name message)"

subsection \<open>Branches\<close>

text \<open>
  A branch is what a thunk of \<^verbatim>\<open>parallel\<close> or the chain of an item of \<^verbatim>\<open>pipeline\<close> does: given the results of its agent calls
  so far, the next call, its value, or an exception. A script without combinators is a single branch.
\<close>

datatype branch_step = Call agent_args | Return json | Raise string

type_synonym branch = "json list \<Rightarrow> branch_step"

datatype branch_state = Ready | Waiting int | Inside int | Ended json | Raised string | Aborted int "string option"

record branch_run =
  br_results :: "json list"
  br_state :: branch_state

record runner_config =
  cf_branches :: "branch list"
  cf_slots :: "nat option"
  cf_str :: "json \<Rightarrow> string"
  cf_redact :: "string \<Rightarrow> string"

record run_state =
  rs_context :: run_context
  rs_branches :: "branch_run list"

datatype run_event = Begin nat | Enter nat | Settle nat agent_reply | Abort nat "string option"

definition start_branches :: "runner_config \<Rightarrow> run_context \<Rightarrow> run_state" where
  "start_branches cf ctx = \<lparr>rs_context = ctx, rs_branches = replicate (length (cf_branches cf)) \<lparr>br_results = [], br_state = Ready\<rparr>\<rparr>"

definition in_flight :: "run_state \<Rightarrow> nat" where
  "in_flight s = length (filter (\<lambda>b. case br_state b of Inside i \<Rightarrow> True | _ \<Rightarrow> False) (rs_branches s))"

definition slot_free :: "runner_config \<Rightarrow> run_state \<Rightarrow> bool" where
  "slot_free cf s = (case cf_slots cf of None \<Rightarrow> True | Some n \<Rightarrow> n = 0 \<or> in_flight s < n)"

definition set_branch :: "nat \<Rightarrow> branch_run \<Rightarrow> run_context \<Rightarrow> run_state \<Rightarrow> run_state" where
  "set_branch k b ctx s = s\<lparr>rs_context := ctx, rs_branches := (rs_branches s)[k := b]\<rparr>"

definition begin_branch :: "runner_config \<Rightarrow> nat \<Rightarrow> branch_run \<Rightarrow> run_state \<Rightarrow> run_state" where
  "begin_branch cf k b s = (case (cf_branches cf ! k) (br_results b) of
      Return v \<Rightarrow> set_branch k (b\<lparr>br_state := Ended v\<rparr>) (rs_context s) s
    | Raise e \<Rightarrow> set_branch k (b\<lparr>br_state := Raised e\<rparr>) (rs_context s) s
    | Call a \<Rightarrow> (case begin_agent a (rs_context s) of
        (Inl e, ctx) \<Rightarrow> set_branch k (b\<lparr>br_state := Raised e\<rparr>) ctx s
      | (Inr i, ctx) \<Rightarrow> (case replayed i ctx of
          Some v \<Rightarrow> set_branch k (b\<lparr>br_results := br_results b @ [v]\<rparr>) (settle_agent (cf_str cf) i v (replay_error v) ctx) s
        | None \<Rightarrow> set_branch k (b\<lparr>br_state := Waiting i\<rparr>) ctx s)))"

definition settle_branch :: "runner_config \<Rightarrow> nat \<Rightarrow> int \<Rightarrow> agent_reply \<Rightarrow> branch_run \<Rightarrow> run_state \<Rightarrow> run_state" where
  "settle_branch cf k i reply b s = (let (v, error) = outcome_of (cf_redact cf) reply in
     set_branch k \<lparr>br_results = br_results b @ [v], br_state = Ready\<rparr> (settle_agent (cf_str cf) i v error (rs_context s)) s)"

text \<open>
  The first segment of a call, the taking of a slot, its settling, and its end by what \<^verbatim>\<open>agent\<close> does not catch: the
  \<^verbatim>\<open>BudgetExceeded\<close> of the agent, with its message, or a cancellation. An event that is not possible changes nothing.
\<close>

fun run_step :: "runner_config \<Rightarrow> run_event \<Rightarrow> run_state \<Rightarrow> run_state" where
  "run_step cf (Begin k) s =
     (if k < length (rs_branches s) \<and> br_state (rs_branches s ! k) = Ready then begin_branch cf k (rs_branches s ! k) s else s)"
| "run_step cf (Enter k) s =
     (if k < length (rs_branches s) \<and> slot_free cf s then
        (case br_state (rs_branches s ! k) of
           Waiting i \<Rightarrow> set_branch k ((rs_branches s ! k)\<lparr>br_state := Inside i\<rparr>) (rs_context s) s
         | _ \<Rightarrow> s)
      else s)"
| "run_step cf (Settle k reply) s =
     (if k < length (rs_branches s) then
        (case br_state (rs_branches s ! k) of
           Inside i \<Rightarrow> settle_branch cf k i reply (rs_branches s ! k) s
         | _ \<Rightarrow> s)
      else s)"
| "run_step cf (Abort k e) s =
     (if k < length (rs_branches s) then
        (case br_state (rs_branches s ! k) of
           Inside i \<Rightarrow> set_branch k ((rs_branches s ! k)\<lparr>br_state := Aborted i e\<rparr>) (rs_context s) s
         | Waiting i \<Rightarrow> if e = None then set_branch k ((rs_branches s ! k)\<lparr>br_state := Aborted i e\<rparr>) (rs_context s) s else s
         | _ \<Rightarrow> s)
      else s)"

definition run_steps :: "runner_config \<Rightarrow> run_event list \<Rightarrow> run_state \<Rightarrow> run_state" where
  "run_steps cf evs s = fold (run_step cf) evs s"

text \<open>What \<^verbatim>\<open>parallel\<close> and \<^verbatim>\<open>pipeline\<close> return: a branch that raised is \<^verbatim>\<open>None\<close>; they do not return while one runs or when one was cancelled.\<close>

definition gathered :: "run_state \<Rightarrow> json list option" where
  "gathered s = those (map (\<lambda>b. case br_state b of Ended v \<Rightarrow> Some v | Raised e \<Rightarrow> Some JNull | Aborted i (Some e) \<Rightarrow> Some JNull | _ \<Rightarrow> None) (rs_branches s))"

text \<open>The branches of \<^verbatim>\<open>parallel\<close> over single agent calls, and of \<^verbatim>\<open>pipeline\<close> over stages that make one call each.\<close>

definition thunk_branch :: "agent_args \<Rightarrow> branch" where
  "thunk_branch a rs = (case rs of [] \<Rightarrow> Call a | r # _ \<Rightarrow> Return r)"

definition chain_branch :: "(json \<Rightarrow> json \<Rightarrow> nat \<Rightarrow> agent_args option) list \<Rightarrow> json \<Rightarrow> nat \<Rightarrow> branch" where
  "chain_branch stages item index rs =
     (let prev = (if rs = [] then item else last rs) in
      if length rs < length stages then
        (case (stages ! length rs) prev item index of None \<Rightarrow> Raise ''stage'' | Some a \<Rightarrow> Call a)
      else Return prev)"

definition pipeline_branches :: "(json \<Rightarrow> json \<Rightarrow> nat \<Rightarrow> agent_args option) list \<Rightarrow> json list \<Rightarrow> branch list" where
  "pipeline_branches stages items = map (\<lambda>(i, item). chain_branch stages item i) (enumerate 0 items)"

subsection \<open>The run around the script\<close>


record run_result =
  rr_good :: bool
  rr_result :: py
  rr_error :: "string option"
  rr_agent_results :: "(int, json) dict"
  rr_agent_errors :: "(int, string) dict"
  rr_source :: string












text \<open>The events of a list of factory calls.\<close>

definition run_events :: "string \<Rightarrow> string \<Rightarrow> stream_call list \<Rightarrow> wf_event list" where
  "run_events run_id now calls = (case stream_run (map (Pair now) calls) (new_stream run_id) of Inr (evs, es) \<Rightarrow> evs | Inl e \<Rightarrow> [])"

text \<open>\<^verbatim>\<open>run_background\<close>: the status the registry is given.\<close>

definition background_status :: "run_result \<Rightarrow> string" where
  "background_status r = (if rr_good r then ''finished'' else if rr_error r = Some ''cancelled'' then ''cancelled'' else ''failed'')"


subsection \<open>One story per run\<close>

fun is_terminal :: "stream_call \<Rightarrow> bool" where
  "is_terminal (RunFinished v d) = True"
| "is_terminal (RunFailed e p) = True"
| "is_terminal (RunCancelled r) = True"
| "is_terminal c = False"

fun is_start :: "stream_call \<Rightarrow> bool" where
  "is_start (RunStarted n a h t) = True"
| "is_start c = False"

definition in_between :: "stream_call \<Rightarrow> bool" where
  "in_between c = (\<not> is_terminal c \<and> \<not> is_start c)"

lemma emit_call_simps [simp]:
  "rc_calls (emit_call c ctx) = rc_calls ctx @ [c]" "rc_results (emit_call c ctx) = rc_results ctx"
  "rc_count (emit_call c ctx) = rc_count ctx" "rc_limit (emit_call c ctx) = rc_limit ctx" "rc_budget (emit_call c ctx) = rc_budget ctx"
  "rc_replay (emit_call c ctx) = rc_replay ctx" "rc_replay_before (emit_call c ctx) = rc_replay_before ctx"
  "rc_checkpoints (emit_call c ctx) = rc_checkpoints ctx"
  by (simp_all add: emit_call_def)



lemma in_between_logs [simp]: "list_all in_between (map LogLine ms)"
  by (simp add: list_all_iff in_between_def)












subsection \<open>The account of the agent calls\<close>

fun started :: "stream_call list \<Rightarrow> string list" where
  "started [] = []"
| "started (AgentStarted a l p i # cs) = a # started cs"
| "started (c # cs) = started cs"

fun finished_calls :: "stream_call list \<Rightarrow> string list" where
  "finished_calls [] = []"
| "finished_calls (AgentFinished a r g e # cs) = a # finished_calls cs"
| "finished_calls (c # cs) = finished_calls cs"

lemma started_append [simp]: "started (a @ b) = started a @ started b"
  by (induction a rule: started.induct) auto

lemma finished_append [simp]: "finished_calls (a @ b) = finished_calls a @ finished_calls b"
  by (induction a rule: finished_calls.induct) auto

fun open_of :: "branch_state \<Rightarrow> int list" where
  "open_of (Waiting i) = [i]"
| "open_of (Inside i) = [i]"
| "open_of (Aborted i e) = [i]"
| "open_of b = []"

definition open_calls :: "run_state \<Rightarrow> int list" where
  "open_calls s = concat (map (open_of \<circ> br_state) (rs_branches s))"

definition settled_calls :: "run_state \<Rightarrow> int list" where
  "settled_calls s = map cc_index (rc_checkpoints (rs_context s))"

fun occupies :: "branch_state \<Rightarrow> nat" where
  "occupies (Inside i) = 1"
| "occupies b = 0"

lemma open_update:
  "k < length bs \<Longrightarrow> mset (concat (map (open_of \<circ> br_state) (bs[k := b]))) + mset (open_of (br_state (bs ! k))) =
     mset (concat (map (open_of \<circ> br_state) bs)) + mset (open_of (br_state b))"
  by (induction bs arbitrary: k) (auto simp: nth_Cons' less_Suc_eq_0_disj split: nat.split)

lemma in_flight_sum: "in_flight s = (\<Sum>b\<leftarrow>rs_branches s. occupies (br_state b))"
proof -
  have "length (filter (\<lambda>b. case br_state b of Inside i \<Rightarrow> True | _ \<Rightarrow> False) bs) = (\<Sum>b\<leftarrow>bs. occupies (br_state b))" for bs
    by (induction bs) (auto split: branch_state.splits)
  then show ?thesis by (simp add: in_flight_def)
qed

lemma occupies_update:
  "k < length bs \<Longrightarrow> (\<Sum>b\<leftarrow>bs[k := b]. occupies (br_state b)) + occupies (br_state (bs ! k)) =
     (\<Sum>b\<leftarrow>bs. occupies (br_state b)) + occupies (br_state (b :: branch_run))"
  by (induction bs arbitrary: k) (auto simp: nth_Cons' less_Suc_eq_0_disj split: nat.split)

definition accounts :: "run_context \<Rightarrow> int list \<Rightarrow> nat \<Rightarrow> bool" where
  "accounts ctx opn n = (started (rc_calls ctx) = map (agent_id \<circ> int) [0..<n] \<and> int n \<le> rc_count ctx \<and>
     0 \<le> rc_count ctx \<and> rc_count ctx \<le> max 0 (rc_limit ctx) \<and> (would_exceed (rc_budget ctx) 0 \<or> int n = rc_count ctx) \<and>
     mset (map cc_index (rc_checkpoints ctx)) + mset opn = mset (map int [0..<n]) \<and>
     finished_calls (rc_calls ctx) = map (agent_id \<circ> cc_index) (rc_checkpoints ctx) \<and>
     set (dict_keys (rc_results ctx)) = cc_index ` set (rc_checkpoints ctx))"

lemma accounts_begin:
  assumes "accounts ctx opn n" "begin_agent a ctx = (r, ctx')"
  shows "case r of Inl e \<Rightarrow> accounts ctx' opn n | Inr i \<Rightarrow> accounts ctx' (i # opn) (Suc n)"
proof -
  consider "rc_limit ctx \<le> rc_count ctx" | "rc_count ctx < rc_limit ctx" "would_exceed (rc_budget ctx) 0"
    | "rc_count ctx < rc_limit ctx" "\<not> would_exceed (rc_budget ctx) 0" by linarith
  then show ?thesis
  proof cases
    case 3
    then have "rc_count ctx = int n" using assms(1) by (simp add: accounts_def)
    then show ?thesis using 3 assms by (auto simp: accounts_def begin_agent_def Let_def)
  qed (use assms in \<open>auto simp: accounts_def begin_agent_def Let_def\<close>)
qed

lemma accounts_settle:
  assumes "accounts ctx (i # opn) n"
  shows "accounts (settle_agent str i v e ctx) opn n"
proof -
  have "set (dict_keys (dict_set i v (rc_results ctx))) = insert i (set (dict_keys (rc_results ctx)))"
    by (auto simp: dict_keys_set)
  then show ?thesis using assms by (simp add: accounts_def settle_agent_def Let_def)
qed

lemma accounts_perm: "mset opn = mset opn' \<Longrightarrow> accounts ctx opn n = accounts ctx opn' n"
  by (simp add: accounts_def)

definition run_inv :: "runner_config \<Rightarrow> run_state \<Rightarrow> bool" where
  "run_inv cf s = ((\<exists>n. accounts (rs_context s) (open_calls s) n) \<and>
     (case cf_slots cf of Some m \<Rightarrow> 0 < m \<longrightarrow> in_flight s \<le> m | None \<Rightarrow> True))"

lemma set_branch_open:
  assumes "k < length (rs_branches s)"
  shows "mset (open_calls (set_branch k b ctx s)) + mset (open_of (br_state (rs_branches s ! k))) = mset (open_calls s) + mset (open_of (br_state b))"
    "in_flight (set_branch k b ctx s) + occupies (br_state (rs_branches s ! k)) = in_flight s + occupies (br_state b)"
    "rs_context (set_branch k b ctx s) = ctx"
  using open_update [OF assms] occupies_update [OF assms] by (simp_all add: open_calls_def in_flight_sum set_branch_def)

lemma run_inv_set:
  assumes "run_inv cf s" "k < length (rs_branches s)" "br_state (rs_branches s ! k) = old"
    and "\<And>n opn. accounts (rs_context s) opn n \<Longrightarrow> mset opn = mset (open_calls s) \<Longrightarrow>
      \<exists>m opn'. accounts ctx opn' m \<and> mset opn' + mset (open_of old) = mset opn + mset (open_of (br_state b))"
    and "occupies (br_state b) \<le> occupies old \<or> slot_free cf s"
  shows "run_inv cf (set_branch k b ctx s)"
proof -
  note u = set_branch_open [OF assms(2), of b ctx, unfolded assms(3)]
  obtain n where n: "accounts (rs_context s) (open_calls s) n" using assms(1) by (auto simp: run_inv_def)
  obtain m opn' where "accounts ctx opn' m" "mset opn' + mset (open_of old) = mset (open_calls s) + mset (open_of (br_state b))"
    using assms(4) [OF n refl] by blast
  then have "accounts (rs_context (set_branch k b ctx s)) (open_calls (set_branch k b ctx s)) m"
    using u by (metis accounts_perm add_right_cancel)
  moreover have "case cf_slots cf of Some m \<Rightarrow> 0 < m \<longrightarrow> in_flight (set_branch k b ctx s) \<le> m | None \<Rightarrow> True"
  proof (cases "cf_slots cf")
    case (Some m)
    have "occupies (br_state b) \<le> 1" by (cases "br_state b") auto
    moreover have "0 < m \<Longrightarrow> in_flight s \<le> m" using assms(1) Some by (simp add: run_inv_def)
    moreover have "slot_free cf s \<Longrightarrow> 0 < m \<Longrightarrow> in_flight s < m" using Some by (simp add: slot_free_def)
    ultimately have "0 < m \<Longrightarrow> in_flight (set_branch k b ctx s) \<le> m" using assms(5) u(2) by linarith
    then show ?thesis using Some by simp
  qed simp
  ultimately show ?thesis unfolding run_inv_def by blast
qed

lemma run_inv_step: "run_inv cf s \<Longrightarrow> run_inv cf (run_step cf e s)"
proof (cases e)
  case (Begin k)
  assume inv: "run_inv cf s"
  show ?thesis
  proof (cases "k < length (rs_branches s) \<and> br_state (rs_branches s ! k) = Ready")
    case True
    then have k: "k < length (rs_branches s)" "br_state (rs_branches s ! k) = Ready" by simp_all
    let ?b = "rs_branches s ! k"
    note set = run_inv_set [OF inv k]
    show ?thesis
    proof (cases "(cf_branches cf ! k) (br_results ?b)")
      case (Call a)
      obtain r ctx where bg: "begin_agent a (rs_context s) = (r, ctx)" by fastforce
      show ?thesis
      proof (cases r)
        case (Inl x)
        have "run_inv cf (set_branch k (?b\<lparr>br_state := Raised x\<rparr>) ctx s)"
          by (rule set) (use accounts_begin [OF _ bg] Inl in auto)
        then show ?thesis using Begin True Call bg Inl by (simp add: begin_branch_def)
      next
        case (Inr i)
        have acc: "accounts (rs_context s) opn n \<Longrightarrow> accounts ctx (i # opn) (Suc n)" for opn n
          using accounts_begin [OF _ bg] Inr by fastforce
        show ?thesis
        proof (cases "replayed i ctx")
          case None
          have "run_inv cf (set_branch k (?b\<lparr>br_state := Waiting i\<rparr>) ctx s)"
            by (rule set) (use acc in fastforce, simp)
          then show ?thesis using Begin True Call bg Inr None by (simp add: begin_branch_def)
        next
          case (Some v)
          have "run_inv cf (set_branch k (?b\<lparr>br_results := br_results ?b @ [v]\<rparr>) (settle_agent (cf_str cf) i v (replay_error v) ctx) s)"
            by (rule set) (use acc accounts_settle k(2) in \<open>fastforce, simp\<close>)
          then show ?thesis using Begin True Call bg Inr Some by (simp add: begin_branch_def)
        qed
      qed
    next
      case (Return v)
      have "run_inv cf (set_branch k (?b\<lparr>br_state := Ended v\<rparr>) (rs_context s) s)" by (rule set) auto
      then show ?thesis using Begin True Return by (simp add: begin_branch_def)
    next
      case (Raise x)
      have "run_inv cf (set_branch k (?b\<lparr>br_state := Raised x\<rparr>) (rs_context s) s)" by (rule set) auto
      then show ?thesis using Begin True Raise by (simp add: begin_branch_def)
    qed
  qed (use inv Begin in auto)
next
  case (Enter k)
  assume inv: "run_inv cf s"
  show ?thesis
  proof (cases "k < length (rs_branches s) \<and> slot_free cf s \<and> (\<exists>i. br_state (rs_branches s ! k) = Waiting i)")
    case True
    then obtain i where k: "k < length (rs_branches s)" "br_state (rs_branches s ! k) = Waiting i" by blast
    have "run_inv cf (set_branch k ((rs_branches s ! k)\<lparr>br_state := Inside i\<rparr>) (rs_context s) s)"
      by (rule run_inv_set [OF inv k]) (use True in auto)
    then show ?thesis using Enter True k by simp
  qed (use inv Enter in \<open>auto split: branch_state.splits\<close>)
next
  case (Settle k reply)
  assume inv: "run_inv cf s"
  show ?thesis
  proof (cases "k < length (rs_branches s) \<and> (\<exists>i. br_state (rs_branches s ! k) = Inside i)")
    case True
    then obtain i where k: "k < length (rs_branches s)" "br_state (rs_branches s ! k) = Inside i" by blast
    obtain v x where o: "outcome_of (cf_redact cf) reply = (v, x)" by fastforce
    have "run_inv cf (set_branch k \<lparr>br_results = br_results (rs_branches s ! k) @ [v], br_state = Ready\<rparr>
        (settle_agent (cf_str cf) i v x (rs_context s)) s)"
    proof (rule run_inv_set [OF inv k])
      fix n opn assume a: "accounts (rs_context s) opn n" "mset opn = mset (open_calls s)"
      have "i \<in> set (open_calls s)" using k by (force simp: open_calls_def in_set_conv_nth)
      then have "i \<in> set opn" using a(2) by (metis mset_eq_setD)
      then have "mset opn = mset (i # remove1 i opn)" by simp
      then have "accounts (settle_agent (cf_str cf) i v x (rs_context s)) (remove1 i opn) n"
        using a(1) accounts_settle accounts_perm by metis
      then show "\<exists>m opn'. accounts (settle_agent (cf_str cf) i v x (rs_context s)) opn' m \<and>
          mset opn' + mset (open_of (Inside i)) = mset opn + mset (open_of (br_state \<lparr>br_results = br_results (rs_branches s ! k) @ [v], br_state = Ready\<rparr>))"
        using \<open>mset opn = mset (i # remove1 i opn)\<close> by (intro exI [of _ n] exI [of _ "remove1 i opn"]) simp
    qed simp
    then show ?thesis using Settle k o by (simp add: settle_branch_def)
  qed (use inv Settle in \<open>auto split: branch_state.splits\<close>)
next
  case (Abort k x)
  assume inv: "run_inv cf s"
  show ?thesis
  proof (cases "k < length (rs_branches s) \<and> (\<exists>i. br_state (rs_branches s ! k) = Inside i \<or> br_state (rs_branches s ! k) = Waiting i)")
    case True
    then obtain i where k: "k < length (rs_branches s)" "br_state (rs_branches s ! k) = Inside i \<or> br_state (rs_branches s ! k) = Waiting i" by blast
    have "run_inv cf (set_branch k ((rs_branches s ! k)\<lparr>br_state := Aborted i x\<rparr>) (rs_context s) s)"
      by (rule run_inv_set [OF inv k(1) refl]) (use k in \<open>fastforce, auto\<close>)
    then show ?thesis using Abort inv k by auto
  qed (use inv Abort in \<open>auto split: branch_state.splits\<close>)
qed

lemma run_inv_start:
  assumes "started calls = []" "finished_calls calls = []"
  shows "run_inv cf (start_branches cf (new_context tokens limit replay before calls))"
proof -
  have "open_calls (start_branches cf ctx) = [] \<and> in_flight (start_branches cf ctx) = 0" for ctx
    by (simp add: open_calls_def in_flight_sum start_branches_def)
  moreover have "accounts (new_context tokens limit replay before calls) [] 0" using assms by (simp add: accounts_def new_context_def)
  ultimately show ?thesis
    by (auto simp: run_inv_def start_branches_def split: option.split)
qed

lemma context_kept:
  "begin_agent a ctx = (r, ctx') \<Longrightarrow> rc_limit ctx' = rc_limit ctx \<and> rc_replay ctx' = rc_replay ctx \<and> rc_replay_before ctx' = rc_replay_before ctx \<and>
     rc_budget ctx' = rc_budget ctx \<and> rc_results ctx' = rc_results ctx"
  "rc_limit (settle_agent str i v e ctx) = rc_limit ctx \<and> rc_replay (settle_agent str i v e ctx) = rc_replay ctx \<and>
     rc_replay_before (settle_agent str i v e ctx) = rc_replay_before ctx \<and> rc_budget (settle_agent str i v e ctx) = rc_budget ctx \<and>
     rc_count (settle_agent str i v e ctx) = rc_count ctx \<and> rc_results (settle_agent str i v e ctx) = dict_set i v (rc_results ctx)"
  by (auto simp: begin_agent_def settle_agent_def Let_def split: if_splits)

lemma step_limit: "rc_limit (rs_context (run_step cf e s)) = rc_limit (rs_context s)"
  using context_kept
  by (cases e) (auto simp: begin_branch_def settle_branch_def set_branch_def split: branch_step.split branch_state.split prod.split sum.split option.split)

lemma run_inv_steps: "run_inv cf s \<Longrightarrow> run_inv cf (run_steps cf evs s) \<and> rc_limit (rs_context (run_steps cf evs s)) = rc_limit (rs_context s)"
proof (induction evs arbitrary: s)
  case (Cons e evs)
  then show ?case using run_inv_step [of cf s e] step_limit [of cf e s] by (simp add: run_steps_def)
qed (simp add: run_steps_def)

text \<open>C12. The account of the agent calls: however the branches of a script interleave, the calls are numbered in the order in which they
  start, without a gap and up to the cap; each is unsettled in exactly one branch or has settled exactly once, with one finishing
  event, one checkpoint and one result; and no more are with the agent than the run has slots.\<close>

theorem agent_calls_are_accounted:
  assumes "started calls = []" "finished_calls calls = []"
    and "s = run_steps cf evs (start_branches cf (new_context tokens limit replay before calls))"
  shows "\<exists>n. int n \<le> max 0 limit \<and> started (rc_calls (rs_context s)) = map (agent_id \<circ> int) [0..<n] \<and>
    mset (settled_calls s) + mset (open_calls s) = mset (map int [0..<n]) \<and>
    finished_calls (rc_calls (rs_context s)) = map agent_id (settled_calls s) \<and>
    set (dict_keys (rc_results (rs_context s))) = set (settled_calls s) \<and>
    (\<forall>m. cf_slots cf = Some m \<longrightarrow> 0 < m \<longrightarrow> in_flight s \<le> m)"
proof -
  have "run_inv cf s" "rc_limit (rs_context s) = limit"
    using run_inv_steps [OF run_inv_start [OF assms(1,2)], of cf evs tokens limit replay before] assms(3)
    by (simp_all add: start_branches_def new_context_def)
  then obtain n where "accounts (rs_context s) (open_calls s) n" "\<forall>m. cf_slots cf = Some m \<longrightarrow> 0 < m \<longrightarrow> in_flight s \<le> m" "rc_limit (rs_context s) = limit"
    by (auto simp: run_inv_def split: option.splits)
  then show ?thesis by (intro exI [of _ n]) (simp add: accounts_def settled_calls_def)
qed

subsection \<open>Replaying a run\<close>

definition live :: "agent_reply \<Rightarrow> run_event list" where
  "live reply = [Begin 0, Enter 0, Settle 0 reply]"

text \<open>A script of one branch between two calls.\<close>

definition between :: "run_context \<Rightarrow> json list \<Rightarrow> run_state \<Rightarrow> bool" where
  "between ctx vs s = (rs_branches s = [\<lparr>br_results = vs, br_state = Ready\<rparr>] \<and> rc_count (rs_context s) = int (length vs) \<and>
     rc_results (rs_context s) = zip (map int [0..<length vs]) vs \<and> rc_limit (rs_context s) = rc_limit ctx \<and>
     rc_budget (rs_context s) = rc_budget ctx \<and> rc_replay (rs_context s) = rc_replay ctx \<and> rc_replay_before (rs_context s) = rc_replay_before ctx)"

lemma results_snoc: "dict_set (int (length vs)) v (zip (map int [0..<length vs]) vs) = zip (map int [0..<Suc (length vs)]) (vs @ [v])"
proof -
  have "int (length vs) \<notin> set (dict_keys (zip (map int [0..<length vs]) vs))" by (auto dest: set_zip_leftD)
  then show ?thesis by simp
qed

lemma begin_between:
  assumes "between ctx vs s" "int (length vs) < rc_limit ctx" "\<not> would_exceed (rc_budget ctx) 0"
  obtains c where "begin_agent a (rs_context s) = (Inr (int (length vs)), c)" "rc_results c = zip (map int [0..<length vs]) vs"
    "rc_count c = int (length vs) + 1" "rc_limit c = rc_limit ctx" "rc_budget c = rc_budget ctx" "rc_replay c = rc_replay ctx"
    "rc_replay_before c = rc_replay_before ctx"
  using assms by (auto simp: between_def begin_agent_def Let_def)

lemma live_cycle:
  assumes "between ctx vs s" "int (length vs) < rc_limit ctx" "\<not> would_exceed (rc_budget ctx) 0" "cf_branches cf = [br]" "br vs = Call a"
    and "\<not> int (length vs) < rc_replay_before ctx \<or> dict_get (rc_replay ctx) (int (length vs)) = None"
  shows "between ctx (vs @ [fst (outcome_of (cf_redact cf) r)]) (run_steps cf (live r) s)"
proof -
  obtain c where c: "begin_agent a (rs_context s) = (Inr (int (length vs)), c)" "rc_results c = zip (map int [0..<length vs]) vs"
    "rc_count c = int (length vs) + 1" "rc_limit c = rc_limit ctx" "rc_budget c = rc_budget ctx" "rc_replay c = rc_replay ctx"
    "rc_replay_before c = rc_replay_before ctx" using begin_between [OF assms(1-3)] by blast
  have b: "rs_branches s = [\<lparr>br_results = vs, br_state = Ready\<rparr>]" using assms(1) by (simp add: between_def)
  have p: "replayed (int (length vs)) c = None" using assms(6) c(6,7) by (auto simp: replayed_def)
  let ?w = "s\<lparr>rs_context := c, rs_branches := [\<lparr>br_results = vs, br_state = Waiting (int (length vs))\<rparr>]\<rparr>"
  have 1: "run_step cf (Begin 0) s = ?w" using b assms(4,5) c(1) p by (simp add: begin_branch_def set_branch_def)
  have "slot_free cf ?w" by (auto simp: slot_free_def in_flight_def split: option.split)
  then have 2: "run_step cf (Enter 0) ?w = ?w\<lparr>rs_branches := [\<lparr>br_results = vs, br_state = Inside (int (length vs))\<rparr>]\<rparr>"
    by (simp add: set_branch_def)
  let ?i = "?w\<lparr>rs_branches := [\<lparr>br_results = vs, br_state = Inside (int (length vs))\<rparr>]\<rparr>"
  have "run_steps cf (live r) s = run_step cf (Settle 0 r) ?i" unfolding run_steps_def live_def by (simp only: fold_simps 1 2)
  then show ?thesis
    using c results_snoc [of vs] context_kept(2)
    by (simp add: settle_branch_def set_branch_def between_def split: prod.split)
qed

lemma replay_cycle:
  assumes "between ctx vs s" "int (length vs) < rc_limit ctx" "\<not> would_exceed (rc_budget ctx) 0" "cf_branches cf = [br]" "br vs = Call a"
    and "int (length vs) < rc_replay_before ctx" "dict_get (rc_replay ctx) (int (length vs)) = Some v"
  shows "between ctx (vs @ [v]) (run_step cf (Begin 0) s)"
proof -
  obtain c where c: "begin_agent a (rs_context s) = (Inr (int (length vs)), c)" "rc_results c = zip (map int [0..<length vs]) vs"
    "rc_count c = int (length vs) + 1" "rc_limit c = rc_limit ctx" "rc_budget c = rc_budget ctx" "rc_replay c = rc_replay ctx"
    "rc_replay_before c = rc_replay_before ctx" using begin_between [OF assms(1-3)] by blast
  have b: "rs_branches s = [\<lparr>br_results = vs, br_state = Ready\<rparr>]" using assms(1) by (simp add: between_def)
  have p: "replayed (int (length vs)) c = Some v" using assms(6,7) c(6,7) by (simp add: replayed_def)
  show ?thesis using b assms(4,5) c p results_snoc [of vs] context_kept(2)
    by (simp add: begin_branch_def set_branch_def between_def)
qed

lemma run_steps_append: "run_steps cf (a @ b) s = run_steps cf b (run_steps cf a s)"
  by (simp add: run_steps_def)

lemma live_cycles:
  assumes "between ctx (take m vs) s" "m \<le> length vs" "vs = map (fst \<circ> outcome_of (cf_redact cf)) replies"
    and "cf_branches cf = [br]" "\<forall>k < length vs. \<exists>a. br (take k vs) = Call a" "int (length vs) \<le> rc_limit ctx" "\<not> would_exceed (rc_budget ctx) 0"
    and "rc_replay_before ctx \<le> int m"
  shows "between ctx vs (run_steps cf (concat (map live (drop m replies))) s)"
  using assms(1,2,8)
proof (induction "length vs - m" arbitrary: m s)
  case 0
  then show ?case using assms(3) by (simp add: run_steps_def)
next
  case (Suc d)
  have m: "m < length vs" "m < length replies" using Suc.hyps(2) assms(3) by auto
  then obtain a where "br (take m vs) = Call a" using assms(5) by blast
  from live_cycle [OF Suc.prems(1) _ assms(7,4) this] m assms(6) Suc.prems(3)
  have "between ctx (take m vs @ [fst (outcome_of (cf_redact cf) (replies ! m))]) (run_steps cf (live (replies ! m)) s)" by simp
  moreover have "take (Suc m) vs = take m vs @ [fst (outcome_of (cf_redact cf) (replies ! m))]"
    using m assms(3) by (simp add: take_Suc_conv_app_nth)
  ultimately have "between ctx vs (run_steps cf (concat (map live (drop (Suc m) replies))) (run_steps cf (live (replies ! m)) s))"
    using Suc.hyps(1) [of "Suc m"] Suc.hyps(2) Suc.prems(3) m by simp
  moreover have "drop m replies = replies ! m # drop (Suc m) replies" using m by (simp add: Cons_nth_drop_Suc)
  ultimately show ?case by (simp add: run_steps_append)
qed

lemma replay_cycles:
  assumes "between ctx [] s" "n \<le> length vs" "cf_branches cf = [br]" "\<forall>k < length vs. \<exists>a. br (take k vs) = Call a"
    and "int (length vs) \<le> rc_limit ctx" "\<not> would_exceed (rc_budget ctx) 0" "rc_replay_before ctx = int n"
    and "\<forall>k < n. dict_get (rc_replay ctx) (int k) = Some (vs ! k)"
  shows "m \<le> n \<Longrightarrow> between ctx (take m vs) (run_steps cf (replicate m (Begin 0)) s)"
proof (induction m)
  case (Suc m)
  have m: "m < length vs" "m < n" using Suc.prems assms(2) by auto
  then obtain a where "br (take m vs) = Call a" using assms(4) by blast
  from replay_cycle [OF Suc.IH _ assms(6,3) this] m assms(5,7,8)
  have "between ctx (take m vs @ [vs ! m]) (run_step cf (Begin 0) (run_steps cf (replicate m (Begin 0)) s))" by simp
  moreover have "run_step cf (Begin 0) (run_steps cf (replicate m (Begin 0)) s) = run_steps cf (replicate (Suc m) (Begin 0)) s"
    using run_steps_append [of cf "replicate m (Begin 0)" "[Begin 0]" s] replicate_append_same [of m "Begin 0"] by (simp add: run_steps_def)
  ultimately show ?case using m(1) by (simp add: take_Suc_conv_app_nth)
qed (use assms(1) in \<open>simp add: run_steps_def\<close>)

lemma start_between: "cf_branches cf = [br] \<Longrightarrow> between (new_context tokens limit replay before calls) [] (start_branches cf (new_context tokens limit replay before calls))"
  by (simp add: between_def start_branches_def new_context_def)

lemma finish_between:
  assumes "between ctx vs s" "cf_branches cf = [br]" "br vs = Return v"
  shows "rs_branches (run_steps cf [Begin 0] s) = [\<lparr>br_results = vs, br_state = Ended v\<rparr>] \<and>
    rc_results (rs_context (run_steps cf [Begin 0] s)) = zip (map int [0..<length vs]) vs"
  using assms by (auto simp: between_def run_steps_def begin_branch_def set_branch_def)

lemma enumerated_result: "k < length vs \<Longrightarrow> dict_get (zip (map int [0..<length vs]) vs) (int k) = Some (vs ! k)"
  by (rule map_of_is_SomeI) (auto simp: set_zip distinct_map intro!: exI [of _ k])

text \<open>C14. Restarting from a call: a script without combinators that is run again with the results of an earlier run replayed before a
  call, and live from there on with the same answers, reaches the same value, the same results and the same state
  of the script; the replayed calls ask no agent, and the numbers of the calls are the places of their results.\<close>

theorem straight_line_replay:
  assumes "cf_branches cf = [br]" "vs = map (fst \<circ> outcome_of (cf_redact cf)) replies"
    and "\<forall>k < length vs. \<exists>a. br (take k vs) = Call a" "br vs = Return v" "int (length vs) \<le> limit"
    and "\<not> would_exceed \<lparr>bg_total = tokens, bg_spent = 0\<rparr> 0" "n \<le> length vs"
    and "\<forall>k < n. dict_get prior (int k) = Some (vs ! k)"
    and "fresh = run_steps cf (concat (map live replies) @ [Begin 0]) (start_branches cf (new_context tokens limit [] 0 calls))"
    and "again = run_steps cf (replicate n (Begin 0) @ concat (map live (drop n replies)) @ [Begin 0])
      (start_branches cf (new_context tokens limit prior (int n) calls))"
  shows "gathered fresh = Some [v] \<and> rs_branches again = rs_branches fresh \<and> rc_results (rs_context again) = rc_results (rs_context fresh) \<and>
    (\<forall>k < length vs. dict_get (rc_results (rs_context fresh)) (int k) = Some (vs ! k))"
proof -
  let ?f = "new_context tokens limit [] 0 calls" and ?a = "new_context tokens limit prior (int n) calls"
  have simps: "rc_limit (new_context tokens limit r b calls) = limit" "rc_budget (new_context tokens limit r b calls) = \<lparr>bg_total = tokens, bg_spent = 0\<rparr>"
    "rc_replay (new_context tokens limit r b calls) = r" "rc_replay_before (new_context tokens limit r b calls) = b" for r b
    by (simp_all add: new_context_def)
  have "between ?f vs (run_steps cf (concat (map live (drop 0 replies))) (start_branches cf ?f))"
    by (rule live_cycles [OF _ _ assms(2,1,3)]) (use assms(5,6) start_between [OF assms(1)] simps in simp_all)
  from finish_between [OF this assms(1,4)]
  have f: "rs_branches fresh = [\<lparr>br_results = vs, br_state = Ended v\<rparr>]" "rc_results (rs_context fresh) = zip (map int [0..<length vs]) vs"
    by (simp_all add: assms(9) run_steps_append)
  have "between ?a (take n vs) (run_steps cf (replicate n (Begin 0)) (start_branches cf ?a))"
    by (rule replay_cycles [OF start_between [OF assms(1)] assms(7,1,3)]) (use assms(5,6,8) simps in simp_all)
  then have "between ?a vs (run_steps cf (concat (map live (drop n replies))) (run_steps cf (replicate n (Begin 0)) (start_branches cf ?a)))"
    by (rule live_cycles [OF _ assms(7,2,1,3)]) (use assms(5,6) simps in simp_all)
  from finish_between [OF this assms(1,4)]
  have a: "rs_branches again = [\<lparr>br_results = vs, br_state = Ended v\<rparr>]" "rc_results (rs_context again) = zip (map int [0..<length vs]) vs"
    by (simp_all add: assms(10) run_steps_append)
  show ?thesis using f a enumerated_result [of _ vs] by (simp add: gathered_def)
qed

subsection \<open>Examples\<close>

definition ask :: "string \<Rightarrow> json \<Rightarrow> json \<Rightarrow> nat \<Rightarrow> agent_args option" where
  "ask what prev item i = (case prev of JStr s \<Rightarrow> Some \<lparr>aa_prompt = what @ '' '' @ s, aa_label = what, aa_phase = ''''\<rparr> | _ \<Rightarrow> None)"

definition plan_and_write :: "(json \<Rightarrow> json \<Rightarrow> nat \<Rightarrow> agent_args option) list" where
  "plan_and_write = [ask ''plan'', ask ''write'']"

definition sample_runner :: "string list \<Rightarrow> runner_config" where
  "sample_runner items = \<lparr>cf_branches = pipeline_branches plan_and_write (map JStr items), cf_slots = Some 2, cf_str = (\<lambda>_. ''text''), cf_redact = id\<rparr>"

definition answered :: "string \<Rightarrow> agent_reply" where "answered s = Replied (JStr s)"

lemmas runner_defs = sample_runner_def plan_and_write_def pipeline_branches_def chain_branch_def ask_def answered_def

lemma all_two: "(\<forall>k < Suc (Suc 0). P k) = (P 0 \<and> P (Suc 0))"
  by (auto simp: less_Suc_eq)

theorem straight_line_replay_witness:
  "let replies = [answered ''plan A'', answered ''text A''];
     fresh = run_steps (sample_runner [''A'']) (concat (map live replies) @ [Begin 0]) (start_branches (sample_runner [''A'']) (new_context (Some 9) 2 [] 0 []));
     again = run_steps (sample_runner [''A'']) (replicate 1 (Begin 0) @ concat (map live (drop 1 replies)) @ [Begin 0])
       (start_branches (sample_runner [''A'']) (new_context (Some 9) 2 [(0, JStr ''plan A''), (1, JStr ''old text'')] (int 1) []))
   in gathered fresh = Some [JStr ''text A''] \<and> rs_branches again = rs_branches fresh \<and> rc_results (rs_context again) = rc_results (rs_context fresh)"
  using straight_line_replay [where cf = "sample_runner [''A'']" and br = "chain_branch plan_and_write (JStr ''A'') 0" and
    vs = "[JStr ''plan A'', JStr ''text A'']" and replies = "[answered ''plan A'', answered ''text A'']" and v = "JStr ''text A''" and limit = 2 and
    tokens = "Some 9" and n = 1 and prior = "[(0, JStr ''plan A''), (1, JStr ''old text'')]" and calls = "[]", OF _ _ _ _ _ _ _ _ refl refl]
  by (simp add: runner_defs would_exceed_def all_two Let_def del: replicate.simps concat.simps)

theorem agent_calls_are_accounted_witness:
  "let s = run_steps (sample_runner [''A'', ''B'']) [Begin 0, Begin 1, Enter 0, Enter 1, Settle 1 (answered ''plan B'')]
      (start_branches (sample_runner [''A'', ''B'']) (new_context None 9 [] 0 []))
   in (\<exists>n. int n \<le> 9 \<and> started (rc_calls (rs_context s)) = map (agent_id \<circ> int) [0..<n] \<and> mset (settled_calls s) + mset (open_calls s) = mset (map int [0..<n])) \<and>
     settled_calls s = [1] \<and> open_calls s = [0]"
proof -
  let ?s = "run_steps (sample_runner [''A'', ''B'']) [Begin 0, Begin 1, Enter 0, Enter 1, Settle 1 (answered ''plan B'')]
      (start_branches (sample_runner [''A'', ''B'']) (new_context None 9 [] 0 []))"
  have "settled_calls ?s = [1] \<and> open_calls ?s = [0]" by code_simp
  then show ?thesis
    using agent_calls_are_accounted [of "[]" ?s "sample_runner [''A'', ''B'']" "[Begin 0, Begin 1, Enter 0, Enter 1, Settle 1 (answered ''plan B'')]" None 9 "[]" 0]
    by auto
qed

subsection \<open>Replaying a pipeline\<close>

text \<open>Two items through two stages; the calls of a replayed run return without a suspension, so an item runs to its end before the next one starts.\<close>

definition first_schedule :: "run_event list" where
  "first_schedule = [Begin 0, Begin 1, Enter 0, Enter 1, Settle 0 (answered ''plan A''), Begin 0, Settle 1 (answered ''plan B''), Begin 1,
     Enter 0, Enter 1, Settle 0 (answered ''text A''), Begin 0, Settle 1 (answered ''text B''), Begin 1]"

definition replay_schedule :: "run_event list" where
  "replay_schedule = [Begin 0, Begin 0, Begin 0, Begin 1, Begin 1, Begin 1]"

text \<open>Restarting a pipeline mixes its items up: of two items that were planned and written by interleaved calls, the replay of all
  four results gives the first item the plan of the second one as its text, for the calls are numbered in the order
  in which they start, and replayed calls start in another order than live ones.\<close>

lemma pipeline_replay_mixes_items:
  "let cf = sample_runner [''A'', ''B''];
     first_run = run_steps cf first_schedule (start_branches cf (new_context None 1000 [] 0 []));
     again = run_steps cf replay_schedule (start_branches cf (new_context None 1000 (rc_results (rs_context first_run)) 4 []))
   in gathered first_run = Some [JStr ''text A'', JStr ''text B''] \<and> gathered again = Some [JStr ''plan B'', JStr ''text B'']"
  by code_simp

end
