(* ===== verification/Session_Ledger.thy ===== *)
theory Session_Ledger imports Json_Recovery Stream_Redactor begin

section \<open>The work ledger of a session (\<^verbatim>\<open>session_ledger.py\<close>)\<close>

text \<open>
  The state of a long-running session on disk: a record with a bounded tail of events, replaced as one document
  by each update. The reader folds whatever it finds into a well-typed record and treats a file past a
  ceiling as absent, so the writer evicts until the document fits. The decoder and the text of a float are
  parameters; \<open>json_text\<close> is \<^verbatim>\<open>json.dumps\<close> without ASCII escapes. What the clock, the lock and the disk answer is an input.
\<close>

subsection \<open>JSON text and its size\<close>

definition hex_char :: "nat \<Rightarrow> char" where
  "hex_char n = (if n < 10 then char_of (48 + n) else char_of (87 + n))"

definition json_escape :: "char \<Rightarrow> string" where
  "json_escape c =
     (if c = CHR 0x22 then [CHR 0x5C, CHR 0x22] else if c = CHR 0x5C then [CHR 0x5C, CHR 0x5C]
      else if c = CHR 0x0A then [CHR 0x5C, CHR ''n''] else if c = CHR 0x0D then [CHR 0x5C, CHR ''r'']
      else if c = CHR 0x09 then [CHR 0x5C, CHR ''t''] else if c = CHR 0x08 then [CHR 0x5C, CHR ''b'']
      else if c = CHR 0x0C then [CHR 0x5C, CHR ''f'']
      else let n = of_char c in
        if n < (32::nat) then [CHR 0x5C] @ ''u00'' @ [hex_char (n div 16), hex_char (n mod 16)] else [c])"

definition json_string :: "string \<Rightarrow> string" where
  "json_string s = [CHR 0x22] @ concat (map json_escape s) @ [CHR 0x22]"

fun json_text :: "(pyfloat \<Rightarrow> string) \<Rightarrow> json \<Rightarrow> string" where
  "json_text fl JNull = ''null''"
| "json_text fl (JBool b) = (if b then ''true'' else ''false'')"
| "json_text fl (JInt n) = show_int n"
| "json_text fl (JFloat f) = fl f"
| "json_text fl (JStr s) = json_string s"
| "json_text fl (JArr xs) = ''['' @ join_with '', '' (map (json_text fl) xs) @ '']''"
| "json_text fl (JObj d) = ''{'' @ join_with '', '' (map (\<lambda>(k, v). json_string k @ '': '' @ json_text fl v) d) @ ''}''"

text \<open>
  \<^verbatim>\<open>len(s.encode("utf-8"))\<close> for texts of the characters that \<^typ>\<open>char\<close> has, U+0000 to U+00FF, which take one or two bytes. A text
  of the code may hold characters of three and four bytes; the bounds below are made by control characters, whose JSON
  escape takes six. A lone surrogate, for which \<^verbatim>\<open>encode\<close> raises, has no counterpart here.
\<close>

definition utf8_size :: "string \<Rightarrow> nat" where
  "utf8_size s = (\<Sum>c\<leftarrow>s. if of_char c < (128::nat) then 1 else 2)"

subsection \<open>The record\<close>

definition SCHEMA_VERSION :: int where "SCHEMA_VERSION = 1"
definition TERMINAL_PHASES :: "string list" where "TERMINAL_PHASES = [''done'', ''abandoned'']"
definition EVENT_KINDS :: "string list" where
  "EVENT_KINDS = [''progress'', ''decision'', ''tried'', ''blocked'', ''unblocked'', ''phase'', ''note'']"
definition MAX_TEXT :: nat where "MAX_TEXT = 2000"
definition MAX_TRIED :: nat where "MAX_TRIED = 50"
definition MAX_ARTIFACTS :: nat where "MAX_ARTIFACTS = 32"
definition MAX_EVENTS :: nat where "MAX_EVENTS = 100"
definition MAX_STATE_BYTES :: nat where "MAX_STATE_BYTES = 1000000"

record tried_entry =
  te_approach :: string
  te_rejected_because :: string
  te_at :: string

record ledger_event =
  le_ts :: string
  le_kind :: string
  le_text :: string

record ledger_state =
  ls_schema :: int
  ls_goal :: string
  ls_phase :: string
  ls_next :: string
  ls_tried :: "tried_entry list"
  ls_artifacts :: "(string, string) dict"
  ls_events :: "ledger_event list"
  ls_created_at :: string
  ls_last_progress_at :: string
  ls_finished_at :: string
  ls_extra :: "(string \<times> json) list"

definition empty_ledger :: ledger_state where
  "empty_ledger = \<lparr>ls_schema = SCHEMA_VERSION, ls_goal = '''', ls_phase = '''', ls_next = '''', ls_tried = [],
     ls_artifacts = [], ls_events = [], ls_created_at = '''', ls_last_progress_at = '''', ls_finished_at = '''', ls_extra = []\<rparr>"

definition known_fields :: "string list" where
  "known_fields = [''schema'', ''goal'', ''phase'', ''next'', ''tried'', ''artifacts'', ''events'', ''created_at'',
     ''last_progress_at'', ''finished_at'']"

text \<open>The document, in the order of the Python dictionary.\<close>

definition tried_json :: "tried_entry \<Rightarrow> json" where
  "tried_json t = JObj [(''approach'', JStr (te_approach t)), (''rejected_because'', JStr (te_rejected_because t)), (''at'', JStr (te_at t))]"

definition event_json :: "ledger_event \<Rightarrow> json" where
  "event_json e = JObj [(''ts'', JStr (le_ts e)), (''kind'', JStr (le_kind e)), (''text'', JStr (le_text e))]"

definition artifacts_json :: "(string, string) dict \<Rightarrow> json" where
  "artifacts_json d = JObj (map (\<lambda>(k, v). (k, JStr v)) d)"

definition state_json :: "ledger_state \<Rightarrow> json" where
  "state_json s = JObj ([(''schema'', JInt (ls_schema s)), (''goal'', JStr (ls_goal s)), (''phase'', JStr (ls_phase s)),
     (''next'', JStr (ls_next s)), (''tried'', JArr (map tried_json (ls_tried s))), (''artifacts'', artifacts_json (ls_artifacts s)),
     (''events'', JArr (map event_json (ls_events s))), (''created_at'', JStr (ls_created_at s)),
     (''last_progress_at'', JStr (ls_last_progress_at s)), (''finished_at'', JStr (ls_finished_at s))] @ ls_extra s)"

subsection \<open>Reading\<close>

definition clamp :: "nat \<Rightarrow> json option \<Rightarrow> string" where
  "clamp limit v = (case v of Some (JStr s) \<Rightarrow> take limit s | _ \<Rightarrow> '''')"

definition newest :: "nat \<Rightarrow> 'a list \<Rightarrow> 'a list" where
  "newest n xs = drop (length xs - n) xs"

definition coerce_tried :: "json \<Rightarrow> tried_entry list" where
  "coerce_tried item = (case item of
      JObj d \<Rightarrow> (case dict_get d ''approach'' of
          Some (JStr a) \<Rightarrow> [\<lparr>te_approach = take MAX_TEXT a, te_rejected_because = clamp MAX_TEXT (dict_get d ''rejected_because''),
            te_at = clamp 64 (dict_get d ''at'')\<rparr>]
        | _ \<Rightarrow> [])
    | _ \<Rightarrow> [])"

definition coerce_event :: "json \<Rightarrow> ledger_event list" where
  "coerce_event item = (case item of
      JObj d \<Rightarrow> (case dict_get d ''text'' of
          Some (JStr t) \<Rightarrow> [\<lparr>le_ts = clamp 64 (dict_get d ''ts''), le_kind = clamp 32 (dict_get d ''kind''), le_text = take MAX_TEXT t\<rparr>]
        | _ \<Rightarrow> [])
    | _ \<Rightarrow> [])"

fun coerce_artifacts :: "(string \<times> json) list \<Rightarrow> (string, string) dict \<Rightarrow> (string, string) dict" where
  "coerce_artifacts [] arts = arts"
| "coerce_artifacts ((k, v) # d) arts = coerce_artifacts d (case v of
      JStr s \<Rightarrow> if length arts < MAX_ARTIFACTS then dict_set (take 128 k) (take MAX_TEXT s) arts else arts
    | _ \<Rightarrow> arts)"

definition coerce_state :: "json \<Rightarrow> ledger_state" where
  "coerce_state raw = (case raw of
      JObj d \<Rightarrow>
        \<lparr>ls_schema = (case dict_get d ''schema'' of Some (JInt n) \<Rightarrow> if 0 < n then n else SCHEMA_VERSION | _ \<Rightarrow> SCHEMA_VERSION),
         ls_goal = clamp MAX_TEXT (dict_get d ''goal''), ls_phase = clamp MAX_TEXT (dict_get d ''phase''),
         ls_next = clamp MAX_TEXT (dict_get d ''next''),
         ls_tried = (case dict_get d ''tried'' of Some (JArr xs) \<Rightarrow> newest MAX_TRIED (concat (map coerce_tried xs)) | _ \<Rightarrow> []),
         ls_artifacts = (case dict_get d ''artifacts'' of Some (JObj a) \<Rightarrow> coerce_artifacts a [] | _ \<Rightarrow> []),
         ls_events = (case dict_get d ''events'' of Some (JArr xs) \<Rightarrow> newest MAX_EVENTS (concat (map coerce_event xs)) | _ \<Rightarrow> []),
         ls_created_at = clamp MAX_TEXT (dict_get d ''created_at''),
         ls_last_progress_at = clamp MAX_TEXT (dict_get d ''last_progress_at''),
         ls_finished_at = clamp MAX_TEXT (dict_get d ''finished_at''),
         ls_extra = filter (\<lambda>(k, v). k \<notin> set known_fields) d\<rparr>
    | _ \<Rightarrow> empty_ledger)"

text \<open>What stands where the document should be; \<open>Absent\<close> is also what cannot be read.\<close>

datatype ledger_file = Absent | Undecodable | Document string

definition read_unlocked :: "decoder \<Rightarrow> ledger_file \<Rightarrow> raised + ledger_state" where
  "read_unlocked dec f = (case f of
      Document t \<Rightarrow>
        if MAX_STATE_BYTES < utf8_size t then Inr empty_ledger
        else (case json_loads dec t of
            Decoded v e \<Rightarrow> Inr (coerce_state v)
          | Syntax_error \<Rightarrow> Inr empty_ledger
          | Nesting_limit \<Rightarrow> Inl Recursion_error
          | Digit_limit \<Rightarrow> Inl (Value_error ''Exceeds the limit for integer string conversion''))
    | _ \<Rightarrow> Inr empty_ledger)"

subsection \<open>Writing\<close>

definition byte_budget :: nat where "byte_budget = MAX_STATE_BYTES - 4096"

text \<open>\<^verbatim>\<open>_serialize_bounded\<close>: the text and the record as the evictions leave it.\<close>

function serialize_bounded :: "(pyfloat \<Rightarrow> string) \<Rightarrow> ledger_state \<Rightarrow> raised + string \<times> ledger_state" where
  "serialize_bounded fl s =
     (let blob = json_text fl (state_json s) in
      if utf8_size blob \<le> byte_budget then Inr (blob, s)
      else if ls_events s \<noteq> [] then serialize_bounded fl (s\<lparr>ls_events := tl (ls_events s)\<rparr>)
      else if ls_tried s \<noteq> [] then serialize_bounded fl (s\<lparr>ls_tried := tl (ls_tried s)\<rparr>)
      else if ls_extra s \<noteq> [] then serialize_bounded fl (s\<lparr>ls_extra := []\<rparr>)
      else Inl (Value_error ''record too large to store''))"
  by pat_completeness auto
termination
  by (relation "measure (\<lambda>(fl, s). length (ls_events s) + length (ls_tried s) + length (ls_extra s))") auto

declare serialize_bounded.simps [simp del]

record ledger_update =
  up_goal :: "string option"
  up_phase :: "string option"
  up_next_step :: "string option"
  up_tried_approach :: "string option"
  up_tried_rejected_because :: "string option"
  up_artifacts :: "(string \<times> json) list"
  up_event :: "string option"
  up_event_kind :: "string option"

text \<open>\<^verbatim>\<open>x or ""\<close> of an optional text.\<close>

definition given :: "string option \<Rightarrow> string" where
  "given x = (case x of Some s \<Rightarrow> s | None \<Rightarrow> '''')"

definition blank_event :: "ledger_update \<Rightarrow> bool" where
  "blank_event u = (py_strip (given (up_event u)) = '''')"

definition check_update :: "ledger_update \<Rightarrow> raised option" where
  "check_update u =
     (if up_phase u = None then None
      else if blank_event u then Some (Value_error ''phase change requires an event: pass event + event_kind'')
      else if py_strip (given (up_event_kind u)) \<notin> set EVENT_KINDS then Some (Value_error ''phase change requires event_kind'')
      else None)"

definition merge_artifact :: "string \<times> json \<Rightarrow> (string, string) dict \<Rightarrow> (string, string) dict" where
  "merge_artifact kv merged = (case kv of
      (k, JStr v) \<Rightarrow> dict_set (take 128 k) (take MAX_TEXT v) (dict_pop (take 128 k) merged)
    | _ \<Rightarrow> merged)"

definition new_event :: "string \<Rightarrow> ledger_update \<Rightarrow> ledger_event" where
  "new_event now u =
     (let kind = py_strip (given (up_event_kind u)) in
      \<lparr>le_ts = now, le_kind = (if kind \<in> set EVENT_KINDS then kind else ''note''),
       le_text = take MAX_TEXT (py_strip (given (up_event u)))\<rparr>)"

definition apply_update :: "string \<Rightarrow> ledger_update \<Rightarrow> ledger_state \<Rightarrow> ledger_state" where
  "apply_update now u s =
     (let s = (if ls_created_at s = '''' then s\<lparr>ls_created_at := now\<rparr> else s);
          s = (case up_goal u of Some g \<Rightarrow> s\<lparr>ls_goal := take MAX_TEXT g\<rparr> | None \<Rightarrow> s);
          s = (case up_phase u of Some p \<Rightarrow> s\<lparr>ls_phase := take 128 p,
                  ls_finished_at := (if take 128 p \<in> set TERMINAL_PHASES then now else '''')\<rparr> | None \<Rightarrow> s);
          s = (case up_next_step u of Some n \<Rightarrow> s\<lparr>ls_next := take MAX_TEXT n\<rparr> | None \<Rightarrow> s);
          s = (if given (up_tried_approach u) = '''' then s
               else s\<lparr>ls_tried := newest MAX_TRIED (ls_tried s @ [\<lparr>te_approach = take MAX_TEXT (given (up_tried_approach u)),
                 te_rejected_because = take MAX_TEXT (given (up_tried_rejected_because u)), te_at = now\<rparr>])\<rparr>);
          s = (if up_artifacts u = [] then s
               else s\<lparr>ls_artifacts := newest MAX_ARTIFACTS (fold merge_artifact (up_artifacts u) (ls_artifacts s))\<rparr>);
          s = (if blank_event u then s else s\<lparr>ls_events := newest MAX_EVENTS (ls_events s @ [new_event now u])\<rparr>)
      in s\<lparr>ls_last_progress_at := now, ls_schema := SCHEMA_VERSION\<rparr>)"

subsection \<open>The ledgers on disk\<close>

definition strip_prefix :: "string \<Rightarrow> string \<Rightarrow> string" where
  "strip_prefix p s = (if starts_with s p then drop (length p) s else s)"

function strip_dashboards :: "string \<Rightarrow> string" where
  "strip_dashboards s = (if starts_with s ''dashboard_'' then strip_dashboards (drop 10 s) else s)"
  by pat_completeness auto
termination
  by (relation "measure length") (auto simp: starts_with_iff)

declare strip_dashboards.simps [simp del]

definition ledger_key :: "string \<Rightarrow> string" where
  "ledger_key session_key = strip_dashboards (strip_prefix ''dashboard:'' session_key)"

definition name_char :: "char \<Rightarrow> bool" where
  "name_char c = (let n = (of_char c :: nat) in 48 \<le> n \<and> n \<le> 57 \<or> 65 \<le> n \<and> n \<le> 90 \<or> 97 \<le> n \<and> n \<le> 122 \<or>
     c \<in> {CHR ''_'', CHR ''.'', CHR ''-''})"

definition store_name :: "(string \<Rightarrow> string) \<Rightarrow> string \<Rightarrow> string" where
  "store_name digest slot_key = take 80 (map (\<lambda>c. if name_char c then c else CHR ''_'') slot_key) @ ''-'' @ take 8 (digest slot_key)"

definition valid_slot_key :: "string \<Rightarrow> bool" where
  "valid_slot_key k = (k \<noteq> '''' \<and> CHR 0x00 \<notin> set k \<and> CHR ''/'' \<notin> set k \<and> CHR 0x5C \<notin> set k)"

record ledger_folder =
  lf_slot_key :: "string option"
  lf_state :: ledger_file

type_synonym ledger_root = "(string, ledger_folder) dict"

definition folder_of :: "ledger_root \<Rightarrow> string \<Rightarrow> ledger_folder" where
  "folder_of tree name = (case dict_get tree name of Some f \<Rightarrow> f | None \<Rightarrow> \<lparr>lf_slot_key = None, lf_state = Absent\<rparr>)"

definition read_state :: "decoder \<Rightarrow> (string \<Rightarrow> string) \<Rightarrow> ledger_root \<Rightarrow> string \<Rightarrow> raised + ledger_state" where
  "read_state dec digest tree slot_key =
     (if \<not> valid_slot_key slot_key then Inr empty_ledger
      else read_unlocked dec (lf_state (folder_of tree (store_name digest slot_key))))"

definition has_ledger :: "(string \<Rightarrow> string) \<Rightarrow> ledger_root \<Rightarrow> string \<Rightarrow> bool" where
  "has_ledger digest tree slot_key =
     (valid_slot_key slot_key \<and> lf_state (folder_of tree (store_name digest slot_key)) \<noteq> Absent)"

text \<open>What the world answers to one update: the clock, the lock, the two writes.\<close>

record slot_world =
  lw_now :: string
  lw_lock :: bool
  lw_key_written :: bool
  lw_state_written :: bool

definition record_update :: "decoder \<Rightarrow> (pyfloat \<Rightarrow> string) \<Rightarrow> (string \<Rightarrow> string) \<Rightarrow> string \<Rightarrow> ledger_update \<Rightarrow> slot_world \<Rightarrow>
    ledger_root \<Rightarrow> (raised + ledger_state) \<times> ledger_root" where
  "record_update dec fl digest slot_key u w tree =
     (case check_update u of
        Some e \<Rightarrow> (Inl e, tree)
      | None \<Rightarrow>
        if \<not> valid_slot_key slot_key then (Inl (Value_error ''Invalid slot key for ledger''), tree)
        else let name = store_name digest slot_key; f = folder_of tree name; tree = dict_set name f tree in
        if \<not> lw_lock w then (Inl (Other_error ''ledger lock is held by another process; try again''), tree)
        else (case read_unlocked dec (lf_state f) of
            Inl e \<Rightarrow> (Inl e, tree)
          | Inr old \<Rightarrow>
              let f = (if ls_created_at old = '''' \<and> lw_key_written w then f\<lparr>lf_slot_key := Some (slot_key @ [CHR 0x0A])\<rparr> else f);
                  tree = dict_set name f tree in
              (case serialize_bounded fl (apply_update (lw_now w) u old) of
                 Inl e \<Rightarrow> (Inl e, tree)
               | Inr (blob, s) \<Rightarrow>
                   if lw_state_written w then (Inr s, dict_set name (f\<lparr>lf_state := Document (blob @ [CHR 0x0A])\<rparr>) tree)
                   else (Inl (Other_error ''the state file could not be written''), tree))))"

definition purge :: "(string \<Rightarrow> string) \<Rightarrow> string \<Rightarrow> ledger_root \<Rightarrow> ledger_root" where
  "purge digest slot_key tree = (if valid_slot_key slot_key then dict_pop (store_name digest slot_key) tree else tree)"

definition matches_candidate :: "string list \<Rightarrow> string list \<Rightarrow> (string \<Rightarrow> string) \<Rightarrow> ledger_folder \<Rightarrow> bool" where
  "matches_candidate exact_keys folded_keys fold_key f = (case lf_slot_key f of
      None \<Rightarrow> False
    | Some t \<Rightarrow> let key = py_strip t in key \<noteq> '''' \<and> (key \<in> set exact_keys \<or> fold_key key \<in> set folded_keys))"

definition purge_matching :: "string list \<Rightarrow> string list \<Rightarrow> (string \<Rightarrow> string) \<Rightarrow> ledger_root \<Rightarrow> nat \<times> ledger_root" where
  "purge_matching exact_keys folded_keys fold_key tree =
     (length (filter (\<lambda>(n, f). matches_candidate exact_keys folded_keys fold_key f) tree),
      filter (\<lambda>(n, f). \<not> matches_candidate exact_keys folded_keys fold_key f) tree)"

subsection \<open>The snapshot\<close>

definition SNAPSHOT_MAX_CHARS :: nat where "SNAPSHOT_MAX_CHARS = 1600"
definition SNAPSHOT_FIELD_MAX :: nat where "SNAPSHOT_FIELD_MAX = 300"
definition SNAPSHOT_TRIED_TAIL :: nat where "SNAPSHOT_TRIED_TAIL = 3"

definition snapshot_field :: "string \<Rightarrow> string" where
  "snapshot_field v = take SNAPSHOT_FIELD_MAX (join_with '' '' (tokens_by py_isspace [] v))"

definition snapshot_lines :: "ledger_state \<Rightarrow> codepoints list" where
  "snapshot_lines s =
     [cps ''[work ledger '' @ [8212] @ cps '' durable state for this session; authoritative over memory of prior cycles]''] @
     (if ls_goal s = '''' then [] else [cps (''goal: '' @ snapshot_field (ls_goal s))]) @
     (if ls_phase s = '''' then [] else [cps (''phase: '' @ snapshot_field (ls_phase s))]) @
     (if ls_next s = '''' then [] else [cps (''next: '' @ snapshot_field (ls_next s))]) @
     map (\<lambda>t. cps (''tried: '' @ snapshot_field (te_approach t) @
       (if te_rejected_because t = '''' then '''' else '' (rejected: '' @ snapshot_field (te_rejected_because t) @ '')'')))
       (newest SNAPSHOT_TRIED_TAIL (ls_tried s)) @
     map (\<lambda>(k, v). cps (''artifact '' @ k @ '': '' @ snapshot_field v)) (ls_artifacts s)"

definition render_snapshot :: "decoder \<Rightarrow> (string \<Rightarrow> string) \<Rightarrow> ledger_root \<Rightarrow> string \<Rightarrow> raised + codepoints" where
  "render_snapshot dec digest tree slot_key =
     (if \<not> has_ledger digest tree slot_key then Inr []
      else (case read_state dec digest tree slot_key of
          Inl e \<Rightarrow> Inl e
        | Inr s \<Rightarrow>
            if ls_goal s = '''' \<and> ls_phase s = '''' \<and> ls_next s = '''' \<and> ls_tried s = [] \<and> ls_artifacts s = [] then Inr []
            else if ls_phase s \<in> set TERMINAL_PHASES then Inr []
            else let block = join_with [NL] (snapshot_lines s) in
              Inr (if SNAPSHOT_MAX_CHARS < length block then take (SNAPSHOT_MAX_CHARS - 1) block @ [8230] else block)))"

subsection \<open>Well-formed records\<close>

definition entry_ok :: "tried_entry \<Rightarrow> bool" where
  "entry_ok t = (length (te_approach t) \<le> MAX_TEXT \<and> length (te_rejected_because t) \<le> MAX_TEXT \<and> length (te_at t) \<le> 64)"

definition event_ok :: "ledger_event \<Rightarrow> bool" where
  "event_ok e = (length (le_ts e) \<le> 64 \<and> length (le_kind e) \<le> 32 \<and> length (le_text e) \<le> MAX_TEXT)"

definition artifacts_ok :: "(string, string) dict \<Rightarrow> bool" where
  "artifacts_ok d = (dict_ok d \<and> (\<forall>(k, v) \<in> set d. length k \<le> 128 \<and> length v \<le> MAX_TEXT))"

definition ledger_ok :: "ledger_state \<Rightarrow> bool" where
  "ledger_ok s = (0 < ls_schema s \<and> list_all (\<lambda>t. length t \<le> MAX_TEXT)
       [ls_goal s, ls_phase s, ls_next s, ls_created_at s, ls_last_progress_at s, ls_finished_at s] \<and>
     length (ls_tried s) \<le> MAX_TRIED \<and> list_all entry_ok (ls_tried s) \<and>
     length (ls_events s) \<le> MAX_EVENTS \<and> list_all event_ok (ls_events s) \<and>
     length (ls_artifacts s) \<le> MAX_ARTIFACTS \<and> artifacts_ok (ls_artifacts s) \<and>
     dict_ok (ls_extra s) \<and> (\<forall>(k, v) \<in> set (ls_extra s). k \<notin> set known_fields))"

lemma newest_length: "length (newest n xs) \<le> n"
  by (simp add: newest_def)

lemma newest_all: "list_all P xs \<Longrightarrow> list_all P (newest n xs)"
  by (auto simp: newest_def list_all_iff dest: in_set_dropD)

lemma newest_short [simp]: "length xs \<le> n \<Longrightarrow> newest n xs = xs"
  by (simp add: newest_def)

lemma newest_snoc: "0 < n \<Longrightarrow> newest n (xs @ [x]) = newest (n - 1) xs @ [x]"
  by (simp add: newest_def)

lemma clamp_length [simp]: "length (clamp n v) \<le> n"
  by (auto simp: clamp_def split: option.splits json.splits)

lemma coerce_tried_ok: "list_all entry_ok (concat (map coerce_tried xs))"
  by (induction xs) (auto simp: coerce_tried_def entry_ok_def split: json.splits option.splits)

lemma coerce_event_ok: "list_all event_ok (concat (map coerce_event xs))"
  by (induction xs) (auto simp: coerce_event_def event_ok_def split: json.splits option.splits)

lemma artifacts_ok_Nil: "artifacts_ok []"
  by (simp add: artifacts_ok_def)

lemma artifacts_ok_set: "artifacts_ok d \<Longrightarrow> artifacts_ok (dict_set (take 128 k) (take MAX_TEXT v) d)"
  using set_dict_set [of "take 128 k" "take MAX_TEXT v" d] by (fastforce simp: artifacts_ok_def)

lemma artifacts_ok_pop: "artifacts_ok d \<Longrightarrow> artifacts_ok (dict_pop k d)"
  using set_dict_pop [of k d] by (fastforce simp: artifacts_ok_def)

lemma artifacts_ok_newest: "artifacts_ok d \<Longrightarrow> artifacts_ok (newest n d)"
  by (auto simp: artifacts_ok_def newest_def distinct_drop simp flip: drop_map dest: in_set_dropD)

lemma coerce_artifacts_ok:
  "artifacts_ok arts \<Longrightarrow> length arts \<le> MAX_ARTIFACTS \<Longrightarrow>
     artifacts_ok (coerce_artifacts d arts) \<and> length (coerce_artifacts d arts) \<le> MAX_ARTIFACTS"
proof (induction d arts rule: coerce_artifacts.induct)
  case (2 k v d arts)
  have "length arts < MAX_ARTIFACTS \<Longrightarrow> length (dict_set (take 128 k) x arts) \<le> MAX_ARTIFACTS" for x
    using dict_set_length_le [of "take 128 k" x arts] by linarith
  then show ?case using 2 by (cases v) (simp_all add: artifacts_ok_set)
qed simp

definition object_ok :: "json \<Rightarrow> bool" where
  "object_ok v = (case v of JObj d \<Rightarrow> dict_ok d | _ \<Rightarrow> True)"

lemma coerce_ok:
  assumes "object_ok raw"
  shows "ledger_ok (coerce_state raw)"
proof (cases raw)
  case (JObj d)
  let ?t = "ls_tried (coerce_state raw)" and ?e = "ls_events (coerce_state raw)" and ?a = "ls_artifacts (coerce_state raw)"
  have "length ?t \<le> MAX_TRIED \<and> list_all entry_ok ?t"
    by (simp add: coerce_state_def JObj newest_length newest_all coerce_tried_ok split: option.split json.split)
  moreover have "length ?e \<le> MAX_EVENTS \<and> list_all event_ok ?e"
    by (simp add: coerce_state_def JObj newest_length newest_all coerce_event_ok split: option.split json.split)
  moreover have "length ?a \<le> MAX_ARTIFACTS \<and> artifacts_ok ?a"
    using coerce_artifacts_ok [OF artifacts_ok_Nil] by (simp add: coerce_state_def JObj artifacts_ok_Nil split: option.split json.split)
  moreover have "0 < ls_schema (coerce_state raw)"
    by (simp add: coerce_state_def JObj SCHEMA_VERSION_def split: option.split json.split)
  moreover have "dict_ok (ls_extra (coerce_state raw)) \<and> (\<forall>(k, v) \<in> set (ls_extra (coerce_state raw)). k \<notin> set known_fields)"
    using assms by (auto simp: coerce_state_def JObj object_ok_def intro: distinct_map_filter)
  moreover have "list_all (\<lambda>t. length t \<le> MAX_TEXT) (let s = coerce_state raw in
      [ls_goal s, ls_phase s, ls_next s, ls_created_at s, ls_last_progress_at s, ls_finished_at s])"
    by (simp add: coerce_state_def JObj)
  ultimately show ?thesis unfolding ledger_ok_def Let_def by blast
qed (simp_all add: coerce_state_def ledger_ok_def empty_ledger_def SCHEMA_VERSION_def artifacts_ok_def)

subsection \<open>The reader inverts the writer\<close>

lemma coerce_tried_json [simp]: "entry_ok t \<Longrightarrow> coerce_tried (tried_json t) = [t]"
  by (simp add: coerce_tried_def tried_json_def clamp_def entry_ok_def)

lemma coerce_event_json [simp]: "event_ok e \<Longrightarrow> coerce_event (event_json e) = [e]"
  by (simp add: coerce_event_def event_json_def clamp_def event_ok_def)

lemma coerce_tried_list: "list_all entry_ok ts \<Longrightarrow> concat (map (coerce_tried \<circ> tried_json) ts) = ts"
  by (induction ts) auto

lemma coerce_event_list: "list_all event_ok es \<Longrightarrow> concat (map (coerce_event \<circ> event_json) es) = es"
  by (induction es) auto

lemma coerce_artifacts_json:
  "artifacts_ok (arts @ d) \<Longrightarrow> length (arts @ d) \<le> MAX_ARTIFACTS \<Longrightarrow>
     coerce_artifacts (map (\<lambda>(k, v). (k, JStr v)) d) arts = arts @ d"
proof (induction d arbitrary: arts)
  case (Cons kv d)
  obtain k v where kv: "kv = (k, v)" by (cases kv)
  have "k \<notin> set (dict_keys arts)" "length k \<le> 128" "length v \<le> MAX_TEXT"
    using Cons.prems(1) by (auto simp: artifacts_ok_def kv)
  then show ?case using Cons.IH [of "arts @ [(k, v)]"] Cons.prems by (simp add: kv)
qed simp

lemma coerce_state_json: "ledger_ok s \<Longrightarrow> coerce_state (state_json s) = s"
proof -
  assume ok: "ledger_ok s"
  have "coerce_artifacts (map (\<lambda>(k, v). (k, JStr v)) (ls_artifacts s)) [] = ls_artifacts s"
    using coerce_artifacts_json [of "[]" "ls_artifacts s"] ok by (simp add: ledger_ok_def)
  then have a: "coerce_artifacts (map (\<lambda>(k, v). (k, JStr v)) (ls_artifacts s)) [] = ls_artifacts s" .
  have x: "filter (\<lambda>(k, v). k \<notin> set known_fields) (ls_extra s) = ls_extra s"
    using ok by (simp add: ledger_ok_def case_prod_unfold)
  have t: "newest MAX_TRIED (concat (map (coerce_tried \<circ> tried_json) (ls_tried s))) = ls_tried s"
    "newest MAX_EVENTS (concat (map (coerce_event \<circ> event_json) (ls_events s))) = ls_events s"
    using ok by (simp_all add: ledger_ok_def coerce_tried_list coerce_event_list)
  have l: "length (ls_goal s) \<le> MAX_TEXT" "length (ls_phase s) \<le> MAX_TEXT" "length (ls_next s) \<le> MAX_TEXT"
    "length (ls_created_at s) \<le> MAX_TEXT" "length (ls_last_progress_at s) \<le> MAX_TEXT" "length (ls_finished_at s) \<le> MAX_TEXT"
    "0 < ls_schema s"
    using ok by (simp_all add: ledger_ok_def)
  show ?thesis
    by (rule ledger_state.equality)
      (simp_all add: coerce_state_def state_json_def artifacts_json_def clamp_def a t l x, simp_all add: known_fields_def)
qed

subsection \<open>The document fits\<close>

lemma utf8_size_simps [simp]: "utf8_size [] = 0" "utf8_size (a @ b) = utf8_size a + utf8_size b"
  "utf8_size (c # s) = (if of_char c < (128::nat) then 1 else 2) + utf8_size s"
  by (simp_all add: utf8_size_def)

lemma utf8_size_join: "utf8_size (join_with sep ws) \<le> (\<Sum>w\<leftarrow>ws. utf8_size sep + utf8_size w)"
  by (induction sep ws rule: join_with.induct) auto

lemma hex_char_size: "n < 16 \<Longrightarrow> utf8_size [hex_char n] = 1"
  by (auto simp: hex_char_def)

lemma json_escape_size: "utf8_size (json_escape c) \<le> 6"
proof (cases "of_char c < (32::nat)")
  case True
  then have "utf8_size [hex_char (of_char c div 16), hex_char (of_char c mod 16)] = 2"
    using hex_char_size [of "of_char c div 16"] hex_char_size [of "of_char c mod 16"] by simp
  then show ?thesis by (simp add: json_escape_def Let_def)
qed (simp add: json_escape_def Let_def)

lemma json_string_size: "utf8_size (json_string s) \<le> 6 * length s + 2"
proof -
  have "utf8_size (concat (map json_escape s)) \<le> 6 * length s"
    by (induction s) (use json_escape_size in \<open>auto intro: add_mono\<close>)
  then show ?thesis by (simp add: json_string_def)
qed

lemma object_size: "utf8_size (json_text fl (JObj d)) \<le> 2 + (\<Sum>(k, v)\<leftarrow>d. utf8_size (json_string k) + utf8_size (json_text fl v) + 4)"
proof -
  have "(\<Sum>w\<leftarrow>map (\<lambda>(k, v). json_string k @ '': '' @ json_text fl v) d. utf8_size '', '' + utf8_size w)
      = (\<Sum>(k, v)\<leftarrow>d. utf8_size (json_string k) + utf8_size (json_text fl v) + 4)"
    by (induction d) auto
  then show ?thesis
    using utf8_size_join [of "'', ''" "map (\<lambda>(k, v). json_string k @ '': '' @ json_text fl v) d"] by simp
qed

lemma artifacts_size:
  assumes "artifacts_ok d" "length d \<le> MAX_ARTIFACTS"
  shows "utf8_size (json_text fl (artifacts_json d)) \<le> 410000"
proof -
  have "(\<Sum>(k, v)\<leftarrow>map (\<lambda>(k, v). (k, JStr v)) d. utf8_size (json_string k) + utf8_size (json_text fl v) + 4) \<le> length d * 12776"
    using assms(1)
  proof (induction d)
    case (Cons kv d)
    obtain k v where kv: "kv = (k, v)" by (cases kv)
    have "length k \<le> 128" "length v \<le> 2000" "artifacts_ok d" using Cons.prems by (auto simp: artifacts_ok_def kv MAX_TEXT_def)
    then show ?case using Cons.IH json_string_size [of k] json_string_size [of v] by (simp add: kv)
  qed simp
  then show ?thesis using object_size [of fl "map (\<lambda>(k, v). (k, JStr v)) d"] assms(2)
    by (simp add: artifacts_json_def MAX_ARTIFACTS_def)
qed

lemma core_fits:
  assumes "ledger_ok s" "ls_schema s = SCHEMA_VERSION" "ls_events s = []" "ls_tried s = []" "ls_extra s = []"
  shows "utf8_size (json_text fl (state_json s)) \<le> byte_budget"
proof -
  have f: "utf8_size (json_string t) \<le> 12002" if "length t \<le> MAX_TEXT" for t
    using json_string_size [of t] that by (simp add: MAX_TEXT_def)
  have l: "utf8_size (json_string (ls_goal s)) \<le> 12002" "utf8_size (json_string (ls_phase s)) \<le> 12002"
    "utf8_size (json_string (ls_next s)) \<le> 12002" "utf8_size (json_string (ls_created_at s)) \<le> 12002"
    "utf8_size (json_string (ls_last_progress_at s)) \<le> 12002" "utf8_size (json_string (ls_finished_at s)) \<le> 12002"
    using assms(1) f by (simp_all add: ledger_ok_def)
  have a: "utf8_size (json_text fl (artifacts_json (ls_artifacts s))) \<le> 410000"
    using artifacts_size assms(1) by (simp add: ledger_ok_def)
  have "list_all (\<lambda>k. utf8_size (json_string k) \<le> 110) known_fields"
    unfolding list_all_iff
  proof
    fix k assume "k \<in> set known_fields"
    then have "length k \<le> 18" by (auto simp: known_fields_def)
    then show "utf8_size (json_string k) \<le> 110" using json_string_size [of k] by simp
  qed
  then have k: "utf8_size (json_string ''schema'') \<le> 110" "utf8_size (json_string ''goal'') \<le> 110" "utf8_size (json_string ''phase'') \<le> 110"
    "utf8_size (json_string ''next'') \<le> 110" "utf8_size (json_string ''tried'') \<le> 110" "utf8_size (json_string ''artifacts'') \<le> 110"
    "utf8_size (json_string ''events'') \<le> 110" "utf8_size (json_string ''created_at'') \<le> 110"
    "utf8_size (json_string ''last_progress_at'') \<le> 110" "utf8_size (json_string ''finished_at'') \<le> 110"
    by (simp_all add: known_fields_def)
  have v: "utf8_size (show_int SCHEMA_VERSION) = 1" by (simp add: SCHEMA_VERSION_def show_int_def show_nat.simps)
  show ?thesis
    using l a k v object_size [of fl "[(''schema'', JInt (ls_schema s)), (''goal'', JStr (ls_goal s)), (''phase'', JStr (ls_phase s)),
     (''next'', JStr (ls_next s)), (''tried'', JArr []), (''artifacts'', artifacts_json (ls_artifacts s)),
     (''events'', JArr []), (''created_at'', JStr (ls_created_at s)),
     (''last_progress_at'', JStr (ls_last_progress_at s)), (''finished_at'', JStr (ls_finished_at s))]"] assms(2-5)
    by (simp add: state_json_def byte_budget_def MAX_STATE_BYTES_def del: json_text.simps(7))
qed

definition core :: "ledger_state \<Rightarrow> ledger_state" where
  "core s = s\<lparr>ls_events := [], ls_tried := [], ls_extra := []\<rparr>"

definition evicts_to :: "ledger_state \<Rightarrow> ledger_state \<Rightarrow> bool" where
  "evicts_to s s' = (core s' = core s \<and> (\<exists>i. ls_events s' = drop i (ls_events s)) \<and> (\<exists>j. ls_tried s' = drop j (ls_tried s)) \<and>
     (ls_tried s' \<noteq> ls_tried s \<longrightarrow> ls_events s' = []) \<and> ls_extra s' \<in> {ls_extra s, []})"

lemma evicts_refl: "evicts_to s s"
  by (auto simp: evicts_to_def intro: exI [of _ 0])

lemma evicts_step:
  "evicts_to (s\<lparr>ls_events := tl (ls_events s)\<rparr>) s' \<Longrightarrow> evicts_to s s'"
  "ls_events s = [] \<Longrightarrow> evicts_to (s\<lparr>ls_tried := tl (ls_tried s)\<rparr>) s' \<Longrightarrow> evicts_to s s'"
  "evicts_to (s\<lparr>ls_extra := []\<rparr>) s' \<Longrightarrow> evicts_to s s'"
  by (auto simp: evicts_to_def core_def simp flip: drop_Suc)

lemma list_all_tl: "list_all P xs \<Longrightarrow> list_all P (tl xs)"
  by (cases xs) auto

lemma ledger_ok_evict:
  assumes "ledger_ok s"
  shows "ledger_ok (s\<lparr>ls_events := tl (ls_events s)\<rparr>)" "ledger_ok (s\<lparr>ls_tried := tl (ls_tried s)\<rparr>)" "ledger_ok (s\<lparr>ls_extra := []\<rparr>)"
  using assms by (auto simp: ledger_ok_def list_all_tl intro: order_trans [OF diff_le_self])

lemma serialize_cases:
  assumes "\<not> utf8_size (json_text fl (state_json s)) \<le> byte_budget"
  shows "ls_events s \<noteq> [] \<Longrightarrow> serialize_bounded fl s = serialize_bounded fl (s\<lparr>ls_events := tl (ls_events s)\<rparr>)"
    "ls_events s = [] \<Longrightarrow> ls_tried s \<noteq> [] \<Longrightarrow> serialize_bounded fl s = serialize_bounded fl (s\<lparr>ls_tried := tl (ls_tried s)\<rparr>)"
    "ls_events s = [] \<Longrightarrow> ls_tried s = [] \<Longrightarrow> ls_extra s \<noteq> [] \<Longrightarrow> serialize_bounded fl s = serialize_bounded fl (s\<lparr>ls_extra := []\<rparr>)"
  by (subst serialize_bounded.simps, use assms in simp)+

lemma serialize_fits:
  assumes "ledger_ok s" "ls_schema s = SCHEMA_VERSION"
  shows "\<exists>s'. serialize_bounded fl s = Inr (json_text fl (state_json s'), s') \<and> utf8_size (json_text fl (state_json s')) \<le> byte_budget \<and>
    ledger_ok s' \<and> evicts_to s s'"
  using assms
proof (induction fl s rule: serialize_bounded.induct)
  case (1 fl s)
  note ok = ledger_ok_evict [OF 1(4)]
  consider "utf8_size (json_text fl (state_json s)) \<le> byte_budget"
    | "\<not> utf8_size (json_text fl (state_json s)) \<le> byte_budget" "ls_events s \<noteq> []"
    | "\<not> utf8_size (json_text fl (state_json s)) \<le> byte_budget" "ls_events s = []" "ls_tried s \<noteq> []"
    | "\<not> utf8_size (json_text fl (state_json s)) \<le> byte_budget" "ls_events s = []" "ls_tried s = []" "ls_extra s \<noteq> []"
    | "\<not> utf8_size (json_text fl (state_json s)) \<le> byte_budget" "ls_events s = []" "ls_tried s = []" "ls_extra s = []"
    by blast
  then show ?case
  proof cases
    case 1
    then show ?thesis using \<open>ledger_ok s\<close> evicts_refl by (subst serialize_bounded.simps) auto
  next
    case 2
    from "1.IH"(1) [OF refl 2 ok(1)] 1(5) show ?thesis unfolding serialize_cases(1) [OF 2] by (auto intro: evicts_step(1))
  next
    case 3
    from "1.IH"(2) [OF refl 3(1) _ 3(3) ok(2)] 1(5) 3(2) show ?thesis unfolding serialize_cases(2) [OF 3] by (auto intro: evicts_step(2))
  next
    case 4
    from "1.IH"(3) [OF refl 4(1) _ _ 4(4) ok(3)] 1(5) 4(2,3) show ?thesis unfolding serialize_cases(3) [OF 4] by (auto intro: evicts_step(3))
  next
    case 5
    then show ?thesis using core_fits [OF 1(4,5)] by simp
  qed
qed

subsection \<open>One update\<close>

lemma artifacts_ok_merge: "artifacts_ok d \<Longrightarrow> artifacts_ok (fold merge_artifact kvs d)"
proof (induction kvs arbitrary: d)
  case (Cons kv kvs)
  obtain k v where "kv = (k, v)" by (cases kv)
  then show ?case using Cons artifacts_ok_set [OF artifacts_ok_pop] by (cases v) (auto simp: merge_artifact_def)
qed simp

lemma event_kind_length: "k \<in> set EVENT_KINDS \<Longrightarrow> length k \<le> 32"
  by (auto simp: EVENT_KINDS_def)

lemma new_event_ok: "length now \<le> 64 \<Longrightarrow> event_ok (new_event now u)"
  using event_kind_length by (simp add: event_ok_def new_event_def Let_def)

lemma ledger_ok_fields:
  assumes "ledger_ok s"
  shows "length t \<le> MAX_TEXT \<Longrightarrow> ledger_ok (s\<lparr>ls_goal := t\<rparr>)" "length t \<le> MAX_TEXT \<Longrightarrow> ledger_ok (s\<lparr>ls_next := t\<rparr>)"
    "length t \<le> MAX_TEXT \<Longrightarrow> ledger_ok (s\<lparr>ls_created_at := t\<rparr>)" "length t \<le> MAX_TEXT \<Longrightarrow> ledger_ok (s\<lparr>ls_last_progress_at := t\<rparr>)"
    "length t \<le> MAX_TEXT \<Longrightarrow> length f \<le> MAX_TEXT \<Longrightarrow> ledger_ok (s\<lparr>ls_phase := t, ls_finished_at := f\<rparr>)"
    "0 < n \<Longrightarrow> ledger_ok (s\<lparr>ls_schema := n\<rparr>)"
    "list_all entry_ok ts \<Longrightarrow> ledger_ok (s\<lparr>ls_tried := newest MAX_TRIED ts\<rparr>)"
    "list_all event_ok es \<Longrightarrow> ledger_ok (s\<lparr>ls_events := newest MAX_EVENTS es\<rparr>)"
    "artifacts_ok d \<Longrightarrow> ledger_ok (s\<lparr>ls_artifacts := newest MAX_ARTIFACTS d\<rparr>)"
  using assms by (simp_all add: ledger_ok_def newest_length newest_all artifacts_ok_newest)

lemma ledger_ok_parts:
  "ledger_ok s \<Longrightarrow> list_all entry_ok (ls_tried s)" "ledger_ok s \<Longrightarrow> list_all event_ok (ls_events s)" "ledger_ok s \<Longrightarrow> artifacts_ok (ls_artifacts s)"
  by (simp_all add: ledger_ok_def)

lemma apply_update_ok:
  assumes "ledger_ok s" "length now \<le> 64"
  shows "ledger_ok (apply_update now u s)" "ls_schema (apply_update now u s) = SCHEMA_VERSION"
proof -
  define s1 where "s1 = (if ls_created_at s = [] then s\<lparr>ls_created_at := now\<rparr> else s)"
  define s2 where "s2 = (case up_goal u of Some g \<Rightarrow> s1\<lparr>ls_goal := take MAX_TEXT g\<rparr> | None \<Rightarrow> s1)"
  define s3 where "s3 = (case up_phase u of Some p \<Rightarrow> s2\<lparr>ls_phase := take 128 p,
                  ls_finished_at := (if take 128 p \<in> set TERMINAL_PHASES then now else [])\<rparr> | None \<Rightarrow> s2)"
  define s4 where "s4 = (case up_next_step u of Some n \<Rightarrow> s3\<lparr>ls_next := take MAX_TEXT n\<rparr> | None \<Rightarrow> s3)"
  define s5 where "s5 = (if given (up_tried_approach u) = [] then s4
               else s4\<lparr>ls_tried := newest MAX_TRIED (ls_tried s4 @ [\<lparr>te_approach = take MAX_TEXT (given (up_tried_approach u)),
                 te_rejected_because = take MAX_TEXT (given (up_tried_rejected_because u)), te_at = now\<rparr>])\<rparr>)"
  define s6 where "s6 = (if up_artifacts u = [] then s5
               else s5\<lparr>ls_artifacts := newest MAX_ARTIFACTS (fold merge_artifact (up_artifacts u) (ls_artifacts s5))\<rparr>)"
  define s7 where "s7 = (if blank_event u then s6 else s6\<lparr>ls_events := newest MAX_EVENTS (ls_events s6 @ [new_event now u])\<rparr>)"
  have eq: "apply_update now u s = s7\<lparr>ls_last_progress_at := now, ls_schema := SCHEMA_VERSION\<rparr>"
    unfolding apply_update_def Let_def s1_def s2_def s3_def s4_def s5_def s6_def s7_def ..
  have n: "length now \<le> MAX_TEXT" "(128::nat) \<le> MAX_TEXT" using assms(2) by (simp_all add: MAX_TEXT_def)
  note f = ledger_ok_fields
  have 1: "ledger_ok s1" unfolding s1_def using f(3) [OF assms(1) n(1)] assms(1) by simp
  have 2: "ledger_ok s2" unfolding s2_def using f(1) [OF 1] 1 by (simp split: option.split)
  have "ledger_ok (s2\<lparr>ls_phase := take 128 p, ls_finished_at := (if P then now else [])\<rparr>)" for p P
    using n by (intro f(5) [OF 2]) auto
  then have 3: "ledger_ok s3" unfolding s3_def using 2 by (simp split: option.split)
  have 4: "ledger_ok s4" unfolding s4_def using f(2) [OF 3] 3 by (simp split: option.split)
  have 5: "ledger_ok s5" unfolding s5_def using 4 ledger_ok_parts(1) [OF 4] assms(2) by (simp add: f(7) entry_ok_def)
  have 6: "ledger_ok s6" unfolding s6_def using 5 artifacts_ok_merge [OF ledger_ok_parts(3) [OF 5]] by (simp add: f(9))
  have 7: "ledger_ok s7" unfolding s7_def using 6 ledger_ok_parts(2) [OF 6] new_event_ok [OF assms(2)] by (simp add: f(8))
  show "ledger_ok (apply_update now u s)" unfolding eq by (intro f(6) f(4) 7 n) (simp add: SCHEMA_VERSION_def)
  show "ls_schema (apply_update now u s) = SCHEMA_VERSION" by (simp add: eq)
qed

lemma apply_update_phase:
  "up_phase u = None \<Longrightarrow> ls_phase (apply_update now u s) = ls_phase s \<and> ls_finished_at (apply_update now u s) = ls_finished_at s"
  "up_phase u = Some p \<Longrightarrow> ls_phase (apply_update now u s) = take 128 p \<and>
     ls_finished_at (apply_update now u s) = (if take 128 p \<in> set TERMINAL_PHASES then now else [])"
  by (simp_all add: apply_update_def Let_def split: option.split)

lemma apply_update_events:
  "ls_events (apply_update now u s) = (if blank_event u then ls_events s else newest MAX_EVENTS (ls_events s @ [new_event now u]))"
  by (simp add: apply_update_def Let_def split: option.split)

lemma apply_update_artifacts:
  "ls_artifacts (apply_update now u s) = (if up_artifacts u = [] then ls_artifacts s
     else newest MAX_ARTIFACTS (fold merge_artifact (up_artifacts u) (ls_artifacts s)))"
  by (simp add: apply_update_def Let_def split: option.split)

lemma apply_update_tried:
  "given (up_tried_approach u) = [] \<Longrightarrow> ls_tried (apply_update now u s) = ls_tried s"
  by (simp add: apply_update_def Let_def split: option.split)

subsection \<open>One transaction\<close>

definition dec_dicts :: "decoder \<Rightarrow> bool" where
  "dec_dicts dec = (\<forall>t v e. json_loads dec t = Decoded v e \<longrightarrow> object_ok v)"

lemma read_ok: "dec_dicts dec \<Longrightarrow> read_unlocked dec f = Inr s \<Longrightarrow> ledger_ok s"
proof -
  assume d: "dec_dicts dec" and r: "read_unlocked dec f = Inr s"
  have "ledger_ok empty_ledger" using coerce_ok [of JNull] by (simp add: coerce_state_def object_ok_def)
  then show ?thesis using r d coerce_ok
    by (auto simp: read_unlocked_def dec_dicts_def split: ledger_file.splits if_splits decoded.splits)
qed

lemma folder_of_set: "folder_of (dict_set n f tree) m = (if m = n then f else folder_of tree m)"
  by (simp add: folder_of_def dict_simps)

lemma read_state_valid:
  "valid_slot_key k \<Longrightarrow> read_state dec digest tree k = read_unlocked dec (lf_state (folder_of tree (store_name digest k)))"
  by (simp add: read_state_def)

lemma record_succeeds:
  assumes "record_update dec fl digest k u w tree = (Inr s, tree')" "dec_dicts dec" "length (lw_now w) \<le> 64"
  obtains old where "check_update u = None" "valid_slot_key k" "read_state dec digest tree k = Inr old" "ledger_ok old"
    "evicts_to (apply_update (lw_now w) u old) s" "ledger_ok s"
    "utf8_size (json_text fl (state_json s)) \<le> byte_budget"
    "lf_state (folder_of tree' (store_name digest k)) = Document (json_text fl (state_json s) @ [CHR 0x0A])"
proof -
  have v: "check_update u = None" "valid_slot_key k"
    using assms(1) by (auto simp: record_update_def split: option.splits if_splits)
  let ?n = "store_name digest k"
  obtain old where old: "read_unlocked dec (lf_state (folder_of tree ?n)) = Inr old"
    using assms(1) v by (auto simp: record_update_def Let_def split: if_splits sum.splits)
  have ok: "ledger_ok old" using read_ok [OF assms(2) old] .
  from serialize_fits [OF apply_update_ok [OF this assms(3)]]
  obtain s' where s': "serialize_bounded fl (apply_update (lw_now w) u old) = Inr (json_text fl (state_json s'), s')"
      "utf8_size (json_text fl (state_json s')) \<le> byte_budget" "ledger_ok s'" "evicts_to (apply_update (lw_now w) u old) s'" by blast
  have "s' = s" "lf_state (folder_of tree' ?n) = Document (json_text fl (state_json s) @ [CHR 0x0A])"
    using assms(1) v old s'(1) by (auto simp: record_update_def Let_def folder_of_set split: if_splits)
  then show ?thesis using that v old ok s' by (simp add: read_state_valid)
qed

subsection \<open>What an update promises\<close>

definition clamp_artifact :: "string \<times> json \<Rightarrow> string \<times> string" where
  "clamp_artifact kv = (take 128 (fst kv), clamp MAX_TEXT (Some (snd kv)))"

lemma fold_merge_artifacts:
  assumes "\<forall>kv \<in> set kvs. \<exists>v. snd kv = JStr v" "distinct (map (fst \<circ> clamp_artifact) kvs)"
  shows "fold merge_artifact kvs d = filter (\<lambda>p. fst p \<notin> fst ` clamp_artifact ` set kvs) d @ map clamp_artifact kvs"
  using assms
proof (induction kvs arbitrary: d)
  case (Cons kv kvs)
  obtain k v where kv: "kv = (k, JStr v)" using Cons.prems(1) by (cases kv) auto
  let ?k = "take 128 k"
  have c: "clamp_artifact kv = (?k, take MAX_TEXT v)" by (simp add: kv clamp_artifact_def clamp_def)
  have "merge_artifact kv d = filter (\<lambda>p. fst p \<noteq> ?k) d @ [(?k, take MAX_TEXT v)]"
    by (simp add: kv merge_artifact_def AList.delete_eq) (subst dict_set_new; auto simp: case_prod_unfold intro!: filter_cong)
  moreover have "?k \<notin> fst ` clamp_artifact ` set kvs" using Cons.prems(2) c by (auto simp: image_image)
  ultimately show ?case using Cons.IH [of "merge_artifact kv d"] Cons.prems c
    by (auto simp: conj_commute intro!: filter_cong)
qed simp

text \<open>What an update writes is the newest, so it is not aged out by its own write.\<close>

lemma written_artifacts_survive:
  assumes "\<forall>kv \<in> set (up_artifacts u). \<exists>v. snd kv = JStr v" "distinct (map (fst \<circ> clamp_artifact) (up_artifacts u))"
    and "length (up_artifacts u) \<le> MAX_ARTIFACTS" "kv \<in> set (up_artifacts u)"
  shows "dict_get (ls_artifacts (apply_update now u s)) (fst (clamp_artifact kv)) = Some (snd (clamp_artifact kv))"
proof -
  let ?new = "map clamp_artifact (up_artifacts u)"
  obtain old where old: "ls_artifacts (apply_update now u s) = old @ ?new" "fst ` set old \<inter> fst ` set ?new = {}"
  proof
    let ?old = "filter (\<lambda>p. fst p \<notin> fst ` clamp_artifact ` set (up_artifacts u)) (ls_artifacts s)"
    let ?i = "length (?old @ ?new) - MAX_ARTIFACTS"
    show "ls_artifacts (apply_update now u s) = drop ?i ?old @ ?new"
      using assms(3,4) fold_merge_artifacts [OF assms(1,2), of "ls_artifacts s"] by (auto simp: apply_update_artifacts newest_def)
    show "fst ` set (drop ?i ?old) \<inter> fst ` set ?new = {}" by (auto dest!: in_set_dropD)
  qed
  have "dict_ok ?new" using assms(2) by (simp add: comp_def)
  then have "dict_get ?new (fst (clamp_artifact kv)) = Some (snd (clamp_artifact kv))"
    using assms(4) by (auto simp: image_iff)
  moreover have "dict_get old (fst (clamp_artifact kv)) = None" using old(2) assms(4) by (auto simp: map_of_eq_None_iff)
  ultimately show ?thesis by (simp add: old(1) map_add_def)
qed

lemma size_join_ge: "(\<Sum>w\<leftarrow>ws. utf8_size w) \<le> utf8_size (join_with sep ws)"
  by (induction sep ws rule: join_with.induct) auto

lemma size_object_ge: "(\<Sum>(k, v)\<leftarrow>d. utf8_size (json_text fl v)) \<le> utf8_size (json_text fl (JObj d))"
proof -
  have "(\<Sum>(k, v)\<leftarrow>d. utf8_size (json_text fl v)) \<le> (\<Sum>w\<leftarrow>map (\<lambda>(k, v). json_string k @ '': '' @ json_text fl v) d. utf8_size w)"
    by (induction d) auto
  then show ?thesis using size_join_ge [of "map (\<lambda>(k, v). json_string k @ '': '' @ json_text fl v) d" "'', ''"] by simp
qed

lemma size_array_ge: "(\<Sum>v\<leftarrow>xs. utf8_size (json_text fl v)) \<le> utf8_size (json_text fl (JArr xs))"
  using size_join_ge [of "map (json_text fl) xs" "'', ''"] by (simp add: comp_def)

lemma tried_size_ge: "(\<Sum>t\<leftarrow>ls_tried s. utf8_size (json_text fl (tried_json t))) \<le> utf8_size (json_text fl (state_json s))"
proof -
  have "(\<Sum>t\<leftarrow>ls_tried s. utf8_size (json_text fl (tried_json t))) \<le> utf8_size (json_text fl (JArr (map tried_json (ls_tried s))))"
    using size_array_ge [of fl "map tried_json (ls_tried s)"] by (simp add: comp_def)
  also have "\<dots> \<le> utf8_size (json_text fl (state_json s))"
    using size_object_ge [of fl] unfolding state_json_def
    by (rule order_trans [rotated]) (simp del: json_text.simps)
  finally show ?thesis .
qed

text \<open>An entry of control characters, each of which is stored as six.\<close>

definition heavy_entry :: tried_entry where
  "heavy_entry = \<lparr>te_approach = replicate 2000 (CHR 0x01), te_rejected_because = replicate 2000 (CHR 0x01), te_at = []\<rparr>"

lemma json_string_heavy: "utf8_size (json_string (replicate n (CHR 0x01))) = 6 * n + 2"
proof -
  have "utf8_size (concat (map json_escape (replicate n (CHR 0x01)))) = 6 * n"
    by (induction n) (simp_all add: json_escape_def hex_char_def)
  then show ?thesis by (simp add: json_string_def)
qed

lemma heavy_size: "24000 \<le> utf8_size (json_text fl (tried_json heavy_entry))"
  using size_object_ge [of fl "[(''approach'', JStr (te_approach heavy_entry)), (''rejected_because'', JStr (te_rejected_because heavy_entry)), (''at'', JStr (te_at heavy_entry))]"]
  by (simp add: tried_json_def json_string_heavy heavy_entry_def del: json_text.simps(7))

text \<open>The events are the first to go: under a full list of long rejected approaches a phase changes and the event that
  was required for it is not in the document.\<close>

lemma phase_can_move_without_its_event:
  assumes "record_update dec fl digest k u w tree = (Inr s, tree')" "dec_dicts dec" "length (lw_now w) \<le> 64"
    and "read_state dec digest tree k = Inr old" "ls_tried old = replicate 50 heavy_entry" "given (up_tried_approach u) = []"
  shows "ls_events s = []"
proof (rule record_succeeds [OF assms(1-3)])
  fix old' assume r: "read_state dec digest tree k = Inr old'" "evicts_to (apply_update (lw_now w) u old') s"
    "utf8_size (json_text fl (state_json s)) \<le> byte_budget"
  have o: "old' = old" using r(1) assms(4) by simp
  show ?thesis
  proof (rule ccontr)
    assume "ls_events s \<noteq> []"
    then have "ls_tried s = replicate 50 heavy_entry"
      using r(2) assms(5,6) by (auto simp: evicts_to_def o apply_update_tried)
    then have "50 * utf8_size (json_text fl (tried_json heavy_entry)) \<le> byte_budget"
      using tried_size_ge [of fl s] r(3) by (simp add: sum_list_replicate)
    then show False using heavy_size [of fl] by (simp add: byte_budget_def MAX_STATE_BYTES_def)
  qed
qed

text \<open>A document whose numbers or nesting the parser refuses is not read as absent: reading raises.\<close>

lemma unreadable_ledger_raises:
  assumes "valid_slot_key k" "lf_state (folder_of tree (store_name digest k)) = Document t" "utf8_size t \<le> MAX_STATE_BYTES"
    and "json_loads dec t \<in> {Nesting_limit, Digit_limit}"
  shows "\<exists>e. read_state dec digest tree k = Inl e \<and> (check_update u = None \<longrightarrow> lw_lock w \<longrightarrow> fst (record_update dec fl digest k u w tree) = Inl e)"
  using assms by (auto simp: read_state_def read_unlocked_def record_update_def Let_def folder_of_set)

lemma snapshot_bounded: "render_snapshot dec digest tree k = Inr b \<Longrightarrow> length b \<le> SNAPSHOT_MAX_CHARS"
  by (auto simp: render_snapshot_def Let_def SNAPSHOT_MAX_CHARS_def split: if_splits sum.splits)

text \<open>C30. A ledger is well formed whatever stands on disk: every record that a read returns from an arbitrary document, and every
  record that an update stores, has a positive schema, fields, entries, events and artifacts within their
  limits in length and number, distinct artifact keys and no unknown field under a known name, and its document means exactly it.\<close>

theorem ledger_is_well_formed:
  assumes "dec_dicts dec" "length (lw_now w) \<le> 64"
    and "Inr s \<in> {read_state dec digest tree k, fst (record_update dec fl digest k u w tree)}"
  shows "ledger_ok s \<and> coerce_state (state_json s) = s"
proof -
  have e: "ledger_ok empty_ledger" using coerce_ok [of JNull] by (simp add: coerce_state_def object_ok_def)
  have "ledger_ok s" if "read_state dec digest tree k = Inr s"
    using that e read_ok [OF assms(1)] by (auto simp: read_state_def split: if_splits)
  moreover have "ledger_ok s" if "record_update dec fl digest k u w tree = (Inr s, snd (record_update dec fl digest k u w tree))"
    using record_succeeds [OF that assms(1,2)] by blast
  ultimately have "ledger_ok s" using assms(3) by (metis insert_iff prod.collapse singletonD)
  then show ?thesis using coerce_state_json by blast
qed

text \<open>C13. The ledger reads back what it stored: whatever the directory held before, an update that returns a
  record leaves a document within the ceiling of the reader, and reading it returns that very record.\<close>

theorem ledger_reads_back:
  assumes "record_update dec fl digest k u w tree = (Inr s, tree')" "dec_dicts dec" "length (lw_now w) \<le> 64"
    and "json_loads dec (json_text fl (state_json s) @ [CHR 0x0A]) = Decoded (state_json s) e"
  shows "read_state dec digest tree' k = Inr s"
proof (rule record_succeeds [OF assms(1-3)])
  assume v: "valid_slot_key k" and ok: "ledger_ok s" and f: "utf8_size (json_text fl (state_json s)) \<le> byte_budget"
    and d: "lf_state (folder_of tree' (store_name digest k)) = Document (json_text fl (state_json s) @ [CHR 0x0A])"
  have "\<not> MAX_STATE_BYTES < utf8_size (json_text fl (state_json s) @ [CHR 0x0A])"
    using f by (simp add: byte_budget_def MAX_STATE_BYTES_def)
  then show ?thesis using v d assms(4) coerce_state_json [OF ok] by (simp add: read_state_valid read_unlocked_def)
qed

text \<open>C28. An accepted update is never refused for its size: if the discipline is kept, the key is valid, the lock free
  and the disk writes, the update is stored, and the current state (goal, phase, next step, artifacts, times) is that of
  the update exactly; only history and unknown fields can be given up.\<close>

theorem accepted_update_is_stored:
  assumes "check_update u = None" "valid_slot_key k" "lw_lock w" "lw_state_written w" "length (lw_now w) \<le> 64" "dec_dicts dec"
    and "read_state dec digest tree k = Inr old"
  shows "\<exists>s. fst (record_update dec fl digest k u w tree) = Inr s \<and> core s = core (apply_update (lw_now w) u old)"
proof -
  have old: "read_unlocked dec (lf_state (folder_of tree (store_name digest k))) = Inr old"
    using assms(2,7) by (simp add: read_state_valid)
  from serialize_fits [OF apply_update_ok [OF read_ok [OF assms(6) old] assms(5)]]
  obtain s where "serialize_bounded fl (apply_update (lw_now w) u old) = Inr (json_text fl (state_json s), s)"
    "evicts_to (apply_update (lw_now w) u old) s" by blast
  then show ?thesis using assms(1-4) old by (auto simp: record_update_def Let_def evicts_to_def)
qed

text \<open>C29. A phase never moves silently: when an update leaves another phase than it found, it named the phase and gave an event
  of a known kind, and that event is the newest of the stored record unless every event had to be given up for
  the size; the finishing time is set in exactly the terminal phases, and an update without a phase keeps both.\<close>

theorem phase_moves_with_its_reason:
  assumes "record_update dec fl digest k u w tree = (Inr s, tree')" "dec_dicts dec" "length (lw_now w) \<le> 64"
    and "read_state dec digest tree k = Inr old"
  shows "case up_phase u of
      None \<Rightarrow> ls_phase s = ls_phase old \<and> ls_finished_at s = ls_finished_at old
    | Some p \<Rightarrow> ls_phase s = take 128 p \<and> ls_finished_at s = (if take 128 p \<in> set TERMINAL_PHASES then lw_now w else []) \<and>
        py_strip (given (up_event_kind u)) \<in> set EVENT_KINDS \<and> py_strip (given (up_event u)) \<noteq> [] \<and>
        (ls_events s = [] \<or> last (ls_events s) = new_event (lw_now w) u)"
proof (rule record_succeeds [OF assms(1-3)])
  fix old' assume c: "check_update u = None" and r: "read_state dec digest tree k = Inr old'"
    and e: "evicts_to (apply_update (lw_now w) u old') s"
  have [simp]: "old' = old" using r assms(4) by simp
  have "ls_phase (core s) = ls_phase (core (apply_update (lw_now w) u old))"
    "ls_finished_at (core s) = ls_finished_at (core (apply_update (lw_now w) u old))" using e by (simp_all add: evicts_to_def)
  then have core: "ls_phase s = ls_phase (apply_update (lw_now w) u old)" "ls_finished_at s = ls_finished_at (apply_update (lw_now w) u old)"
    by (simp_all add: core_def)
  obtain i where i: "ls_events s = drop i (ls_events (apply_update (lw_now w) u old))" using e by (auto simp: evicts_to_def)
  show ?thesis
  proof (cases "up_phase u")
    case (Some p)
    then have b: "\<not> blank_event u" "py_strip (given (up_event_kind u)) \<in> set EVENT_KINDS"
      using c by (auto simp: check_update_def split: if_splits)
    have "ls_events (apply_update (lw_now w) u old) = newest (MAX_EVENTS - 1) (ls_events old) @ [new_event (lw_now w) u]"
      using b(1) by (simp add: apply_update_events newest_snoc MAX_EVENTS_def)
    then have "ls_events s = [] \<or> last (ls_events s) = new_event (lw_now w) u"
      using i last_drop [of i "ls_events (apply_update (lw_now w) u old)"]
      by (cases "i < length (ls_events (apply_update (lw_now w) u old))") simp_all
    then show ?thesis using Some b core apply_update_phase(2) [OF Some] by (simp add: blank_event_def)
  qed (use core apply_update_phase(1) in simp)
qed

subsection \<open>A first update of a new ledger\<close>

definition sample_update :: ledger_update where
  "sample_update = \<lparr>up_goal = Some ''ship'', up_phase = Some ''done'', up_next_step = None, up_tried_approach = None,
     up_tried_rejected_because = None, up_artifacts = [(''pr'', JStr ''17'')], up_event = Some '' merged '', up_event_kind = Some ''progress''\<rparr>"

definition sample_world :: slot_world where
  "sample_world = \<lparr>lw_now = ''2026-01-01T00:00:00+00:00'', lw_lock = True, lw_key_written = True, lw_state_written = True\<rparr>"

definition sample_state :: ledger_state where
  "sample_state = apply_update (lw_now sample_world) sample_update empty_ledger"

definition sample_text :: string where
  "sample_text = json_text (\<lambda>f. ''0.0'') (state_json sample_state)"

definition sample_decoder :: decoder where
  "sample_decoder t i = (if i = 0 \<and> t = sample_text @ [CHR 0x0A] then Decoded (state_json sample_state) (length sample_text) else Syntax_error)"

lemmas sample_defs = sample_update_def sample_world_def

lemma sample_state_eq:
  "sample_state = empty_ledger\<lparr>ls_goal := ''ship'', ls_phase := ''done'', ls_finished_at := ''2026-01-01T00:00:00+00:00'',
     ls_created_at := ''2026-01-01T00:00:00+00:00'', ls_last_progress_at := ''2026-01-01T00:00:00+00:00'', ls_artifacts := [(''pr'', ''17'')],
     ls_events := [\<lparr>le_ts = ''2026-01-01T00:00:00+00:00'', le_kind = ''progress'', le_text = ''merged''\<rparr>]\<rparr>"
  by (simp add: sample_state_def apply_update_def sample_defs empty_ledger_def given_def blank_event_def new_event_def py_strip_def
      py_lstrip_def py_isspace_def EVENT_KINDS_def MAX_TEXT_def TERMINAL_PHASES_def merge_artifact_def SCHEMA_VERSION_def
      MAX_EVENTS_def MAX_ARTIFACTS_def newest_def)

lemma sample_starts: "\<exists>s. sample_text = CHR 0x7B # s"
  by (simp add: sample_text_def state_json_def)

lemma sample_loads: "json_loads sample_decoder (sample_text @ [CHR 0x0A]) = Decoded (state_json sample_state) (length sample_text + 1)"
proof -
  obtain s where "sample_text = CHR 0x7B # s" using sample_starts by blast
  then have "takeWhile json_space (sample_text @ [CHR 0x0A]) = []" unfolding \<open>sample_text = CHR 0x7B # s\<close> by (simp add: json_space_def)
  then show ?thesis by (simp add: json_loads_def sample_decoder_def) (simp add: json_space_def)
qed

lemma sample_dec_dicts: "dec_dicts sample_decoder"
  by (auto simp: dec_dicts_def json_loads_def sample_decoder_def Let_def object_ok_def state_json_def sample_state_eq empty_ledger_def
      split: if_splits)

lemma sample_fits: "utf8_size sample_text \<le> byte_budget"
  by (simp add: sample_text_def state_json_def sample_state_eq empty_ledger_def json_string_def json_escape_def show_int_def show_nat.simps
      SCHEMA_VERSION_def artifacts_json_def event_json_def byte_budget_def MAX_STATE_BYTES_def)

lemma sample_checks: "check_update sample_update = None" "valid_slot_key ''chat-1''" "given (up_event_kind sample_update) = ''progress''"
  by (simp_all add: check_update_def sample_defs given_def blank_event_def EVENT_KINDS_def valid_slot_key_def py_strip_def py_lstrip_def py_isspace_def)

lemma sample_record:
  "\<exists>tree. record_update sample_decoder (\<lambda>f. ''0.0'') (\<lambda>k. ''0123456789abcdef'') ''chat-1'' sample_update sample_world [] = (Inr sample_state, tree)"
proof -
  have "serialize_bounded (\<lambda>f. ''0.0'') sample_state = Inr (sample_text, sample_state)"
    using sample_fits by (subst serialize_bounded.simps) (simp add: sample_text_def)
  then show ?thesis using sample_checks
    by (simp add: record_update_def sample_state_def read_unlocked_def folder_of_def Let_def) (simp add: sample_world_def)
qed

theorem ledger_is_well_formed_witness:
  "ledger_ok sample_state \<and> coerce_state (state_json sample_state) = sample_state"
proof -
  obtain tree where "record_update sample_decoder (\<lambda>f. ''0.0'') (\<lambda>k. ''0123456789abcdef'') ''chat-1'' sample_update sample_world []
      = (Inr sample_state, tree)" using sample_record by blast
  then have "Inr sample_state \<in> {read_state sample_decoder (\<lambda>k. ''0123456789abcdef'') [] ''chat-1'',
      fst (record_update sample_decoder (\<lambda>f. ''0.0'') (\<lambda>k. ''0123456789abcdef'') ''chat-1'' sample_update sample_world [])}" by simp
  moreover have "length (lw_now sample_world) \<le> 64" by (simp add: sample_world_def)
  ultimately show ?thesis by (rule ledger_is_well_formed [OF sample_dec_dicts, rotated])
qed

theorem ledger_reads_back_witness:
  "\<exists>tree. read_state sample_decoder (\<lambda>k. ''0123456789abcdef'') tree ''chat-1'' = Inr sample_state \<and> ls_phase sample_state = ''done''"
proof -
  obtain tree where r: "record_update sample_decoder (\<lambda>f. ''0.0'') (\<lambda>k. ''0123456789abcdef'') ''chat-1'' sample_update sample_world []
      = (Inr sample_state, tree)" using sample_record by blast
  have "length (lw_now sample_world) \<le> 64" by (simp add: sample_world_def)
  from ledger_reads_back [OF r sample_dec_dicts this sample_loads [unfolded sample_text_def]] show ?thesis
    by (auto simp: sample_state_eq)
qed

theorem accepted_update_is_stored_witness:
  "\<exists>s. fst (record_update sample_decoder (\<lambda>f. ''0.0'') (\<lambda>k. ''0123456789abcdef'') ''chat-1'' sample_update sample_world []) = Inr s \<and>
     core s = core sample_state"
proof -
  have "lw_lock sample_world" "lw_state_written sample_world" "length (lw_now sample_world) \<le> 64" by (simp_all add: sample_world_def)
  moreover have "read_state sample_decoder (\<lambda>k. ''0123456789abcdef'') [] ''chat-1'' = Inr empty_ledger"
    by (simp add: read_state_def read_unlocked_def folder_of_def)
  ultimately show ?thesis using accepted_update_is_stored [OF sample_checks(1,2) _ _ _ sample_dec_dicts] by (simp add: sample_state_def)
qed

theorem phase_moves_with_its_reason_witness:
  "ls_phase sample_state = ''done'' \<and> ls_finished_at sample_state = lw_now sample_world \<and>
   (ls_events sample_state = [] \<or> last (ls_events sample_state) = new_event (lw_now sample_world) sample_update)"
proof -
  obtain tree where r: "record_update sample_decoder (\<lambda>f. ''0.0'') (\<lambda>k. ''0123456789abcdef'') ''chat-1'' sample_update sample_world []
      = (Inr sample_state, tree)" using sample_record by blast
  have n: "length (lw_now sample_world) \<le> 64" by (simp add: sample_world_def)
  have "read_state sample_decoder (\<lambda>k. ''0123456789abcdef'') [] ''chat-1'' = Inr empty_ledger"
    by (simp add: read_state_def read_unlocked_def folder_of_def)
  from phase_moves_with_its_reason [OF r sample_dec_dicts n this] show ?thesis
    by (simp add: sample_update_def TERMINAL_PHASES_def)
qed

end
