(* ===== verification/Spec2Isabelle.thy ===== *)
theory Spec2Isabelle imports Circuit_Breaker Irq_Kernel Run_Registry
  Shareability Verdict_Cache Channel_Settings Model_Router Resume_Expectation Worker_Pool
  Text_Approval Widget_Approval Session_Trust Subagent_Events Trust_Patterns Split_Bytes
  Turn_Driver Schema_Check Acquire_Progress Workflow_Runner Session_Ledger begin

text \<open>
  \<^bold>\<open>A verification development for the core of the Junction gateway.\<close>

  Junction (\<^verbatim>\<open>src/src/junction\<close>) is a Python gateway between people and coding agents: chat
  channels and a dashboard on one side, agent processes and MCP servers on the other. What is modelled
  here are the decisions in between, the parts whose mistakes would be silent: which tool may run, which
  server may be shared or spawned, which wake-up, message or result may not be lost, and what a
  restart finds on disk. Each theory is written after one or two modules and names them.

  \<^bold>\<open>Approvals and messages\<close> (\<^verbatim>\<open>messaging/\<close>, \<^verbatim>\<open>trust_patterns.py\<close>, \<^verbatim>\<open>subagent_scale.py\<close>).
  \<open>Turn_Driver\<close> is the loop of one turn (\<^verbatim>\<open>TurnDriver.run\<close>), from the events of the provider to the
  effects on the channel: the text passes the two protocol filters of \<open>Turn_Filters\<close> and then
  \<open>Stream_Redactor\<close>, the rolling buffer of \<^verbatim>\<open>security.py\<close>; the results of tools may carry the
  directives of \<open>Session_Directive\<close>. A permission request reaches \<open>Tool_Approval.permission_request\<close>, its permission branch; when its ladder asks a human, the decider is one of two registries:
  \<open>Text_Approval\<close> for typed replies (\<^verbatim>\<open>PendingApproval\<close>, \<^verbatim>\<open>TextReplyApprovalDecider\<close>),
  \<open>Widget_Approval\<close> for pressed buttons (\<^verbatim>\<open>PendingApprovals\<close>). Both are state machines
  whose events are the atomic segments of the event loop between two awaits, so prompts, answers,
  timeouts, cancellations and teardowns interleave freely; both discharge the locale \<open>consent\<close>, which
  says that whatever is allowed was answered. \<open>Trust_Patterns\<close> is the language of standing grants:
  how a shell line is cut into commands and which patterns cover it; \<open>Session_Trust\<close> is the trust
  of a whole session and the policy its sub-agents inherit. \<open>Resume_Expectation\<close> is
  the versioned store of session bindings. \<open>Markdown_Split\<close> is the splitter every channel shares, with
  its streaming contract in \<open>Split_Streaming\<close>, what its chunks hold in \<open>Split_Slices\<close> and the
  byte budgets in \<open>Split_Bytes\<close>. \<open>Subagent_Events\<close> is the coalescer between sub-agents and dashboard sockets.

  \<^bold>\<open>MCP servers\<close> (\<^verbatim>\<open>mcp_gateway/\<close>). \<open>Circuit_Breaker\<close> stops the spawning of servers that die
  fast. \<open>Hazard_Ledger\<close> records what was observed to break when a server is shared;
  \<open>Shareability\<close> turns that evidence and the server's own declarations into a verdict, and
  \<open>Verdict_Cache\<close> keeps the measurements behind it. \<open>Backend_Pool\<close> is the state of the pool of server
  processes and its operations (identities, reservations, eviction, draining, private processes);
  \<open>Backend_Acquire\<close> is \<^verbatim>\<open>get_or_create\<close> cut at its awaits and interleaved with all of them, with the
  breaker as its gate, and \<open>Acquire_Progress\<close> is about the spawn locks. \<open>Json_Value\<close> holds the values such
  files parse to and the coercion of their numbers.

  \<^bold>\<open>Runs, agents and watches\<close> (\<^verbatim>\<open>workflows/\<close>, \<^verbatim>\<open>acp/worker_pool.py\<close>, \<^verbatim>\<open>irq.py\<close>,
  \<^verbatim>\<open>model_router/\<close>, \<^verbatim>\<open>llm_helpers.py\<close>). \<open>Json_Recovery\<close> finds the JSON value in the reply of a model and \<open>Schema_Check\<close>
  validates it and asks again, a bounded number of times. \<open>Workflow_Runner\<close> is a run of a workflow: the context with its
  count of agent calls and its results to replay, the branches of \<^verbatim>\<open>parallel\<close> and \<^verbatim>\<open>pipeline\<close>, whose calls interleave at
  their awaits, and the life cycle from authoring to the terminal event. It writes the journal
  of \<open>Workflow_Events\<close>, whose arguments and results are the values of \<open>Py_Value\<close> with the form that JSON gives them;
  \<open>Run_Store\<close> and \<open>Run_Registry\<close> are the directory and the registry of background runs.
  \<open>Session_Ledger\<close> (\<^verbatim>\<open>session_ledger.py\<close>) is the record of goal, phase, tried approaches and events that a long session keeps on disk. \<open>Worker_Pool\<close> is the pool of agent processes, an
  \<open>inductive\<close> relation over its awaits. \<open>Irq_Kernel\<close> is the kernel that decides whether a watch wakes
  its agent. \<open>Model_Router\<close> assigns a model to each role.

  \<^bold>\<open>Notifications\<close> (\<^verbatim>\<open>notifications/\<close>). \<open>Notification_Bus\<close> validates what producers push,
  \<open>Channel_Settings\<close> applies the user's settings on the way to the surfaces and limits the rate of apps.

  \<^bold>\<open>How state and operations correspond.\<close> A class is a record of its fields, a method a
  function from the state, its arguments and whatever the world answers (clock, disk, minted nonces)
  to a result and the new state; a raise is a value of an option. A coroutine is cut at its awaits, and what
  may happen in between is an event of its own. A Python dictionary is an association list in
  insertion order. \<open>Junction_Prelude\<close> has this vocabulary, the locale \<open>keyed_store\<close> that dictionaries
  discharge, and the string functions.

  \<^bold>\<open>What the lemmas show.\<close> Each theory first proves an invariant kept by every operation, then the
  behaviour on each branch, then its properties. The contracts between components are locales:
  \<open>spawn_gate\<close> (breaker), \<open>hazard_source\<close> (ledger, read by the verdict), \<open>measurement_cache\<close>
  (verdict cache), \<open>run_mirror\<close> (run store, read by the registry), \<open>delivery_stage\<close> (settings),
  \<open>versioned_register\<close> (resume bindings), \<open>semaphore_account\<close> (worker pool, twice: tasks and
  starts) and \<open>consent\<close> (approvals, twice: typed and pressed). Each is interpreted on the model of the code.
  The refinement \<open>store_is_a_register\<close> gives the resume store a table with compare and swap as its
  specification; \<open>breaker_sliding_window\<close> gives the breaker a sliding window; \<open>split_presents_slices\<close>
  reads the splitter as slices of the text under the grammar of fences alone; \<open>validator_decides_schema\<close>
  gives the validator what a schema means, and \<open>cut_up\<close> says where a stream may be cut into the pieces that
  \<open>stream_is_redacted_in_pieces\<close> finds it redacted in. \<open>turn_shows_the_reply_in_pieces\<close> carries that through the whole turn: a filter has a specification that
  reads the text at once (\<open>strip_markers\<close>, \<open>shown_turn\<close>), each chunk keeps what is still to come, and the end of the
  turn pays it out. The invariant \<open>world_ok\<close> of the pool of backends and \<open>locks_ok\<close> of its spawn locks hold in every state
  that calls, sweeps, deaths and rotations can reach. \<open>run_inv\<close> is the invariant of a running
  script: each agent call is open in one branch or settled once;
  \<open>between\<close> is a script between two calls, which a live call and a replayed one advance alike. \<open>ledger_ok\<close> bounds a ledger
  record so that it always fits its file, and \<open>evicts_to\<close> is all that making it fit may give up. The root theory composes
  the permission ladder with the typed approvals: \<open>approved_tool_was_authorised\<close>.

  \<^bold>\<open>Termination, fuel and bounds.\<close> No definition uses fuel. The loops that are not structural have
  measures: the splitting loop decreases lexicographically in the text left and buffered together, then in
  the text left alone, since a seal may hand fragments back; \<open>glob_match\<close>, \<open>mask_redirects\<close>,
  \<open>split_ops\<close>, \<open>chunk_utf8\<close> and \<open>md_lines\<close> in the length of their texts; \<open>evict_runs\<close> in the number of
  runs; \<open>serialize_bounded\<close> in the history it can give up. The scan of \<open>Json_Recovery\<close> is a \<open>partial_function\<close> that is proved to return. An acquisition has at most eleven
  waits of its own. The patterns of \<open>Stream_Redactor\<close> are matched by derivatives. Integers of the code are unbounded and so are those of the model. Texts are over U+0000 to
  U+00FF as strings, and over all code points where the code counts or cuts them.

  \<^bold>\<open>What modelling showed.\<close> A typed approval is acknowledged while its denial is already being announced
  (\<open>Text_Approval.announced_timeout_receipt\<close>); a cancelled reap leaks a slot of the worker pool
  (\<open>Worker_Pool.leaking_history_runs\<close>); a cancelled write of the resume store can land late
  (\<open>Resume_Expectation.late_write_overwrites\<close>); trust granted twice can escape revocation
  (\<open>Session_Trust.regrant_escapes_revocation\<close>); one run file with an unhashable id stops the loading of
  newer ones (\<open>Run_Registry.load_stops_at_unhashable_id\<close>); the idle sweep can make an acquisition drop a live process
  from the pool (\<open>Acquire_Progress.retiring_can_lose_a_live_process\<close>); a header of a private key can make the streamed
  redaction cut inside a credential (\<open>Stream_Redactor.header_hold_cuts_a_token\<close>), the rest of a dropped token is shown
  (\<open>Stream_Redactor.rest_of_dropped_tail_is_shown\<close>); texts in a tuple are stored unredacted
  (\<open>Run_Store.tuple_is_written_unredacted\<close>); a replayed message can show a steering
  marker that was put together by removing another (\<open>Turn_Filters.replay_can_show_a_marker\<close>); restarting a run that used
  \<^verbatim>\<open>pipeline\<close> can hand one item the result of another (\<open>Workflow_Runner.pipeline_replay_mixes_items\<close>);
  a full ledger can store a phase without the event that was required for it
  (\<open>Session_Ledger.phase_can_move_without_its_event\<close>); a process that exits while it is launched is handed out
  (\<open>Backend_Acquire.dead_child_is_handed_out\<close>); a full table of the breaker forgets the trip of a new key
  (\<open>Circuit_Breaker.full_table_forgets_a_trip\<close>). Smaller differences between comments and
  code are proved in the theories of their modules.

  \<^bold>\<open>Not modelled.\<close> The dashboard, the built-in apps, the vendor adapters of the channels, command
  line, cloud and deployment code are input and output around the parts above. The other security screens
  (\<^verbatim>\<open>security.py\<close>) are tables of regular expressions, and a model would restate the tables. Vector memory computes with
  floating-point numbers. Session history and the stores behind it are SQLite and files; scheduling rests on calendar
  arithmetic and time zones of the library. The script of a workflow, its author and its agents are inputs of
  \<open>Workflow_Runner\<close>, for they are arbitrary programs; the pool of warm sessions behind the agents is left out.
  Timings, log lines and metrics are left out throughout.
\<close>

text \<open>C3. Every tool that runs was authorised. A turn whose session trust and whose decider are the
  typed approvals, whatever was prompted, answered, timed out or torn down before, approves a tool only for
  a trusted sender whose gate did not deny, and only when the gate, the injected predicate or the
  mode approved it, or someone typed trust in that session, or the decider's own request was answered
  with approve or trust in the session it belongs to.\<close>

theorem approved_tool_was_authorised:
  assumes "S = fold text_step es empty_registry" "w \<in> set (waits S)"
    and "pe_auto_session e = Some (trusted se S)"
    and "po_approved (permission_request l e (tw_phase w = Returned True))"
  shows "\<not> deny_all_tools l \<and> pe_gate e \<noteq> Some GateDeny \<and>
    (pe_gate e = Some GateAutoApprove \<or> pe_auto_tool e = Some True \<or>
     approval_mode l = APPROVAL_AUTO \<or> approval_mode l = APPROVAL_TRUST \<or>
     (approval_mode l = APPROVAL_TRUST_READS \<and> pe_is_read e) \<or>
     (\<exists>i. delivered es se TRUST i) \<or>
     (\<exists>i v. tw_phase w = Returned True \<and> tw_object w = Some i \<and> (v = APPROVE \<or> v = TRUST) \<and>
        delivered es (pa_session (objects S ! i)) v i))"
proof -
  from assms(4) have a: "\<not> deny_all_tools l" "pe_gate e \<noteq> Some GateDeny"
    "pe_gate e = Some GateAutoApprove \<or> pe_auto_tool e = Some True \<or> pe_auto_session e = Some True \<or>
     approval_mode l = APPROVAL_AUTO \<or> approval_mode l = APPROVAL_TRUST \<or>
     (approval_mode l = APPROVAL_TRUST_READS \<and> pe_is_read e) \<or>
     (asks_decider l e \<and> tw_phase w = Returned True)"
    using tool_runs_by_authority [of l e "tw_phase w = Returned True"] by blast+
  have t: "\<exists>i. delivered es se TRUST i" if "pe_auto_session e = Some True"
    using that assms(1,3) trusted_delivered [of se es] by simp
  have d: "\<exists>i v. tw_object w = Some i \<and> (v = APPROVE \<or> v = TRUST) \<and> delivered es (pa_session (objects S ! i)) v i"
    if "tw_phase w = Returned True"
    using allowed_delivered that assms(1,2) by blast
  from a t d show ?thesis by blast
qed

definition trusted_history :: "text_event list" where
  "trusted_history = typed_history @ [AskDecider ''s1'' ''2'']"

lemma trusted_history_runs:
  "waits (fold text_step trusted_history empty_registry) =
     [\<lparr>tw_object = Some 0, tw_phase = Returned True\<rparr>, \<lparr>tw_object = None, tw_phase = Returned False\<rparr>]"
  "trusted ''s1'' (fold text_step trusted_history empty_registry)"
  by (simp_all add: trusted_history_def typed_history_runs ask_decider_def claim_approval_def registry_key_def trusted_def)

theorem approved_tool_was_authorised_witness:
  "\<exists>i. delivered trusted_history ''s1'' TRUST i"
  using approved_tool_was_authorised [OF refl, of "\<lparr>tw_object = None, tw_phase = Returned False\<rparr>" trusted_history
      "\<lparr>pe_gate = Some GatePass, pe_auto_tool = None, pe_auto_session = Some True, pe_is_read = False\<rparr>" "''s1''"
      "\<lparr>deny_all_tools = False, approval_mode = APPROVAL_INTERACTIVE, has_decider = True\<rparr>"]
  by (simp add: trusted_history_runs permission_request_def auto_reason_def approval_modes)

end
